(* ===== verification/Nxp_Prelude.thy ===== *)
theory Nxp_Prelude
  imports Main "HOL-Library.Word" "HOL-Library.Monad_Syntax"
begin

text \<open>
  Shared ground of the development: the C integer types as machine words, byte buffers as
  lists of octets, the enumerations of \<^verbatim>\<open>include/nxp/nxp_types.h\<close> and
  \<^verbatim>\<open>include/nxp/nxp_error.h\<close>, the theorem collections of the library, and generic facts
  on lists, options and words that the component theories use.
\<close>

unbundle bit_operations_syntax

type_synonym u8 = "8 word"
type_synonym u16 = "16 word"
type_synonym u32 = "32 word"
type_synonym u64 = "64 word"
type_synonym bytes = "u8 list"

named_theorems codec_simps \<open>evaluation of encoders and decoders on concatenated buffers\<close>
named_theorems codec_bounds \<open>how many bytes a decoder consumes\<close>
named_theorems inv_intros \<open>preservation of component invariants\<close>

section \<open>Enumerations\<close>

datatype nxp_error_code =
    NXP_OK
  | NXP_ERR_INVALID_ARGUMENT
  | NXP_ERR_OUT_OF_MEMORY
  | NXP_ERR_BUFFER_TOO_SMALL
  | NXP_ERR_WOULD_BLOCK
  | NXP_ERR_CONNECTION_CLOSED
  | NXP_ERR_STREAM_CLOSED
  | NXP_ERR_FLOW_CONTROL
  | NXP_ERR_CRYPTO_FAIL
  | NXP_ERR_HANDSHAKE_FAIL
  | NXP_ERR_INVALID_PACKET
  | NXP_ERR_INVALID_FRAME
  | NXP_ERR_IDLE_TIMEOUT
  | NXP_ERR_VERSION_MISMATCH
  | NXP_ERR_INTERNAL
  | NXP_ERR_PLATFORM
  | NXP_ERR_OVERFLOW
  | NXP_ERR_REPLAY_DETECTED
  | NXP_ERR_TOKEN_INVALID
  | NXP_ERR_STREAM_LIMIT
  | NXP_ERR_CONGESTION

datatype nxp_stream_type =
    NXP_STREAM_RELIABLE | NXP_STREAM_FAST | NXP_STREAM_MEDIA | NXP_STREAM_FILE

datatype nxp_conn_state =
    NXP_CONN_IDLE
  | NXP_CONN_HANDSHAKE_INITIAL
  | NXP_CONN_HANDSHAKE_IN_PROGRESS
  | NXP_CONN_ESTABLISHED
  | NXP_CONN_CLOSING
  | NXP_CONN_DRAINING
  | NXP_CONN_CLOSED

datatype nxp_stream_state =
    NXP_STREAM_IDLE
  | NXP_STREAM_OPEN
  | NXP_STREAM_HALF_CLOSED_LOCAL
  | NXP_STREAM_HALF_CLOSED_REMOTE
  | NXP_STREAM_CLOSED
  | NXP_STREAM_RESET

datatype nxp_crypto_level =
    NXP_CRYPTO_INITIAL | NXP_CRYPTO_HANDSHAKE | NXP_CRYPTO_APPLICATION

datatype nxp_packet_type =
    NXP_PKT_INITIAL | NXP_PKT_HANDSHAKE | NXP_PKT_RETRY | NXP_PKT_ZERO_RTT | NXP_PKT_SHORT

text \<open>A connection ID: the C struct holds 20 octets of which the first \<open>len\<close> count; the model
  keeps exactly those.\<close>

record nxp_conn_id =
  cid_data :: bytes

definition NXP_MAX_CID_LEN :: nat where
  "NXP_MAX_CID_LEN = 20"

text \<open>A network address: a union of the structured form and 28 raw octets, kept as the octets.\<close>

record nxp_addr =
  addr_raw :: bytes

definition zero_addr :: nxp_addr where
  "zero_addr = \<lparr>addr_raw = replicate 28 0\<rparr>"

section \<open>Lists and options\<close>

lemma drop_append_plus [codec_simps]: "drop (length xs + n) (xs @ ys) = drop n ys"
  by simp

lemma bind_Some_iff: "(x \<bind> f = Some y) = (\<exists>a. x = Some a \<and> f a = Some y)"
  by (cases x) auto

lemma if_None_Some_iff [simp]:
  "((if b then None else x) = Some y) = (\<not> b \<and> x = Some y)"
  "((if b then x else None) = Some y) = (b \<and> x = Some y)"
  by auto

section \<open>Self-delimiting codecs\<close>

text \<open>
  The contract between the integer codec and the wire formats built on it: what is encoded is
  decoded again whatever follows it, and a successful decode consumes at least one byte and
  only looks at the bytes it consumes.
\<close>

locale prefix_codec =
  fixes enc :: "'a \<Rightarrow> bytes" and dec :: "bytes \<Rightarrow> (nat \<times> 'a) option" and ok :: "'a \<Rightarrow> bool"
  assumes dec_enc: "ok v \<Longrightarrow> dec (enc v @ rest) = Some (length (enc v), v)"
    and dec_ok: "dec bs = Some (n, v) \<Longrightarrow> ok v"
    and dec_consumes: "dec bs = Some (n, v) \<Longrightarrow> 0 < n \<and> n \<le> length bs"
    and dec_local: "dec bs = Some (n, v) \<Longrightarrow> dec (take n bs @ rest) = Some (n, v)"
begin

lemma enc_nonempty: "ok v \<Longrightarrow> enc v \<noteq> []"
  using dec_enc [of v "[]"] dec_consumes [of "enc v @ []" "length (enc v)" v] by auto

lemma enc_prefix_unique:
  assumes "ok a" "ok b" "enc a @ r = enc b @ s"
  shows "a = b \<and> r = s"
  using dec_enc [OF assms(1), of r] dec_enc [OF assms(2), of s] assms(3) by auto

lemma enc_seq_unique:
  assumes "list_all ok xs" "list_all ok ys" "concat (map enc xs) = concat (map enc ys)"
  shows "xs = ys"
  using assms
proof (induction xs arbitrary: ys)
  case Nil
  then show ?case using enc_nonempty by (cases ys) auto
next
  case (Cons x xs)
  then obtain y ys' where "ys = y # ys'" using enc_nonempty by (cases ys) auto
  moreover from this Cons.prems have "x = y \<and> concat (map enc xs) = concat (map enc ys')"
    by (intro enc_prefix_unique) simp_all
  ultimately show ?case using Cons.IH [of ys'] Cons.prems by simp
qed

lemma dec_at:
  assumes "ok v" "drop pos buf = enc v @ rest"
  shows "dec (drop pos buf) = Some (length (enc v), v)"
    and "drop (pos + length (enc v)) buf = rest"
  using assms dec_enc [of v rest] drop_drop [of "length (enc v)" pos buf]
  by (simp_all add: add.commute)

end

section \<open>Words\<close>

lemma u64_bit_bound:
  fixes v :: u64
  assumes "v < 2 ^ k" "bit v n"
  shows "n < k"
  using assms by (metis bit_take_bit_iff less_mask_eq take_bit_eq_mask)

lemma unsigned_2p_u64: "k < 64 \<Longrightarrow> unat (2 ^ k :: u64) = 2 ^ k"
  using unat_of_nat [where 'a = 64, of "2 ^ k"] power_strict_increasing [of k 64 "2 :: nat"]
  by simp

lemma u64_less_pow2I:
  fixes v :: u64
  assumes "k < 64" "\<And>n. k \<le> n \<Longrightarrow> n < 64 \<Longrightarrow> \<not> bit v n"
  shows "v < 2 ^ k"
proof -
  have "take_bit k v = v"
  proof (rule bit_word_eqI)
    fix n assume "n < LENGTH(64)"
    then show "bit (take_bit k v) n = bit v n"
      using assms(2) [of n] by (cases "n < k") (simp_all add: bit_take_bit_iff)
  qed
  then have "unat v = take_bit k (unat v)"
    by (metis unsigned_take_bit_eq)
  then have "unat v < 2 ^ k"
    by (metis take_bit_nat_less_exp)
  then show ?thesis
    using assms(1) by (simp add: word_less_nat_alt unsigned_2p_u64)
qed

lemma unat_less_2p64 [simp]: "unat (x :: u64) < 18446744073709551616"
  using unsigned_less [of x] by simp

lemma unat_less_2p32 [simp]: "unat (x :: u32) < 4294967296"
  using unsigned_less [of x] by simp

lemma unat_less_2p8 [simp]: "unat (x :: u8) < 256"
  using unsigned_less [of x] by simp

lemma unat_and_mask: "unat (x AND mask k :: 'a::len word) = unat x mod 2 ^ k"
  unfolding take_bit_eq_mask [symmetric] unsigned_take_bit_eq by (rule take_bit_eq_mod)

lemma unat_add_nowrap:
  "unat (x :: u64) + unat y < 2 ^ 64 \<Longrightarrow> unat (x + y) = unat x + unat y"
  by (simp add: unat_word_ariths)

lemma unat_add_le: "unat (a :: u64) + unat b \<le> unat (c :: u64) \<Longrightarrow> unat (a + b) = unat a + unat b"
  by (rule unat_add_nowrap) (use le_less_trans [OF _ unat_less_2p64 [of c]] in simp)

lemma unat_ucast_32_64 [simp]: "unat (ucast (x :: u32) :: u64) = unat x"
  by (simp add: unsigned_ucast_eq take_bit_nat_eq_self less_trans [OF unat_less_2p32])

lemma unat_sub_le:
  "y \<le> x \<Longrightarrow> unat (x - y :: 'a::len word) = unat x - unat y"
  by (simp add: unat_sub)

lemma unat_of_nat_u64 [simp]:
  "n < 18446744073709551616 \<Longrightarrow> unat (of_nat n :: u64) = n"
  by (simp add: unat_of_nat take_bit_nat_eq_self)

section \<open>Smearing the highest bit\<close>

text \<open>After the shift by \<open>D\<close>, bit \<open>i\<close> is set iff one of the \<open>2 * D\<close> bits from \<open>i\<close> on was.\<close>

lemma smear_step:
  fixes a m :: "'a::len word"
  assumes "\<And>i. bit a i \<longleftrightarrow> (\<exists>d<D. bit m (i + d))" "D' = 2 * D"
  shows "bit (a OR drop_bit D a) i \<longleftrightarrow> (\<exists>d<D'. bit m (i + d))"
proof -
  have "(\<exists>d<D'. bit m (i + d)) \<longleftrightarrow> (\<exists>d<D. bit m (i + d)) \<or> (\<exists>d<D. bit m (D + i + d))"
    (is "?l = ?r")
  proof
    assume ?l
    then obtain d where d: "d < D'" "bit m (i + d)" by blast
    show ?r
    proof (cases "d < D")
      case False
      then have "d - D < D" "bit m (D + i + (d - D))" using d assms(2) by (auto simp: add.commute)
      then show ?thesis by blast
    qed (use d in blast)
  next
    assume ?r
    then show ?l
    proof (elim disjE exE conjE)
      fix d assume "d < D" "bit m (i + d)"
      then have "d < D'" "bit m (i + d)" using assms(2) by auto
      then show ?l by blast
    next
      fix d assume "d < D" "bit m (D + i + d)"
      then have "D + d < D'" "bit m (i + (D + d))" using assms(2) by (auto simp: ac_simps)
      then show ?l by blast
    qed
  qed
  then show ?thesis using assms(1) by (simp add: bit_simps)
qed

lemma smear_mask:
  fixes a m :: "'a::len word"
  assumes sm: "\<And>i. bit a i \<longleftrightarrow> (\<exists>d<LENGTH('a). bit m (i + d))" and "m \<noteq> 0"
  shows "\<exists>t<LENGTH('a). a = mask (Suc t) \<and> bit m t \<and> (\<forall>j. bit m j \<longrightarrow> j \<le> t)"
proof -
  have fin: "finite {j. bit m j}" by (simp add: finite_bit_word)
  moreover have "{j. bit m j} \<noteq> {}" using assms(2) by (auto simp: bit_eq_iff)
  ultimately have t: "bit m (Max {j. bit m j})" "\<And>j. bit m j \<Longrightarrow> j \<le> Max {j. bit m j}"
    using Max_in [of "{j. bit m j}"] by auto
  define t where "t = Max {j. bit m j}"
  have "t < LENGTH('a)" using t(1) bit_imp_le_length unfolding t_def by blast
  moreover have "a = mask (Suc t)"
  proof (rule bit_word_eqI)
    fix i assume i: "i < LENGTH('a)"
    have "(\<exists>d<LENGTH('a). bit m (i + d)) \<longleftrightarrow> i \<le> t"
    proof
      assume "i \<le> t"
      then have "t - i < LENGTH('a)" "bit m (i + (t - i))" using t(1) \<open>t < LENGTH('a)\<close> unfolding t_def by auto
      then show "\<exists>d<LENGTH('a). bit m (i + d)" by blast
    qed (metis add_leD1 t(2) t_def)
    then show "bit a i = bit (mask (Suc t) :: 'a word) i" using sm i by (simp add: bit_mask_iff less_Suc_eq_le)
  qed
  ultimately show ?thesis using t unfolding t_def by blast
qed

end
