(* ===== verification/Nxp_Varint.thy ===== *)
theory Nxp_Varint
  imports Nxp_Prelude
begin

text \<open>
  Variable-length integers (\<^verbatim>\<open>util/varint.h\<close>, \<^verbatim>\<open>util/varint.c\<close>) and the checked 64-bit
  arithmetic of \<^verbatim>\<open>util/checked_int.h\<close>.  An encoder that returns 0 is \<^term>\<open>None\<close>; one that
  returns \<open>n\<close> is \<open>Some\<close> of the \<open>n\<close> bytes it stored at the start of the buffer, whose length is
  an argument.  A decoder takes the bytes of the buffer and returns the count it consumed and
  the value.
\<close>

section \<open>Definitions\<close>

definition NXP_VARINT_MAX :: u64 where
  "NXP_VARINT_MAX = 4611686018427387903"

definition nxp_varint_len :: "u64 \<Rightarrow> nat" where
  "nxp_varint_len value =
     (if value \<le> 63 then 1
      else if value \<le> 16383 then 2
      else if value \<le> 1073741823 then 4
      else if value \<le> NXP_VARINT_MAX then 8
      else 0)"

definition nxp_varint_encode :: "u64 \<Rightarrow> nat \<Rightarrow> bytes option" where
  "nxp_varint_encode value buf_len =
     (if value \<le> 63 then
        (if buf_len < 1 then None else Some [ucast value])
      else if value \<le> 16383 then
        (if buf_len < 2 then None else
         Some [ucast (0x40 OR drop_bit 8 value), ucast (value AND 0xFF)])
      else if value \<le> 1073741823 then
        (if buf_len < 4 then None else
         Some [ucast (0x80 OR drop_bit 24 value), ucast (drop_bit 16 value AND 0xFF),
               ucast (drop_bit 8 value AND 0xFF), ucast (value AND 0xFF)])
      else if value \<le> NXP_VARINT_MAX then
        (if buf_len < 8 then None else
         Some [ucast (0xC0 OR drop_bit 56 value), ucast (drop_bit 48 value AND 0xFF),
               ucast (drop_bit 40 value AND 0xFF), ucast (drop_bit 32 value AND 0xFF),
               ucast (drop_bit 24 value AND 0xFF), ucast (drop_bit 16 value AND 0xFF),
               ucast (drop_bit 8 value AND 0xFF), ucast (value AND 0xFF)])
      else None)"

definition nxp_varint_decode :: "bytes \<Rightarrow> (nat \<times> u64) option" where
  "nxp_varint_decode buf =
     (if length buf = 0 then None else
      let prefix = drop_bit 6 (buf ! 0) in
      if prefix = 0 then Some (1, ucast (buf ! 0 AND 0x3F))
      else if prefix = 1 then
        (if length buf < 2 then None else
         Some (2, push_bit 8 (ucast (buf ! 0 AND 0x3F)) OR ucast (buf ! 1)))
      else if prefix = 2 then
        (if length buf < 4 then None else
         Some (4, push_bit 24 (ucast (buf ! 0 AND 0x3F)) OR push_bit 16 (ucast (buf ! 1)) OR
                  push_bit 8 (ucast (buf ! 2)) OR ucast (buf ! 3)))
      else if prefix = 3 then
        (if length buf < 8 then None else
         Some (8, push_bit 56 (ucast (buf ! 0 AND 0x3F)) OR push_bit 48 (ucast (buf ! 1)) OR
                  push_bit 40 (ucast (buf ! 2)) OR push_bit 32 (ucast (buf ! 3)) OR
                  push_bit 24 (ucast (buf ! 4)) OR push_bit 16 (ucast (buf ! 5)) OR
                  push_bit 8 (ucast (buf ! 6)) OR ucast (buf ! 7)))
      else None)"

text \<open>The bytes of a varint, when the buffer is large enough (the longest form has 8).\<close>

definition varint_bytes :: "u64 \<Rightarrow> bytes" where
  "varint_bytes value = (case nxp_varint_encode value 8 of None \<Rightarrow> [] | Some bs \<Rightarrow> bs)"

definition nxp_checked_add_u64 :: "u64 \<Rightarrow> u64 \<Rightarrow> bool \<times> u64" where
  "nxp_checked_add_u64 a b = (let result = a + b in (result < a, result))"

definition nxp_checked_sub_u64 :: "u64 \<Rightarrow> u64 \<Rightarrow> bool \<times> u64" where
  "nxp_checked_sub_u64 a b = (let result = a - b in (a < b, result))"

definition nxp_checked_mul_u64 :: "u64 \<Rightarrow> u64 \<Rightarrow> bool \<times> u64" where
  "nxp_checked_mul_u64 a b =
     (let result = a * b in
      if a = 0 then (False, result) else (result div a \<noteq> b, result))"

section \<open>Bit-level facts\<close>

lemma varint_le_less:
  fixes v :: u64
  shows "v \<le> 63 \<Longrightarrow> v < 2 ^ 6" "v \<le> 16383 \<Longrightarrow> v < 2 ^ 14"
    "v \<le> 1073741823 \<Longrightarrow> v < 2 ^ 30" "v \<le> 4611686018427387903 \<Longrightarrow> v < 2 ^ 62"
  by (simp_all add: word_less_nat_alt word_le_nat_alt)

lemma varint_le_trans:
  fixes v :: u64
  shows "v \<le> 63 \<Longrightarrow> v \<le> 16383" "v \<le> 16383 \<Longrightarrow> v \<le> 1073741823"
    "v \<le> 1073741823 \<Longrightarrow> v \<le> 4611686018427387903"
  by (simp_all add: word_le_nat_alt)

lemma varint1_bits:
  fixes v :: u64
  assumes "v \<le> 63"
  shows "ucast ((ucast v :: u8) AND 0x3F) = v" (is "?l = v")
proof (rule bit_word_eqI)
  fix n assume "n < LENGTH(64)"
  then have "n \<in> {0..<64}" by simp
  moreover have "6 \<le> n \<Longrightarrow> \<not> bit v n"
    using u64_bit_bound [OF varint_le_less(1) [OF assms], of n] by auto
  ultimately show "bit ?l n = bit v n"
    by (simp add: atLeastLessThan_nat_numeral) (elim disjE; simp add: bit_simps)
qed

lemma varint2_bits:
  fixes v :: u64
  assumes "v \<le> 16383"
  shows "push_bit 8 (ucast ((ucast (0x40 OR drop_bit 8 v) :: u8) AND 0x3F)) OR
         ucast (ucast (v AND 0xFF) :: u8) = v" (is "?l = v")
proof (rule bit_word_eqI)
  fix n assume "n < LENGTH(64)"
  then have "n \<in> {0..<64}" by simp
  moreover have "14 \<le> n \<Longrightarrow> \<not> bit v n"
    using u64_bit_bound [OF varint_le_less(2) [OF assms], of n] by auto
  ultimately show "bit ?l n = bit v n"
    by (simp add: atLeastLessThan_nat_numeral) (elim disjE; simp add: bit_simps)
qed

lemma varint4_bits:
  fixes v :: u64
  assumes "v \<le> 1073741823"
  shows "push_bit 24 (ucast ((ucast (0x80 OR drop_bit 24 v) :: u8) AND 0x3F)) OR
         push_bit 16 (ucast (ucast (drop_bit 16 v AND 0xFF) :: u8)) OR
         push_bit 8 (ucast (ucast (drop_bit 8 v AND 0xFF) :: u8)) OR
         ucast (ucast (v AND 0xFF) :: u8) = v" (is "?l = v")
proof (rule bit_word_eqI)
  fix n assume "n < LENGTH(64)"
  then have "n \<in> {0..<64}" by simp
  moreover have "30 \<le> n \<Longrightarrow> \<not> bit v n"
    using u64_bit_bound [OF varint_le_less(3) [OF assms], of n] by auto
  ultimately show "bit ?l n = bit v n"
    by (simp add: atLeastLessThan_nat_numeral) (elim disjE; simp add: bit_simps)
qed

lemma varint8_bits:
  fixes v :: u64
  assumes "v \<le> 4611686018427387903"
  shows "push_bit 56 (ucast ((ucast (0xC0 OR drop_bit 56 v) :: u8) AND 0x3F)) OR
         push_bit 48 (ucast (ucast (drop_bit 48 v AND 0xFF) :: u8)) OR
         push_bit 40 (ucast (ucast (drop_bit 40 v AND 0xFF) :: u8)) OR
         push_bit 32 (ucast (ucast (drop_bit 32 v AND 0xFF) :: u8)) OR
         push_bit 24 (ucast (ucast (drop_bit 24 v AND 0xFF) :: u8)) OR
         push_bit 16 (ucast (ucast (drop_bit 16 v AND 0xFF) :: u8)) OR
         push_bit 8 (ucast (ucast (drop_bit 8 v AND 0xFF) :: u8)) OR
         ucast (ucast (v AND 0xFF) :: u8) = v" (is "?l = v")
proof (rule bit_word_eqI)
  fix n assume "n < LENGTH(64)"
  then have "n \<in> {0..<64}" by simp
  moreover have "62 \<le> n \<Longrightarrow> \<not> bit v n"
    using u64_bit_bound [OF varint_le_less(4) [OF assms], of n] by auto
  ultimately show "bit ?l n = bit v n"
    by (simp add: atLeastLessThan_nat_numeral) (elim disjE; simp add: bit_simps)
qed

lemma varint_prefix1:
  fixes v :: u64
  assumes "v \<le> 63"
  shows "drop_bit 6 (ucast v :: u8) = 0"
proof (rule bit_word_eqI)
  fix n assume "n < LENGTH(8)"
  then have "n \<in> {0..<8}" by simp
  moreover have "\<And>m. 6 \<le> m \<Longrightarrow> \<not> bit v m"
    using u64_bit_bound [OF varint_le_less(1) [OF assms]] by (meson not_le)
  ultimately show "bit (drop_bit 6 (ucast v :: u8)) n = bit (0 :: u8) n"
    by (simp add: atLeastLessThan_nat_numeral) (elim disjE; simp add: bit_simps)
qed

lemma varint_prefix2:
  fixes v :: u64
  assumes "v \<le> 16383"
  shows "drop_bit 6 (ucast (0x40 OR drop_bit 8 v) :: u8) = 1"
proof (rule bit_word_eqI)
  fix n assume "n < LENGTH(8)"
  then have "n \<in> {0..<8}" by simp
  moreover have "\<And>m. 14 \<le> m \<Longrightarrow> \<not> bit v m"
    using u64_bit_bound [OF varint_le_less(2) [OF assms]] by (meson not_le)
  ultimately show "bit (drop_bit 6 (ucast (0x40 OR drop_bit 8 v) :: u8)) n = bit (1 :: u8) n"
    by (simp add: atLeastLessThan_nat_numeral) (elim disjE; simp add: bit_simps)
qed

lemma varint_prefix4:
  fixes v :: u64
  assumes "v \<le> 1073741823"
  shows "drop_bit 6 (ucast (0x80 OR drop_bit 24 v) :: u8) = 2"
proof (rule bit_word_eqI)
  fix n assume "n < LENGTH(8)"
  then have "n \<in> {0..<8}" by simp
  moreover have "\<And>m. 30 \<le> m \<Longrightarrow> \<not> bit v m"
    using u64_bit_bound [OF varint_le_less(3) [OF assms]] by (meson not_le)
  ultimately show "bit (drop_bit 6 (ucast (0x80 OR drop_bit 24 v) :: u8)) n = bit (2 :: u8) n"
    by (simp add: atLeastLessThan_nat_numeral) (elim disjE; simp add: bit_simps)
qed

lemma varint_prefix8:
  fixes v :: u64
  assumes "v \<le> 4611686018427387903"
  shows "drop_bit 6 (ucast (0xC0 OR drop_bit 56 v) :: u8) = 3"
proof (rule bit_word_eqI)
  fix n assume "n < LENGTH(8)"
  then have "n \<in> {0..<8}" by simp
  moreover have "\<And>m. 62 \<le> m \<Longrightarrow> \<not> bit v m"
    using u64_bit_bound [OF varint_le_less(4) [OF assms]] by (meson not_le)
  ultimately show "bit (drop_bit 6 (ucast (0xC0 OR drop_bit 56 v) :: u8)) n = bit (3 :: u8) n"
    by (simp add: atLeastLessThan_nat_numeral) (elim disjE; simp add: bit_simps)
qed

lemmas varint_bits =
  varint1_bits varint2_bits varint4_bits varint8_bits
  varint_prefix1 varint_prefix2 varint_prefix4 varint_prefix8

section \<open>Encoder and decoder\<close>

lemma varint_encode_eq:
  "nxp_varint_encode v n =
     (if v \<le> NXP_VARINT_MAX \<and> nxp_varint_len v \<le> n then Some (varint_bytes v) else None)"
  using varint_le_trans [of v]
  by (auto simp: nxp_varint_encode_def varint_bytes_def nxp_varint_len_def NXP_VARINT_MAX_def)

lemma length_varint_bytes: "length (varint_bytes v) = nxp_varint_len v"
  by (simp add: nxp_varint_encode_def varint_bytes_def nxp_varint_len_def)

lemma varint_len_pos: "v \<le> NXP_VARINT_MAX \<Longrightarrow> 0 < nxp_varint_len v"
  by (simp add: nxp_varint_len_def)

lemma varint_len_le: "nxp_varint_len v \<le> 8"
  by (simp add: nxp_varint_len_def)

lemma varint_decode_bytes:
  assumes "v \<le> NXP_VARINT_MAX"
  shows "nxp_varint_decode (varint_bytes v @ rest) = Some (nxp_varint_len v, v)"
proof -
  have m: "v \<le> 4611686018427387903" using assms by (simp add: NXP_VARINT_MAX_def)
  note defs = varint_bytes_def nxp_varint_encode_def nxp_varint_len_def NXP_VARINT_MAX_def
  consider "v \<le> 63" | "\<not> v \<le> 63" "v \<le> 16383" | "\<not> v \<le> 63" "\<not> v \<le> 16383" "v \<le> 1073741823"
    | "\<not> v \<le> 63" "\<not> v \<le> 16383" "\<not> v \<le> 1073741823" by blast
  then show ?thesis
  proof cases
    case 1
    then show ?thesis using varint1_bits [of v] varint_prefix1 [of v]
      by (simp add: defs nxp_varint_decode_def)
  next
    case 2
    then show ?thesis using varint2_bits [of v] varint_prefix2 [of v]
      by (simp add: defs nxp_varint_decode_def)
  next
    case 3
    then show ?thesis using varint4_bits [of v] varint_prefix4 [of v]
      by (simp add: defs nxp_varint_decode_def)
  next
    case 4
    then show ?thesis using m varint8_bits [OF m] varint_prefix8 [OF m]
      by (simp add: defs nxp_varint_decode_def)
  qed
qed

lemma and_0x3F: "a AND 0x3F = (take_bit 6 a :: u8)"
  by (simp add: take_bit_eq_mask mask_eq_exp_minus_1)

lemma pow2_less_le:
  fixes v :: u64
  shows "v < 2 ^ 6 \<Longrightarrow> v \<le> 63" "v < 2 ^ 14 \<Longrightarrow> v \<le> 16383"
    "v < 2 ^ 30 \<Longrightarrow> v \<le> 1073741823" "v < 2 ^ 62 \<Longrightarrow> v \<le> 4611686018427387903"
  by (simp_all add: word_less_nat_alt word_le_nat_alt)

lemma u8_bit_less: "bit (b :: u8) m \<Longrightarrow> m < 8"
  using bit_imp_le_length [of b m] by simp

lemma varint_decode1_le: "(ucast ((a :: u8) AND 0x3F) :: u64) \<le> 63"
  by (rule pow2_less_le, rule u64_less_pow2I; auto simp: bit_simps and_0x3F dest!: u8_bit_less)

lemma varint_decode2_le:
  "push_bit 8 (ucast ((a :: u8) AND 0x3F)) OR ucast (b :: u8) \<le> (16383 :: u64)"
  by (rule pow2_less_le, rule u64_less_pow2I; auto simp: bit_simps and_0x3F dest!: u8_bit_less)

lemma varint_decode4_le:
  "push_bit 24 (ucast ((a :: u8) AND 0x3F)) OR push_bit 16 (ucast (b :: u8)) OR
   push_bit 8 (ucast (c :: u8)) OR ucast (d :: u8) \<le> (1073741823 :: u64)"
  by (rule pow2_less_le, rule u64_less_pow2I; auto simp: bit_simps and_0x3F dest!: u8_bit_less)

lemma varint_decode8_le:
  "push_bit 56 (ucast ((a :: u8) AND 0x3F)) OR push_bit 48 (ucast (b :: u8)) OR
   push_bit 40 (ucast (c :: u8)) OR push_bit 32 (ucast (d :: u8)) OR
   push_bit 24 (ucast (e :: u8)) OR push_bit 16 (ucast (f :: u8)) OR
   push_bit 8 (ucast (g :: u8)) OR ucast (h :: u8) \<le> (4611686018427387903 :: u64)"
  by (rule pow2_less_le, rule u64_less_pow2I; auto simp: bit_simps and_0x3F dest!: u8_bit_less)

lemmas varint_decode_le = varint_decode1_le varint_decode2_le varint_decode4_le varint_decode8_le

lemma varint_decode_elim:
  assumes "nxp_varint_decode buf = Some (n, v)"
  obtains
    "n = 1" "1 \<le> length buf" "drop_bit 6 (buf ! 0) = 0" "v = ucast (buf ! 0 AND 0x3F)"
  | "n = 2" "2 \<le> length buf" "drop_bit 6 (buf ! 0) = 1"
    "v = push_bit 8 (ucast (buf ! 0 AND 0x3F)) OR ucast (buf ! 1)"
  | "n = 4" "4 \<le> length buf" "drop_bit 6 (buf ! 0) = 2"
    "v = push_bit 24 (ucast (buf ! 0 AND 0x3F)) OR push_bit 16 (ucast (buf ! 1)) OR
         push_bit 8 (ucast (buf ! 2)) OR ucast (buf ! 3)"
  | "n = 8" "8 \<le> length buf" "drop_bit 6 (buf ! 0) = 3"
    "v = push_bit 56 (ucast (buf ! 0 AND 0x3F)) OR push_bit 48 (ucast (buf ! 1)) OR
         push_bit 40 (ucast (buf ! 2)) OR push_bit 32 (ucast (buf ! 3)) OR
         push_bit 24 (ucast (buf ! 4)) OR push_bit 16 (ucast (buf ! 5)) OR
         push_bit 8 (ucast (buf ! 6)) OR ucast (buf ! 7)"
proof -
  have ne: "1 \<le> length buf" using assms by (cases buf) (auto simp: nxp_varint_decode_def)
  consider "drop_bit 6 (buf ! 0) = 0" | "drop_bit 6 (buf ! 0) = 1" | "drop_bit 6 (buf ! 0) = 2"
    | "drop_bit 6 (buf ! 0) = 3" | "drop_bit 6 (buf ! 0) \<notin> {0, 1, 2, 3}" by blast
  then show thesis
  proof cases
    case 1 then show ?thesis using assms ne that(1) by (simp add: nxp_varint_decode_def)
  next
    case 2 then show ?thesis using assms ne that(2)
      by (simp add: nxp_varint_decode_def split: if_split_asm)
  next
    case 3 then show ?thesis using assms ne that(3)
      by (simp add: nxp_varint_decode_def split: if_split_asm)
  next
    case 4 then show ?thesis using assms ne that(4)
      by (simp add: nxp_varint_decode_def split: if_split_asm)
  next
    case 5 then show ?thesis using assms by (simp add: nxp_varint_decode_def split: if_split_asm)
  qed
qed

lemma varint_decode_forms:
  assumes "nxp_varint_decode buf = Some (n, v)"
  shows "n \<le> length buf \<and>
    (n = 1 \<and> v \<le> 63 \<or> n = 2 \<and> v \<le> 16383 \<or> n = 4 \<and> v \<le> 1073741823 \<or>
     n = 8 \<and> v \<le> 4611686018427387903)"
  using assms
proof (rule varint_decode_elim, goal_cases)
  case 1 then show ?case using varint_decode1_le [of "buf ! 0"] by simp
next
  case 2 then show ?case using varint_decode2_le [of "buf ! 0" "buf ! 1"] by simp
next
  case 3
  then show ?case using varint_decode4_le [of "buf ! 0" "buf ! 1" "buf ! 2" "buf ! 3"] by blast
next
  case 4
  then show ?case
    using varint_decode8_le [of "buf ! 0" "buf ! 1" "buf ! 2" "buf ! 3" "buf ! 4" "buf ! 5" "buf ! 6"
        "buf ! 7"] by blast
qed

lemma varint_decode_cases:
  assumes "nxp_varint_decode buf = Some (n, v)"
  shows "n \<in> {1, 2, 4, 8} \<and> n \<le> length buf \<and> v \<le> NXP_VARINT_MAX \<and> nxp_varint_len v \<le> n"
  using varint_decode_forms [OF assms]
proof (elim conjE disjE, goal_cases)
  case 1 then show ?case using varint_le_trans [of v] by (simp add: NXP_VARINT_MAX_def nxp_varint_len_def)
next
  case 2 then show ?case using varint_le_trans [of v] by (simp add: NXP_VARINT_MAX_def nxp_varint_len_def)
next
  case 3 then show ?case using varint_le_trans [of v] by (simp add: NXP_VARINT_MAX_def nxp_varint_len_def)
next
  case 4 then show ?case by (simp add: NXP_VARINT_MAX_def nxp_varint_len_def)
qed

lemma varint_decode_local:
  assumes "nxp_varint_decode buf = Some (n, v)"
  shows "nxp_varint_decode (take n buf @ rest) = Some (n, v)"
  using assms
proof (rule varint_decode_elim, goal_cases)
  case 1 then show ?case by (simp add: nxp_varint_decode_def nth_append)
next
  case 2 then show ?case by (simp add: nxp_varint_decode_def nth_append)
next
  case 3 then show ?case by (simp add: nxp_varint_decode_def nth_append)
next
  case 4 then show ?case by (simp add: nxp_varint_decode_def nth_append)
qed

interpretation varint: prefix_codec varint_bytes nxp_varint_decode "\<lambda>v. v \<le> NXP_VARINT_MAX"
proof
  show "v \<le> NXP_VARINT_MAX \<Longrightarrow>
      nxp_varint_decode (varint_bytes v @ rest) = Some (length (varint_bytes v), v)" for v rest
    by (simp add: varint_decode_bytes length_varint_bytes)
next
  fix bs rest n and v :: u64
  assume dec: "nxp_varint_decode bs = Some (n, v)"
  note c = varint_decode_cases [OF dec]
  show "v \<le> NXP_VARINT_MAX" using c by simp
  show "0 < n \<and> n \<le> length bs" using c by auto
  show "nxp_varint_decode (take n bs @ rest) = Some (n, v)" using dec by (rule varint_decode_local)
qed

section \<open>Properties\<close>

text \<open>What \<^const>\<open>nxp_varint_encode\<close> stores in a buffer, \<^const>\<open>nxp_varint_decode\<close>
  reads back: whatever bytes follow, it returns the value that was encoded and consumes exactly
  the bytes that were written.\<close>

theorem nxp_varint_roundtrip:
  "nxp_varint_encode value buf_len = Some bs \<Longrightarrow>
   nxp_varint_decode (bs @ rest) = Some (length bs, value)"
  by (auto simp: varint_encode_eq varint_decode_bytes length_varint_bytes)

theorem nxp_varint_roundtrip_witness:
  "nxp_varint_encode 15293 4 = Some [0x7b, 0xbd] \<and>
   nxp_varint_decode ([0x7b, 0xbd] @ [1, 2, 3]) = Some (2, 15293)"
proof -
  have enc: "nxp_varint_encode 15293 4 = Some [0x7b, 0xbd]" by code_simp
  then show ?thesis using nxp_varint_roundtrip [OF enc, of "[1, 2, 3]"] by simp
qed

end
