(* ===== verification/Nxp_Frame.thy ===== *)
theory Nxp_Frame
  imports Nxp_Varint
begin

text \<open>
  The frame engine (\<^verbatim>\<open>core/frame_internal.h\<close>, \<^verbatim>\<open>core/frame.c\<close>): every frame type, its
  encoder and its branch of the decoder.

  An encoder takes the contents of the output buffer before the call (its length is
  \<^verbatim>\<open>buf_len\<close>).  A return value of 0 is \<^term>\<open>None\<close>; a return value \<open>n\<close> is \<open>Some\<close> of the
  first \<open>n\<close> bytes of the buffer after the call.  The old contents matter in one situation only:
  a frame whose data pointer is null but whose length is not skips the \<^verbatim>\<open>memcpy\<close> and still
  advances, so those bytes keep their old values.  A pointer with a length is an optional byte
  list (\<^term>\<open>None\<close> is the null pointer) beside the length field.  The decoder takes the buffer
  and returns the number of bytes consumed with the parsed frame.
\<close>

section \<open>Frame types and structures\<close>

abbreviation (input) NXP_FRAME_PADDING :: u64 where "NXP_FRAME_PADDING \<equiv> 0x00"
abbreviation (input) NXP_FRAME_PING :: u64 where "NXP_FRAME_PING \<equiv> 0x01"
abbreviation (input) NXP_FRAME_ACK :: u64 where "NXP_FRAME_ACK \<equiv> 0x02"
abbreviation (input) NXP_FRAME_ACK_ECN :: u64 where "NXP_FRAME_ACK_ECN \<equiv> 0x03"
abbreviation (input) NXP_FRAME_RESET_STREAM :: u64 where "NXP_FRAME_RESET_STREAM \<equiv> 0x04"
abbreviation (input) NXP_FRAME_STOP_SENDING :: u64 where "NXP_FRAME_STOP_SENDING \<equiv> 0x05"
abbreviation (input) NXP_FRAME_CRYPTO :: u64 where "NXP_FRAME_CRYPTO \<equiv> 0x06"
abbreviation (input) NXP_FRAME_NEW_TOKEN :: u64 where "NXP_FRAME_NEW_TOKEN \<equiv> 0x07"
abbreviation (input) NXP_FRAME_STREAM :: u64 where "NXP_FRAME_STREAM \<equiv> 0x08"
abbreviation (input) NXP_FRAME_MAX_DATA :: u64 where "NXP_FRAME_MAX_DATA \<equiv> 0x10"
abbreviation (input) NXP_FRAME_MAX_STREAM_DATA :: u64 where "NXP_FRAME_MAX_STREAM_DATA \<equiv> 0x11"
abbreviation (input) NXP_FRAME_MAX_STREAMS_BIDI :: u64 where "NXP_FRAME_MAX_STREAMS_BIDI \<equiv> 0x12"
abbreviation (input) NXP_FRAME_MAX_STREAMS_UNI :: u64 where "NXP_FRAME_MAX_STREAMS_UNI \<equiv> 0x13"
abbreviation (input) NXP_FRAME_DATA_BLOCKED :: u64 where "NXP_FRAME_DATA_BLOCKED \<equiv> 0x14"
abbreviation (input) NXP_FRAME_STREAM_DATA_BLOCKED :: u64 where "NXP_FRAME_STREAM_DATA_BLOCKED \<equiv> 0x15"
abbreviation (input) NXP_FRAME_STREAMS_BLOCKED_BIDI :: u64 where "NXP_FRAME_STREAMS_BLOCKED_BIDI \<equiv> 0x16"
abbreviation (input) NXP_FRAME_STREAMS_BLOCKED_UNI :: u64 where "NXP_FRAME_STREAMS_BLOCKED_UNI \<equiv> 0x17"
abbreviation (input) NXP_FRAME_NEW_CONNECTION_ID :: u64 where "NXP_FRAME_NEW_CONNECTION_ID \<equiv> 0x18"
abbreviation (input) NXP_FRAME_RETIRE_CONNECTION_ID :: u64 where "NXP_FRAME_RETIRE_CONNECTION_ID \<equiv> 0x19"
abbreviation (input) NXP_FRAME_PATH_CHALLENGE :: u64 where "NXP_FRAME_PATH_CHALLENGE \<equiv> 0x1A"
abbreviation (input) NXP_FRAME_PATH_RESPONSE :: u64 where "NXP_FRAME_PATH_RESPONSE \<equiv> 0x1B"
abbreviation (input) NXP_FRAME_CONNECTION_CLOSE :: u64 where "NXP_FRAME_CONNECTION_CLOSE \<equiv> 0x1C"
abbreviation (input) NXP_FRAME_CONNECTION_CLOSE_APP :: u64 where "NXP_FRAME_CONNECTION_CLOSE_APP \<equiv> 0x1D"
abbreviation (input) NXP_FRAME_HANDSHAKE_DONE :: u64 where "NXP_FRAME_HANDSHAKE_DONE \<equiv> 0x1E"
abbreviation (input) NXP_FRAME_HEARTBEAT :: u64 where "NXP_FRAME_HEARTBEAT \<equiv> 0x20"
abbreviation (input) NXP_FRAME_STREAM_PRIORITY :: u64 where "NXP_FRAME_STREAM_PRIORITY \<equiv> 0x21"
abbreviation (input) NXP_FRAME_DATAGRAM :: u64 where "NXP_FRAME_DATAGRAM \<equiv> 0x22"

abbreviation (input) NXP_FRAME_STREAM_OFF :: u8 where "NXP_FRAME_STREAM_OFF \<equiv> 0x04"
abbreviation (input) NXP_FRAME_STREAM_LEN :: u8 where "NXP_FRAME_STREAM_LEN \<equiv> 0x02"
abbreviation (input) NXP_FRAME_STREAM_FIN :: u8 where "NXP_FRAME_STREAM_FIN \<equiv> 0x01"
abbreviation (input) NXP_ACK_MAX_RANGES :: u64 where "NXP_ACK_MAX_RANGES \<equiv> 64"
abbreviation (input) NXP_MAX_TOKEN_LEN :: u64 where "NXP_MAX_TOKEN_LEN \<equiv> 1024"
abbreviation (input) NXP_MAX_CLOSE_REASON_LEN :: u64 where "NXP_MAX_CLOSE_REASON_LEN \<equiv> 1024"
abbreviation (input) NXP_MAX_CRYPTO_FRAME_DATA :: u64 where "NXP_MAX_CRYPTO_FRAME_DATA \<equiv> 16384"
abbreviation (input) NXP_MAX_STREAM_FRAME_DATA :: u64 where "NXP_MAX_STREAM_FRAME_DATA \<equiv> 1048576"
abbreviation (input) NXP_MAX_DATAGRAM_LEN :: u64 where "NXP_MAX_DATAGRAM_LEN \<equiv> 65536"
abbreviation (input) NXP_MAX_STREAM_ID :: u64 where "NXP_MAX_STREAM_ID \<equiv> 0x1000000000000000"
abbreviation (input) NXP_MAX_STREAM_OFFSET :: u64 where "NXP_MAX_STREAM_OFFSET \<equiv> 0x1000000000000000"

record nxp_ack_range =
  gap :: u64
  ack_range :: u64

text \<open>The list of ranges is the used part of the C array; its length is \<^verbatim>\<open>range_count\<close>.\<close>

record nxp_frame_ack =
  largest_acked :: u64
  ack_delay :: u64
  first_ack_range :: u64
  ranges :: "nxp_ack_range list"
  has_ecn :: bool
  ect0_count :: u64
  ect1_count :: u64
  ecn_ce_count :: u64

record nxp_frame_reset_stream =
  rs_stream_id :: u64
  rs_error_code :: u64
  rs_final_size :: u64

record nxp_frame_stop_sending =
  ss_stream_id :: u64
  ss_error_code :: u64

record nxp_frame_crypto =
  cf_offset :: u64
  cf_length :: u64
  cf_data :: "bytes option"

record nxp_frame_new_token =
  token_len :: u64
  token :: "bytes option"

record nxp_frame_stream =
  sf_stream_id :: u64
  sf_offset :: u64
  sf_length :: u64
  sf_has_offset :: bool
  sf_has_length :: bool
  sf_fin :: bool
  sf_data :: "bytes option"

record nxp_frame_max_stream_data =
  msd_stream_id :: u64
  msd_max_stream_data :: u64

record nxp_frame_max_streams =
  ms_max_streams :: u64
  ms_is_bidi :: bool

record nxp_frame_stream_data_blocked =
  sdb_stream_id :: u64
  sdb_max_stream_data :: u64

record nxp_frame_streams_blocked =
  sb_max_streams :: u64
  sb_is_bidi :: bool

record nxp_frame_new_connection_id =
  nc_seq_num :: u64
  nc_retire_prior_to :: u64
  nc_cid :: nxp_conn_id
  nc_stateless_reset_token :: bytes

record nxp_frame_connection_close =
  cc_error_code :: u64
  cc_frame_type :: u64
  cc_reason_len :: u64
  cc_reason :: "bytes option"
  cc_is_app :: bool

record nxp_frame_stream_priority =
  sp_stream_id :: u64
  sp_priority :: u8

record nxp_frame_datagram =
  dg_length :: u64
  dg_data :: "bytes option"

datatype nxp_frame =
    Padding u64
  | Ping
  | Ack nxp_frame_ack
  | Reset_stream nxp_frame_reset_stream
  | Stop_sending nxp_frame_stop_sending
  | Crypto nxp_frame_crypto
  | New_token nxp_frame_new_token
  | Stream nxp_frame_stream
  | Max_data u64
  | Max_stream_data nxp_frame_max_stream_data
  | Max_streams nxp_frame_max_streams
  | Data_blocked u64
  | Stream_data_blocked nxp_frame_stream_data_blocked
  | Streams_blocked nxp_frame_streams_blocked
  | New_connection_id nxp_frame_new_connection_id
  | Retire_connection_id u64
  | Path_challenge bytes
  | Path_response bytes
  | Connection_close nxp_frame_connection_close
  | Handshake_done
  | Heartbeat u64
  | Stream_priority nxp_frame_stream_priority
  | Datagram nxp_frame_datagram

text \<open>The \<^verbatim>\<open>type\<close> field the decoder leaves in the tagged union.\<close>

fun frame_type_of :: "nxp_frame \<Rightarrow> u64" where
  "frame_type_of (Padding _) = NXP_FRAME_PADDING"
| "frame_type_of Ping = NXP_FRAME_PING"
| "frame_type_of (Ack f) = (if has_ecn f then NXP_FRAME_ACK_ECN else NXP_FRAME_ACK)"
| "frame_type_of (Reset_stream _) = NXP_FRAME_RESET_STREAM"
| "frame_type_of (Stop_sending _) = NXP_FRAME_STOP_SENDING"
| "frame_type_of (Crypto _) = NXP_FRAME_CRYPTO"
| "frame_type_of (New_token _) = NXP_FRAME_NEW_TOKEN"
| "frame_type_of (Stream _) = NXP_FRAME_STREAM"
| "frame_type_of (Max_data _) = NXP_FRAME_MAX_DATA"
| "frame_type_of (Max_stream_data _) = NXP_FRAME_MAX_STREAM_DATA"
| "frame_type_of (Max_streams f) =
     (if ms_is_bidi f then NXP_FRAME_MAX_STREAMS_BIDI else NXP_FRAME_MAX_STREAMS_UNI)"
| "frame_type_of (Data_blocked _) = NXP_FRAME_DATA_BLOCKED"
| "frame_type_of (Stream_data_blocked _) = NXP_FRAME_STREAM_DATA_BLOCKED"
| "frame_type_of (Streams_blocked f) =
     (if sb_is_bidi f then NXP_FRAME_STREAMS_BLOCKED_BIDI else NXP_FRAME_STREAMS_BLOCKED_UNI)"
| "frame_type_of (New_connection_id _) = NXP_FRAME_NEW_CONNECTION_ID"
| "frame_type_of (Retire_connection_id _) = NXP_FRAME_RETIRE_CONNECTION_ID"
| "frame_type_of (Path_challenge _) = NXP_FRAME_PATH_CHALLENGE"
| "frame_type_of (Path_response _) = NXP_FRAME_PATH_RESPONSE"
| "frame_type_of (Connection_close f) =
     (if cc_is_app f then NXP_FRAME_CONNECTION_CLOSE_APP else NXP_FRAME_CONNECTION_CLOSE)"
| "frame_type_of Handshake_done = NXP_FRAME_HANDSHAKE_DONE"
| "frame_type_of (Heartbeat _) = NXP_FRAME_HEARTBEAT"
| "frame_type_of (Stream_priority _) = NXP_FRAME_STREAM_PRIORITY"
| "frame_type_of (Datagram _) = NXP_FRAME_DATAGRAM"

definition nxp_frame_is_ack_eliciting :: "u64 \<Rightarrow> bool" where
  "nxp_frame_is_ack_eliciting type \<longleftrightarrow>
     type \<noteq> NXP_FRAME_PADDING \<and> type \<noteq> NXP_FRAME_ACK \<and> type \<noteq> NXP_FRAME_ACK_ECN \<and>
     type \<noteq> NXP_FRAME_CONNECTION_CLOSE \<and> type \<noteq> NXP_FRAME_CONNECTION_CLOSE_APP"

definition nxp_frame_is_stream :: "u8 \<Rightarrow> bool" where
  "nxp_frame_is_stream type_byte \<longleftrightarrow> type_byte AND 0xF8 = 0x08"

section \<open>Encoders\<close>

definition encode_varint :: "u64 \<Rightarrow> bytes \<Rightarrow> nat \<Rightarrow> bytes option" where
  "encode_varint val buf pos =
     (if pos \<ge> length buf then None else nxp_varint_encode val (length buf - pos))"

text \<open>The idiom \<^verbatim>\<open>n = encode_varint(v, buf, buf_len, pos); if (n == 0) return 0; pos += n;\<close>
  on the bytes written so far.\<close>

definition put_varint :: "bytes \<Rightarrow> u64 \<Rightarrow> bytes \<Rightarrow> bytes option" where
  "put_varint buf val out = do { bs \<leftarrow> encode_varint val buf (length out); Some (out @ bs) }"

text \<open>\<^verbatim>\<open>if (data != nullptr) memcpy(&buf[pos], data, len); pos += len;\<close>\<close>

definition put_data :: "bytes \<Rightarrow> bytes option \<Rightarrow> u64 \<Rightarrow> bytes \<Rightarrow> bytes" where
  "put_data buf data len out =
     out @ (case data of Some d \<Rightarrow> take (unat len) d
                       | None \<Rightarrow> take (unat len) (drop (length out) buf))"

definition nxp_frame_encode_padding :: "u64 \<Rightarrow> bytes \<Rightarrow> bytes option" where
  "nxp_frame_encode_padding count buf =
     (if count = 0 \<or> length buf < unat count then None else Some (replicate (unat count) 0))"

definition nxp_frame_encode_ping :: "bytes \<Rightarrow> bytes option" where
  "nxp_frame_encode_ping buf = (if length buf < 1 then None else Some [0x01])"

fun encode_ack_ranges :: "bytes \<Rightarrow> nxp_ack_range list \<Rightarrow> bytes \<Rightarrow> bytes option" where
  "encode_ack_ranges buf [] out = Some out"
| "encode_ack_ranges buf (r # rs) out = do {
     out \<leftarrow> put_varint buf (gap r) out;
     out \<leftarrow> put_varint buf (ack_range r) out;
     encode_ack_ranges buf rs out }"

definition nxp_frame_encode_ack :: "nxp_frame_ack \<Rightarrow> bytes \<Rightarrow> bytes option" where
  "nxp_frame_encode_ack f buf = do {
     out \<leftarrow> put_varint buf (if has_ecn f then NXP_FRAME_ACK_ECN else NXP_FRAME_ACK) [];
     out \<leftarrow> put_varint buf (largest_acked f) out;
     out \<leftarrow> put_varint buf (ack_delay f) out;
     out \<leftarrow> put_varint buf (of_nat (length (ranges f))) out;
     out \<leftarrow> put_varint buf (first_ack_range f) out;
     out \<leftarrow> encode_ack_ranges buf (ranges f) out;
     if has_ecn f then do {
       out \<leftarrow> put_varint buf (ect0_count f) out;
       out \<leftarrow> put_varint buf (ect1_count f) out;
       put_varint buf (ecn_ce_count f) out }
     else Some out }"

definition nxp_frame_encode_reset_stream :: "nxp_frame_reset_stream \<Rightarrow> bytes \<Rightarrow> bytes option" where
  "nxp_frame_encode_reset_stream f buf = do {
     out \<leftarrow> put_varint buf NXP_FRAME_RESET_STREAM [];
     out \<leftarrow> put_varint buf (rs_stream_id f) out;
     out \<leftarrow> put_varint buf (rs_error_code f) out;
     put_varint buf (rs_final_size f) out }"

definition nxp_frame_encode_stop_sending :: "nxp_frame_stop_sending \<Rightarrow> bytes \<Rightarrow> bytes option" where
  "nxp_frame_encode_stop_sending f buf = do {
     out \<leftarrow> put_varint buf NXP_FRAME_STOP_SENDING [];
     out \<leftarrow> put_varint buf (ss_stream_id f) out;
     put_varint buf (ss_error_code f) out }"

definition nxp_frame_encode_crypto :: "nxp_frame_crypto \<Rightarrow> bytes \<Rightarrow> bytes option" where
  "nxp_frame_encode_crypto f buf = do {
     out \<leftarrow> put_varint buf NXP_FRAME_CRYPTO [];
     out \<leftarrow> put_varint buf (cf_offset f) out;
     out \<leftarrow> put_varint buf (cf_length f) out;
     if length out + unat (cf_length f) > length buf then None
     else Some (put_data buf (cf_data f) (cf_length f) out) }"

definition nxp_frame_encode_new_token :: "nxp_frame_new_token \<Rightarrow> bytes \<Rightarrow> bytes option" where
  "nxp_frame_encode_new_token f buf = do {
     out \<leftarrow> put_varint buf NXP_FRAME_NEW_TOKEN [];
     out \<leftarrow> put_varint buf (token_len f) out;
     if length out + unat (token_len f) > length buf then None
     else Some (put_data buf (token f) (token_len f) out) }"

definition nxp_frame_encode_stream :: "nxp_frame_stream \<Rightarrow> bytes \<Rightarrow> bytes option" where
  "nxp_frame_encode_stream f buf =
     (let type_byte = 0x08 :: u8;
          type_byte = (if sf_has_offset f then type_byte OR NXP_FRAME_STREAM_OFF else type_byte);
          type_byte = (if sf_has_length f then type_byte OR NXP_FRAME_STREAM_LEN else type_byte);
          type_byte = (if sf_fin f then type_byte OR NXP_FRAME_STREAM_FIN else type_byte) in
      if length buf < 1 then None else do {
        out \<leftarrow> put_varint buf (sf_stream_id f) [type_byte];
        out \<leftarrow> (if sf_has_offset f then put_varint buf (sf_offset f) out else Some out);
        out \<leftarrow> (if sf_has_length f then put_varint buf (sf_length f) out else Some out);
        let data_len = (if sf_has_length f then sf_length f else 0) in
        if data_len > 0 then
          if length out + unat data_len > length buf then None
          else Some (put_data buf (sf_data f) data_len out)
        else Some out })"

definition nxp_frame_encode_max_data :: "u64 \<Rightarrow> bytes \<Rightarrow> bytes option" where
  "nxp_frame_encode_max_data max_data buf = do {
     out \<leftarrow> put_varint buf NXP_FRAME_MAX_DATA [];
     put_varint buf max_data out }"

definition nxp_frame_encode_max_stream_data ::
    "nxp_frame_max_stream_data \<Rightarrow> bytes \<Rightarrow> bytes option" where
  "nxp_frame_encode_max_stream_data f buf = do {
     out \<leftarrow> put_varint buf NXP_FRAME_MAX_STREAM_DATA [];
     out \<leftarrow> put_varint buf (msd_stream_id f) out;
     put_varint buf (msd_max_stream_data f) out }"

definition nxp_frame_encode_max_streams :: "nxp_frame_max_streams \<Rightarrow> bytes \<Rightarrow> bytes option" where
  "nxp_frame_encode_max_streams f buf = do {
     out \<leftarrow> put_varint buf
       (if ms_is_bidi f then NXP_FRAME_MAX_STREAMS_BIDI else NXP_FRAME_MAX_STREAMS_UNI) [];
     put_varint buf (ms_max_streams f) out }"

definition nxp_frame_encode_data_blocked :: "u64 \<Rightarrow> bytes \<Rightarrow> bytes option" where
  "nxp_frame_encode_data_blocked max_data buf = do {
     out \<leftarrow> put_varint buf NXP_FRAME_DATA_BLOCKED [];
     put_varint buf max_data out }"

definition nxp_frame_encode_stream_data_blocked ::
    "nxp_frame_stream_data_blocked \<Rightarrow> bytes \<Rightarrow> bytes option" where
  "nxp_frame_encode_stream_data_blocked f buf = do {
     out \<leftarrow> put_varint buf NXP_FRAME_STREAM_DATA_BLOCKED [];
     out \<leftarrow> put_varint buf (sdb_stream_id f) out;
     put_varint buf (sdb_max_stream_data f) out }"

definition nxp_frame_encode_streams_blocked ::
    "nxp_frame_streams_blocked \<Rightarrow> bytes \<Rightarrow> bytes option" where
  "nxp_frame_encode_streams_blocked f buf = do {
     out \<leftarrow> put_varint buf
       (if sb_is_bidi f then NXP_FRAME_STREAMS_BLOCKED_BIDI else NXP_FRAME_STREAMS_BLOCKED_UNI) [];
     put_varint buf (sb_max_streams f) out }"

definition nxp_frame_encode_new_connection_id ::
    "nxp_frame_new_connection_id \<Rightarrow> bytes \<Rightarrow> bytes option" where
  "nxp_frame_encode_new_connection_id f buf =
     (if length (cid_data (nc_cid f)) > NXP_MAX_CID_LEN then None else do {
        out \<leftarrow> put_varint buf NXP_FRAME_NEW_CONNECTION_ID [];
        out \<leftarrow> put_varint buf (nc_seq_num f) out;
        out \<leftarrow> put_varint buf (nc_retire_prior_to f) out;
        if length out + 1 + length (cid_data (nc_cid f)) + 16 > length buf then None
        else Some (out @ [of_nat (length (cid_data (nc_cid f)))] @ cid_data (nc_cid f) @
                   take 16 (nc_stateless_reset_token f)) })"

definition nxp_frame_encode_retire_connection_id :: "u64 \<Rightarrow> bytes \<Rightarrow> bytes option" where
  "nxp_frame_encode_retire_connection_id seq_num buf = do {
     out \<leftarrow> put_varint buf NXP_FRAME_RETIRE_CONNECTION_ID [];
     put_varint buf seq_num out }"

definition nxp_frame_encode_path_challenge :: "bytes \<Rightarrow> bytes \<Rightarrow> bytes option" where
  "nxp_frame_encode_path_challenge data buf = do {
     out \<leftarrow> put_varint buf NXP_FRAME_PATH_CHALLENGE [];
     if length out + 8 > length buf then None else Some (out @ take 8 data) }"

definition nxp_frame_encode_path_response :: "bytes \<Rightarrow> bytes \<Rightarrow> bytes option" where
  "nxp_frame_encode_path_response data buf = do {
     out \<leftarrow> put_varint buf NXP_FRAME_PATH_RESPONSE [];
     if length out + 8 > length buf then None else Some (out @ take 8 data) }"

definition nxp_frame_encode_connection_close ::
    "nxp_frame_connection_close \<Rightarrow> bytes \<Rightarrow> bytes option" where
  "nxp_frame_encode_connection_close f buf = do {
     out \<leftarrow> put_varint buf
       (if cc_is_app f then NXP_FRAME_CONNECTION_CLOSE_APP else NXP_FRAME_CONNECTION_CLOSE) [];
     out \<leftarrow> put_varint buf (cc_error_code f) out;
     out \<leftarrow> (if \<not> cc_is_app f then put_varint buf (cc_frame_type f) out else Some out);
     out \<leftarrow> put_varint buf (cc_reason_len f) out;
     if cc_reason_len f > 0 then
       if length out + unat (cc_reason_len f) > length buf then None
       else Some (put_data buf (cc_reason f) (cc_reason_len f) out)
     else Some out }"

definition nxp_frame_encode_handshake_done :: "bytes \<Rightarrow> bytes option" where
  "nxp_frame_encode_handshake_done buf = put_varint buf NXP_FRAME_HANDSHAKE_DONE []"

definition nxp_frame_encode_heartbeat :: "u64 \<Rightarrow> bytes \<Rightarrow> bytes option" where
  "nxp_frame_encode_heartbeat timestamp_us buf = do {
     out \<leftarrow> put_varint buf NXP_FRAME_HEARTBEAT [];
     put_varint buf timestamp_us out }"

definition nxp_frame_encode_stream_priority ::
    "nxp_frame_stream_priority \<Rightarrow> bytes \<Rightarrow> bytes option" where
  "nxp_frame_encode_stream_priority f buf = do {
     out \<leftarrow> put_varint buf NXP_FRAME_STREAM_PRIORITY [];
     out \<leftarrow> put_varint buf (sp_stream_id f) out;
     if length out \<ge> length buf then None else Some (out @ [sp_priority f]) }"

definition nxp_frame_encode_datagram :: "nxp_frame_datagram \<Rightarrow> bytes \<Rightarrow> bytes option" where
  "nxp_frame_encode_datagram f buf = do {
     out \<leftarrow> put_varint buf NXP_FRAME_DATAGRAM [];
     out \<leftarrow> put_varint buf (dg_length f) out;
     if dg_length f > 0 then
       if length out + unat (dg_length f) > length buf then None
       else Some (put_data buf (dg_data f) (dg_length f) out)
     else Some out }"

text \<open>All encoders under one name, used to state properties of every frame type at once.\<close>

fun frame_encode :: "nxp_frame \<Rightarrow> bytes \<Rightarrow> bytes option" where
  "frame_encode (Padding n) buf = nxp_frame_encode_padding n buf"
| "frame_encode Ping buf = nxp_frame_encode_ping buf"
| "frame_encode (Ack f) buf = nxp_frame_encode_ack f buf"
| "frame_encode (Reset_stream f) buf = nxp_frame_encode_reset_stream f buf"
| "frame_encode (Stop_sending f) buf = nxp_frame_encode_stop_sending f buf"
| "frame_encode (Crypto f) buf = nxp_frame_encode_crypto f buf"
| "frame_encode (New_token f) buf = nxp_frame_encode_new_token f buf"
| "frame_encode (Stream f) buf = nxp_frame_encode_stream f buf"
| "frame_encode (Max_data v) buf = nxp_frame_encode_max_data v buf"
| "frame_encode (Max_stream_data f) buf = nxp_frame_encode_max_stream_data f buf"
| "frame_encode (Max_streams f) buf = nxp_frame_encode_max_streams f buf"
| "frame_encode (Data_blocked v) buf = nxp_frame_encode_data_blocked v buf"
| "frame_encode (Stream_data_blocked f) buf = nxp_frame_encode_stream_data_blocked f buf"
| "frame_encode (Streams_blocked f) buf = nxp_frame_encode_streams_blocked f buf"
| "frame_encode (New_connection_id f) buf = nxp_frame_encode_new_connection_id f buf"
| "frame_encode (Retire_connection_id v) buf = nxp_frame_encode_retire_connection_id v buf"
| "frame_encode (Path_challenge d) buf = nxp_frame_encode_path_challenge d buf"
| "frame_encode (Path_response d) buf = nxp_frame_encode_path_response d buf"
| "frame_encode (Connection_close f) buf = nxp_frame_encode_connection_close f buf"
| "frame_encode Handshake_done buf = nxp_frame_encode_handshake_done buf"
| "frame_encode (Heartbeat v) buf = nxp_frame_encode_heartbeat v buf"
| "frame_encode (Stream_priority f) buf = nxp_frame_encode_stream_priority f buf"
| "frame_encode (Datagram f) buf = nxp_frame_encode_datagram f buf"

section \<open>Decoder\<close>

definition decode_varint :: "bytes \<Rightarrow> nat \<Rightarrow> (nat \<times> u64) option" where
  "decode_varint buf pos =
     (if pos \<ge> length buf then None else nxp_varint_decode (drop pos buf))"

text \<open>The idiom \<^verbatim>\<open>n = decode_varint(buf, buf_len, pos, &v); if (n == 0) return 0; pos += n;\<close>\<close>

definition get_varint :: "bytes \<Rightarrow> nat \<Rightarrow> (nat \<times> u64) option" where
  "get_varint buf pos = do { (n, v) \<leftarrow> decode_varint buf pos; Some (pos + n, v) }"

text \<open>The data block shared by CRYPTO, NEW_TOKEN, CONNECTION_CLOSE, DATAGRAM and STREAM: a null
  pointer for length 0, else a pointer to \<open>len\<close> bytes of the buffer.\<close>

definition get_data :: "bytes \<Rightarrow> nat \<Rightarrow> u64 \<Rightarrow> (nat \<times> bytes option) option" where
  "get_data buf pos len =
     (if len > 0 then
        if pos > length buf \<or> unat len > length buf - pos then None
        else Some (pos + unat len, Some (take (unat len) (drop pos buf)))
      else Some (pos, None))"

definition decode_padding :: "bytes \<Rightarrow> (nat \<times> nxp_frame) option" where
  "decode_padding buf =
     (let count = length (takeWhile (\<lambda>b. b = 0) buf) in Some (count, Padding (of_nat count)))"

definition decode_stream :: "bytes \<Rightarrow> (nat \<times> nxp_frame) option" where
  "decode_stream buf =
     (let type_byte = buf ! 0; pos = 1;
          has_off = (type_byte AND NXP_FRAME_STREAM_OFF \<noteq> 0);
          has_len = (type_byte AND NXP_FRAME_STREAM_LEN \<noteq> 0);
          fin = (type_byte AND NXP_FRAME_STREAM_FIN \<noteq> 0) in do {
        (pos, stream_id) \<leftarrow> get_varint buf pos;
        if stream_id > NXP_MAX_STREAM_ID then None else do {
          (pos, offset) \<leftarrow> (if has_off then get_varint buf pos else Some (pos, 0));
          if has_off \<and> offset > NXP_MAX_STREAM_OFFSET then None else do {
            (pos, len) \<leftarrow>
              (if has_len then do {
                 (pos, len) \<leftarrow> get_varint buf pos;
                 if len > NXP_MAX_STREAM_FRAME_DATA then None else Some (pos, len) }
               else if length buf < pos then None
               else if length buf - pos > unat NXP_MAX_STREAM_FRAME_DATA then None
               else Some (pos, of_nat (length buf - pos)));
            (pos, data) \<leftarrow> get_data buf pos len;
            Some (pos, Stream \<lparr>sf_stream_id = stream_id, sf_offset = offset, sf_length = len,
              sf_has_offset = has_off, sf_has_length = has_len, sf_fin = fin, sf_data = data\<rparr>) } } })"

fun decode_ack_ranges :: "bytes \<Rightarrow> nat \<Rightarrow> nat \<Rightarrow> (nat \<times> nxp_ack_range list) option" where
  "decode_ack_ranges buf pos 0 = Some (pos, [])"
| "decode_ack_ranges buf pos (Suc n) = do {
     (pos, g) \<leftarrow> get_varint buf pos;
     (pos, r) \<leftarrow> get_varint buf pos;
     (pos, rs) \<leftarrow> decode_ack_ranges buf pos n;
     Some (pos, \<lparr>gap = g, ack_range = r\<rparr> # rs) }"

definition decode_ack :: "bytes \<Rightarrow> nat \<Rightarrow> u64 \<Rightarrow> (nat \<times> nxp_frame) option" where
  "decode_ack buf pos frame_type =
     (let ecn = (frame_type = NXP_FRAME_ACK_ECN) in do {
        (pos, la) \<leftarrow> get_varint buf pos;
        (pos, delay) \<leftarrow> get_varint buf pos;
        (pos, range_count) \<leftarrow> get_varint buf pos;
        if range_count > NXP_ACK_MAX_RANGES then None else do {
          (pos, first) \<leftarrow> get_varint buf pos;
          (pos, rs) \<leftarrow> decode_ack_ranges buf pos (unat range_count);
          (pos, e0, e1, ce) \<leftarrow>
            (if ecn then do {
               (pos, e0) \<leftarrow> get_varint buf pos;
               (pos, e1) \<leftarrow> get_varint buf pos;
               (pos, ce) \<leftarrow> get_varint buf pos;
               Some (pos, e0, e1, ce) }
             else Some (pos, 0, 0, 0));
          Some (pos, Ack \<lparr>largest_acked = la, ack_delay = delay, first_ack_range = first,
            ranges = rs, has_ecn = ecn, ect0_count = e0, ect1_count = e1, ecn_ce_count = ce\<rparr>) } })"

definition decode_reset_stream :: "bytes \<Rightarrow> nat \<Rightarrow> (nat \<times> nxp_frame) option" where
  "decode_reset_stream buf pos = do {
     (pos, sid) \<leftarrow> get_varint buf pos;
     (pos, ec) \<leftarrow> get_varint buf pos;
     (pos, fs) \<leftarrow> get_varint buf pos;
     Some (pos, Reset_stream \<lparr>rs_stream_id = sid, rs_error_code = ec, rs_final_size = fs\<rparr>) }"

definition decode_stop_sending :: "bytes \<Rightarrow> nat \<Rightarrow> (nat \<times> nxp_frame) option" where
  "decode_stop_sending buf pos = do {
     (pos, sid) \<leftarrow> get_varint buf pos;
     (pos, ec) \<leftarrow> get_varint buf pos;
     Some (pos, Stop_sending \<lparr>ss_stream_id = sid, ss_error_code = ec\<rparr>) }"

definition decode_crypto :: "bytes \<Rightarrow> nat \<Rightarrow> (nat \<times> nxp_frame) option" where
  "decode_crypto buf pos = do {
     (pos, off) \<leftarrow> get_varint buf pos;
     (pos, len) \<leftarrow> get_varint buf pos;
     if len > NXP_MAX_CRYPTO_FRAME_DATA then None else do {
       (pos, data) \<leftarrow> get_data buf pos len;
       Some (pos, Crypto \<lparr>cf_offset = off, cf_length = len, cf_data = data\<rparr>) } }"

definition decode_new_token :: "bytes \<Rightarrow> nat \<Rightarrow> (nat \<times> nxp_frame) option" where
  "decode_new_token buf pos = do {
     (pos, len) \<leftarrow> get_varint buf pos;
     if len > NXP_MAX_TOKEN_LEN then None else do {
       (pos, data) \<leftarrow> get_data buf pos len;
       Some (pos, New_token \<lparr>token_len = len, token = data\<rparr>) } }"

definition decode_one_varint ::
    "(u64 \<Rightarrow> nxp_frame) \<Rightarrow> bytes \<Rightarrow> nat \<Rightarrow> (nat \<times> nxp_frame) option" where
  "decode_one_varint mk buf pos = do { (pos, v) \<leftarrow> get_varint buf pos; Some (pos, mk v) }"

definition decode_max_stream_data :: "bytes \<Rightarrow> nat \<Rightarrow> (nat \<times> nxp_frame) option" where
  "decode_max_stream_data buf pos = do {
     (pos, sid) \<leftarrow> get_varint buf pos;
     (pos, m) \<leftarrow> get_varint buf pos;
     Some (pos, Max_stream_data \<lparr>msd_stream_id = sid, msd_max_stream_data = m\<rparr>) }"

definition decode_max_streams :: "bool \<Rightarrow> bytes \<Rightarrow> nat \<Rightarrow> (nat \<times> nxp_frame) option" where
  "decode_max_streams bidi buf pos = do {
     (pos, m) \<leftarrow> get_varint buf pos;
     Some (pos, Max_streams \<lparr>ms_max_streams = m, ms_is_bidi = bidi\<rparr>) }"

definition decode_stream_data_blocked :: "bytes \<Rightarrow> nat \<Rightarrow> (nat \<times> nxp_frame) option" where
  "decode_stream_data_blocked buf pos = do {
     (pos, sid) \<leftarrow> get_varint buf pos;
     (pos, m) \<leftarrow> get_varint buf pos;
     Some (pos, Stream_data_blocked \<lparr>sdb_stream_id = sid, sdb_max_stream_data = m\<rparr>) }"

definition decode_streams_blocked :: "bool \<Rightarrow> bytes \<Rightarrow> nat \<Rightarrow> (nat \<times> nxp_frame) option" where
  "decode_streams_blocked bidi buf pos = do {
     (pos, m) \<leftarrow> get_varint buf pos;
     Some (pos, Streams_blocked \<lparr>sb_max_streams = m, sb_is_bidi = bidi\<rparr>) }"

definition decode_new_connection_id :: "bytes \<Rightarrow> nat \<Rightarrow> (nat \<times> nxp_frame) option" where
  "decode_new_connection_id buf pos = do {
     (pos, sq) \<leftarrow> get_varint buf pos;
     (pos, rp) \<leftarrow> get_varint buf pos;
     if pos \<ge> length buf then None else
     let cid_len = unat (buf ! pos); pos = pos + 1 in
     if cid_len > NXP_MAX_CID_LEN then None
     else if pos + cid_len + 16 > length buf then None
     else Some (pos + cid_len + 16,
       New_connection_id \<lparr>nc_seq_num = sq, nc_retire_prior_to = rp,
         nc_cid = \<lparr>cid_data = take cid_len (drop pos buf)\<rparr>,
         nc_stateless_reset_token = take 16 (drop (pos + cid_len) buf)\<rparr>) }"

definition decode_path ::
    "(bytes \<Rightarrow> nxp_frame) \<Rightarrow> bytes \<Rightarrow> nat \<Rightarrow> (nat \<times> nxp_frame) option" where
  "decode_path mk buf pos =
     (if pos + 8 > length buf then None else Some (pos + 8, mk (take 8 (drop pos buf))))"

definition decode_connection_close ::
    "bytes \<Rightarrow> nat \<Rightarrow> u64 \<Rightarrow> (nat \<times> nxp_frame) option" where
  "decode_connection_close buf pos frame_type =
     (let app = (frame_type = NXP_FRAME_CONNECTION_CLOSE_APP) in do {
        (pos, ec) \<leftarrow> get_varint buf pos;
        (pos, ft) \<leftarrow> (if \<not> app then get_varint buf pos else Some (pos, 0));
        (pos, len) \<leftarrow> get_varint buf pos;
        if len > NXP_MAX_CLOSE_REASON_LEN then None else do {
          (pos, data) \<leftarrow> get_data buf pos len;
          Some (pos, Connection_close \<lparr>cc_error_code = ec, cc_frame_type = ft, cc_reason_len = len,
            cc_reason = data, cc_is_app = app\<rparr>) } })"

definition decode_stream_priority :: "bytes \<Rightarrow> nat \<Rightarrow> (nat \<times> nxp_frame) option" where
  "decode_stream_priority buf pos = do {
     (pos, sid) \<leftarrow> get_varint buf pos;
     if pos \<ge> length buf then None
     else Some (pos + 1, Stream_priority \<lparr>sp_stream_id = sid, sp_priority = buf ! pos\<rparr>) }"

definition decode_datagram :: "bytes \<Rightarrow> nat \<Rightarrow> (nat \<times> nxp_frame) option" where
  "decode_datagram buf pos = do {
     (pos, len) \<leftarrow> get_varint buf pos;
     if len > NXP_MAX_DATAGRAM_LEN then None else do {
       (pos, data) \<leftarrow> get_data buf pos len;
       Some (pos, Datagram \<lparr>dg_length = len, dg_data = data\<rparr>) } }"

text \<open>The \<^verbatim>\<open>switch (frame_type)\<close> of the decoder.\<close>

definition decode_typed :: "u64 \<Rightarrow> bytes \<Rightarrow> nat \<Rightarrow> (nat \<times> nxp_frame) option" where
  "decode_typed frame_type buf pos =
     (if frame_type = NXP_FRAME_PING then Some (pos, Ping)
      else if frame_type = NXP_FRAME_ACK \<or> frame_type = NXP_FRAME_ACK_ECN then
        decode_ack buf pos frame_type
      else if frame_type = NXP_FRAME_RESET_STREAM then decode_reset_stream buf pos
      else if frame_type = NXP_FRAME_STOP_SENDING then decode_stop_sending buf pos
      else if frame_type = NXP_FRAME_CRYPTO then decode_crypto buf pos
      else if frame_type = NXP_FRAME_NEW_TOKEN then decode_new_token buf pos
      else if frame_type = NXP_FRAME_MAX_DATA then decode_one_varint Max_data buf pos
      else if frame_type = NXP_FRAME_MAX_STREAM_DATA then decode_max_stream_data buf pos
      else if frame_type = NXP_FRAME_MAX_STREAMS_BIDI then decode_max_streams True buf pos
      else if frame_type = NXP_FRAME_MAX_STREAMS_UNI then decode_max_streams False buf pos
      else if frame_type = NXP_FRAME_DATA_BLOCKED then decode_one_varint Data_blocked buf pos
      else if frame_type = NXP_FRAME_STREAM_DATA_BLOCKED then decode_stream_data_blocked buf pos
      else if frame_type = NXP_FRAME_STREAMS_BLOCKED_BIDI then decode_streams_blocked True buf pos
      else if frame_type = NXP_FRAME_STREAMS_BLOCKED_UNI then decode_streams_blocked False buf pos
      else if frame_type = NXP_FRAME_NEW_CONNECTION_ID then decode_new_connection_id buf pos
      else if frame_type = NXP_FRAME_RETIRE_CONNECTION_ID then
        decode_one_varint Retire_connection_id buf pos
      else if frame_type = NXP_FRAME_PATH_CHALLENGE then decode_path Path_challenge buf pos
      else if frame_type = NXP_FRAME_PATH_RESPONSE then decode_path Path_response buf pos
      else if frame_type = NXP_FRAME_CONNECTION_CLOSE \<or>
              frame_type = NXP_FRAME_CONNECTION_CLOSE_APP then
        decode_connection_close buf pos frame_type
      else if frame_type = NXP_FRAME_HANDSHAKE_DONE then Some (pos, Handshake_done)
      else if frame_type = NXP_FRAME_HEARTBEAT then decode_one_varint Heartbeat buf pos
      else if frame_type = NXP_FRAME_STREAM_PRIORITY then decode_stream_priority buf pos
      else if frame_type = NXP_FRAME_DATAGRAM then decode_datagram buf pos
      else None)"

definition nxp_frame_decode :: "bytes \<Rightarrow> (nat \<times> nxp_frame) option" where
  "nxp_frame_decode buf =
     (if length buf = 0 then None
      else if buf ! 0 = 0 then decode_padding buf
      else if nxp_frame_is_stream (buf ! 0) then decode_stream buf
      else do { (pos, frame_type) \<leftarrow> get_varint buf 0; decode_typed frame_type buf pos })"

section \<open>Frames the decoder can produce\<close>

text \<open>A pointer with a length: null exactly for length 0.\<close>

definition data_ok :: "u64 \<Rightarrow> bytes option \<Rightarrow> bool" where
  "data_ok len data =
     (case data of None \<Rightarrow> len = 0 | Some d \<Rightarrow> len \<noteq> 0 \<and> length d = unat len)"

text \<open>The limits the decoder enforces, and the fields it leaves zero because the frame type does
  not carry them.\<close>

fun frame_ok :: "nxp_frame \<Rightarrow> bool" where
  "frame_ok (Padding n) = (n \<noteq> 0)"
| "frame_ok (Ack f) =
     (length (ranges f) \<le> 64 \<and>
      (has_ecn f \<or> ect0_count f = 0 \<and> ect1_count f = 0 \<and> ecn_ce_count f = 0))"
| "frame_ok (Crypto f) =
     (cf_length f \<le> NXP_MAX_CRYPTO_FRAME_DATA \<and> data_ok (cf_length f) (cf_data f))"
| "frame_ok (New_token f) =
     (token_len f \<le> NXP_MAX_TOKEN_LEN \<and> data_ok (token_len f) (token f))"
| "frame_ok (Stream f) =
     (sf_stream_id f \<le> NXP_MAX_STREAM_ID \<and> sf_offset f \<le> NXP_MAX_STREAM_OFFSET \<and>
      (sf_has_offset f \<or> sf_offset f = 0) \<and>
      sf_length f \<le> NXP_MAX_STREAM_FRAME_DATA \<and> data_ok (sf_length f) (sf_data f))"
| "frame_ok (New_connection_id f) =
     (length (cid_data (nc_cid f)) \<le> NXP_MAX_CID_LEN \<and> length (nc_stateless_reset_token f) = 16)"
| "frame_ok (Path_challenge d) = (length d = 8)"
| "frame_ok (Path_response d) = (length d = 8)"
| "frame_ok (Connection_close f) =
     (cc_reason_len f \<le> NXP_MAX_CLOSE_REASON_LEN \<and> data_ok (cc_reason_len f) (cc_reason f) \<and>
      (cc_is_app f \<longrightarrow> cc_frame_type f = 0))"
| "frame_ok (Datagram f) =
     (dg_length f \<le> NXP_MAX_DATAGRAM_LEN \<and> data_ok (dg_length f) (dg_data f))"
| "frame_ok _ = True"

text \<open>What may follow a frame in a packet: a PADDING run must end, and a STREAM frame without a
  length field is the last of its packet (and its encoder writes no data for it).\<close>

fun delimited :: "nxp_frame \<Rightarrow> bytes \<Rightarrow> bool" where
  "delimited (Padding _) rest = (rest = [] \<or> hd rest \<noteq> 0)"
| "delimited (Stream f) rest = (sf_has_length f \<or> sf_length f = 0 \<and> rest = [])"
| "delimited _ rest = True"

section \<open>Facts on the building blocks\<close>

lemma put_varint_iff:
  "(put_varint buf v out = Some out') =
   (v \<le> NXP_VARINT_MAX \<and> length out + nxp_varint_len v \<le> length buf \<and> out' = out @ varint_bytes v)"
  using varint_len_pos [of v]
  by (auto simp: put_varint_def encode_varint_def varint_encode_eq bind_Some_iff)

lemma get_varint_bound [codec_bounds]:
  "get_varint buf pos = Some (pos', v) \<Longrightarrow> pos < pos' \<and> pos' \<le> length buf \<and> v \<le> NXP_VARINT_MAX"
  by (auto simp: get_varint_def decode_varint_def bind_Some_iff dest!: varint_decode_cases)

lemma get_data_bound [codec_bounds]:
  "get_data buf pos len = Some (pos', data) \<Longrightarrow> pos \<le> length buf \<Longrightarrow>
   pos \<le> pos' \<and> pos' \<le> length buf \<and>
   (case data of None \<Rightarrow> len = 0 | Some d \<Rightarrow> length d = unat len)"
  by (auto simp: get_data_def word_gt_0 split: if_splits)

lemma get_varint_bytes [codec_simps]:
  assumes "v \<le> NXP_VARINT_MAX"
  shows "get_varint (varint_bytes v @ rest) 0 = Some (nxp_varint_len v, v)"
proof -
  have "0 < length (varint_bytes v @ rest)"
    using assms varint_len_pos [of v] by (simp add: length_varint_bytes)
  then show ?thesis
    using assms by (simp add: get_varint_def decode_varint_def varint_decode_bytes)
qed

text \<open>A decoder looks at the buffer from its position on, so a prefix can be cut off.\<close>

lemma get_varint_shift [codec_simps]:
  "get_varint (xs @ ys) (length xs + n) =
   map_option (\<lambda>(p, v). (length xs + p, v)) (get_varint ys n)"
  by (cases "nxp_varint_decode (drop n ys)") (auto simp: get_varint_def decode_varint_def)

lemma get_data_shift [codec_simps]:
  "get_data (xs @ ys) (length xs + n) len =
   map_option (\<lambda>(p, d). (length xs + p, d)) (get_data ys n len)"
  by (auto simp: get_data_def)

lemma decode_ack_ranges_shift [codec_simps]:
  "decode_ack_ranges (xs @ ys) (length xs + n) k =
   map_option (\<lambda>(p, rs). (length xs + p, rs)) (decode_ack_ranges ys n k)"
proof (induction k arbitrary: n)
  case (Suc k)
  show ?case
    by (auto simp: get_varint_shift Suc.IH split: option.splits bind_splits)
qed simp

text \<open>The same for a leading varint or a leading byte, in the form the encoders produce.\<close>

lemmas shift_varint [codec_simps] =
  get_varint_shift [of "varint_bytes a" for a, unfolded length_varint_bytes]
  get_data_shift [of "varint_bytes a" for a, unfolded length_varint_bytes]
  decode_ack_ranges_shift [of "varint_bytes a" for a, unfolded length_varint_bytes]

lemmas shift_varint0 [codec_simps] = shift_varint [where n = 0, simplified]

lemmas shift_byte [codec_simps] =
  get_varint_shift [of "[b]" for b, simplified] get_data_shift [of "[b]" for b, simplified]

lemmas get_varint_bytes_end [codec_simps] = get_varint_bytes [where rest = "[]", simplified]

lemma get_data_0 [codec_simps]: "get_data buf pos 0 = Some (pos, None)"
  by (simp add: get_data_def)

lemma get_data_bytes [codec_simps]:
  "length d = unat len \<Longrightarrow> get_data (d @ rest) 0 len =
   Some (unat len, if len = 0 then None else Some d)"
  by (simp add: get_data_def word_gt_0)

section \<open>Round trips, frame by frame\<close>

lemma varint_bytes_small: "t \<le> 63 \<Longrightarrow> varint_bytes t = [ucast t]"
  by (simp add: varint_bytes_def nxp_varint_encode_def)

lemma frame_decode_typed:
  assumes "t \<le> 63" "ucast t \<noteq> (0 :: u8)" "\<not> nxp_frame_is_stream (ucast t)"
  shows "nxp_frame_decode (varint_bytes t @ rest) =
         decode_typed t (varint_bytes t @ rest) (nxp_varint_len t)"
proof -
  have "t \<le> NXP_VARINT_MAX"
    using assms(1) varint_le_trans [of t] by (simp add: NXP_VARINT_MAX_def)
  then show ?thesis
    using assms get_varint_bytes [of t rest]
    by (simp add: nxp_frame_decode_def varint_bytes_small)
qed

lemmas frame_rt_simps = bind_Some_iff put_varint_iff frame_decode_typed nxp_frame_is_stream_def
  decode_typed_def codec_simps length_varint_bytes put_data_def

lemma rt_ping: "nxp_frame_encode_ping buf = Some bs \<Longrightarrow> nxp_frame_decode (bs @ rest) = Some (length bs, Ping)"
  using frame_decode_typed [of 1 rest]
  by (auto simp: nxp_frame_encode_ping_def varint_bytes_small nxp_frame_is_stream_def
      decode_typed_def nxp_varint_len_def)

lemma rt_reset_stream:
  "nxp_frame_encode_reset_stream f buf = Some bs \<Longrightarrow>
   nxp_frame_decode (bs @ rest) = Some (length bs, Reset_stream f)"
  by (auto simp: nxp_frame_encode_reset_stream_def frame_rt_simps decode_reset_stream_def)

lemma rt_stop_sending:
  "nxp_frame_encode_stop_sending f buf = Some bs \<Longrightarrow>
   nxp_frame_decode (bs @ rest) = Some (length bs, Stop_sending f)"
  by (auto simp: nxp_frame_encode_stop_sending_def frame_rt_simps decode_stop_sending_def)

lemma rt_max_data:
  "nxp_frame_encode_max_data v buf = Some bs \<Longrightarrow>
   nxp_frame_decode (bs @ rest) = Some (length bs, Max_data v)"
  by (auto simp: nxp_frame_encode_max_data_def frame_rt_simps decode_one_varint_def)

lemma rt_max_stream_data:
  "nxp_frame_encode_max_stream_data f buf = Some bs \<Longrightarrow>
   nxp_frame_decode (bs @ rest) = Some (length bs, Max_stream_data f)"
  by (auto simp: nxp_frame_encode_max_stream_data_def frame_rt_simps decode_max_stream_data_def)

lemma rt_max_streams:
  "nxp_frame_encode_max_streams f buf = Some bs \<Longrightarrow>
   nxp_frame_decode (bs @ rest) = Some (length bs, Max_streams f)"
  by (cases f) (auto simp: nxp_frame_encode_max_streams_def frame_rt_simps decode_max_streams_def
      split: if_splits)

lemma rt_data_blocked:
  "nxp_frame_encode_data_blocked v buf = Some bs \<Longrightarrow>
   nxp_frame_decode (bs @ rest) = Some (length bs, Data_blocked v)"
  by (auto simp: nxp_frame_encode_data_blocked_def frame_rt_simps decode_one_varint_def)

lemma rt_stream_data_blocked:
  "nxp_frame_encode_stream_data_blocked f buf = Some bs \<Longrightarrow>
   nxp_frame_decode (bs @ rest) = Some (length bs, Stream_data_blocked f)"
  by (auto simp: nxp_frame_encode_stream_data_blocked_def frame_rt_simps
      decode_stream_data_blocked_def)

lemma rt_streams_blocked:
  "nxp_frame_encode_streams_blocked f buf = Some bs \<Longrightarrow>
   nxp_frame_decode (bs @ rest) = Some (length bs, Streams_blocked f)"
  by (cases f) (auto simp: nxp_frame_encode_streams_blocked_def frame_rt_simps
      decode_streams_blocked_def split: if_splits)

lemma rt_retire_connection_id:
  "nxp_frame_encode_retire_connection_id v buf = Some bs \<Longrightarrow>
   nxp_frame_decode (bs @ rest) = Some (length bs, Retire_connection_id v)"
  by (auto simp: nxp_frame_encode_retire_connection_id_def frame_rt_simps decode_one_varint_def)

lemma rt_handshake_done:
  "nxp_frame_encode_handshake_done buf = Some bs \<Longrightarrow>
   nxp_frame_decode (bs @ rest) = Some (length bs, Handshake_done)"
  by (auto simp: nxp_frame_encode_handshake_done_def frame_rt_simps)

lemma rt_heartbeat:
  "nxp_frame_encode_heartbeat v buf = Some bs \<Longrightarrow>
   nxp_frame_decode (bs @ rest) = Some (length bs, Heartbeat v)"
  by (auto simp: nxp_frame_encode_heartbeat_def frame_rt_simps decode_one_varint_def)

lemma rt_stream_priority:
  "nxp_frame_encode_stream_priority f buf = Some bs \<Longrightarrow>
   nxp_frame_decode (bs @ rest) = Some (length bs, Stream_priority f)"
  by (auto simp: nxp_frame_encode_stream_priority_def frame_rt_simps decode_stream_priority_def
      nth_append)

lemma rt_path:
  assumes "length d = 8"
  shows "nxp_frame_encode_path_challenge d buf = Some bs \<Longrightarrow>
         nxp_frame_decode (bs @ rest) = Some (length bs, Path_challenge d)"
    and "nxp_frame_encode_path_response d buf = Some bs \<Longrightarrow>
         nxp_frame_decode (bs @ rest) = Some (length bs, Path_response d)"
  using assms
  by (auto simp: nxp_frame_encode_path_challenge_def nxp_frame_encode_path_response_def
      frame_rt_simps decode_path_def)

lemma rt_new_token:
  "nxp_frame_encode_new_token f buf = Some bs \<Longrightarrow> token_len f \<le> NXP_MAX_TOKEN_LEN \<Longrightarrow>
   data_ok (token_len f) (token f) \<Longrightarrow>
   nxp_frame_decode (bs @ rest) = Some (length bs, New_token f)"
  by (cases f) (auto simp: nxp_frame_encode_new_token_def frame_rt_simps decode_new_token_def
      data_ok_def split: option.splits)

lemma rt_crypto:
  "nxp_frame_encode_crypto f buf = Some bs \<Longrightarrow> cf_length f \<le> NXP_MAX_CRYPTO_FRAME_DATA \<Longrightarrow>
   data_ok (cf_length f) (cf_data f) \<Longrightarrow>
   nxp_frame_decode (bs @ rest) = Some (length bs, Crypto f)"
  by (cases f) (auto simp: nxp_frame_encode_crypto_def frame_rt_simps decode_crypto_def
      data_ok_def split: option.splits)

lemma rt_datagram:
  "nxp_frame_encode_datagram f buf = Some bs \<Longrightarrow> dg_length f \<le> NXP_MAX_DATAGRAM_LEN \<Longrightarrow>
   data_ok (dg_length f) (dg_data f) \<Longrightarrow>
   nxp_frame_decode (bs @ rest) = Some (length bs, Datagram f)"
  by (cases f) (auto simp: nxp_frame_encode_datagram_def frame_rt_simps decode_datagram_def
      data_ok_def word_gt_0 split: option.splits if_splits)

lemma rt_connection_close:
  "nxp_frame_encode_connection_close f buf = Some bs \<Longrightarrow>
   cc_reason_len f \<le> NXP_MAX_CLOSE_REASON_LEN \<Longrightarrow> data_ok (cc_reason_len f) (cc_reason f) \<Longrightarrow>
   (cc_is_app f \<longrightarrow> cc_frame_type f = 0) \<Longrightarrow>
   nxp_frame_decode (bs @ rest) = Some (length bs, Connection_close f)"
  by (cases f) (auto simp: nxp_frame_encode_connection_close_def frame_rt_simps
      decode_connection_close_def data_ok_def word_gt_0 split: option.splits if_splits)

lemma rt_padding:
  assumes "nxp_frame_encode_padding n buf = Some bs" "rest = [] \<or> hd rest \<noteq> 0"
  shows "nxp_frame_decode (bs @ rest) = Some (length bs, Padding n)"
proof -
  have bs: "bs = replicate (unat n) 0" "n \<noteq> 0"
    using assms(1) by (auto simp: nxp_frame_encode_padding_def split: if_splits)
  then have "0 < unat n" by (simp add: unat_gt_0)
  have "takeWhile (\<lambda>b. b = 0) (bs @ rest) = bs"
    using assms(2) bs by (cases rest) (auto simp: takeWhile_append)
  then show ?thesis
    using bs \<open>0 < unat n\<close>
    by (simp add: nxp_frame_decode_def decode_padding_def nth_append)
qed

lemma encode_ack_ranges_iff:
  "encode_ack_ranges buf rs out = Some out' \<Longrightarrow>
   out' = out @ concat (map (\<lambda>r. varint_bytes (gap r) @ varint_bytes (ack_range r)) rs) \<and>
   (\<forall>r\<in>set rs. gap r \<le> NXP_VARINT_MAX \<and> ack_range r \<le> NXP_VARINT_MAX) \<and>
   (length out \<le> length buf \<longrightarrow> length out' \<le> length buf)"
  by (induction buf rs out rule: encode_ack_ranges.induct)
    (auto simp: bind_Some_iff put_varint_iff length_varint_bytes)

lemma decode_ack_ranges_bytes [codec_simps]:
  "\<forall>r\<in>set rs. gap r \<le> NXP_VARINT_MAX \<and> ack_range r \<le> NXP_VARINT_MAX \<Longrightarrow>
   decode_ack_ranges
     (concat (map (\<lambda>r. varint_bytes (gap r) @ varint_bytes (ack_range r)) rs) @ rest) 0 (length rs) =
   Some (length (concat (map (\<lambda>r. varint_bytes (gap r) @ varint_bytes (ack_range r)) rs)), rs)"
  by (induction rs) (auto simp: codec_simps length_varint_bytes)

lemma rt_ack:
  assumes enc: "nxp_frame_encode_ack f buf = Some bs" and ok: "frame_ok (Ack f)"
  shows "nxp_frame_decode (bs @ rest) = Some (length bs, Ack f)"
proof -
  define R where
    "R = concat (map (\<lambda>r. varint_bytes (gap r) @ varint_bytes (ack_range r)) (ranges f))"
  have cnt: "unat (of_nat (length (ranges f)) :: u64) = length (ranges f)"
    "(of_nat (length (ranges f)) :: u64) \<le> 64"
    using ok by (simp_all add: word_le_nat_alt)
  have shape: "bs = varint_bytes (if has_ecn f then NXP_FRAME_ACK_ECN else NXP_FRAME_ACK) @
      varint_bytes (largest_acked f) @ varint_bytes (ack_delay f) @
      varint_bytes (of_nat (length (ranges f))) @ varint_bytes (first_ack_range f) @ R @
      (if has_ecn f then varint_bytes (ect0_count f) @ varint_bytes (ect1_count f) @
         varint_bytes (ecn_ce_count f) else [])"
    and le: "largest_acked f \<le> NXP_VARINT_MAX" "ack_delay f \<le> NXP_VARINT_MAX"
      "of_nat (length (ranges f)) \<le> NXP_VARINT_MAX" "first_ack_range f \<le> NXP_VARINT_MAX"
      "has_ecn f \<Longrightarrow> ect0_count f \<le> NXP_VARINT_MAX \<and> ect1_count f \<le> NXP_VARINT_MAX \<and>
         ecn_ce_count f \<le> NXP_VARINT_MAX"
    and rs: "\<forall>r\<in>set (ranges f). gap r \<le> NXP_VARINT_MAX \<and> ack_range r \<le> NXP_VARINT_MAX"
    using enc by (auto simp: nxp_frame_encode_ack_def R_def bind_Some_iff put_varint_iff
        dest!: encode_ack_ranges_iff split: if_splits)
  have dR: "decode_ack_ranges (R @ ys) 0 (length (ranges f)) = Some (length R, ranges f)" for ys
    unfolding R_def by (rule decode_ack_ranges_bytes [OF rs])
  note skip = get_varint_shift [of R _ 0, simplified] get_varint_shift [of R]
  show ?thesis
  proof (cases "has_ecn f")
    case True
    then show ?thesis using shape le ok cnt
      by (auto simp: frame_rt_simps decode_ack_def dR skip intro!: nxp_frame_ack.equality)
  next
    case False
    then show ?thesis using shape le ok cnt
      by (auto simp: frame_rt_simps decode_ack_def dR skip intro!: nxp_frame_ack.equality)
  qed
qed

lemma rt_new_connection_id:
  assumes "nxp_frame_encode_new_connection_id f buf = Some bs" "frame_ok (New_connection_id f)"
  shows "nxp_frame_decode (bs @ rest) = Some (length bs, New_connection_id f)"
proof -
  have len: "unat (of_nat (length (cid_data (nc_cid f))) :: u8) = length (cid_data (nc_cid f))"
    using assms(2) by (simp add: unat_of_nat NXP_MAX_CID_LEN_def)
  then show ?thesis using assms
    by (cases f) (auto simp: nxp_frame_encode_new_connection_id_def frame_rt_simps
        decode_new_connection_id_def nth_append NXP_MAX_CID_LEN_def)
qed

lemma rt_stream:
  assumes "nxp_frame_encode_stream f buf = Some bs" "frame_ok (Stream f)" "delimited (Stream f) rest"
  shows "nxp_frame_decode (bs @ rest) = Some (length bs, Stream f)"
  using assms
  by (cases f; cases "sf_has_offset f"; cases "sf_has_length f"; cases "sf_fin f")
    (auto simp: nxp_frame_encode_stream_def frame_rt_simps nxp_frame_decode_def
      decode_stream_def data_ok_def word_gt_0 split: option.splits if_splits)

lemma decode_ack_ranges_bound [codec_bounds]:
  "decode_ack_ranges buf pos n = Some (pos', rs) \<Longrightarrow> pos \<le> length buf \<Longrightarrow>
   pos \<le> pos' \<and> pos' \<le> length buf \<and> length rs = n"
  by (induction n arbitrary: pos pos' rs) (fastforce simp: bind_Some_iff dest: get_varint_bound)+

text \<open>A decoder branch entered at a position inside the buffer ends inside it, at or after that
  position, with a frame within the limits.\<close>

definition stays_inside :: "bytes \<Rightarrow> nat \<Rightarrow> (nat \<times> nxp_frame) option \<Rightarrow> bool" where
  "stays_inside buf pos r \<longleftrightarrow>
     (\<forall>pos' f. r = Some (pos', f) \<longrightarrow> pos \<le> pos' \<and> pos' \<le> length buf \<and> frame_ok f)"

lemma inside_simple [codec_bounds]:
  assumes "pos \<le> length buf"
  shows "stays_inside buf pos (Some (pos, Ping))" "stays_inside buf pos (Some (pos, Handshake_done))"
    "stays_inside buf pos None"
    "stays_inside buf pos (decode_reset_stream buf pos)"
    "stays_inside buf pos (decode_stop_sending buf pos)"
    "stays_inside buf pos (decode_max_stream_data buf pos)"
    "stays_inside buf pos (decode_max_streams bidi buf pos)"
    "stays_inside buf pos (decode_stream_data_blocked buf pos)"
    "stays_inside buf pos (decode_streams_blocked bidi buf pos)"
    "stays_inside buf pos (decode_stream_priority buf pos)"
    "(\<And>v. frame_ok (mk v)) \<Longrightarrow> stays_inside buf pos (decode_one_varint mk buf pos)"
  using assms
  by (fastforce simp: stays_inside_def bind_Some_iff decode_reset_stream_def decode_stop_sending_def
      decode_max_stream_data_def decode_max_streams_def decode_stream_data_blocked_def
      decode_streams_blocked_def decode_stream_priority_def decode_one_varint_def
      dest!: get_varint_bound)+

lemma data_ok_get_data:
  "get_data buf pos len = Some (pos', data) \<Longrightarrow> data_ok len data"
  by (auto simp: get_data_def data_ok_def word_gt_0 split: if_splits)

lemma inside_data [codec_bounds]:
  assumes "pos \<le> length buf"
  shows "stays_inside buf pos (decode_crypto buf pos)"
    "stays_inside buf pos (decode_new_token buf pos)"
    "stays_inside buf pos (decode_datagram buf pos)"
    "stays_inside buf pos (decode_connection_close buf pos t)"
  using assms
  by (fastforce simp: stays_inside_def bind_Some_iff decode_crypto_def decode_new_token_def
      decode_datagram_def decode_connection_close_def Let_def not_less
      dest: get_varint_bound get_data_bound data_ok_get_data split: if_splits)+

lemma inside_path [codec_bounds]:
  "stays_inside buf pos (decode_path Path_challenge buf pos)"
  "stays_inside buf pos (decode_path Path_response buf pos)"
  by (auto simp: stays_inside_def decode_path_def)

lemma inside_new_connection_id [codec_bounds]:
  "pos \<le> length buf \<Longrightarrow> stays_inside buf pos (decode_new_connection_id buf pos)"
  by (fastforce simp: stays_inside_def bind_Some_iff decode_new_connection_id_def Let_def
      dest!: get_varint_bound)

lemma inside_ack [codec_bounds]:
  assumes "pos \<le> length buf"
  shows "stays_inside buf pos (decode_ack buf pos t)"
proof -
  have "unat c \<le> 64" if "\<not> 64 < c" for c :: u64
    using that by (simp add: word_less_nat_alt)
  then show ?thesis using assms
    by (fastforce simp: stays_inside_def bind_Some_iff decode_ack_def Let_def
        dest!: get_varint_bound decode_ack_ranges_bound split: if_splits)
qed

lemma inside_stream [codec_bounds]:
  assumes "buf \<noteq> []" "length buf < 2 ^ 64"
  shows "stays_inside buf 1 (decode_stream buf)"
proof -
  have "(of_nat n :: u64) \<le> 1048576" if "\<not> 1048576 < n" for n
    using that by (simp add: word_le_nat_alt)
  then show ?thesis using assms
    by (fastforce simp: stays_inside_def bind_Some_iff decode_stream_def Let_def not_less
        dest: get_varint_bound get_data_bound data_ok_get_data split: if_splits)
qed

lemma inside_typed:
  "pos \<le> length buf \<Longrightarrow> stays_inside buf pos (decode_typed t buf pos)"
  by (simp add: decode_typed_def codec_bounds)

text \<open>Where an encoder ends: after at least one byte and inside the buffer.\<close>

lemma encode_padding_fits:
  "nxp_frame_encode_padding n buf = Some bs \<Longrightarrow> bs \<noteq> [] \<and> length bs \<le> length buf"
  by (auto simp: nxp_frame_encode_padding_def unat_eq_zero split: if_splits)

lemma encode_varints_fits:
  "nxp_frame_encode_ping buf = Some bs \<Longrightarrow> bs \<noteq> [] \<and> length bs \<le> length buf"
  "nxp_frame_encode_reset_stream f1 buf = Some bs \<Longrightarrow> bs \<noteq> [] \<and> length bs \<le> length buf"
  "nxp_frame_encode_stop_sending f2 buf = Some bs \<Longrightarrow> bs \<noteq> [] \<and> length bs \<le> length buf"
  "nxp_frame_encode_max_data v buf = Some bs \<Longrightarrow> bs \<noteq> [] \<and> length bs \<le> length buf"
  "nxp_frame_encode_max_stream_data f3 buf = Some bs \<Longrightarrow> bs \<noteq> [] \<and> length bs \<le> length buf"
  "nxp_frame_encode_max_streams f4 buf = Some bs \<Longrightarrow> bs \<noteq> [] \<and> length bs \<le> length buf"
  "nxp_frame_encode_data_blocked v buf = Some bs \<Longrightarrow> bs \<noteq> [] \<and> length bs \<le> length buf"
  "nxp_frame_encode_stream_data_blocked f5 buf = Some bs \<Longrightarrow> bs \<noteq> [] \<and> length bs \<le> length buf"
  "nxp_frame_encode_streams_blocked f6 buf = Some bs \<Longrightarrow> bs \<noteq> [] \<and> length bs \<le> length buf"
  "nxp_frame_encode_retire_connection_id v buf = Some bs \<Longrightarrow> bs \<noteq> [] \<and> length bs \<le> length buf"
  "nxp_frame_encode_handshake_done buf = Some bs \<Longrightarrow> bs \<noteq> [] \<and> length bs \<le> length buf"
  "nxp_frame_encode_heartbeat v buf = Some bs \<Longrightarrow> bs \<noteq> [] \<and> length bs \<le> length buf"
  by (auto simp: nxp_frame_encode_ping_def nxp_frame_encode_reset_stream_def
      nxp_frame_encode_stop_sending_def nxp_frame_encode_max_data_def
      nxp_frame_encode_max_stream_data_def nxp_frame_encode_max_streams_def
      nxp_frame_encode_data_blocked_def nxp_frame_encode_stream_data_blocked_def
      nxp_frame_encode_streams_blocked_def nxp_frame_encode_retire_connection_id_def
      nxp_frame_encode_handshake_done_def nxp_frame_encode_heartbeat_def bind_Some_iff
      put_varint_iff length_varint_bytes varint.enc_nonempty Suc_le_eq split: if_splits)

lemma encode_data_fits:
  "nxp_frame_encode_crypto f1 buf = Some bs \<Longrightarrow> bs \<noteq> [] \<and> length bs \<le> length buf"
  "nxp_frame_encode_new_token f2 buf = Some bs \<Longrightarrow> bs \<noteq> [] \<and> length bs \<le> length buf"
  "nxp_frame_encode_new_connection_id f3 buf = Some bs \<Longrightarrow> bs \<noteq> [] \<and> length bs \<le> length buf"
  "nxp_frame_encode_path_challenge d buf = Some bs \<Longrightarrow> bs \<noteq> [] \<and> length bs \<le> length buf"
  "nxp_frame_encode_path_response d buf = Some bs \<Longrightarrow> bs \<noteq> [] \<and> length bs \<le> length buf"
  "nxp_frame_encode_connection_close f4 buf = Some bs \<Longrightarrow> bs \<noteq> [] \<and> length bs \<le> length buf"
  "nxp_frame_encode_stream_priority f5 buf = Some bs \<Longrightarrow> bs \<noteq> [] \<and> length bs \<le> length buf"
  "nxp_frame_encode_datagram f6 buf = Some bs \<Longrightarrow> bs \<noteq> [] \<and> length bs \<le> length buf"
  by (auto simp: nxp_frame_encode_crypto_def nxp_frame_encode_new_token_def
      nxp_frame_encode_new_connection_id_def nxp_frame_encode_path_challenge_def
      nxp_frame_encode_path_response_def nxp_frame_encode_connection_close_def
      nxp_frame_encode_stream_priority_def nxp_frame_encode_datagram_def bind_Some_iff
      put_varint_iff put_data_def length_varint_bytes varint.enc_nonempty
      split: if_splits option.splits)

lemma encode_ack_fits:
  "nxp_frame_encode_ack f buf = Some bs \<Longrightarrow> bs \<noteq> [] \<and> length bs \<le> length buf"
  by (fastforce simp: nxp_frame_encode_ack_def bind_Some_iff put_varint_iff length_varint_bytes
      varint.enc_nonempty dest!: encode_ack_ranges_iff split: if_splits)

lemma encode_stream_fits:
  "nxp_frame_encode_stream f buf = Some bs \<Longrightarrow> bs \<noteq> [] \<and> length bs \<le> length buf"
  by (auto simp: nxp_frame_encode_stream_def Let_def bind_Some_iff put_varint_iff put_data_def
      length_varint_bytes split: if_splits option.splits)

section \<open>Properties\<close>

lemma frame_decode_encode:
  assumes "frame_encode f buf = Some bs" "frame_ok f" "delimited f rest"
  shows "nxp_frame_decode (bs @ rest) = Some (length bs, f)"
  using assms
  by (cases f)
    (auto intro: rt_padding rt_ping rt_ack rt_reset_stream rt_stop_sending rt_crypto rt_new_token
      rt_stream rt_max_data rt_max_stream_data rt_max_streams rt_data_blocked
      rt_stream_data_blocked rt_streams_blocked rt_new_connection_id rt_retire_connection_id
      rt_path rt_connection_close rt_handshake_done rt_heartbeat rt_stream_priority rt_datagram
      simp del: frame_ok.simps(2,5,6) delimited.simps(2))

text \<open>C6. A frame within the decoder's limits survives the wire: the bytes its encoder writes are
  decoded to the same frame, and the decoder consumes exactly those bytes, whatever follows them in
  the packet.  The encoders check none of these limits, so they are hypotheses (\<^const>\<open>frame_ok\<close>,
  \<^const>\<open>delimited\<close>): a PADDING run is not empty and is not followed by a zero byte; an ACK frame
  has at most 64 ranges, and ECN counts only with its ECN type; CRYPTO, STREAM and DATAGRAM data,
  tokens and close reasons are at most as long as the \<^verbatim>\<open>NXP_MAX_*\<close> constants say, with a data
  pointer that covers exactly the announced length (a null pointer for length 0); a stream ID and
  a stream offset are at most 2^60, and the offset is 0 when the frame has no offset field; a STREAM
  frame has its length field, or carries no data and ends the packet; a connection ID fits
  \<^verbatim>\<open>NXP_MAX_CID_LEN\<close>, a reset token has 16 bytes and path data 8; an application close carries no
  frame type.\<close>

theorem nxp_frame_roundtrip:
  assumes "frame_encode f buf = Some bs" "frame_ok f" "delimited f rest"
  shows "nxp_frame_decode (bs @ rest) = Some (length bs, f)"
  using frame_decode_encode [OF assms] .

theorem nxp_frame_roundtrip_witness:
  "nxp_frame_decode
     ([0x0e, 0x04, 0x40, 0x64, 0x03, 0xaa, 0xbb, 0xcc] @ [0x01]) =
   Some (8, Stream \<lparr>sf_stream_id = 4, sf_offset = 100, sf_length = 3, sf_has_offset = True,
     sf_has_length = True, sf_fin = False, sf_data = Some [0xaa, 0xbb, 0xcc]\<rparr>)"
proof -
  let ?f = "Stream \<lparr>sf_stream_id = 4, sf_offset = 100, sf_length = 3, sf_has_offset = True,
     sf_has_length = True, sf_fin = False, sf_data = Some [0xaa, 0xbb, 0xcc]\<rparr>"
  have "frame_encode ?f (replicate 16 0) = Some [0x0e, 0x04, 0x40, 0x64, 0x03, 0xaa, 0xbb, 0xcc]"
    by code_simp
  moreover have "frame_ok ?f" "delimited ?f [0x01]" by code_simp+
  ultimately show ?thesis
    using nxp_frame_roundtrip [of ?f "replicate 16 0"] by fastforce
qed

lemma frame_decode_inside:
  assumes "nxp_frame_decode buf = Some (n, f)" "length buf < 2 ^ 64"
  shows "0 < n \<and> n \<le> length buf \<and> frame_ok f"
proof -
  have "buf \<noteq> []" using assms(1) by (auto simp: nxp_frame_decode_def)
  consider "buf ! 0 = 0" "decode_padding buf = Some (n, f)"
    | "nxp_frame_is_stream (buf ! 0)" "decode_stream buf = Some (n, f)"
    | pos t where "get_varint buf 0 = Some (pos, t)" "decode_typed t buf pos = Some (n, f)"
    using assms(1) by (auto simp: nxp_frame_decode_def bind_Some_iff split: if_splits)
  then show ?thesis
  proof cases
    case 1
    let ?k = "length (takeWhile (\<lambda>b. b = 0) buf)"
    have "0 < ?k" using \<open>buf \<noteq> []\<close> 1(1) by (cases buf) auto
    moreover have "?k \<le> length buf" by (rule length_takeWhile_le)
    moreover have "unat (of_nat ?k :: u64) = ?k" using assms(2) calculation(2) by simp
    ultimately show ?thesis using 1(2)
      by (auto simp: decode_padding_def Let_def unat_eq_zero [symmetric])
  next
    case 2
    then show ?thesis using inside_stream [OF \<open>buf \<noteq> []\<close> assms(2)] by (auto simp: stays_inside_def)
  next
    case 3
    then show ?thesis using get_varint_bound inside_typed [of pos buf t]
      by (fastforce simp: stays_inside_def)
  qed
qed

text \<open>C15. The decoder is safe on every input: when it accepts a frame it has consumed at least
  one byte and none beyond the buffer, and the frame respects every limit the code declares
  (lengths of tokens, reasons, CRYPTO, STREAM and DATAGRAM data, stream ids and offsets, the number
  of ACK ranges, the length of a connection ID), with every data pointer covering exactly the
  announced length.\<close>

theorem nxp_frame_decode_safe:
  assumes "nxp_frame_decode buf = Some (n, f)" "length buf < 2 ^ 64"
  shows "0 < n \<and> n \<le> length buf \<and> frame_ok f"
  using frame_decode_inside [OF assms] .

theorem nxp_frame_decode_safe_witness:
  "0 < (8 :: nat) \<and> 8 \<le> length [0x0e, 0x04, 0x40, 0x64, 0x03, 0xaa, 0xbb, 0xcc, 0x01 :: u8] \<and>
   frame_ok (Stream \<lparr>sf_stream_id = 4, sf_offset = 100, sf_length = 3, sf_has_offset = True,
     sf_has_length = True, sf_fin = False, sf_data = Some [0xaa, 0xbb, 0xcc]\<rparr>)"
proof -
  have "nxp_frame_decode [0x0e, 0x04, 0x40, 0x64, 0x03, 0xaa, 0xbb, 0xcc, 0x01] =
      Some (8, Stream \<lparr>sf_stream_id = 4, sf_offset = 100, sf_length = 3, sf_has_offset = True,
        sf_has_length = True, sf_fin = False, sf_data = Some [0xaa, 0xbb, 0xcc]\<rparr>)"
    by code_simp
  from nxp_frame_decode_safe [OF this] show ?thesis by simp
qed

lemma frame_encode_fits:
  "frame_encode f buf = Some bs \<Longrightarrow> bs \<noteq> [] \<and> length bs \<le> length buf"
  by (cases f) (simp_all add: encode_padding_fits encode_varints_fits encode_data_fits encode_ack_fits
      encode_stream_fits)

text \<open>No encoder writes outside the buffer it is given: a successful call has stored at least
  one byte and at most \<^verbatim>\<open>buf_len\<close> bytes.\<close>

theorem nxp_frame_encode_in_bounds:
  "frame_encode f buf = Some bs \<Longrightarrow> 0 < length bs \<and> length bs \<le> length buf"
  using frame_encode_fits by simp

theorem nxp_frame_encode_in_bounds_witness:
  "frame_encode Ping [7, 7] = Some [0x01] \<and> 0 < length [0x01 :: u8] \<and>
   length [0x01 :: u8] \<le> length [7, 7 :: u8]"
proof -
  have e: "frame_encode Ping [7, 7] = Some [0x01]" by code_simp
  show ?thesis using e nxp_frame_encode_in_bounds [OF e] by blast
qed

end
