(* ===== verification/Nxp_Packet.thy ===== *)
theory Nxp_Packet
  imports Nxp_Frame
begin

text \<open>
  Packet headers and packet numbers (\<^verbatim>\<open>core/packet_internal.h\<close>, \<^verbatim>\<open>core/packet.c\<close>) with the
  big-endian helpers of \<^verbatim>\<open>platform/platform_endian.h\<close> they use.  Encoders follow the
  convention of the frame engine (\<^term>\<open>None\<close> for a return value of 0, else the bytes
  stored); decoders return the error code or the filled header.
\<close>

section \<open>Definitions\<close>

abbreviation (input) NXP_PKT_FORM_BIT :: u8 where "NXP_PKT_FORM_BIT \<equiv> 0x80"
abbreviation (input) NXP_PKT_FIXED_BIT :: u8 where "NXP_PKT_FIXED_BIT \<equiv> 0x40"
abbreviation (input) NXP_PKT_LONG_TYPE_MASK :: u8 where "NXP_PKT_LONG_TYPE_MASK \<equiv> 0x30"
abbreviation (input) NXP_PKT_LONG_PN_LEN :: u8 where "NXP_PKT_LONG_PN_LEN \<equiv> 0x03"
abbreviation (input) NXP_PKT_SHORT_SPIN :: u8 where "NXP_PKT_SHORT_SPIN \<equiv> 0x20"
abbreviation (input) NXP_PKT_SHORT_KEY_PHASE :: u8 where "NXP_PKT_SHORT_KEY_PHASE \<equiv> 0x10"
abbreviation (input) NXP_PKT_SHORT_PN_LEN :: u8 where "NXP_PKT_SHORT_PN_LEN \<equiv> 0x03"
abbreviation (input) NXP_MAX_PAYLOAD_LEN :: u64 where "NXP_MAX_PAYLOAD_LEN \<equiv> 65536"

record nxp_pkt_long_header =
  lh_type :: nxp_packet_type
  lh_version :: u32
  lh_dcid :: nxp_conn_id
  lh_scid :: nxp_conn_id
  lh_token :: "bytes option"
  lh_token_len :: u64
  lh_payload_len :: u64
  lh_pkt_num :: u64
  lh_pkt_num_len :: nat
  lh_header_len :: nat
  lh_pkt_num_offset :: nat

record nxp_pkt_short_header =
  sh_dcid :: nxp_conn_id
  sh_spin_bit :: bool
  sh_key_phase :: bool
  sh_pkt_num :: u64
  sh_pkt_num_len :: nat
  sh_header_len :: nat
  sh_pkt_num_offset :: nat

definition nxp_pkt_is_long_header :: "u8 \<Rightarrow> bool" where
  "nxp_pkt_is_long_header first_byte \<longleftrightarrow> first_byte AND NXP_PKT_FORM_BIT \<noteq> 0"

definition nxp_write_u32_be :: "u32 \<Rightarrow> bytes" where
  "nxp_write_u32_be val =
     [ucast (drop_bit 24 val), ucast (drop_bit 16 val), ucast (drop_bit 8 val), ucast val]"

definition nxp_read_u32_be :: "bytes \<Rightarrow> u32" where
  "nxp_read_u32_be buf =
     push_bit 24 (ucast (buf ! 0)) OR push_bit 16 (ucast (buf ! 1)) OR
     push_bit 8 (ucast (buf ! 2)) OR ucast (buf ! 3)"

text \<open>The loops that store and load a packet number in 1 to 4 bytes, big-endian.\<close>

definition write_pkt_num :: "u64 \<Rightarrow> nat \<Rightarrow> bytes" where
  "write_pkt_num pkt_num pkt_num_len =
     map (\<lambda>i. ucast (drop_bit ((pkt_num_len - 1 - i) * 8) pkt_num)) [0..<pkt_num_len]"

definition read_pkt_num :: "bytes \<Rightarrow> u64" where
  "read_pkt_num bs = foldl (\<lambda>pn b. push_bit 8 pn OR ucast b) 0 bs"

fun long_type_bits :: "nxp_packet_type \<Rightarrow> u8 option" where
  "long_type_bits NXP_PKT_INITIAL = Some 0"
| "long_type_bits NXP_PKT_HANDSHAKE = Some 1"
| "long_type_bits NXP_PKT_RETRY = Some 2"
| "long_type_bits NXP_PKT_ZERO_RTT = Some 3"
| "long_type_bits NXP_PKT_SHORT = None"

definition nxp_pkt_encode_long_header :: "nxp_pkt_long_header \<Rightarrow> nat \<Rightarrow> bytes option" where
  "nxp_pkt_encode_long_header hdr buf_len =
     (let dcid = cid_data (lh_dcid hdr); scid = cid_data (lh_scid hdr) in
      if lh_pkt_num_len hdr < 1 \<or> lh_pkt_num_len hdr > 4 then None
      else if length dcid > NXP_MAX_CID_LEN then None
      else if length scid > NXP_MAX_CID_LEN then None
      else do {
        type_bits \<leftarrow> long_type_bits (lh_type hdr);
        let needed = 7 + length dcid + length scid;
            initial = (lh_type hdr = NXP_PKT_INITIAL);
            token_varint_len = nxp_varint_len (lh_token_len hdr);
            needed = (if initial then needed + token_varint_len + unat (lh_token_len hdr) else needed);
            payload_varint_len = nxp_varint_len (lh_payload_len hdr) in
        if initial \<and> token_varint_len = 0 then None
        else if payload_varint_len = 0 then None
        else if buf_len < needed + payload_varint_len + lh_pkt_num_len hdr then None
        else Some (
          [NXP_PKT_FORM_BIT OR NXP_PKT_FIXED_BIT OR push_bit 4 type_bits OR
             of_nat (lh_pkt_num_len hdr - 1)] @
          nxp_write_u32_be (lh_version hdr) @
          [of_nat (length dcid)] @ dcid @
          [of_nat (length scid)] @ scid @
          (if initial then
             varint_bytes (lh_token_len hdr) @
             (case lh_token hdr of Some t \<Rightarrow> take (unat (lh_token_len hdr)) t | None \<Rightarrow> [])
           else []) @
          varint_bytes (lh_payload_len hdr) @
          write_pkt_num (lh_pkt_num hdr) (lh_pkt_num_len hdr)) })"

text \<open>The octets of the connection ID array past its length are read as zero.\<close>

definition nxp_pkt_encode_short_header :: "nxp_pkt_short_header \<Rightarrow> nat \<Rightarrow> nat \<Rightarrow> bytes option" where
  "nxp_pkt_encode_short_header hdr dcid_len buf_len =
     (if sh_pkt_num_len hdr < 1 \<or> sh_pkt_num_len hdr > 4 then None
      else if dcid_len > NXP_MAX_CID_LEN then None
      else if buf_len < 1 + dcid_len + sh_pkt_num_len hdr then None
      else
        let b = NXP_PKT_FIXED_BIT;
            b = (if sh_spin_bit hdr then b OR NXP_PKT_SHORT_SPIN else b);
            b = (if sh_key_phase hdr then b OR NXP_PKT_SHORT_KEY_PHASE else b);
            b = b OR of_nat (sh_pkt_num_len hdr - 1) in
        Some ([b] @
              take dcid_len (cid_data (sh_dcid hdr) @ replicate NXP_MAX_CID_LEN 0) @
              write_pkt_num (sh_pkt_num hdr) (sh_pkt_num_len hdr)))"

text \<open>A connection ID with its length byte, as the long header carries it.\<close>

definition read_cid :: "bytes \<Rightarrow> nat \<Rightarrow> (nat \<times> nxp_conn_id) option" where
  "read_cid buf pos =
     (if pos \<ge> length buf then None else
      let len = unat (buf ! pos); pos = pos + 1 in
      if len > NXP_MAX_CID_LEN then None
      else if pos + len > length buf then None
      else Some (pos + len, \<lparr>cid_data = take len (drop pos buf)\<rparr>))"

definition read_token :: "bytes \<Rightarrow> nat \<Rightarrow> (nat \<times> u64 \<times> bytes option) option" where
  "read_token buf pos = do {
     (consumed, tlen) \<leftarrow> nxp_varint_decode (drop pos buf);
     let pos = pos + consumed in
     if tlen > NXP_MAX_TOKEN_LEN then None
     else if tlen > 0 then
       if pos > length buf \<or> unat tlen > length buf - pos then None
       else Some (pos + unat tlen, tlen, Some (take (unat tlen) (drop pos buf)))
     else Some (pos, tlen, None) }"

definition long_type_of :: "u8 \<Rightarrow> nxp_packet_type" where
  "long_type_of type_bits =
     (if type_bits = 0 then NXP_PKT_INITIAL
      else if type_bits = 1 then NXP_PKT_HANDSHAKE
      else if type_bits = 2 then NXP_PKT_RETRY
      else NXP_PKT_ZERO_RTT)"

definition decode_long_body ::
    "bytes \<Rightarrow> nxp_packet_type \<Rightarrow> nat \<Rightarrow> nxp_pkt_long_header option" where
  "decode_long_body buf type pkt_num_len =
     (let version = nxp_read_u32_be (drop 1 buf) in do {
        (pos, dcid) \<leftarrow> read_cid buf 5;
        (pos, scid) \<leftarrow> read_cid buf pos;
        (pos, tlen, tok) \<leftarrow>
          (if type = NXP_PKT_INITIAL then read_token buf pos else Some (pos, 0, None));
        if type = NXP_PKT_RETRY then
          Some \<lparr>lh_type = type, lh_version = version, lh_dcid = dcid, lh_scid = scid,
            lh_token = tok, lh_token_len = tlen, lh_payload_len = of_nat (length buf - pos),
            lh_pkt_num = 0, lh_pkt_num_len = 0, lh_header_len = pos, lh_pkt_num_offset = 0\<rparr>
        else do {
          (consumed, payload_len) \<leftarrow> nxp_varint_decode (drop pos buf);
          let pos = pos + consumed in
          if payload_len > NXP_MAX_PAYLOAD_LEN then None
          else if pos + pkt_num_len > length buf then None
          else Some \<lparr>lh_type = type, lh_version = version, lh_dcid = dcid, lh_scid = scid,
            lh_token = tok, lh_token_len = tlen, lh_payload_len = payload_len,
            lh_pkt_num = read_pkt_num (take pkt_num_len (drop pos buf)),
            lh_pkt_num_len = pkt_num_len, lh_header_len = pos + pkt_num_len,
            lh_pkt_num_offset = pos\<rparr> } })"

definition nxp_pkt_decode_long_header :: "bytes \<Rightarrow> nxp_error_code + nxp_pkt_long_header" where
  "nxp_pkt_decode_long_header buf =
     (if length buf < 7 then Inl NXP_ERR_INVALID_PACKET
      else if buf ! 0 AND NXP_PKT_FORM_BIT = 0 then Inl NXP_ERR_INVALID_PACKET
      else if buf ! 0 AND NXP_PKT_FIXED_BIT = 0 then Inl NXP_ERR_INVALID_PACKET
      else
        let type = long_type_of (drop_bit 4 (buf ! 0 AND NXP_PKT_LONG_TYPE_MASK));
            pkt_num_len = unat (buf ! 0 AND NXP_PKT_LONG_PN_LEN) + 1 in
        case decode_long_body buf type pkt_num_len of
          None \<Rightarrow> Inl NXP_ERR_INVALID_PACKET
        | Some hdr \<Rightarrow> Inr hdr)"

definition nxp_pkt_decode_short_header ::
    "bytes \<Rightarrow> nat \<Rightarrow> nxp_error_code + nxp_pkt_short_header" where
  "nxp_pkt_decode_short_header buf dcid_len =
     (if dcid_len > NXP_MAX_CID_LEN then Inl NXP_ERR_INVALID_ARGUMENT
      else if length buf < 1 + dcid_len + 1 then Inl NXP_ERR_INVALID_PACKET
      else if buf ! 0 AND NXP_PKT_FORM_BIT \<noteq> 0 then Inl NXP_ERR_INVALID_PACKET
      else if buf ! 0 AND NXP_PKT_FIXED_BIT = 0 then Inl NXP_ERR_INVALID_PACKET
      else
        let first = buf ! 0;
            pkt_num_len = unat (first AND NXP_PKT_SHORT_PN_LEN) + 1;
            pos = 1 + dcid_len in
        if pos + pkt_num_len > length buf then Inl NXP_ERR_INVALID_PACKET
        else Inr \<lparr>sh_dcid = \<lparr>cid_data = take dcid_len (drop 1 buf)\<rparr>,
          sh_spin_bit = (first AND NXP_PKT_SHORT_SPIN \<noteq> 0),
          sh_key_phase = (first AND NXP_PKT_SHORT_KEY_PHASE \<noteq> 0),
          sh_pkt_num = read_pkt_num (take pkt_num_len (drop pos buf)),
          sh_pkt_num_len = pkt_num_len, sh_header_len = pos + pkt_num_len,
          sh_pkt_num_offset = pos\<rparr>)"

definition nxp_pkt_decode_pkt_num :: "u64 \<Rightarrow> u64 \<Rightarrow> nat \<Rightarrow> u64" where
  "nxp_pkt_decode_pkt_num la truncated_pn pn_len =
     (let expected = la + 1;
          pn_nbits = pn_len * 8;
          pn_win = push_bit pn_nbits (1 :: u64);
          pn_hwin = pn_win div 2;
          pn_mask = pn_win - 1;
          candidate = (expected AND NOT pn_mask) OR truncated_pn in
      if candidate + pn_hwin \<le> expected \<and> candidate + pn_win < push_bit 62 1 then candidate + pn_win
      else if candidate > expected + pn_hwin \<and> candidate \<ge> pn_win then candidate - pn_win
      else candidate)"

definition nxp_pkt_num_len :: "u64 \<Rightarrow> u64 \<Rightarrow> nat" where
  "nxp_pkt_num_len pkt_num la =
     (let num_unacked = pkt_num - la in
      if num_unacked < 0x80 then 1
      else if num_unacked < 0x8000 then 2
      else if num_unacked < 0x800000 then 3
      else 4)"

text \<open>Headers whose fields the wire format can carry: RETRY packets apart (their tail is not a
  length and a packet number), a token only in Initial packets.\<close>

definition long_header_ok :: "nxp_pkt_long_header \<Rightarrow> bool" where
  "long_header_ok hdr \<longleftrightarrow>
     lh_type hdr \<noteq> NXP_PKT_RETRY \<and> lh_payload_len hdr \<le> NXP_MAX_PAYLOAD_LEN \<and>
     lh_token_len hdr \<le> NXP_MAX_TOKEN_LEN \<and> data_ok (lh_token_len hdr) (lh_token hdr) \<and>
     (lh_type hdr \<noteq> NXP_PKT_INITIAL \<longrightarrow> lh_token_len hdr = 0)"

text \<open>The token bytes the encoder copies.\<close>

abbreviation token_bytes :: "bytes option \<Rightarrow> bytes" where
  "token_bytes tok \<equiv> (case tok of Some t \<Rightarrow> t | None \<Rightarrow> [])"

section \<open>Packet numbers on the wire\<close>

lemma length_write_pkt_num [simp]: "length (write_pkt_num pn n) = n"
  by (simp add: write_pkt_num_def)

lemma write_pkt_num_Suc: "write_pkt_num pn (Suc n) = write_pkt_num (drop_bit 8 pn) n @ [ucast pn]"
  by (auto simp: write_pkt_num_def Suc_diff_le algebra_simps)

lemma take_bit_split8:
  "push_bit 8 (take_bit (8 * n) (drop_bit 8 x)) OR ucast (ucast x :: u8) = take_bit (8 + 8 * n) (x :: u64)"
proof (rule bit_word_eqI)
  fix m assume "m < LENGTH(64)"
  then show "bit (push_bit 8 (take_bit (8 * n) (drop_bit 8 x)) OR ucast (ucast x :: u8)) m =
      bit (take_bit (8 + 8 * n) x) m"
    by (cases "m < 8") (auto simp: bit_simps dest: u8_bit_less)
qed

lemma read_write_pkt_num: "read_pkt_num (write_pkt_num pn n) = take_bit (8 * n) pn"
  by (induction n arbitrary: pn)
    (simp_all add: write_pkt_num_Suc read_pkt_num_def take_bit_split8, simp add: write_pkt_num_def)

section \<open>Packet number reconstruction\<close>

lemma candidate_unat:
  fixes e pn :: u64
  assumes "n \<le> 32" "unat e \<le> 2 ^ 62"
  shows "unat ((e AND NOT (mask n)) OR take_bit n pn) =
         unat e - unat e mod 2 ^ n + unat pn mod 2 ^ n"
proof -
  let ?h = "e AND NOT (mask n)"
  have bits: "bit ?h k \<Longrightarrow> n \<le> k" "bit (take_bit n x) k \<Longrightarrow> k < n" for k and x :: u64
    by (auto simp: bit_simps)
  have sum: "?h + take_bit n x = ?h OR take_bit n x" for x
    using bits by (intro disjunctive_add) (meson not_le)
  have "?h OR take_bit n e = e"
    by (rule bit_word_eqI) (auto simp: bit_simps)
  then have h: "?h = e - take_bit n e" using sum [of e] by (simp add: eq_diff_eq)
  have un: "unat (take_bit n x) = unat x mod 2 ^ n" for x :: u64
    by (subst unsigned_take_bit_eq) (rule take_bit_eq_mod)
  have "take_bit n e \<le> e" by (simp add: word_le_nat_alt un)
  then have uh: "unat ?h = unat e - unat e mod 2 ^ n" unfolding h by (simp add: unat_sub un)
  have "(2 :: nat) ^ n \<le> 2 ^ 32" using assms(1) by (intro power_increasing) auto
  then have "unat pn mod 2 ^ n < 2 ^ 32" by (meson less_le_trans mod_less_divisor zero_less_numeral zero_less_power)
  then have "unat ?h + unat (take_bit n pn) < 2 ^ 64" using assms(2) uh un by simp
  then show ?thesis using sum [of pn] uh un unat_add_nowrap [of ?h "take_bit n pn"] by simp
qed

lemma nearest_congruent:
  fixes e w h pn c :: nat
  assumes w: "w = 2 * h" "0 < h" and c: "c = e - e mod w + pn mod w"
    and near: "e < pn + h" "pn \<le> e + h"
  shows "pn = (if c + h \<le> e then c + w else if e + h < c then c - w else c)"
    and "e + h < c \<Longrightarrow> w \<le> c"
proof -
  define q where "q = e div w"
  define p where "p = pn div w"
  have e: "e = q * w + e mod w" and pn: "pn = p * w + pn mod w" unfolding q_def p_def by simp_all
  have c': "c = q * w + pn mod w" using c e by simp
  have lt: "e mod w < w" "pn mod w < w" using w by simp_all
  consider "p = q" | "p = q + 1" | "q = p + 1" | "p \<ge> q + 2" | "q \<ge> p + 2" by linarith
  then have "pn = (if c + h \<le> e then c + w else if e + h < c then c - w else c) \<and> (e + h < c \<longrightarrow> w \<le> c)"
  proof cases
    case 4
    then have "q * w + 2 * w \<le> p * w" using mult_le_mono1 [of "q + 2" p w] by (simp only: add_mult_distrib)
    then have False using near e pn lt w(1) by linarith
    then show ?thesis ..
  next
    case 5
    then have "p * w + 2 * w \<le> q * w" using mult_le_mono1 [of "p + 2" q w] by (simp only: add_mult_distrib)
    then have False using near e pn lt w(1) by linarith
    then show ?thesis ..
  qed (use e pn lt w c' near in \<open>auto simp: algebra_simps\<close>)
  then show "pn = (if c + h \<le> e then c + w else if e + h < c then c - w else c)"
    "e + h < c \<Longrightarrow> w \<le> c" by blast+
qed

lemma decode_pkt_num_correct:
  fixes la pn :: u64
  assumes k: "1 \<le> k" "k \<le> 4" and la: "unat la < 2 ^ 62" and pn: "unat pn < 2 ^ 62"
    and near: "unat la + 1 < unat pn + 2 ^ (8 * k) div 2" "unat pn \<le> unat la + 1 + 2 ^ (8 * k) div 2"
  shows "nxp_pkt_decode_pkt_num la (take_bit (8 * k) pn) k = pn"
proof -
  define w :: nat where "w = 2 ^ (8 * k)"
  define h :: nat where "h = w div 2"
  define c :: nat where "c = unat (la + 1) - unat (la + 1) mod w + unat pn mod w"
  have k32: "8 * k \<le> 32" using k by simp
  have w32: "w \<le> 2 ^ 32" unfolding w_def using k32 by (intro power_increasing) auto
  have wh: "w = 2 * h" "0 < h"
  proof -
    obtain m where "8 * k = Suc m" using k by (cases "8 * k") auto
    then show "w = 2 * h" "0 < h" by (simp_all add: w_def h_def)
  qed
  have e: "unat (la + 1) = unat la + 1" using la by (subst unat_add_nowrap) auto
  have win: "push_bit (k * 8) (1 :: u64) = 2 ^ (8 * k)" by (simp add: push_bit_eq_mult mult.commute)
  have uw: "unat (2 ^ (8 * k) :: u64) = w" using k32 by (simp add: w_def unsigned_2p_u64)
  have uh: "unat ((2 ^ (8 * k) :: u64) div 2) = h" by (simp add: unat_div uw h_def)
  have msk: "(2 ^ (8 * k) :: u64) - 1 = mask (8 * k)" by (simp add: mask_eq_exp_minus_1)
  let ?c = "(la + 1 AND NOT (mask (8 * k))) OR take_bit (8 * k) pn"
  have uc: "unat ?c = c" using candidate_unat [OF k32, of "la + 1" pn] e la by (simp add: c_def w_def)
  have "unat pn mod w < w" using wh by simp
  then have cb: "c \<le> 2 ^ 62 + 2 ^ 32" using e la w32 unfolding c_def by linarith
  have near': "unat (la + 1) < unat pn + h" "unat pn \<le> unat (la + 1) + h"
    using near e by (simp_all add: h_def w_def)
  note choose = nearest_congruent [OF wh c_def near']
  have sums: "unat (?c + 2 ^ (8 * k)) = c + w" "unat (?c + 2 ^ (8 * k) div 2) = c + h"
    "unat (la + 1 + 2 ^ (8 * k) div 2) = unat (la + 1) + h"
    using cb w32 wh la by (subst unat_add_nowrap; simp add: uc uw uh e)+
  have u62: "unat (push_bit 62 1 :: u64) = 2 ^ 62" by simp
  have "unat (nxp_pkt_decode_pkt_num la (take_bit (8 * k) pn) k) =
      (if c + h \<le> unat (la + 1) \<and> c + w < 2 ^ 62 then c + w
       else if unat (la + 1) + h < c \<and> w \<le> c then c - w else c)"
    unfolding nxp_pkt_decode_pkt_num_def Let_def win msk
    by (simp add: word_le_nat_alt word_less_nat_alt sums uc uw u62 unat_sub del: push_bit_numeral)
  also have "\<dots> = unat pn" using choose pn by auto
  finally show ?thesis by (simp only: unsigned_word_eqI)
qed

lemma pkt_num_len_window:
  assumes "la \<le> pn" "unat pn - unat la < 2 ^ 31"
  shows "1 \<le> nxp_pkt_num_len pn la" "nxp_pkt_num_len pn la \<le> 4"
    "unat pn \<le> unat la + 2 ^ (8 * nxp_pkt_num_len pn la) div 2"
  using assms unat_sub [OF assms(1)]
  by (auto simp: nxp_pkt_num_len_def Let_def word_less_nat_alt)

section \<open>Headers\<close>

lemma short_first_byte:
  assumes "1 \<le> n" "n \<le> 4"
    and b_def: "b = (let b = NXP_PKT_FIXED_BIT;
            b = (if spin then b OR NXP_PKT_SHORT_SPIN else b);
            b = (if phase then b OR NXP_PKT_SHORT_KEY_PHASE else b) in b OR of_nat (n - 1))"
  shows "b AND NXP_PKT_FORM_BIT = 0" "b AND NXP_PKT_FIXED_BIT \<noteq> 0"
    "(b AND NXP_PKT_SHORT_SPIN \<noteq> 0) = spin" "(b AND NXP_PKT_SHORT_KEY_PHASE \<noteq> 0) = phase"
    "unat (b AND NXP_PKT_SHORT_PN_LEN) + 1 = n"
proof -
  have n: "n = 1 \<or> n = 2 \<or> n = 3 \<or> n = 4" using assms(1,2) by linarith
  show "b AND NXP_PKT_FORM_BIT = 0" "b AND NXP_PKT_FIXED_BIT \<noteq> 0"
    "(b AND NXP_PKT_SHORT_SPIN \<noteq> 0) = spin" "(b AND NXP_PKT_SHORT_KEY_PHASE \<noteq> 0) = phase"
    "unat (b AND NXP_PKT_SHORT_PN_LEN) + 1 = n"
    using n by (cases spin; cases phase; auto simp: b_def)+
qed

lemma short_header_roundtrip:
  assumes enc: "nxp_pkt_encode_short_header hdr dcid_len buf_len = Some bs"
    and cid: "length (cid_data (sh_dcid hdr)) = dcid_len"
  shows "nxp_pkt_decode_short_header (bs @ rest) dcid_len =
    Inr (hdr\<lparr>sh_pkt_num := take_bit (8 * sh_pkt_num_len hdr) (sh_pkt_num hdr),
             sh_header_len := length bs, sh_pkt_num_offset := 1 + dcid_len\<rparr>)"
proof -
  have n: "1 \<le> sh_pkt_num_len hdr" "sh_pkt_num_len hdr \<le> 4" "dcid_len \<le> NXP_MAX_CID_LEN"
    using enc by (auto simp: nxp_pkt_encode_short_header_def split: if_splits)
  define b where "b = (let b = NXP_PKT_FIXED_BIT;
            b = (if sh_spin_bit hdr then b OR NXP_PKT_SHORT_SPIN else b);
            b = (if sh_key_phase hdr then b OR NXP_PKT_SHORT_KEY_PHASE else b) in
            b OR of_nat (sh_pkt_num_len hdr - 1))"
  note fb = short_first_byte [OF n(1,2) b_def]
  have bs: "bs = b # cid_data (sh_dcid hdr) @ write_pkt_num (sh_pkt_num hdr) (sh_pkt_num_len hdr)"
    using enc cid by (auto simp: nxp_pkt_encode_short_header_def b_def Let_def split: if_splits)
  show ?thesis
    using n fb cid unfolding nxp_pkt_decode_short_header_def bs
    by (simp add: Let_def read_write_pkt_num)
qed
lemma long_first_byte:
  assumes "1 \<le> n" "n \<le> 4" "long_type_bits t = Some tb"
    and b_def: "b = (NXP_PKT_FORM_BIT OR NXP_PKT_FIXED_BIT OR push_bit 4 tb OR of_nat (n - 1))"
  shows "b AND NXP_PKT_FORM_BIT \<noteq> 0" "b AND NXP_PKT_FIXED_BIT \<noteq> 0"
    "long_type_of (drop_bit 4 (b AND NXP_PKT_LONG_TYPE_MASK)) = t"
    "unat (b AND NXP_PKT_LONG_PN_LEN) + 1 = n"
proof -
  have n: "n = 1 \<or> n = 2 \<or> n = 3 \<or> n = 4" using assms(1,2) by linarith
  show "b AND NXP_PKT_FORM_BIT \<noteq> 0" "b AND NXP_PKT_FIXED_BIT \<noteq> 0"
    "long_type_of (drop_bit 4 (b AND NXP_PKT_LONG_TYPE_MASK)) = t"
    "unat (b AND NXP_PKT_LONG_PN_LEN) + 1 = n"
    using n assms(3) by (cases t; auto simp: b_def long_type_of_def)+
qed

lemma read_write_u32: "nxp_read_u32_be (nxp_write_u32_be v @ rest) = v"
proof (rule bit_word_eqI)
  fix n assume "n < LENGTH(32)"
  then have "n \<in> {0..<32}" by simp
  then show "bit (nxp_read_u32_be (nxp_write_u32_be v @ rest)) n = bit v n"
    unfolding nxp_read_u32_be_def nxp_write_u32_be_def
    by (simp add: atLeastLessThan_nat_numeral) (elim disjE; simp add: bit_simps)
qed

lemma read_cid_at:
  assumes "drop pos buf = of_nat (length c) # c @ rest" "length c \<le> NXP_MAX_CID_LEN"
  shows "read_cid buf pos = Some (pos + 1 + length c, \<lparr>cid_data = c\<rparr>)"
    and "drop (pos + 1 + length c) buf = rest"
proof -
  have u: "unat (of_nat (length c) :: u8) = length c"
    using assms(2) by (simp add: unat_of_nat NXP_MAX_CID_LEN_def)
  have "pos < length buf" using assms(1) by (metis drop_all list.distinct(1) not_le)
  then have "buf ! pos = of_nat (length c)" using assms(1) by (metis Cons_nth_drop_Suc list.inject)
  moreover have d: "drop (Suc pos) buf = c @ rest" using assms(1) by (metis drop_Suc drop_tl list.sel(3) tl_drop)
  moreover have "length buf = Suc pos + length c + length rest"
    using d \<open>pos < length buf\<close> by (metis Suc_leI add.assoc length_append length_drop le_add_diff_inverse)
  ultimately show "read_cid buf pos = Some (pos + 1 + length c, \<lparr>cid_data = c\<rparr>)"
    using assms(2) u \<open>pos < length buf\<close> by (simp add: read_cid_def Let_def)
  show "drop (pos + 1 + length c) buf = rest" using d
    by (metis Suc_eq_plus1 add.commute append_eq_conv_conj drop_drop)
qed

lemma drop_plus: "drop pos buf = xs @ ys \<Longrightarrow> drop (pos + length xs) buf = ys"
  by (metis add.commute append_eq_conv_conj drop_drop)

lemma length_from_drop: "drop pos buf = xs \<Longrightarrow> xs \<noteq> [] \<Longrightarrow> length buf = pos + length xs"
  by (metis drop_all le_add_diff_inverse length_drop linear)

lemma read_token_at:
  assumes d: "drop pos buf = varint_bytes tn @ token_bytes tok @ rest"
    and ok: "tn \<le> NXP_MAX_TOKEN_LEN" "data_ok tn tok"
  shows "read_token buf pos = Some (pos + nxp_varint_len tn + length (token_bytes tok), tn, tok)"
    and "drop (pos + nxp_varint_len tn + length (token_bytes tok)) buf = rest"
proof -
  have max: "tn \<le> NXP_VARINT_MAX" using ok(1) by (simp add: NXP_VARINT_MAX_def word_le_nat_alt)
  have d': "drop (pos + nxp_varint_len tn) buf = token_bytes tok @ rest"
    using drop_plus [OF d] by (simp add: length_varint_bytes)
  show "drop (pos + nxp_varint_len tn + length (token_bytes tok)) buf = rest"
    by (rule drop_plus [OF d'])
  have "length buf = pos + nxp_varint_len tn + length (token_bytes tok) + length rest"
    using length_from_drop [OF d] varint.enc_nonempty [OF max] by (simp add: length_varint_bytes)
  then show "read_token buf pos = Some (pos + nxp_varint_len tn + length (token_bytes tok), tn, tok)"
    using ok d d' varint_decode_bytes [OF max]
    by (auto simp: read_token_def Let_def data_ok_def word_gt_0 split: option.splits)
qed

lemma long_header_roundtrip:
  assumes enc: "nxp_pkt_encode_long_header hdr buf_len = Some bs" and ok: "long_header_ok hdr"
  shows "nxp_pkt_decode_long_header (bs @ rest) =
    Inr (hdr\<lparr>lh_pkt_num := take_bit (8 * lh_pkt_num_len hdr) (lh_pkt_num hdr),
             lh_header_len := length bs,
             lh_pkt_num_offset := length bs - lh_pkt_num_len hdr\<rparr>)"
proof -
  let ?n = "lh_pkt_num_len hdr" and ?d = "cid_data (lh_dcid hdr)" and ?s = "cid_data (lh_scid hdr)"
  let ?tok = "if lh_type hdr = NXP_PKT_INITIAL
    then varint_bytes (lh_token_len hdr) @ token_bytes (lh_token hdr) else []"
  let ?pn = "write_pkt_num (lh_pkt_num hdr) ?n"
  obtain tb where tb: "long_type_bits (lh_type hdr) = Some tb" and n: "1 \<le> ?n" "?n \<le> 4"
    and cl: "length ?d \<le> NXP_MAX_CID_LEN" "length ?s \<le> NXP_MAX_CID_LEN"
    using enc by (auto simp: nxp_pkt_encode_long_header_def Let_def bind_Some_iff split: if_splits)
  define b where "b = (NXP_PKT_FORM_BIT OR NXP_PKT_FIXED_BIT OR push_bit 4 tb OR of_nat (?n - 1))"
  note fb = long_first_byte [OF n tb b_def]
  have tk: "(case lh_token hdr of Some t \<Rightarrow> take (unat (lh_token_len hdr)) t | None \<Rightarrow> []) =
      token_bytes (lh_token hdr)"
    using ok by (auto simp: long_header_ok_def data_ok_def split: option.splits)
  have bs: "bs = b # nxp_write_u32_be (lh_version hdr) @ of_nat (length ?d) # ?d @
      of_nat (length ?s) # ?s @ ?tok @ varint_bytes (lh_payload_len hdr) @ ?pn"
    using enc tb tk
    by (auto simp: nxp_pkt_encode_long_header_def b_def Let_def bind_Some_iff split: if_splits)
  have max: "lh_payload_len hdr \<le> NXP_VARINT_MAX"
    using ok by (simp add: long_header_ok_def NXP_VARINT_MAX_def word_le_nat_alt)
  define buf where "buf = bs @ rest"
  define p1 where "p1 = 5 + 1 + length ?d"
  define p2 where "p2 = p1 + 1 + length ?s"
  define p3 where "p3 = p2 + length ?tok"
  define p4 where "p4 = p3 + nxp_varint_len (lh_payload_len hdr)"
  have d5: "drop 5 buf = of_nat (length ?d) # ?d @ of_nat (length ?s) # ?s @ ?tok @
      varint_bytes (lh_payload_len hdr) @ ?pn @ rest"
    by (simp add: buf_def bs nxp_write_u32_be_def)
  note c1 = read_cid_at [OF d5 cl(1), folded p1_def]
  note c2 = read_cid_at [OF c1(2) cl(2), folded p2_def]
  have c3: "(if lh_type hdr = NXP_PKT_INITIAL then read_token buf p2 else Some (p2, 0, None)) =
      Some (p3, lh_token_len hdr, lh_token hdr)"
    using read_token_at [of p2 buf "lh_token_len hdr" "lh_token hdr"] c2(2) ok
    by (auto simp: long_header_ok_def p3_def length_varint_bytes data_ok_def split: option.splits)
  have d3: "drop p3 buf = varint_bytes (lh_payload_len hdr) @ ?pn @ rest"
    unfolding p3_def by (rule drop_plus [OF c2(2)])
  then have d4: "drop p4 buf = ?pn @ rest"
    unfolding p4_def using drop_plus by (fastforce simp flip: length_varint_bytes)
  have len: "length bs = p4 + ?n"
    by (simp add: bs p1_def p2_def p3_def p4_def nxp_write_u32_be_def length_varint_bytes)
  have v: "nxp_read_u32_be (drop 1 buf) = lh_version hdr" by (simp add: buf_def bs read_write_u32)
  have lbuf: "length buf = length bs + length rest" by (simp add: buf_def)
  have body: "decode_long_body buf (lh_type hdr) ?n =
    Some (hdr\<lparr>lh_pkt_num := take_bit (8 * ?n) (lh_pkt_num hdr), lh_header_len := length bs,
             lh_pkt_num_offset := length bs - ?n\<rparr>)"
    using d3 d4 ok len lbuf varint_decode_bytes [OF max]
    unfolding decode_long_body_def Let_def v
    by (simp only: c1(1) c2(1) c3 Option.bind.simps prod.case)
      (auto simp: long_header_ok_def p4_def read_write_pkt_num)
  have "7 \<le> length buf" "buf ! 0 = b" by (simp_all add: buf_def bs nxp_write_u32_be_def)
  then show ?thesis unfolding nxp_pkt_decode_long_header_def buf_def [symmetric]
    using fb body by (simp add: Let_def)
qed

section \<open>Properties\<close>



text \<open>\<^const>\<open>nxp_pkt_decode_pkt_num\<close> inverts truncation to 1 to 4 bytes for every packet
  number in the half-window around the expected one, on both sides (reordered packets included),
  with no wrap-around of the 64-bit arithmetic.\<close>

theorem nxp_pkt_decode_pkt_num_window:
  assumes "1 \<le> k" "k \<le> 4" "unat la < 2 ^ 62" "unat pn < 2 ^ 62"
    and "unat la + 1 < unat pn + 2 ^ (8 * k) div 2" "unat pn \<le> unat la + 1 + 2 ^ (8 * k) div 2"
  shows "nxp_pkt_decode_pkt_num la (take_bit (8 * k) pn) k = pn"
  using assms by (rule decode_pkt_num_correct)

theorem nxp_pkt_decode_pkt_num_window_witness:
  "nxp_pkt_decode_pkt_num 0xa82f30ea (take_bit (8 * 2) 0xa82f9b32) 2 = 0xa82f9b32"
  using nxp_pkt_decode_pkt_num_window [of 2 "0xa82f30ea" "0xa82f9b32"] by simp

text \<open>C31. A long header survives the wire: Initial packets with their token, Handshake and 0-RTT
  packets are parsed to the header that was encoded, with the packet number truncated to its
  encoded length and the offsets pointing at the packet number and at the end of the header. Retry
  packets are excluded, whose decoder expects another layout than the encoder writes; a token
  belongs to Initial packets and has at most 1024 bytes, with its data present, and the payload
  length is at most 65536.\<close>

theorem nxp_pkt_long_header_roundtrip:
  assumes "nxp_pkt_encode_long_header hdr buf_len = Some bs" "long_header_ok hdr"
  shows "nxp_pkt_decode_long_header (bs @ rest) =
    Inr (hdr\<lparr>lh_pkt_num := take_bit (8 * lh_pkt_num_len hdr) (lh_pkt_num hdr),
             lh_header_len := length bs,
             lh_pkt_num_offset := length bs - lh_pkt_num_len hdr\<rparr>)"
  using assms by (rule long_header_roundtrip)

theorem nxp_pkt_long_header_roundtrip_witness:
  "nxp_pkt_decode_long_header
     ([0xc0, 0x4e, 0x58, 0x50, 0x01, 0x01, 0xaa, 0x00, 0x02, 0x05, 0x06, 0x10, 0x07] @ [0xff]) =
   Inr \<lparr>lh_type = NXP_PKT_INITIAL, lh_version = 0x4E585001, lh_dcid = \<lparr>cid_data = [0xaa]\<rparr>,
     lh_scid = \<lparr>cid_data = []\<rparr>, lh_token = Some [5, 6], lh_token_len = 2, lh_payload_len = 16,
     lh_pkt_num = 7, lh_pkt_num_len = 1, lh_header_len = 13, lh_pkt_num_offset = 12\<rparr>"
proof -
  let ?hdr = "\<lparr>lh_type = NXP_PKT_INITIAL, lh_version = 0x4E585001, lh_dcid = \<lparr>cid_data = [0xaa]\<rparr>,
     lh_scid = \<lparr>cid_data = []\<rparr>, lh_token = Some [5, 6], lh_token_len = 2, lh_payload_len = 16,
     lh_pkt_num = 7, lh_pkt_num_len = 1, lh_header_len = 0, lh_pkt_num_offset = 0\<rparr>"
  have "nxp_pkt_encode_long_header ?hdr 100 =
      Some [0xc0, 0x4e, 0x58, 0x50, 0x01, 0x01, 0xaa, 0x00, 0x02, 0x05, 0x06, 0x10, 0x07]"
    "long_header_ok ?hdr"
    by code_simp+
  from nxp_pkt_long_header_roundtrip [OF this, of "[0xff]"] show ?thesis by simp
qed

end
