(* ===== verification/Nxp_Buffer.thy ===== *)
theory Nxp_Buffer
  imports Nxp_Prelude
begin

text \<open>
  Circular byte buffers: the \<^verbatim>\<open>memcpy\<close> pairs that copy into and out of a buffer across its
  end, shared by \<^verbatim>\<open>util/ring_buffer.c\<close> and \<^verbatim>\<open>core/stream.c\<close>, the byte-queue contract they
  both provide, and the ring buffer itself.  A copy that would leave the destination or the
  source is \<^term>\<open>None\<close>: undefined behaviour in C, and the safety lemmas show it does not occur.
\<close>

section \<open>Copying in and out of a circular buffer\<close>

definition mem_copy :: "bytes \<Rightarrow> nat \<Rightarrow> bytes \<Rightarrow> bytes option" where
  "mem_copy dst i src =
     (if i + length src \<le> length dst
      then Some (take i dst @ src @ drop (i + length src) dst) else None)"

definition mem_read :: "bytes \<Rightarrow> nat \<Rightarrow> nat \<Rightarrow> bytes option" where
  "mem_read src i n = (if i + n \<le> length src then Some (take n (drop i src)) else None)"

text \<open>The idiom \<^verbatim>\<open>first = cap - pos; if (first > n) first = n; memcpy(data + pos, src, first);
  if (n > first) memcpy(data, src + first, n - first);\<close> and its mirror image.\<close>

definition circ_write :: "bytes \<Rightarrow> nat \<Rightarrow> bytes \<Rightarrow> bytes option" where
  "circ_write data pos src =
     (let first = length data - pos;
          first = (if first > length src then length src else first) in do {
        d \<leftarrow> mem_copy data pos (take first src);
        if length src > first then mem_copy d 0 (drop first src) else Some d })"

definition circ_read :: "bytes \<Rightarrow> nat \<Rightarrow> nat \<Rightarrow> bytes option" where
  "circ_read data pos n =
     (let first = length data - pos;
          first = (if first > n then n else first) in do {
        a \<leftarrow> mem_read data pos first;
        if n > first then do { b \<leftarrow> mem_read data 0 (n - first); Some (a @ b) } else Some a })"

text \<open>The \<open>n\<close> bytes at logical position \<open>s\<close>, counted round the buffer.\<close>

definition ring_slice :: "bytes \<Rightarrow> nat \<Rightarrow> nat \<Rightarrow> bytes" where
  "ring_slice data s n = map (\<lambda>j. data ! ((s + j) mod length data)) [0..<n]"

section \<open>Ring buffer\<close>

record nxp_ring_buffer =
  rb_data :: bytes
  rb_capacity :: u64
  rb_mask :: u64
  rb_write_pos :: u64
  rb_read_pos :: u64

definition next_power_of_2 :: "u64 \<Rightarrow> u64" where
  "next_power_of_2 v =
     (let v = v - 1;
          v = v OR drop_bit 1 v;
          v = v OR drop_bit 2 v;
          v = v OR drop_bit 4 v;
          v = v OR drop_bit 8 v;
          v = v OR drop_bit 16 v;
          v = v OR drop_bit 32 v in
      v + 1)"

text \<open>Allocation may fail; fresh memory has arbitrary contents \<open>mem\<close>.\<close>

definition nxp_ring_buffer_create ::
    "bool \<Rightarrow> bool \<Rightarrow> (nat \<Rightarrow> bytes) \<Rightarrow> u64 \<Rightarrow> nxp_ring_buffer option" where
  "nxp_ring_buffer_create alloc_rb alloc_data mem capacity =
     (let capacity = (if capacity = 0 then 4096 else capacity);
          capacity = next_power_of_2 capacity in
      if \<not> alloc_rb then None
      else if \<not> alloc_data then None
      else Some \<lparr>rb_data = mem (unat capacity), rb_capacity = capacity, rb_mask = capacity - 1,
                 rb_write_pos = 0, rb_read_pos = 0\<rparr>)"

definition nxp_ring_buffer_write ::
    "nxp_ring_buffer \<Rightarrow> bytes \<Rightarrow> (nxp_ring_buffer \<times> nat) option" where
  "nxp_ring_buffer_write rb data =
     (let w = rb_write_pos rb; r = rb_read_pos rb;
          available = rb_capacity rb - (w - r);
          len = (if length data > unat available then unat available else length data) in
      if len = 0 then Some (rb, 0) else
      let w_idx = unat (w AND rb_mask rb);
          first = unat (rb_capacity rb) - w_idx in do {
        d \<leftarrow> (if first \<ge> len then mem_copy (rb_data rb) w_idx (take len data)
              else do {
                d \<leftarrow> mem_copy (rb_data rb) w_idx (take first data);
                mem_copy d 0 (take (len - first) (drop first data)) });
        Some (rb\<lparr>rb_data := d, rb_write_pos := w + of_nat len\<rparr>, len) })"

definition nxp_ring_buffer_read ::
    "nxp_ring_buffer \<Rightarrow> nat \<Rightarrow> (nxp_ring_buffer \<times> bytes) option" where
  "nxp_ring_buffer_read rb len =
     (let w = rb_write_pos rb; r = rb_read_pos rb;
          available = w - r;
          len = (if len > unat available then unat available else len) in
      if len = 0 then Some (rb, []) else
      let r_idx = unat (r AND rb_mask rb);
          first = unat (rb_capacity rb) - r_idx in do {
        buf \<leftarrow> (if first \<ge> len then mem_read (rb_data rb) r_idx len
                else do {
                  a \<leftarrow> mem_read (rb_data rb) r_idx first;
                  b \<leftarrow> mem_read (rb_data rb) 0 (len - first);
                  Some (a @ b) });
        Some (rb\<lparr>rb_read_pos := r + of_nat len\<rparr>, buf) })"

definition nxp_ring_buffer_readable :: "nxp_ring_buffer \<Rightarrow> u64" where
  "nxp_ring_buffer_readable rb = rb_write_pos rb - rb_read_pos rb"

definition nxp_ring_buffer_writable :: "nxp_ring_buffer \<Rightarrow> u64" where
  "nxp_ring_buffer_writable rb = rb_capacity rb - (rb_write_pos rb - rb_read_pos rb)"

definition nxp_ring_buffer_is_empty :: "nxp_ring_buffer \<Rightarrow> bool" where
  "nxp_ring_buffer_is_empty rb \<longleftrightarrow> rb_write_pos rb = rb_read_pos rb"

text \<open>The invariant: the capacity is a power of two (the bound 63 leaves room for the positions
  to be told apart), the mask fits it, and at most a full buffer is unread.\<close>

definition rb_inv :: "nxp_ring_buffer \<Rightarrow> bool" where
  "rb_inv rb \<longleftrightarrow>
     (\<exists>k\<le>63. unat (rb_capacity rb) = 2 ^ k \<and> length (rb_data rb) = 2 ^ k \<and>
             rb_mask rb = mask k) \<and>
     rb_write_pos rb - rb_read_pos rb \<le> rb_capacity rb"

text \<open>The unread bytes, oldest first.\<close>

definition rb_abs :: "nxp_ring_buffer \<Rightarrow> bytes" where
  "rb_abs rb = ring_slice (rb_data rb) (unat (rb_read_pos rb)) (unat (nxp_ring_buffer_readable rb))"

section \<open>The byte-queue contract\<close>

datatype queue_op = Enq bytes | Deq nat

text \<open>A run of producer and consumer calls in any order: the final state, everything that was
  accepted and everything that was delivered.\<close>

fun run_queue ::
    "('s \<Rightarrow> bytes \<Rightarrow> ('s \<times> nat) option) \<Rightarrow> ('s \<Rightarrow> nat \<Rightarrow> ('s \<times> bytes) option) \<Rightarrow>
     's \<Rightarrow> queue_op list \<Rightarrow> ('s \<times> bytes \<times> bytes) option" where
  "run_queue enq deq s [] = Some (s, [], [])"
| "run_queue enq deq s (Enq xs # ops) = do {
     (s, k) \<leftarrow> enq s xs;
     (s, inp, outp) \<leftarrow> run_queue enq deq s ops;
     Some (s, take k xs @ inp, outp) }"
| "run_queue enq deq s (Deq n # ops) = do {
     (s, ys) \<leftarrow> deq s n;
     (s, inp, outp) \<leftarrow> run_queue enq deq s ops;
     Some (s, inp, ys @ outp) }"

locale byte_queue =
  fixes enq :: "'s \<Rightarrow> bytes \<Rightarrow> ('s \<times> nat) option"
    and deq :: "'s \<Rightarrow> nat \<Rightarrow> ('s \<times> bytes) option"
    and abs :: "'s \<Rightarrow> bytes"
    and inv :: "'s \<Rightarrow> bool"
  assumes enq_ok: "inv s \<Longrightarrow>
      \<exists>s' k. enq s xs = Some (s', k) \<and> inv s' \<and> k \<le> length xs \<and> abs s' = abs s @ take k xs"
    and deq_ok: "inv s \<Longrightarrow>
      \<exists>s' ys. deq s n = Some (s', ys) \<and> inv s' \<and> length ys \<le> n \<and> abs s = ys @ abs s'"
begin

lemma run_total: "inv s \<Longrightarrow> \<exists>s' inp outp. run_queue enq deq s ops = Some (s', inp, outp) \<and> inv s'"
proof (induction ops arbitrary: s)
  case (Cons op ops)
  show ?case
  proof (cases op)
    case (Enq xs)
    obtain s1 k where "enq s xs = Some (s1, k)" "inv s1" using enq_ok [OF Cons.prems] by blast
    then show ?thesis using Cons.IH [of s1] Enq by auto
  next
    case (Deq n)
    obtain s1 ys where "deq s n = Some (s1, ys)" "inv s1" using deq_ok [OF Cons.prems] by blast
    then show ?thesis using Cons.IH [of s1] Deq by auto
  qed
qed simp

lemma run_fifo:
  "inv s \<Longrightarrow> run_queue enq deq s ops = Some (s', inp, outp) \<Longrightarrow> abs s @ inp = outp @ abs s'"
proof (induction ops arbitrary: s inp outp)
  case (Cons op ops)
  show ?case
  proof (cases op)
    case (Enq xs)
    obtain s1 k where 1: "enq s xs = Some (s1, k)" "inv s1" "abs s1 = abs s @ take k xs"
      using enq_ok [OF Cons.prems(1)] by blast
    then obtain inp1 where "run_queue enq deq s1 ops = Some (s', inp1, outp)" "inp = take k xs @ inp1"
      using Cons.prems(2) Enq by (auto simp: bind_Some_iff)
    then show ?thesis using Cons.IH [OF 1(2)] 1(3) by fastforce
  next
    case (Deq n)
    obtain s1 ys where 1: "deq s n = Some (s1, ys)" "inv s1" "abs s = ys @ abs s1"
      using deq_ok [OF Cons.prems(1)] by blast
    then obtain outp1 where "run_queue enq deq s1 ops = Some (s', inp, outp1)" "outp = ys @ outp1"
      using Cons.prems(2) Deq by (auto simp: bind_Some_iff)
    then show ?thesis using Cons.IH [OF 1(2)] 1(3) by fastforce
  qed
qed simp

lemma fifo_from_empty:
  assumes "inv s" "abs s = []"
  shows "\<exists>s' inp outp. run_queue enq deq s ops = Some (s', inp, outp) \<and> inp = outp @ abs s'"
  using run_total [OF assms(1)] run_fifo [OF assms(1)] assms(2) by (metis append_Nil)

end

section \<open>Facts on circular copies\<close>

lemma mod_step:
  fixes w j cap :: nat
  assumes "j < cap"
  shows "(w + j) mod cap = (if w mod cap + j < cap then w mod cap + j else w mod cap + j - cap)"
proof -
  define p where "p = w mod cap"
  have "p < cap" using assms by (simp add: p_def)
  then have "(p + j) mod cap = (if p + j < cap then p + j else p + j - cap)"
    using assms le_mod_geq [of cap "p + j"] by auto
  then show ?thesis by (simp only: p_def mod_add_left_eq)
qed

lemma mod_back:
  fixes i pos cap :: nat
  assumes "i < cap" "pos < cap"
  shows "(i + cap - pos) mod cap = (if pos \<le> i then i - pos else i + cap - pos)"
proof (cases "pos \<le> i")
  case True
  then have "i + cap - pos = (i - pos) + cap" by simp
  then show ?thesis using True assms by (simp only: mod_add_self2) simp
qed (use assms in simp)

lemma mod_dist:
  fixes w j cap :: nat
  assumes "j < cap"
  shows "((w + j) mod cap + cap - w mod cap) mod cap = j"
proof -
  define p where "p = w mod cap"
  define q where "q = (w + j) mod cap"
  have "p < cap" "q < cap" using assms by (simp_all add: p_def q_def)
  moreover have "q = (if p + j < cap then p + j else p + j - cap)"
    unfolding p_def q_def by (rule mod_step [OF assms])
  ultimately have "(q + cap - p) mod cap = j" using assms by (auto simp: mod_back)
  then show ?thesis by (simp add: p_def q_def)
qed

lemma circ_write_at:
  assumes "pos < length data" "length src \<le> length data"
  shows "\<exists>d. circ_write data pos src = Some d \<and> length d = length data \<and>
    (\<forall>i<length data. d ! i =
      (let j = (i + length data - pos) mod length data in if j < length src then src ! j else data ! i))"
proof (cases "length src \<le> length data - pos")
  case True
  let ?d = "take pos data @ src @ drop (pos + length src) data"
  have "circ_write data pos src = Some ?d" using assms True
    by (auto simp: circ_write_def mem_copy_def Let_def)
  moreover have "?d ! i = (let j = (i + length data - pos) mod length data in
      if j < length src then src ! j else data ! i)" if "i < length data" for i
    using assms True that by (auto simp: nth_append Let_def mod_back)
  ultimately show ?thesis using assms True by auto
next
  case False
  let ?f = "length data - pos"
  let ?d = "drop ?f src @ drop (length src - ?f) (take pos data @ take ?f src)"
  have "circ_write data pos src = Some ?d" using assms False
    by (auto simp: circ_write_def mem_copy_def Let_def)
  moreover have "?d ! i = (let j = (i + length data - pos) mod length data in
      if j < length src then src ! j else data ! i)" if "i < length data" for i
    using assms False that by (auto simp: nth_append Let_def mod_back add.commute)
  ultimately show ?thesis using assms False by auto
qed

lemma circ_write_ring:
  assumes "data \<noteq> []" "length src \<le> length data"
  shows "\<exists>d. circ_write data (w mod length data) src = Some d \<and> length d = length data \<and>
    (\<forall>j<length data. d ! ((w + j) mod length data) =
       (if j < length src then src ! j else data ! ((w + j) mod length data)))"
proof -
  have "w mod length data < length data" using assms(1) by simp
  then obtain d where d: "circ_write data (w mod length data) src = Some d" "length d = length data"
    "\<forall>i<length data. d ! i = (let j = (i + length data - w mod length data) mod length data in
       if j < length src then src ! j else data ! i)"
    using circ_write_at [OF _ assms(2)] by blast
  have "d ! ((w + j) mod length data) =
      (if j < length src then src ! j else data ! ((w + j) mod length data))" if "j < length data" for j
    using d(3) mod_dist [OF that, of w] assms(1) by (simp add: Let_def)
  then show ?thesis using d by blast
qed

lemma circ_read_ring:
  assumes "data \<noteq> []" "n \<le> length data"
  shows "circ_read data (r mod length data) n = Some (ring_slice data r n)"
proof -
  let ?c = "length data"
  define p where "p = r mod ?c"
  have p: "p < ?c" using assms(1) by (simp add: p_def)
  note idx = mod_step [where cap = ?c and w = r, folded p_def]
  have "circ_read data p n = Some (ring_slice data r n)"
  proof (cases "n \<le> ?c - p")
    case True
    then have "take n (drop p data) = ring_slice data r n"
      using assms p by (intro nth_equalityI) (auto simp: ring_slice_def idx)
    then show ?thesis using True assms p by (auto simp: circ_read_def mem_read_def Let_def)
  next
    case False
    then have "take (?c - p) (drop p data) @ take (n - (?c - p)) data = ring_slice data r n"
      using assms p by (intro nth_equalityI) (auto simp: ring_slice_def idx nth_append add.commute [of p])
    then show ?thesis using False assms p by (auto simp: circ_read_def mem_read_def Let_def)
  qed
  then show ?thesis by (simp add: p_def)
qed

lemma length_ring_slice [simp]: "length (ring_slice data s n) = n"
  by (simp add: ring_slice_def)

lemma ring_slice_mod: "s mod length data = t mod length data \<Longrightarrow> ring_slice data s n = ring_slice data t n"
  unfolding ring_slice_def using mod_add_cong [of s "length data" t] by fastforce

lemma ring_slice_append: "ring_slice data s (m + n) = ring_slice data s m @ ring_slice data (s + m) n"
  by (rule nth_equalityI) (auto simp: ring_slice_def nth_append add.assoc)

lemma ring_slice_take: "m \<le> n \<Longrightarrow> take m (ring_slice data s n) = ring_slice data s m"
  using ring_slice_append [of data s m "n - m"] by simp

lemma ring_slice_drop: "m \<le> n \<Longrightarrow> drop m (ring_slice data s n) = ring_slice data (s + m) (n - m)"
  using ring_slice_append [of data s m "n - m"] by simp

text \<open>Appending at the end of a window that leaves room keeps the window.\<close>

lemma circ_write_append:
  assumes "data \<noteq> []" "n + length src \<le> length data"
  shows "\<exists>d. circ_write data ((r + n) mod length data) src = Some d \<and> length d = length data \<and>
    ring_slice d r (n + length src) = ring_slice data r n @ src"
proof -
  let ?c = "length data"
  obtain d where d: "circ_write data ((r + n) mod ?c) src = Some d" "length d = ?c"
    "\<forall>j<?c. d ! ((r + n + j) mod ?c) =
       (if j < length src then src ! j else data ! ((r + n + j) mod ?c))"
    using circ_write_ring [OF assms(1), of src "r + n"] assms(2) by (meson add_leD2)
  have old: "d ! ((r + j) mod ?c) = data ! ((r + j) mod ?c)" if "j < n" for j
  proof -
    have "r + n + (?c - n + j) = (r + j) + ?c" using assms that by simp
    then have "(r + n + (?c - n + j)) mod ?c = (r + j) mod ?c" by (metis mod_add_self2)
    moreover have "?c - n + j < ?c" "\<not> ?c - n + j < length src" using assms that by auto
    ultimately show ?thesis using d(3) by metis
  qed
  have "ring_slice d r n = ring_slice data r n"
    using old d(2) by (auto simp: ring_slice_def)
  moreover have "ring_slice d (r + n) (length src) = src"
    using d(2,3) assms(2) by (intro nth_equalityI) (auto simp: ring_slice_def)
  ultimately show ?thesis using d(1,2) ring_slice_append by metis
qed

section \<open>Rounding up to a power of two\<close>

lemma next_power_of_2_spec:
  assumes "v \<noteq> 0" "v \<le> 2 ^ 63"
  shows "\<exists>k\<le>63. next_power_of_2 v = 2 ^ k \<and> v \<le> 2 ^ k \<and> (k = 0 \<or> 2 ^ (k - 1) < v)"
proof (cases "v = 1")
  case True
  then show ?thesis by (intro exI [of _ 0]) (simp add: next_power_of_2_def)
next
  case False
  define m where "m = v - 1"
  have m: "m \<noteq> 0" "unat m = unat v - 1" using False assms(1) by (simp_all add: m_def unat_minus_one)
  define a1 where "a1 = m OR drop_bit 1 m"
  define a2 where "a2 = a1 OR drop_bit 2 a1"
  define a3 where "a3 = a2 OR drop_bit 4 a2"
  define a4 where "a4 = a3 OR drop_bit 8 a3"
  define a5 where "a5 = a4 OR drop_bit 16 a4"
  define a6 where "a6 = a5 OR drop_bit 32 a5"
  have "bit m i \<longleftrightarrow> (\<exists>d<1. bit m (i + d))" for i by auto
  then have "bit a1 i \<longleftrightarrow> (\<exists>d<2. bit m (i + d))" for i unfolding a1_def by (rule smear_step) simp
  then have "bit a2 i \<longleftrightarrow> (\<exists>d<4. bit m (i + d))" for i unfolding a2_def by (rule smear_step) simp
  then have "bit a3 i \<longleftrightarrow> (\<exists>d<8. bit m (i + d))" for i unfolding a3_def by (rule smear_step) simp
  then have "bit a4 i \<longleftrightarrow> (\<exists>d<16. bit m (i + d))" for i unfolding a4_def by (rule smear_step) simp
  then have "bit a5 i \<longleftrightarrow> (\<exists>d<32. bit m (i + d))" for i unfolding a5_def by (rule smear_step) simp
  then have "bit a6 i \<longleftrightarrow> (\<exists>d<64. bit m (i + d))" for i unfolding a6_def by (rule smear_step) simp
  then obtain t where t: "a6 = mask (Suc t)" "bit m t" "\<And>j. bit m j \<Longrightarrow> j \<le> t"
    using smear_mask [of a6 m] m(1) by auto
  have "m < 2 ^ 63" using assms(2) m word_le_nat_alt [of v "2 ^ 63"] assms(1)
    by (simp add: word_less_nat_alt unat_gt_0)
  then have t63: "Suc t \<le> 63" using u64_bit_bound t(2) by (metis Suc_leI)
  have res: "next_power_of_2 v = 2 ^ Suc t"
    unfolding next_power_of_2_def Let_def m_def [symmetric] a1_def [symmetric] a2_def [symmetric]
      a3_def [symmetric] a4_def [symmetric] a5_def [symmetric] a6_def [symmetric] t(1)
    by (simp add: mask_eq_exp_minus_1)
  have "m < 2 ^ Suc t" using t63 t(3) by (intro u64_less_pow2I) (auto dest!: t(3))
  moreover have "2 ^ t \<le> m" using u64_bit_bound [of m t t] t(2) by (meson less_irrefl not_le)
  moreover have "unat (2 ^ Suc t :: u64) = 2 ^ Suc t" "unat (2 ^ t :: u64) = 2 ^ t"
    using t63 by (simp_all add: unsigned_2p_u64 del: power_Suc)
  ultimately have "v \<le> 2 ^ Suc t" "2 ^ t < v"
    using m assms(1) unat_gt_0 [of v] by (simp_all add: word_le_nat_alt word_less_nat_alt del: power_Suc)
  then show ?thesis using res t63 by (intro exI [of _ "Suc t"]) simp
qed

section \<open>The ring buffer is a byte queue\<close>

lemma u64_mod_pow2_add:
  assumes "k \<le> 64"
  shows "unat (x + y :: u64) mod 2 ^ k = (unat x + unat y) mod 2 ^ k"
proof -
  have "(2 :: nat) ^ k dvd 2 ^ 64" using assms by (rule le_imp_power_dvd)
  then show ?thesis unfolding unat_word_ariths by (simp add: mod_mod_cancel)
qed

lemma rb_create_inv:
  assumes "capacity \<le> 2 ^ 63" "\<And>n. length (mem n) = n"
    "nxp_ring_buffer_create True True mem capacity = Some rb"
  shows "rb_inv rb \<and> rb_abs rb = [] \<and> capacity \<le> rb_capacity rb"
proof -
  define c where "c = (if capacity = 0 then 4096 else capacity)"
  have "c \<noteq> 0" "c \<le> 2 ^ 63" using assms(1) by (auto simp: c_def)
  then obtain k where k: "k \<le> 63" "next_power_of_2 c = 2 ^ k" "c \<le> 2 ^ k"
    using next_power_of_2_spec by blast
  have u: "unat (2 ^ k :: u64) = 2 ^ k" using k(1) by (simp add: unsigned_2p_u64)
  have rb: "rb = \<lparr>rb_data = mem (2 ^ k), rb_capacity = 2 ^ k, rb_mask = mask k, rb_write_pos = 0,
      rb_read_pos = 0\<rparr>"
    using assms(3) k(2) u
    by (simp add: nxp_ring_buffer_create_def c_def mask_eq_exp_minus_1 Let_def split: if_splits)
  have "rb_inv rb" using k(1) u assms(2) by (auto simp: rb_inv_def rb)
  moreover have "rb_abs rb = []" by (simp add: rb_abs_def rb nxp_ring_buffer_readable_def ring_slice_def)
  moreover have "capacity \<le> rb_capacity rb" using k(3) by (auto simp: rb c_def split: if_splits)
  ultimately show ?thesis by blast
qed

lemma ring_copy_in:
  assumes "len \<le> length xs" "first = length D - i"
  shows "(if first \<ge> len then mem_copy D i (take len xs)
          else do { d \<leftarrow> mem_copy D i (take first xs); mem_copy d 0 (take (len - first) (drop first xs)) })
         = circ_write D i (take len xs)"
  using assms by (cases "first \<ge> len") (auto simp: circ_write_def Let_def take_drop)

lemma ring_copy_out:
  assumes "first = length D - i"
  shows "(if first \<ge> len then mem_read D i len
          else do { a \<leftarrow> mem_read D i first; b \<leftarrow> mem_read D 0 (len - first); Some (a @ b) })
         = circ_read D i len"
  using assms by (cases "first \<ge> len") (auto simp: circ_read_def Let_def)

lemma rb_write_spec:
  assumes "rb_inv rb"
  shows "\<exists>rb' k. nxp_ring_buffer_write rb xs = Some (rb', k) \<and> rb_inv rb' \<and>
    k = min (length xs) (unat (rb_capacity rb) - length (rb_abs rb)) \<and>
    rb_capacity rb' = rb_capacity rb \<and> rb_abs rb' = rb_abs rb @ take k xs"
proof -
  obtain b where b: "b \<le> 63" "unat (rb_capacity rb) = 2 ^ b" "length (rb_data rb) = 2 ^ b"
    "rb_mask rb = mask b" and le: "rb_write_pos rb - rb_read_pos rb \<le> rb_capacity rb"
    using assms by (auto simp: rb_inv_def)
  let ?w = "rb_write_pos rb" and ?r = "rb_read_pos rb"
  define n where "n = unat (?w - ?r)"
  have n: "n \<le> 2 ^ b" using le b(2) by (simp add: n_def word_le_nat_alt)
  have abs: "length (rb_abs rb) = n" by (simp add: rb_abs_def nxp_ring_buffer_readable_def n_def)
  have av: "unat (rb_capacity rb - (?w - ?r)) = 2 ^ b - n" using le b(2) by (simp add: unat_sub n_def)
  define len where "len = min (length xs) (2 ^ b - n)"
  have len_if: "(if length xs > 2 ^ b - n then 2 ^ b - n else length xs) = len" by (simp add: len_def)
  have idx: "unat (?w AND rb_mask rb) = (unat ?r + n) mod 2 ^ b"
    using u64_mod_pow2_add [of b ?r "?w - ?r"] b by (simp add: unat_and_mask n_def)
  have lens: "len \<le> length xs" "n + len \<le> 2 ^ b" "length (take len xs) = len" "rb_data rb \<noteq> []"
    using n b(3) by (auto simp: len_def)
  obtain d where d: "circ_write (rb_data rb) ((unat ?r + n) mod 2 ^ b) (take len xs) = Some d"
    "length d = 2 ^ b" "ring_slice d (unat ?r) (n + len) = ring_slice (rb_data rb) (unat ?r) n @ take len xs"
    using circ_write_append [of "rb_data rb" n "take len xs" "unat ?r"] lens b(3) by auto
  let ?rb = "rb\<lparr>rb_data := d, rb_write_pos := ?w + of_nat len\<rparr>"
  have wr: "nxp_ring_buffer_write rb xs = Some (if len = 0 then rb else ?rb, len)"
    unfolding nxp_ring_buffer_write_def Let_def av len_if idx b(2)
      ring_copy_in [OF lens(1) refl, of "rb_data rb" "(unat ?r + n) mod 2 ^ b", unfolded b(3)] d(1)
    by simp
  have eq: "?w + of_nat len - ?r = (?w - ?r) + of_nat len" by simp
  have "(2 :: nat) ^ b < 2 ^ 64" using b(1) by (intro power_strict_increasing) auto
  then have "n + len < 2 ^ 64" using lens(2) by linarith
  then have new: "unat (?w + of_nat len - ?r) = n + len"
    unfolding eq n_def by (subst unat_add_nowrap) simp_all
  have i: "rb_inv ?rb" using b d(2) lens(2) new by (auto simp: rb_inv_def word_le_nat_alt)
  have a: "rb_abs ?rb = rb_abs rb @ take len xs"
    using d(3) new by (simp add: rb_abs_def nxp_ring_buffer_readable_def n_def)
  have m: "len = min (length xs) (unat (rb_capacity rb) - length (rb_abs rb))"
    by (simp add: len_def b(2) abs)
  show ?thesis
  proof (cases "len = 0")
    case True
    then have "nxp_ring_buffer_write rb xs = Some (rb, len)" "rb_abs rb = rb_abs rb @ take len xs"
      using wr by simp_all
    then show ?thesis using assms m by blast
  next
    case False
    then have "nxp_ring_buffer_write rb xs = Some (?rb, len)" using wr by simp
    moreover have "rb_capacity ?rb = rb_capacity rb" by simp
    ultimately show ?thesis using i a m by blast
  qed
qed

lemma rb_read_spec:
  assumes "rb_inv rb"
  shows "\<exists>rb' ys. nxp_ring_buffer_read rb n = Some (rb', ys) \<and> rb_inv rb' \<and>
    rb_capacity rb' = rb_capacity rb \<and> ys = take n (rb_abs rb) \<and> rb_abs rb' = drop n (rb_abs rb)"
proof -
  obtain b where b: "b \<le> 63" "unat (rb_capacity rb) = 2 ^ b" "length (rb_data rb) = 2 ^ b"
    "rb_mask rb = mask b" and le: "rb_write_pos rb - rb_read_pos rb \<le> rb_capacity rb"
    using assms by (auto simp: rb_inv_def)
  let ?w = "rb_write_pos rb" and ?r = "rb_read_pos rb"
  define a where "a = unat (?w - ?r)"
  define len where "len = min n a"
  have a: "a \<le> 2 ^ b" "len \<le> a" using le b(2) by (simp_all add: a_def len_def word_le_nat_alt)
  have len_if: "(if n > a then a else n) = len" by (simp add: len_def)
  have ne: "rb_data rb \<noteq> []" using b(3) by auto
  have abs: "rb_abs rb = ring_slice (rb_data rb) (unat ?r) a"
    by (simp add: rb_abs_def nxp_ring_buffer_readable_def a_def)
  have idx: "unat (?r AND rb_mask rb) = unat ?r mod 2 ^ b" using b by (simp add: unat_and_mask)
  let ?rb = "rb\<lparr>rb_read_pos := ?r + of_nat len\<rparr>" and ?ys = "ring_slice (rb_data rb) (unat ?r) len"
  have rd: "nxp_ring_buffer_read rb n = Some (if len = 0 then rb else ?rb, ?ys)"
    unfolding nxp_ring_buffer_read_def Let_def a_def [symmetric] len_if idx b(2)
      ring_copy_out [OF refl, where D = "rb_data rb" and i = "unat ?r mod 2 ^ b", unfolded b(3)]
    using circ_read_ring [OF ne, of len "unat ?r"] a b(3) by (simp add: ring_slice_def)
  have ul: "unat (of_nat len :: u64) = len"
    using a(2) le_less_trans [OF _ unat_less_2p64 [of "?w - ?r"], of len] by (simp add: a_def)
  then have "of_nat len \<le> ?w - ?r" using a(2) by (simp add: word_le_nat_alt a_def)
  then have new: "unat (?w - (?r + of_nat len)) = a - len"
    using unat_sub [of "of_nat len" "?w - ?r"] ul by (simp add: a_def diff_diff_eq)
  then have "rb_inv ?rb" using b a by (auto simp: rb_inv_def word_le_nat_alt)
  moreover have "?ys = take n (rb_abs rb)"
    using ring_slice_take [OF a(2), of "rb_data rb" "unat ?r"] 
    by (cases "n \<le> a") (simp_all add: abs len_def)
  moreover have "rb_abs ?rb = drop n (rb_abs rb)"
  proof -
    have "unat (?r + of_nat len) mod 2 ^ b = (unat ?r + len) mod 2 ^ b"
      using u64_mod_pow2_add [of b ?r "of_nat len"] b(1) unfolding ul by linarith
    then have "rb_abs ?rb = ring_slice (rb_data rb) (unat ?r + len) (a - len)"
      using ring_slice_mod [of "unat (?r + of_nat len)" "rb_data rb" "unat ?r + len" "a - len"]
      by (simp add: new b(3) rb_abs_def nxp_ring_buffer_readable_def)
    then show ?thesis using ring_slice_drop [OF a(2), of "rb_data rb" "unat ?r"]
      by (simp add: abs len_def min_def split: if_splits)
  qed
  moreover have "(if len = 0 then rb else ?rb) = ?rb" by simp
  moreover have "rb_capacity ?rb = rb_capacity rb" by simp
  ultimately show ?thesis using rd by (intro exI [of _ ?rb] exI [of _ ?ys]) (simp only: simp_thms)
qed

interpretation ring: byte_queue nxp_ring_buffer_write nxp_ring_buffer_read rb_abs rb_inv
proof
  show "rb_inv s \<Longrightarrow> \<exists>s' k. nxp_ring_buffer_write s xs = Some (s', k) \<and> rb_inv s' \<and>
      k \<le> length xs \<and> rb_abs s' = rb_abs s @ take k xs" for s xs
    using rb_write_spec [of s xs] by auto
  show "rb_inv s \<Longrightarrow> \<exists>s' ys. nxp_ring_buffer_read s n = Some (s', ys) \<and> rb_inv s' \<and>
      length ys \<le> n \<and> rb_abs s = ys @ rb_abs s'" for s n
    using rb_read_spec [of s n] by auto
qed

section \<open>Properties\<close>

text \<open>The ring buffer is a FIFO byte queue under every sequence of producer and consumer
  calls: starting empty, no copy leaves the buffer, every call returns, and the bytes accepted by
  the writes are the bytes delivered by the reads followed by the bytes still unread, in order
  (the positions wrap around 2^64 without harm).\<close>

theorem nxp_ring_buffer_fifo:
  assumes "nxp_ring_buffer_create True True mem capacity = Some rb"
    and "capacity \<le> 2 ^ 63" "\<And>n. length (mem n) = n"
  shows "\<exists>rb' inp outp.
    run_queue nxp_ring_buffer_write nxp_ring_buffer_read rb ops = Some (rb', inp, outp) \<and>
    inp = outp @ rb_abs rb'"
  using rb_create_inv [OF assms(2,3,1)] by (intro ring.fifo_from_empty) blast+

theorem nxp_ring_buffer_fifo_witness:
  "\<exists>rb' inp outp.
    run_queue nxp_ring_buffer_write nxp_ring_buffer_read
      \<lparr>rb_data = replicate 4 0, rb_capacity = 4, rb_mask = 3, rb_write_pos = 0, rb_read_pos = 0\<rparr>
      [Enq [1, 2, 3], Deq 2, Enq [4, 5, 6], Deq 9] = Some (rb', inp, outp) \<and>
    inp = outp @ rb_abs rb'"
proof -
  let ?mem = "\<lambda>n. replicate n (0 :: u8)"
  have "nxp_ring_buffer_create True True ?mem 3 = Some \<lparr>rb_data = replicate 4 0, rb_capacity = 4,
      rb_mask = 3, rb_write_pos = 0, rb_read_pos = 0\<rparr>"
    by (simp add: nxp_ring_buffer_create_def next_power_of_2_def Let_def)
  from nxp_ring_buffer_fifo [OF this, of "[Enq [1, 2, 3], Deq 2, Enq [4, 5, 6], Deq 9]"]
  show ?thesis by (simp del: run_queue.simps)
qed

text \<open>The ring buffer moves as much as it can: a write accepts every byte offered up to the free
  space, a read delivers every byte asked for up to what is buffered, and both keep the invariant.\<close>

theorem nxp_ring_buffer_exact:
  assumes "rb_inv rb"
  shows "(\<exists>rb' k. nxp_ring_buffer_write rb xs = Some (rb', k) \<and> rb_inv rb' \<and>
      k = min (length xs) (unat (rb_capacity rb) - length (rb_abs rb)) \<and>
      rb_abs rb' = rb_abs rb @ take k xs) \<and>
    (\<exists>rb' ys. nxp_ring_buffer_read rb n = Some (rb', ys) \<and> rb_inv rb' \<and>
      ys = take n (rb_abs rb) \<and> rb_abs rb' = drop n (rb_abs rb))"
  using rb_write_spec [OF assms, of xs] rb_read_spec [OF assms, of n] by blast

theorem nxp_ring_buffer_exact_witness:
  "(\<exists>rb' k. nxp_ring_buffer_write \<lparr>rb_data = [7, 8, 9, 6], rb_capacity = 4, rb_mask = 3,
        rb_write_pos = 1, rb_read_pos = 0xFFFFFFFFFFFFFFFF\<rparr> [1, 2, 3] = Some (rb', k) \<and> rb_inv rb' \<and>
      k = min (length [1, 2, 3 :: u8]) (unat (4 :: u64) - length [6, 7 :: u8]) \<and>
      rb_abs rb' = [6, 7] @ take k [1, 2, 3])"
proof -
  let ?rb = "\<lparr>rb_data = [7, 8, 9, 6], rb_capacity = 4, rb_mask = 3, rb_write_pos = 1,
      rb_read_pos = 0xFFFFFFFFFFFFFFFF\<rparr> :: nxp_ring_buffer"
  have inv: "rb_inv ?rb" unfolding rb_inv_def
    by (intro conjI exI [of _ 2]) (simp_all add: mask_eq_exp_minus_1)
  have abs: "rb_abs ?rb = [6, 7]"
    by (simp add: rb_abs_def nxp_ring_buffer_readable_def ring_slice_def upt_conv_Cons)
  show ?thesis
    using nxp_ring_buffer_exact [OF inv, of "[1, 2, 3]" 0, unfolded abs]
    by (simp only: nxp_ring_buffer.simps)
qed

end
