(* ===== verification/Nxp_PQueue.thy ===== *)
theory Nxp_PQueue
  imports Nxp_Prelude "HOL-Library.Multiset"
begin

text \<open>
  The binary min-heap of \<^verbatim>\<open>util/priority_queue.h\<close> and \<^verbatim>\<open>util/priority_queue.c\<close>, refined to a
  multiset of entries.  The list is the used part of the C array, so its length is
  \<^verbatim>\<open>count\<close>.  Count, capacity and indices are 32-bit words as in C; the loops are first shown equal
  to the same loops on natural numbers, for which the heap order is proved.
\<close>

section \<open>Definitions\<close>

record 'v nxp_pq_entry =
  pq_key :: u64
  pq_value :: 'v

record 'v nxp_priority_queue =
  pq_entries :: "'v nxp_pq_entry list"
  pq_capacity :: u32

definition swap_entries :: "'v nxp_pq_entry list \<Rightarrow> nat \<Rightarrow> nat \<Rightarrow> 'v nxp_pq_entry list" where
  "swap_entries es a b = es[a := es ! b, b := es ! a]"

definition PQ_PARENT :: "u32 \<Rightarrow> u32" where "PQ_PARENT i = (i - 1) div 2"

definition PQ_LEFT :: "u32 \<Rightarrow> u32" where "PQ_LEFT i = 2 * i + 1"

definition PQ_RIGHT :: "u32 \<Rightarrow> u32" where "PQ_RIGHT i = 2 * i + 2"

definition nxp_pq_count :: "'v nxp_priority_queue \<Rightarrow> u32" where
  "nxp_pq_count pq = of_nat (length (pq_entries pq))"

function sift_up :: "'v nxp_pq_entry list \<Rightarrow> u32 \<Rightarrow> 'v nxp_pq_entry list" where
  "sift_up es idx =
     (if idx > 0 then
        let parent = PQ_PARENT idx in
        if pq_key (es ! unat parent) \<le> pq_key (es ! unat idx) then es
        else sift_up (swap_entries es (unat parent) (unat idx)) parent
      else es)"
  by pat_completeness auto
termination
proof (relation "measure (\<lambda>(es, idx). unat idx)", simp)
  fix es :: "'v nxp_pq_entry list" and idx parent :: u32
  assume "0 < idx" "parent = PQ_PARENT idx"
  then have "unat parent = (unat idx - 1) div 2" "0 < unat idx"
    by (simp_all add: PQ_PARENT_def unat_div unat_minus_one word_gt_0 unat_gt_0)
  then show "((swap_entries es (unat parent) (unat idx), parent), es, idx) \<in> measure (\<lambda>(es, idx). unat idx)"
    by simp
qed

text \<open>The loop of \<^verbatim>\<open>sift_down\<close> has no bound of its own, and the 32-bit child indices wrap.\<close>

partial_function (option) sift_down ::
    "'v nxp_pq_entry list \<Rightarrow> u32 \<Rightarrow> 'v nxp_pq_entry list option" where
  "sift_down es idx =
     (let count = of_nat (length es);
          smallest = idx;
          left = PQ_LEFT idx;
          right = PQ_RIGHT idx;
          smallest = (if left < count \<and> pq_key (es ! unat left) < pq_key (es ! unat smallest)
                      then left else smallest);
          smallest = (if right < count \<and> pq_key (es ! unat right) < pq_key (es ! unat smallest)
                      then right else smallest) in
      if smallest = idx then Some es
      else sift_down (swap_entries es (unat idx) (unat smallest)) smallest)"

declare sift_down.simps [code]

definition nxp_pq_create :: "bool \<Rightarrow> bool \<Rightarrow> u32 \<Rightarrow> 'v nxp_priority_queue option" where
  "nxp_pq_create alloc_pq alloc_entries initial_capacity =
     (let initial_capacity = (if initial_capacity < 16 then 16 else initial_capacity) in
      if \<not> alloc_pq then None
      else if \<not> alloc_entries then None
      else Some \<lparr>pq_entries = [], pq_capacity = initial_capacity\<rparr>)"

text \<open>\<open>alloc\<close> says whether \<^verbatim>\<open>realloc\<close> succeeds.  The doubled capacity wraps at 32 bits; when the new
  array then has no place for the entry, the write is out of bounds and the result is \<^const>\<open>None\<close>.\<close>

definition nxp_pq_push ::
    "bool \<Rightarrow> 'v nxp_priority_queue \<Rightarrow> u64 \<Rightarrow> 'v \<Rightarrow> (bool \<times> 'v nxp_priority_queue) option" where
  "nxp_pq_push alloc pq key value =
     (let grow = nxp_pq_count pq \<ge> pq_capacity pq;
          new_cap = (if grow then pq_capacity pq * 2 else pq_capacity pq) in
      if grow \<and> \<not> alloc then Some (False, pq)
      else if nxp_pq_count pq \<ge> new_cap then None
      else Some (True, pq\<lparr>pq_capacity := new_cap,
              pq_entries := sift_up (pq_entries pq @ [\<lparr>pq_key = key, pq_value = value\<rparr>])
                              (nxp_pq_count pq)\<rparr>))"

definition nxp_pq_peek :: "'v nxp_priority_queue \<Rightarrow> 'v nxp_pq_entry option" where
  "nxp_pq_peek pq =
     (if nxp_pq_count pq = 0 then None else Some (pq_entries pq ! 0))"

text \<open>The entry (none for \<^verbatim>\<open>false\<close>) and the queue left; the whole is \<^const>\<open>None\<close> when the loop does
  not end.\<close>

definition nxp_pq_pop ::
    "'v nxp_priority_queue \<Rightarrow> ('v nxp_pq_entry option \<times> 'v nxp_priority_queue) option" where
  "nxp_pq_pop pq =
     (let es = pq_entries pq in
      if nxp_pq_count pq = 0 then Some (None, pq)
      else
        let top = es ! 0; count = nxp_pq_count pq - 1 in do {
          es' \<leftarrow> (if count > 0 then sift_down ((take (unat count) es)[0 := es ! unat count]) 0
                 else Some (take (unat count) es));
          Some (Some top, pq\<lparr>pq_entries := es'\<rparr>) })"

definition nxp_pq_is_empty :: "'v nxp_priority_queue \<Rightarrow> bool" where
  "nxp_pq_is_empty pq \<longleftrightarrow> nxp_pq_count pq = 0"

section \<open>The same on natural numbers\<close>

text \<open>The reference the loops are compared with: no index wraps.\<close>

definition par :: "nat \<Rightarrow> nat" where "par i = (i - 1) div 2"

definition lch :: "nat \<Rightarrow> nat" where "lch i = 2 * i + 1"

definition rch :: "nat \<Rightarrow> nat" where "rch i = 2 * i + 2"

function up_ref :: "'v nxp_pq_entry list \<Rightarrow> nat \<Rightarrow> 'v nxp_pq_entry list" where
  "up_ref es idx =
     (if idx > 0 \<and> \<not> pq_key (es ! par idx) \<le> pq_key (es ! idx)
      then up_ref (swap_entries es (par idx) idx) (par idx) else es)"
  by pat_completeness auto
termination by (relation "measure snd") (auto simp: par_def)

text \<open>The child the loop descends to, when it does.\<close>

definition smallest_of :: "'v nxp_pq_entry list \<Rightarrow> nat \<Rightarrow> nat" where
  "smallest_of es idx =
     (let smallest = (if lch idx < length es \<and> pq_key (es ! lch idx) < pq_key (es ! idx)
                      then lch idx else idx) in
      if rch idx < length es \<and> pq_key (es ! rch idx) < pq_key (es ! smallest)
      then rch idx else smallest)"

function down_ref :: "'v nxp_pq_entry list \<Rightarrow> nat \<Rightarrow> 'v nxp_pq_entry list" where
  "down_ref es idx =
     (if smallest_of es idx = idx then es
      else down_ref (swap_entries es idx (smallest_of es idx)) (smallest_of es idx))"
  by pat_completeness auto
termination
  by (relation "measure (\<lambda>(es, idx). length es - idx)")
    (auto simp: swap_entries_def smallest_of_def lch_def rch_def Let_def split: if_splits)

declare sift_up.simps [simp del] up_ref.simps [simp del] down_ref.simps [simp del]

text \<open>No entry is smaller than its parent.\<close>

definition heap :: "'v nxp_pq_entry list \<Rightarrow> bool" where
  "heap es \<longleftrightarrow> (\<forall>i<length es. 0 < i \<longrightarrow> pq_key (es ! par i) \<le> pq_key (es ! i))"

text \<open>The array has room for the entries.  With at most 2^31 of them no index of the loops wraps.\<close>

definition pq_inv :: "'v nxp_priority_queue \<Rightarrow> bool" where
  "pq_inv pq \<longleftrightarrow> heap (pq_entries pq) \<and> 0 < pq_capacity pq \<and>
     length (pq_entries pq) \<le> unat (pq_capacity pq) \<and> length (pq_entries pq) \<le> 2 ^ 31"

definition pq_abs :: "'v nxp_priority_queue \<Rightarrow> 'v nxp_pq_entry multiset" where
  "pq_abs pq = mset (pq_entries pq)"

text \<open>Pushing a list of entries, and popping until the queue is empty, at most \<open>n\<close> times.\<close>

fun push_all :: "('q \<Rightarrow> 'e \<Rightarrow> 'q option) \<Rightarrow> 'q \<Rightarrow> 'e list \<Rightarrow> 'q option" where
  "push_all push q [] = Some q"
| "push_all push q (e # es) = do { q' \<leftarrow> push q e; push_all push q' es }"

fun drain :: "('q \<Rightarrow> ('e option \<times> 'q) option) \<Rightarrow> nat \<Rightarrow> 'q \<Rightarrow> ('e list \<times> 'q) option" where
  "drain pop 0 q = Some ([], q)"
| "drain pop (Suc n) q = do {
     (e, q') \<leftarrow> pop q;
     case e of
       None \<Rightarrow> Some ([], q')
     | Some e \<Rightarrow> do { (out, q'') \<leftarrow> drain pop n q'; Some (e # out, q'') } }"

text \<open>Heap order everywhere except above \<open>j\<close> (going up) or below \<open>j\<close> (going down), where the
  grandparent still bounds the grandchildren.\<close>

definition up_inv :: "'v nxp_pq_entry list \<Rightarrow> nat \<Rightarrow> bool" where
  "up_inv es j \<longleftrightarrow>
     (\<forall>i<length es. 0 < i \<longrightarrow> i \<noteq> j \<longrightarrow> pq_key (es ! par i) \<le> pq_key (es ! i)) \<and>
     (\<forall>i<length es. 0 < i \<longrightarrow> par i = j \<longrightarrow> 0 < j \<longrightarrow> pq_key (es ! par j) \<le> pq_key (es ! i))"

definition down_inv :: "'v nxp_pq_entry list \<Rightarrow> nat \<Rightarrow> bool" where
  "down_inv es j \<longleftrightarrow>
     (\<forall>i<length es. 0 < i \<longrightarrow> par i \<noteq> j \<longrightarrow> pq_key (es ! par i) \<le> pq_key (es ! i)) \<and>
     (\<forall>i<length es. 0 < i \<longrightarrow> par i = j \<longrightarrow> 0 < j \<longrightarrow> pq_key (es ! par j) \<le> pq_key (es ! i))"

section \<open>The priority-queue contract\<close>

locale min_queue =
  fixes push :: "'q \<Rightarrow> 'e \<Rightarrow> 'q option" and pop :: "'q \<Rightarrow> ('e option \<times> 'q) option"
    and key :: "'e \<Rightarrow> 'k::linorder" and abs :: "'q \<Rightarrow> 'e multiset" and inv :: "'q \<Rightarrow> bool"
    and room :: nat
  assumes push_law: "inv q \<Longrightarrow> size (abs q) < room \<Longrightarrow>
      \<exists>q'. push q e = Some q' \<and> inv q' \<and> abs q' = add_mset e (abs q)"
    and pop_empty: "inv q \<Longrightarrow> abs q = {#} \<Longrightarrow> pop q = Some (None, q)"
    and pop_law: "inv q \<Longrightarrow> abs q \<noteq> {#} \<Longrightarrow>
      \<exists>e q'. pop q = Some (Some e, q') \<and> inv q' \<and> abs q = add_mset e (abs q') \<and> (\<forall>x\<in>#abs q. key e \<le> key x)"
begin

lemma drain_sorts:
  "inv q \<Longrightarrow> size (abs q) \<le> n \<Longrightarrow>
   \<exists>out q'. drain pop n q = Some (out, q') \<and> inv q' \<and> abs q' = {#} \<and> mset out = abs q \<and> sorted (map key out)"
proof (induction n arbitrary: q)
  case (Suc n)
  show ?case
  proof (cases "abs q = {#}")
    case True
    then show ?thesis using pop_empty Suc.prems(1) by simp
  next
    case False
    then obtain e q1 where p: "pop q = Some (Some e, q1)" "inv q1" "abs q = add_mset e (abs q1)"
        "\<forall>x\<in>#abs q. key e \<le> key x"
      using pop_law [OF Suc.prems(1)] by blast
    then obtain out q' where d: "drain pop n q1 = Some (out, q')" "inv q'" "abs q' = {#}"
        "mset out = abs q1" "sorted (map key out)"
      using Suc.IH [of q1] Suc.prems(2) by auto
    have "\<forall>x\<in>set out. key e \<le> key x" using p(3,4) d(4) set_mset_mset [of out] by auto
    then show ?thesis using p d by simp
  qed
qed simp

lemma pushes:
  "inv q \<Longrightarrow> size (abs q) + length es \<le> room \<Longrightarrow>
   \<exists>q'. push_all push q es = Some q' \<and> inv q' \<and> abs q' = abs q + mset es"
proof (induction es arbitrary: q)
  case (Cons e es)
  then obtain q1 where "push q e = Some q1" "inv q1" "abs q1 = add_mset e (abs q)"
    using push_law [of q e] by auto
  then show ?case using Cons.IH [of q1] Cons.prems(2) by simp
qed simp

lemma sort_by_queue:
  assumes "inv q" "abs q = {#}" "length es \<le> room"
  shows "\<exists>q1 out q2. push_all push q es = Some q1 \<and> drain pop (length es) q1 = Some (out, q2) \<and>
    inv q2 \<and> abs q2 = {#} \<and> mset out = mset es \<and> sorted (map key out)"
proof -
  obtain q1 where "push_all push q es = Some q1" "inv q1" "abs q1 = mset es"
    using pushes [of q es] assms by auto
  then show ?thesis using drain_sorts [of q1 "length es"] by simp
qed

end

section \<open>Heap order\<close>

lemma par_less: "0 < i \<Longrightarrow> par i < i" "par i \<le> i"
  by (auto simp: par_def)

lemma par_child: "par (lch i) = i" "par (rch i) = i" "i < lch i" "i < rch i"
  by (auto simp: par_def lch_def rch_def)

lemma child_cases: "0 < i \<Longrightarrow> par i = j \<Longrightarrow> i = lch j \<or> i = rch j"
  by (auto simp: par_def lch_def rch_def)

lemma smallest_of_cases:
  "smallest_of es idx = idx \<or>
   smallest_of es idx < length es \<and> par (smallest_of es idx) = idx \<and> idx < smallest_of es idx"
  by (auto simp: smallest_of_def Let_def par_child)

lemma nth_swap:
  "a < length es \<Longrightarrow> b < length es \<Longrightarrow> i < length es \<Longrightarrow>
   swap_entries es a b ! i = (if i = b then es ! a else if i = a then es ! b else es ! i)"
  by (auto simp: swap_entries_def nth_list_update)

lemma length_swap [simp]: "length (swap_entries es a b) = length es"
  by (simp add: swap_entries_def)

lemma mset_swap: "a < length es \<Longrightarrow> b < length es \<Longrightarrow> mset (swap_entries es a b) = mset es"
  unfolding swap_entries_def by (rule mset_swap)

lemma mset_up_ref: "idx < length es \<Longrightarrow> mset (up_ref es idx) = mset es"
proof (induction es idx rule: up_ref.induct)
  case (1 es idx)
  then show ?case by (subst up_ref.simps) (auto simp: mset_swap par_less(2) [THEN le_less_trans])
qed

lemma mset_down_ref: "idx < length es \<Longrightarrow> mset (down_ref es idx) = mset es"
proof (induction es idx rule: down_ref.induct)
  case (1 es idx)
  show ?case
  proof (cases "smallest_of es idx = idx")
    case False
    then have "smallest_of es idx < length es" using smallest_of_cases [of es idx] by simp
    then show ?thesis using 1 False by (subst down_ref.simps) (simp add: mset_swap)
  qed (simp add: down_ref.simps)
qed

lemma up_step:
  assumes inv: "up_inv es j" and j: "j < length es" "0 < j"
    and gt: "\<not> pq_key (es ! par j) \<le> pq_key (es ! j)"
  shows "up_inv (swap_entries es (par j) j) (par j)"
proof -
  let ?p = "par j" and ?k = "\<lambda>i. pq_key (es ! i)" and ?es = "swap_entries es (par j) j"
  have p: "?p < length es" "?p \<noteq> j" using j par_less(1) [of j] by auto
  have pl: "par i < length es" if "i < length es" for i using that par_less(2) [of i] by simp
  note nth = nth_swap [OF p(1) j(1)]
  have i1: "?k (par i) \<le> ?k i" if "i < length es" "0 < i" "i \<noteq> j" for i
    using inv that by (simp add: up_inv_def)
  have i2: "?k ?p \<le> ?k i" if "i < length es" "0 < i" "par i = j" for i
    using inv that j(2) by (auto simp: up_inv_def)
  have lt: "?k j \<le> ?k ?p" using gt by simp
  have "pq_key (?es ! par i) \<le> pq_key (?es ! i)" if i: "i < length es" "0 < i" "i \<noteq> ?p" for i
  proof -
    consider "i = j" | "i \<noteq> j" "par i = j" | "i \<noteq> j" "par i = ?p" | "i \<noteq> j" "par i \<noteq> j" "par i \<noteq> ?p"
      by blast
    then show ?thesis
      using lt i1 [OF i(1,2)] i2 [OF i(1,2)] i p pl [OF i(1)]
      by cases (simp_all add: nth)
  qed
  moreover have "pq_key (?es ! par ?p) \<le> pq_key (?es ! i)"
    if i: "i < length es" "0 < i" "par i = ?p" "0 < ?p" for i
  proof -
    have "par ?p \<noteq> ?p" "par ?p \<noteq> j" "?k (par ?p) \<le> ?k ?p" 
      using i1 [of ?p] i p par_less(1) [of ?p] par_less(1) [of j] j by auto
    then show ?thesis using i1 [OF i(1,2)] i p pl [OF p(1)]
      by (cases "i = j") (auto simp: nth)
  qed
  ultimately show ?thesis by (simp add: up_inv_def)
qed

lemma heap_up_ref: "up_inv es j \<Longrightarrow> j < length es \<Longrightarrow> heap (up_ref es j)"
proof (induction es j rule: up_ref.induct)
  case (1 es j)
  show ?case
  proof (cases "0 < j \<and> \<not> pq_key (es ! par j) \<le> pq_key (es ! j)")
    case True
    then show ?thesis using 1 up_step [of es j] par_less(2) [of j] by (subst up_ref.simps) auto
  next
    case False
    then have "heap es" using 1(2) by (auto simp: heap_def up_inv_def)
    then show ?thesis using False by (subst up_ref.simps) auto
  qed
qed

lemma down_step:
  assumes inv: "down_inv es j" and s: "s < length es" "par s = j" "0 < s"
    and small: "pq_key (es ! s) \<le> pq_key (es ! j)"
      "\<And>i. i < length es \<Longrightarrow> 0 < i \<Longrightarrow> par i = j \<Longrightarrow> pq_key (es ! s) \<le> pq_key (es ! i)"
  shows "down_inv (swap_entries es j s) s"
proof -
  let ?k = "\<lambda>i. pq_key (es ! i)" and ?es = "swap_entries es j s"
  have j: "j < length es" "j \<noteq> s" using s par_less(1) [of s] by auto
  have pl: "par i < length es" if "i < length es" for i using that par_less(2) [of i] by simp
  note nth = nth_swap [OF j(1) s(1)]
  have i1: "?k (par i) \<le> ?k i" if "i < length es" "0 < i" "par i \<noteq> j" for i
    using inv that by (simp add: down_inv_def)
  have i2: "?k (par j) \<le> ?k s" if "0 < j"
    using inv that s by (auto simp: down_inv_def)
  have "pq_key (?es ! par i) \<le> pq_key (?es ! i)"
    if i: "i < length es" "0 < i" "par i \<noteq> s" for i
  proof -
    consider "i = s" | "i \<noteq> s" "par i = j" | "i = j" | "i \<noteq> s" "i \<noteq> j" "par i \<noteq> j" by blast
    then show ?thesis
    proof cases
      case 2
      then have "i \<noteq> j" using par_less(1) [OF i(2)] by auto
      then show ?thesis using 2 small(2) [OF i(1,2)] i s j by (simp add: nth)
    next
      case 3
      then have "par j \<noteq> j" using par_less(1) [OF i(2)] by auto
      then show ?thesis using 3 i2 i s j pl [OF i(1)] by (simp add: nth)
    qed (use small(1) i1 [OF i(1,2)] i s j pl [OF i(1)] in \<open>simp_all add: nth\<close>)
  qed
  moreover have "pq_key (?es ! par s) \<le> pq_key (?es ! i)"
    if i: "i < length es" "0 < i" "par i = s" for i
  proof -
    have "i \<noteq> s" "i \<noteq> j" using par_less(1) [OF i(2)] par_less(1) [OF s(3)] i s by auto
    then show ?thesis using i1 [OF i(1,2)] i s j by (simp add: nth)
  qed
  ultimately show ?thesis by (simp add: down_inv_def)
qed

lemma smallest_of_least:
  "pq_key (es ! smallest_of es idx) \<le> pq_key (es ! idx)"
  "i < length es \<Longrightarrow> 0 < i \<Longrightarrow> par i = idx \<Longrightarrow>
   pq_key (es ! smallest_of es idx) \<le> pq_key (es ! i)"
  by (auto simp: smallest_of_def Let_def dest!: child_cases)

lemma heap_down_ref: "down_inv es j \<Longrightarrow> heap (down_ref es j)"
proof (induction "length es - j" arbitrary: es j rule: less_induct)
  case less
  show ?case
  proof (cases "smallest_of es j = j")
    case True
    then have "heap es"
      using less.prems smallest_of_least(2) [where es = es and idx = j] by (fastforce simp: heap_def down_inv_def)
    then show ?thesis using True by (subst down_ref.simps) simp
  next
    case False
    then have s: "smallest_of es j < length es" "par (smallest_of es j) = j"
      "j < smallest_of es j" using smallest_of_cases [of es j] by auto
    then have "down_inv (swap_entries es j (smallest_of es j)) (smallest_of es j)"
      using less.prems smallest_of_least [where es = es and idx = j] by (intro down_step) auto
    then show ?thesis using less.hyps False s by (subst down_ref.simps) simp
  qed
qed

section \<open>The heap is a priority queue\<close>

lemma push_spec:
  assumes "heap es"
  shows "heap (up_ref (es @ [e]) (length es)) \<and> mset (up_ref (es @ [e]) (length es)) = add_mset e (mset es)"
proof -
  have "pq_key ((es @ [e]) ! par i) \<le> pq_key ((es @ [e]) ! i)"
    if "i < Suc (length es)" "0 < i" "i \<noteq> length es" for i
    using assms that par_less(1) [of i] by (simp add: heap_def nth_append)
  moreover have "par i \<noteq> length es" if "i < Suc (length es)" "0 < i" for i
    using that par_less(1) [of i] by simp
  ultimately have "up_inv (es @ [e]) (length es)" unfolding up_inv_def by fastforce
  then show ?thesis using heap_up_ref [of "es @ [e]" "length es"] mset_up_ref [of "length es" "es @ [e]"]
    by simp
qed

lemma heap_root_least:
  assumes "heap es" "i < length es"
  shows "pq_key (es ! 0) \<le> pq_key (es ! i)"
  using assms(2)
proof (induction i rule: less_induct)
  case (less i)
  show ?case
  proof (cases "i = 0")
    case False
    then have "par i < i" by (simp add: par_less)
    then have "pq_key (es ! 0) \<le> pq_key (es ! par i)" using less by simp
    also have "\<dots> \<le> pq_key (es ! i)" using assms(1) less.prems False by (simp add: heap_def)
    finally show ?thesis .
  qed simp
qed

lemma pop_spec:
  assumes "heap es" "es \<noteq> []"
  defines "n \<equiv> length es - 1"
  defines "es' \<equiv> (if n > 0 then down_ref ((take n es)[0 := es ! n]) 0 else take n es)"
  shows "heap es' \<and> mset es = add_mset (es ! 0) (mset es') \<and> (\<forall>x\<in>set es. pq_key (es ! 0) \<le> pq_key x)"
proof -
  have least: "\<forall>x\<in>set es. pq_key (es ! 0) \<le> pq_key x"
    using heap_root_least [OF assms(1)] by (auto simp: in_set_conv_nth)
  obtain a xs where es: "es = a # xs" using assms(2) by (cases es) auto
  show ?thesis
  proof (cases "n > 0")
    case False
    then show ?thesis using least by (auto simp: es es'_def n_def heap_def)
  next
    case True
    then obtain ys b where xs: "xs = ys @ [b]" using es by (cases xs rule: rev_cases) (auto simp: n_def)
    have e: "(take n es)[0 := es ! n] = b # ys" by (simp add: es xs n_def)
    have "pq_key ((b # ys) ! par i) \<le> pq_key ((b # ys) ! i)"
      if "i < length (b # ys)" "0 < i" "par i \<noteq> 0" for i
    proof -
      have "i < length es" using that by (simp add: es xs)
      then have "pq_key (es ! par i) \<le> pq_key (es ! i)"
        using assms(1) that by (simp only: heap_def)
      moreover have "es ! k = (b # ys) ! k" if "0 < k" "k < length (b # ys)" for k
        using that by (cases k) (auto simp: es xs nth_append)
      ultimately show ?thesis using that par_less(1) [OF that(2)] by simp
    qed
    then have "down_inv (b # ys) 0" by (simp add: down_inv_def)
    then show ?thesis using True least heap_down_ref mset_down_ref [of 0 "b # ys"]
      by (simp add: es'_def e) (simp add: es xs)
  qed
qed

text \<open>The 32-bit loops do what the reference does.\<close>

lemma sift_up_ref: "sift_up es idx = up_ref es (unat idx)"
proof (induction es idx rule: sift_up.induct)
  case (1 es idx)
  have "unat (PQ_PARENT idx) = par (unat idx)" if "0 < idx"
    using that by (simp add: PQ_PARENT_def par_def unat_div unat_minus_one word_gt_0)
  then show ?case
    using 1 by (subst sift_up.simps, subst up_ref.simps) (auto simp: Let_def word_gt_0 unat_gt_0)
qed

lemma child_unat:
  assumes "unat idx < 2 ^ 31 - 1"
  shows "unat (PQ_LEFT idx) = lch (unat idx)" "unat (PQ_RIGHT idx) = rch (unat idx)"
  using assms by (simp_all add: PQ_LEFT_def PQ_RIGHT_def lch_def rch_def unat_word_ariths)

lemma of_nat_u32: "n \<le> 2 ^ 31 \<Longrightarrow> unat (of_nat n :: u32) = n"
  by (simp add: unat_of_nat take_bit_nat_eq_self)

lemma sift_down_ref:
  "length es < 2 ^ 31 \<Longrightarrow> unat idx < length es \<Longrightarrow> sift_down es idx = Some (down_ref es (unat idx))"
proof (induction "length es - unat idx" arbitrary: es idx rule: less_induct)
  case less
  define s :: u32 where "s = of_nat (smallest_of es (unat idx))"
  have len: "unat (of_nat (length es) :: u32) = length es" using less.prems(1) by (simp add: of_nat_u32)
  have i: "unat idx < 2 ^ 31 - 1" using less.prems by linarith
  have s: "smallest_of es (unat idx) < length es" using smallest_of_cases [of es "unat idx"] less.prems(2) by auto
  then have us: "unat s = smallest_of es (unat idx)" using less.prems(1) by (simp add: s_def of_nat_u32)
  have "sift_down es idx = (if s = idx then Some es else sift_down (swap_entries es (unat idx) (unat s)) s)"
  proof -
    have "(let smallest = (if PQ_LEFT idx < of_nat (length es) \<and> pq_key (es ! unat (PQ_LEFT idx)) < pq_key (es ! unat idx)
                      then PQ_LEFT idx else idx) in
           if PQ_RIGHT idx < of_nat (length es) \<and> pq_key (es ! unat (PQ_RIGHT idx)) < pq_key (es ! unat smallest)
           then PQ_RIGHT idx else smallest) = s"
      by (rule iffD2 [OF word_unat_eq_iff]) (simp add: us smallest_of_def Let_def word_less_nat_alt len child_unat [OF i])
    then show ?thesis by (subst sift_down.simps) (simp only: Let_def)
  qed
  moreover have "s = idx \<longleftrightarrow> smallest_of es (unat idx) = unat idx" by (simp add: word_unat_eq_iff us)
  ultimately show ?case
    using less.hyps [where es = "swap_entries es (unat idx) (unat s)" and idx = s] less.prems s us
      smallest_of_cases [of es "unat idx"]
    by (subst down_ref.simps) auto
qed

lemma count_unat: "length (pq_entries q) \<le> 2 ^ 31 \<Longrightarrow> unat (nxp_pq_count q) = length (pq_entries q)"
  by (simp add: nxp_pq_count_def of_nat_u32)

lemma pq_push_law:
  assumes "pq_inv q" "length (pq_entries q) < 2 ^ 31" "\<not> (pq_capacity q \<le> nxp_pq_count q \<and> \<not> alloc)"
  shows "\<exists>q'. nxp_pq_push alloc q k v = Some (True, q') \<and> pq_inv q' \<and>
    pq_abs q' = add_mset \<lparr>pq_key = k, pq_value = v\<rparr> (pq_abs q)"
proof -
  let ?n = "length (pq_entries q)" and ?e = "\<lparr>pq_key = k, pq_value = v\<rparr>" and ?c = "nxp_pq_count q"
  let ?cap = "if pq_capacity q \<le> ?c then pq_capacity q * 2 else pq_capacity q"
  let ?es = "sift_up (pq_entries q @ [?e]) ?c"
  have n: "unat ?c = ?n" using count_unat [of q] assms(2) by simp
  have pos: "0 < unat (pq_capacity q)" using assms(1) by (simp add: pq_inv_def word_gt_0 unat_gt_0)
  have cap: "?n < unat ?cap"
    using assms(1,2) n pos by (auto simp: pq_inv_def word_le_nat_alt unat_word_ariths)
  have es: "heap ?es \<and> mset ?es = add_mset ?e (mset (pq_entries q))"
    using push_spec [of "pq_entries q" ?e] assms(1) by (simp add: sift_up_ref n pq_inv_def)
  then have "length ?es = Suc ?n" by (metis size_mset size_add_mset)
  moreover have "\<not> ?cap \<le> ?c" using cap n by (simp only: word_le_nat_alt)
  moreover have "0 < ?cap" using cap by (simp add: word_less_nat_alt)
  ultimately show ?thesis
    using es cap assms(2,3) by (auto simp: nxp_pq_push_def Let_def pq_inv_def pq_abs_def)
qed

lemma pq_pop_law:
  assumes "pq_inv q" "pq_entries q \<noteq> []"
  shows "\<exists>e q'. nxp_pq_pop q = Some (Some e, q') \<and> pq_inv q' \<and> pq_abs q = add_mset e (pq_abs q') \<and>
    (\<forall>x\<in>#pq_abs q. pq_key e \<le> pq_key x)"
proof -
  let ?es = "pq_entries q" and ?n = "length (pq_entries q) - 1"
  define es' where "es' = (if ?n > 0 then down_ref ((take ?n ?es)[0 := ?es ! ?n]) 0 else take ?n ?es)"
  have c: "unat (nxp_pq_count q) = length ?es" using assms(1) count_unat [of q] by (simp add: pq_inv_def)
  then have nz: "nxp_pq_count q \<noteq> 0" using assms(2) by auto
  then have n: "unat (nxp_pq_count q - 1) = ?n" using c by (simp add: unat_minus_one)
  note sp = pop_spec [OF _ assms(2)]
  have h: "heap es' \<and> mset ?es = add_mset (?es ! 0) (mset es') \<and> (\<forall>x\<in>set ?es. pq_key (?es ! 0) \<le> pq_key x)"
    unfolding es'_def using assms(1) by (intro sp) (simp add: pq_inv_def)
  then have "length ?es = Suc (length es')" by (metis size_mset size_add_mset)
  moreover have "nxp_pq_pop q = Some (Some (?es ! 0), q\<lparr>pq_entries := es'\<rparr>)"
  proof (cases "?n > 0")
    case True
    have "sift_down ((take ?n ?es)[0 := ?es ! ?n]) 0 = Some es'"
      using assms True by (subst sift_down_ref) (auto simp: pq_inv_def es'_def)
    moreover have "nxp_pq_count q - 1 > 0" using n True by (simp add: word_less_nat_alt)
    ultimately show ?thesis using nz n by (simp add: nxp_pq_pop_def Let_def)
  next
    case False
    then have "\<not> nxp_pq_count q - 1 > 0" using n by (simp add: word_less_nat_alt)
    then show ?thesis using nz n False by (simp add: nxp_pq_pop_def Let_def es'_def)
  qed
  moreover have "\<forall>x\<in>#pq_abs q. pq_key (?es ! 0) \<le> pq_key x"
    unfolding pq_abs_def set_mset_mset using h by blast
  ultimately show ?thesis using h assms(1) by (simp add: pq_inv_def pq_abs_def)
qed

interpretation pq: min_queue
  "\<lambda>q e. map_option snd (nxp_pq_push True q (pq_key e) (pq_value e))" nxp_pq_pop pq_key pq_abs pq_inv "2 ^ 31"
proof
  fix q :: "'v nxp_priority_queue" and e :: "'v nxp_pq_entry"
  assume inv: "pq_inv q"
  show "\<exists>q'. map_option snd (nxp_pq_push True q (pq_key e) (pq_value e)) = Some q' \<and> pq_inv q' \<and>
      pq_abs q' = add_mset e (pq_abs q)" if "size (pq_abs q) < 2 ^ 31"
    using pq_push_law [OF inv, of True "pq_key e" "pq_value e"] that by (auto simp: pq_abs_def)
  show "nxp_pq_pop q = Some (None, q)" if "pq_abs q = {#}"
    using that by (simp add: nxp_pq_pop_def nxp_pq_count_def pq_abs_def)
  show "\<exists>e q'. nxp_pq_pop q = Some (Some e, q') \<and> pq_inv q' \<and> pq_abs q = add_mset e (pq_abs q') \<and>
      (\<forall>x\<in>#pq_abs q. pq_key e \<le> pq_key x)" if "pq_abs q \<noteq> {#}"
    using pq_pop_law [OF inv] that by (simp add: pq_abs_def)
qed

section \<open>Properties\<close>

text \<open>C30. The queue orders its entries: for at most 2^31 entries and with memory available, pushing
  them into a queue \<^verbatim>\<open>nxp_pq_create\<close> made and popping that many times always returns, no access is
  out of bounds, the entries come out in non-decreasing key order, exactly those that were pushed, and
  the queue is empty afterwards.  Beyond 2^31 entries the 32-bit capacity and indices wrap.\<close>

theorem nxp_pq_sorts:
  fixes es :: "'v nxp_pq_entry list"
  assumes "nxp_pq_create True True cap = Some q" "length es \<le> 2 ^ 31"
  shows "\<exists>q1 out q2.
    push_all (\<lambda>q e. map_option snd (nxp_pq_push True q (pq_key e) (pq_value e))) q es = Some q1 \<and>
    drain nxp_pq_pop (length es) q1 = Some (out, q2) \<and>
    mset out = mset es \<and> sorted (map pq_key out) \<and> nxp_pq_is_empty q2"
proof -
  have "pq_inv q" "pq_abs q = {#}"
    using assms(1) by (auto simp: nxp_pq_create_def pq_inv_def pq_abs_def heap_def Let_def word_gt_0 split: if_splits)
  from pq.sort_by_queue [OF this assms(2)] show ?thesis
    by (auto simp: nxp_pq_is_empty_def nxp_pq_count_def pq_abs_def)
qed

theorem nxp_pq_sorts_witness:
  "\<exists>q1 out q2.
    push_all (\<lambda>q e. map_option snd (nxp_pq_push True q (pq_key e) (pq_value e)))
      \<lparr>pq_entries = [], pq_capacity = 16\<rparr>
      (map (\<lambda>n. \<lparr>pq_key = of_nat (20 - n), pq_value = n\<rparr>) [0..<18]) = Some q1 \<and> pq_capacity q1 = 32 \<and>
    drain nxp_pq_pop 18 q1 = Some (out, q2) \<and> map pq_value out = rev [0..<18] \<and>
    sorted (map pq_key out) \<and> nxp_pq_is_empty q2"
proof -
  let ?es = "map (\<lambda>n. \<lparr>pq_key = of_nat (20 - n), pq_value = n\<rparr>) [0..<18]"
  let ?push = "\<lambda>q e. map_option snd (nxp_pq_push True q (pq_key e) (pq_value e))"
  have "map_option (\<lambda>q1. (pq_capacity q1, map_option (\<lambda>(out, q2). map pq_value out) (drain nxp_pq_pop 18 q1)))
      (push_all ?push \<lparr>pq_entries = [], pq_capacity = 16\<rparr> ?es) = Some (32, Some (rev [0..<18]))"
    by code_simp
  moreover have "nxp_pq_create True True 3 = Some (\<lparr>pq_entries = [], pq_capacity = 16\<rparr> :: nat nxp_priority_queue)"
    by (simp add: nxp_pq_create_def)
  ultimately show ?thesis using nxp_pq_sorts [of 3 _ ?es] by fastforce
qed

text \<open>A failed allocation leaves the queue as it was; otherwise a push adds one entry and keeps the
  heap order and the room in the array.\<close>

lemma nxp_pq_push_correct:
  assumes "pq_inv q" "length (pq_entries q) < 2 ^ 31"
  shows "if pq_capacity q \<le> nxp_pq_count q \<and> \<not> alloc then nxp_pq_push alloc q k v = Some (False, q)
    else \<exists>q'. nxp_pq_push alloc q k v = Some (True, q') \<and> pq_inv q' \<and>
      pq_abs q' = add_mset \<lparr>pq_key = k, pq_value = v\<rparr> (pq_abs q)"
  using pq_push_law [OF assms, of alloc k v] by (auto simp: nxp_pq_push_def Let_def)

text \<open>A full array of 2^31 entries is reallocated with size 0, and the entry is written out of
  bounds.\<close>

lemma nxp_pq_push_overflow:
  assumes "pq_capacity q = 0x80000000" "length (pq_entries q) = 2 ^ 31"
  shows "nxp_pq_push True q k v = None"
  using assms count_unat [of q] by (simp add: nxp_pq_push_def Let_def word_le_nat_alt)

end
