(* ===== verification/Nxp_Flow.thy ===== *)
theory Nxp_Flow
  imports Nxp_Prelude
begin

text \<open>
  Flow control (\<^verbatim>\<open>core/flow_control.c\<close>, the struct in \<^verbatim>\<open>core/connection_internal.h\<close>), used
  per stream and per connection.  Counters are 64-bit words and wrap as in C.  The sender's limit is
  kept by the sending loop of the connection, not by this component, and is part of the connection
  invariant; here are the limits the receiver announces, which are never withdrawn.
\<close>

section \<open>Definitions\<close>

record nxp_flow_ctrl =
  peer_max_data :: u64
  data_sent :: u64
  local_max_data :: u64
  data_recv :: u64
  max_data_next :: u64
  send_max_data :: bool

definition nxp_flow_init :: "u64 \<Rightarrow> u64 \<Rightarrow> nxp_flow_ctrl" where
  "nxp_flow_init local_max peer_max =
     \<lparr>peer_max_data = peer_max, data_sent = 0, local_max_data = local_max, data_recv = 0,
      max_data_next = local_max, send_max_data = False\<rparr>"

definition nxp_flow_can_send :: "nxp_flow_ctrl \<Rightarrow> u64 \<Rightarrow> bool" where
  "nxp_flow_can_send fc len \<longleftrightarrow> data_sent fc + len \<le> peer_max_data fc"

definition nxp_flow_on_send :: "nxp_flow_ctrl \<Rightarrow> u64 \<Rightarrow> nxp_flow_ctrl" where
  "nxp_flow_on_send fc len = fc\<lparr>data_sent := data_sent fc + len\<rparr>"

definition nxp_flow_on_recv :: "nxp_flow_ctrl \<Rightarrow> u64 \<Rightarrow> nxp_flow_ctrl" where
  "nxp_flow_on_recv fc len = fc\<lparr>data_recv := data_recv fc + len\<rparr>"

definition nxp_flow_on_consume :: "nxp_flow_ctrl \<Rightarrow> u64 \<Rightarrow> nxp_flow_ctrl" where
  "nxp_flow_on_consume fc len =
     (let consumed = data_recv fc;
          window = local_max_data fc in
      if consumed > window div 2 then
        let new_max = data_recv fc + window in
        if new_max > max_data_next fc
        then fc\<lparr>max_data_next := new_max, send_max_data := True\<rparr>
        else fc
      else fc)"

definition nxp_flow_set_peer_max :: "nxp_flow_ctrl \<Rightarrow> u64 \<Rightarrow> nxp_flow_ctrl" where
  "nxp_flow_set_peer_max fc max_data =
     (if max_data > peer_max_data fc then fc\<lparr>peer_max_data := max_data\<rparr> else fc)"

definition nxp_flow_should_update :: "nxp_flow_ctrl \<Rightarrow> bool" where
  "nxp_flow_should_update fc = send_max_data fc"

definition nxp_flow_get_update :: "nxp_flow_ctrl \<Rightarrow> u64 \<times> nxp_flow_ctrl" where
  "nxp_flow_get_update fc =
     (let fc = fc\<lparr>send_max_data := False\<rparr>;
          fc = fc\<lparr>local_max_data := max_data_next fc\<rparr> in
      (local_max_data fc, fc))"

section \<open>Announced limits\<close>

text \<open>The limit to be announced next is at least the one announced before: every operation keeps
  this, also where a sum wraps.\<close>

definition flow_inv :: "nxp_flow_ctrl \<Rightarrow> bool" where
  "flow_inv fc \<longleftrightarrow> local_max_data fc \<le> max_data_next fc"

lemma flow_init_inv [inv_intros]: "flow_inv (nxp_flow_init l p)"
  by (simp add: flow_inv_def nxp_flow_init_def)

lemma on_send_inv [inv_intros]: "flow_inv fc \<Longrightarrow> flow_inv (nxp_flow_on_send fc len)"
  by (simp add: flow_inv_def nxp_flow_on_send_def)

lemma on_recv_inv [inv_intros]: "flow_inv fc \<Longrightarrow> flow_inv (nxp_flow_on_recv fc len)"
  by (simp add: flow_inv_def nxp_flow_on_recv_def)

lemma on_consume_inv [inv_intros]: "flow_inv fc \<Longrightarrow> flow_inv (nxp_flow_on_consume fc len)"
  by (auto simp: flow_inv_def nxp_flow_on_consume_def Let_def)

lemma set_peer_max_inv [inv_intros]: "flow_inv fc \<Longrightarrow> flow_inv (nxp_flow_set_peer_max fc m)"
  by (auto simp: flow_inv_def nxp_flow_set_peer_max_def)

lemma get_update_inv [inv_intros]: "flow_inv fc \<Longrightarrow> flow_inv (snd (nxp_flow_get_update fc))"
  by (auto simp: flow_inv_def nxp_flow_get_update_def Let_def)

lemma update_not_withdrawn: "flow_inv fc \<Longrightarrow> local_max_data fc \<le> fst (nxp_flow_get_update fc)"
  by (simp add: flow_inv_def nxp_flow_get_update_def Let_def)

text \<open>The sum in \<^verbatim>\<open>nxp_flow_can_send\<close> wraps: a length close to 2^64 passes whatever the limit.\<close>

lemma can_send_wraps: "nxp_flow_can_send \<lparr>peer_max_data = 20, data_sent = 10, local_max_data = 0,
    data_recv = 0, max_data_next = 0, send_max_data = False\<rparr> 0xfffffffffffffffa"
  by (simp add: nxp_flow_can_send_def)

end
