(* ===== verification/Nxp_Rate.thy ===== *)
theory Nxp_Rate
  imports Nxp_Prelude
begin

text \<open>
  Rate control: the pacer (\<^verbatim>\<open>congestion/pacing.c\<close>), the per-stream rate limiter
  (\<^verbatim>\<open>core/stream_rate.h\<close>), both token buckets in milli-bytes, and the per-address packet
  limiter (\<^verbatim>\<open>core/rate_limit.h\<close>).  The token-bucket contract is proved once, in a locale, and
  interpreted for both buckets; runs start where the initialisers leave the bucket.
\<close>

section \<open>Pacer\<close>

record nxp_pacer =
  pc_rate_bps :: u64
  pc_tokens :: u64
  pc_last_update :: u64
  pc_max_burst :: u64
  pc_enabled :: bool
  pc_time_initialized :: bool

abbreviation (input) NXP_PACER_MAX_BURST :: u64 where "NXP_PACER_MAX_BURST \<equiv> 12000"
abbreviation (input) TOKEN_SCALE :: u64 where "TOKEN_SCALE \<equiv> 1000"

definition nxp_pacer_init :: nxp_pacer where
  "nxp_pacer_init =
     \<lparr>pc_rate_bps = 0, pc_tokens = NXP_PACER_MAX_BURST * TOKEN_SCALE, pc_last_update = 0,
      pc_max_burst = NXP_PACER_MAX_BURST, pc_enabled = False, pc_time_initialized = False\<rparr>"

definition nxp_pacer_set_rate :: "nxp_pacer \<Rightarrow> u64 \<Rightarrow> nxp_pacer" where
  "nxp_pacer_set_rate p rate_bps = p\<lparr>pc_rate_bps := rate_bps, pc_enabled := (rate_bps > 0)\<rparr>"

definition nxp_pacer_update :: "nxp_pacer \<Rightarrow> u64 \<Rightarrow> nxp_pacer" where
  "nxp_pacer_update p now_us =
     (if \<not> pc_enabled p \<or> pc_rate_bps p = 0 then p
      else if \<not> pc_time_initialized p then p\<lparr>pc_last_update := now_us, pc_time_initialized := True\<rparr>
      else if now_us \<le> pc_last_update p then p
      else
        let elapsed = now_us - pc_last_update p;
            new_tokens = (pc_rate_bps p * elapsed * TOKEN_SCALE) div 1000000;
            tokens = pc_tokens p + new_tokens;
            max_tokens = pc_max_burst p * TOKEN_SCALE in
        p\<lparr>pc_last_update := now_us,
          pc_tokens := (if tokens > max_tokens then max_tokens else tokens)\<rparr>)"

definition nxp_pacer_can_send :: "nxp_pacer \<Rightarrow> u32 \<Rightarrow> bool" where
  "nxp_pacer_can_send p n \<longleftrightarrow>
     (if \<not> pc_enabled p then True else pc_tokens p \<ge> ucast n * TOKEN_SCALE)"

definition nxp_pacer_on_send :: "nxp_pacer \<Rightarrow> u32 \<Rightarrow> nxp_pacer" where
  "nxp_pacer_on_send p n =
     (if \<not> pc_enabled p then p
      else
        let cost = ucast n * TOKEN_SCALE in
        if pc_tokens p \<ge> cost then p\<lparr>pc_tokens := pc_tokens p - cost\<rparr>
        else p\<lparr>pc_tokens := 0\<rparr>)"

definition nxp_pacer_next_send_time :: "nxp_pacer \<Rightarrow> u32 \<Rightarrow> u64" where
  "nxp_pacer_next_send_time p n =
     (if \<not> pc_enabled p \<or> pc_rate_bps p = 0 then 0
      else
        let cost = ucast n * TOKEN_SCALE in
        if pc_tokens p \<ge> cost then 0
        else
          let deficit = cost - pc_tokens p in
          (deficit * 1000000) div (pc_rate_bps p * TOKEN_SCALE))"

section \<open>Per-stream rate limiter\<close>

record nxp_stream_rate =
  sr_rate_bps :: u64
  sr_tokens :: u64
  sr_last_update :: u64
  sr_max_burst :: u64
  sr_enabled :: bool
  sr_time_initialized :: bool

definition nxp_stream_rate_init :: nxp_stream_rate where
  "nxp_stream_rate_init =
     \<lparr>sr_rate_bps = 0, sr_tokens = 0, sr_last_update = 0, sr_max_burst = 0, sr_enabled = False,
      sr_time_initialized = False\<rparr>"

definition nxp_stream_rate_set :: "nxp_stream_rate \<Rightarrow> u64 \<Rightarrow> nxp_stream_rate" where
  "nxp_stream_rate_set r rate_bps =
     (let burst = (if rate_bps > 0 then rate_bps div 10 else 0);
          burst = (if burst < 4800 then 4800 else burst) in
      r\<lparr>sr_rate_bps := rate_bps, sr_enabled := (rate_bps > 0), sr_max_burst := burst,
        sr_tokens := burst * 1000\<rparr>)"

definition nxp_stream_rate_update :: "nxp_stream_rate \<Rightarrow> u64 \<Rightarrow> nxp_stream_rate" where
  "nxp_stream_rate_update r now_us =
     (if \<not> sr_enabled r \<or> sr_rate_bps r = 0 then r
      else if \<not> sr_time_initialized r then r\<lparr>sr_last_update := now_us, sr_time_initialized := True\<rparr>
      else if now_us \<le> sr_last_update r then r
      else
        let elapsed = now_us - sr_last_update r;
            new_tokens = (sr_rate_bps r * elapsed * 1000) div 1000000;
            tokens = sr_tokens r + new_tokens;
            max_tokens = sr_max_burst r * 1000 in
        r\<lparr>sr_last_update := now_us,
          sr_tokens := (if tokens > max_tokens then max_tokens else tokens)\<rparr>)"

definition nxp_stream_rate_can_send :: "nxp_stream_rate \<Rightarrow> u32 \<Rightarrow> bool" where
  "nxp_stream_rate_can_send r n \<longleftrightarrow> (if \<not> sr_enabled r then True else sr_tokens r \<ge> ucast n * 1000)"

definition nxp_stream_rate_on_send :: "nxp_stream_rate \<Rightarrow> u32 \<Rightarrow> nxp_stream_rate" where
  "nxp_stream_rate_on_send r n =
     (if \<not> sr_enabled r then r
      else
        let cost = ucast n * 1000 in
        if sr_tokens r \<ge> cost then r\<lparr>sr_tokens := sr_tokens r - cost\<rparr>
        else r\<lparr>sr_tokens := 0\<rparr>)"

definition nxp_stream_rate_budget :: "nxp_stream_rate \<Rightarrow> u64" where
  "nxp_stream_rate_budget r = (if \<not> sr_enabled r then - 1 else sr_tokens r div 1000)"

section \<open>Per-address packet limiter\<close>

text \<open>The buckets are the entries of the hash map, by key; a
  bucket is allocated once per key.\<close>

record nxp_rate_bucket =
  rl_count :: u32
  rl_window_start :: u64

type_synonym nxp_rate_limiter = "u64 \<rightharpoonup> nxp_rate_bucket"

abbreviation (input) NXP_RATE_LIMIT_WINDOW_US :: u64 where "NXP_RATE_LIMIT_WINDOW_US \<equiv> 1000000"
abbreviation (input) NXP_RATE_LIMIT_MAX_PPS :: u32 where "NXP_RATE_LIMIT_MAX_PPS \<equiv> 100"

definition addr_hash :: "nxp_addr \<Rightarrow> u64" where
  "addr_hash addr =
     foldl (\<lambda>h b. (h XOR ucast b) * 1099511628211) 14695981039346656037 (addr_raw addr)"

text \<open>\<open>alloc\<close>: the bucket can be allocated; \<open>put\<close>: the hash map stores it (its table can grow).\<close>

definition nxp_rate_limiter_check ::
    "bool \<Rightarrow> bool \<Rightarrow> nxp_rate_limiter \<Rightarrow> nxp_addr \<Rightarrow> u64 \<Rightarrow> bool \<times> nxp_rate_limiter" where
  "nxp_rate_limiter_check alloc put rl addr now_us =
     (let key = addr_hash addr in
      case rl key of
        None \<Rightarrow>
          if \<not> alloc then (True, rl)
          else
            let bucket = \<lparr>rl_count = 1, rl_window_start = now_us\<rparr> in
            (True, if put then rl(key \<mapsto> bucket) else rl)
      | Some bucket \<Rightarrow>
          let bucket = (if now_us - rl_window_start bucket \<ge> NXP_RATE_LIMIT_WINDOW_US
                        then \<lparr>rl_count = 0, rl_window_start = now_us\<rparr> else bucket) in
          if rl_count bucket \<ge> NXP_RATE_LIMIT_MAX_PPS then (False, rl(key \<mapsto> bucket))
          else (True, rl(key \<mapsto> bucket\<lparr>rl_count := rl_count bucket + 1\<rparr>)))"

section \<open>The token-bucket contract\<close>

text \<open>What is done with a bucket: its rate is set, the clock is read, and a packet of \<open>n\<close>
  bytes is sent after the bucket was asked for \<open>m\<close> bytes (the connection asks for a full datagram and
  then sends the packet it built).\<close>

datatype bucket_op = Set_rate u64 | Tick u64 | Send u32 u32

fun bucket_step ::
    "('s \<Rightarrow> u64 \<Rightarrow> 's) \<Rightarrow> ('s \<Rightarrow> u64 \<Rightarrow> 's) \<Rightarrow> ('s \<Rightarrow> u32 \<Rightarrow> bool) \<Rightarrow> ('s \<Rightarrow> u32 \<Rightarrow> 's) \<Rightarrow>
     's \<Rightarrow> bucket_op \<Rightarrow> 's" where
  "bucket_step set_rate refill can spend s (Set_rate r) = set_rate s r"
| "bucket_step set_rate refill can spend s (Tick t) = refill s t"
| "bucket_step set_rate refill can spend s (Send m n) = (if can s m then spend s n else s)"

text \<open>Bytes of an operation that the bucket limits, and by how much they exceed what was asked.\<close>

fun bucket_sent :: "('s \<Rightarrow> bool) \<Rightarrow> ('s \<Rightarrow> u32 \<Rightarrow> bool) \<Rightarrow> 's \<Rightarrow> bucket_op \<Rightarrow> nat" where
  "bucket_sent on can s (Send m n) = (if on s \<and> can s m then unat n else 0)"
| "bucket_sent on can s _ = 0"

fun bucket_excess :: "('s \<Rightarrow> bool) \<Rightarrow> ('s \<Rightarrow> u32 \<Rightarrow> bool) \<Rightarrow> 's \<Rightarrow> bucket_op \<Rightarrow> nat" where
  "bucket_excess on can s (Send m n) = (if on s \<and> can s m then unat n - unat m else 0)"
| "bucket_excess on can s _ = 0"

text \<open>A quantity summed over a run.\<close>

fun tally :: "('s \<Rightarrow> 'o \<Rightarrow> 's) \<Rightarrow> ('s \<Rightarrow> 'o \<Rightarrow> nat) \<Rightarrow> 's \<Rightarrow> 'o list \<Rightarrow> nat" where
  "tally step f s [] = 0"
| "tally step f s (op # ops) = f s op + tally step f (step s op) ops"

text \<open>The level and the capacity are in milli-bytes, a grant in micro-bytes.  An operation raises the
  level by no more than it is granted, and a limited send lowers it by what was asked at least.\<close>

locale token_bucket =
  fixes step :: "'s \<Rightarrow> 'o \<Rightarrow> 's" and inv :: "'s \<Rightarrow> bool" and level :: "'s \<Rightarrow> nat" and cap :: "'s \<Rightarrow> nat"
    and sent :: "'s \<Rightarrow> 'o \<Rightarrow> nat" and excess :: "'s \<Rightarrow> 'o \<Rightarrow> nat" and grant :: "'s \<Rightarrow> 'o \<Rightarrow> nat"
  assumes inv_level: "inv s \<Longrightarrow> level s \<le> cap s"
    and step_inv: "inv s \<Longrightarrow> inv (step s op)"
    and step_level: "1000 * level (step s op) + 1000000 * sent s op \<le>
      1000 * level s + grant s op + 1000000 * excess s op"
begin

lemma run_inv: "inv s \<Longrightarrow> inv (foldl step s ops)"
  by (induction ops arbitrary: s) (simp_all add: step_inv)

lemma run_level:
  "1000 * level (foldl step s ops) + 1000000 * tally step sent s ops \<le>
   1000 * level s + tally step grant s ops + 1000000 * tally step excess s ops"
proof (induction ops arbitrary: s)
  case (Cons op ops)
  show ?case using Cons.IH [of "step s op"] step_level [of s op] by (simp add: algebra_simps)
qed simp

text \<open>Over any run from any state an earlier run reaches: no more than a full bucket, what was
  granted on the way and what was sent without having been asked for.\<close>

lemma run_bound:
  fixes before ops :: "'o list"
  assumes "inv s"
  defines "s' \<equiv> foldl step s before"
  shows "1000000 * tally step sent s' ops \<le>
    1000 * cap s' + tally step grant s' ops + 1000000 * tally step excess s' ops"
  using run_level [of s' ops] inv_level [OF run_inv [OF assms(1)], of before] by (simp add: s'_def)

end

section \<open>Both buckets meet the contract\<close>

definition pacer_step :: "nxp_pacer \<Rightarrow> bucket_op \<Rightarrow> nxp_pacer" where
  "pacer_step = bucket_step nxp_pacer_set_rate nxp_pacer_update nxp_pacer_can_send nxp_pacer_on_send"

definition pacer_sent :: "nxp_pacer \<Rightarrow> bucket_op \<Rightarrow> nat" where
  "pacer_sent = bucket_sent pc_enabled nxp_pacer_can_send"

definition pacer_excess :: "nxp_pacer \<Rightarrow> bucket_op \<Rightarrow> nat" where
  "pacer_excess = bucket_excess pc_enabled nxp_pacer_can_send"

text \<open>The pacing rate times the time since the last clock update (the first update sets the clock).\<close>

fun pacer_grant :: "nxp_pacer \<Rightarrow> bucket_op \<Rightarrow> nat" where
  "pacer_grant p (Tick t) =
     (if pc_enabled p \<and> pc_time_initialized p
      then unat (pc_rate_bps p) * (unat t - unat (pc_last_update p)) else 0)"
| "pacer_grant p _ = 0"

definition pacer_inv :: "nxp_pacer \<Rightarrow> bool" where
  "pacer_inv p \<longleftrightarrow> pc_max_burst p = NXP_PACER_MAX_BURST \<and> pc_tokens p \<le> pc_max_burst p * TOKEN_SCALE"

definition stream_rate_step :: "nxp_stream_rate \<Rightarrow> bucket_op \<Rightarrow> nxp_stream_rate" where
  "stream_rate_step = bucket_step nxp_stream_rate_set nxp_stream_rate_update
     nxp_stream_rate_can_send nxp_stream_rate_on_send"

definition stream_rate_sent :: "nxp_stream_rate \<Rightarrow> bucket_op \<Rightarrow> nat" where
  "stream_rate_sent = bucket_sent sr_enabled nxp_stream_rate_can_send"

definition stream_rate_excess :: "nxp_stream_rate \<Rightarrow> bucket_op \<Rightarrow> nat" where
  "stream_rate_excess = bucket_excess sr_enabled nxp_stream_rate_can_send"

text \<open>As for the pacer; setting the rate fills the bucket.\<close>

fun stream_rate_grant :: "nxp_stream_rate \<Rightarrow> bucket_op \<Rightarrow> nat" where
  "stream_rate_grant r (Tick t) =
     (if sr_enabled r \<and> sr_time_initialized r
      then unat (sr_rate_bps r) * (unat t - unat (sr_last_update r)) else 0)"
| "stream_rate_grant r (Set_rate rate) = 1000 * unat (sr_tokens (nxp_stream_rate_set r rate))"
| "stream_rate_grant r (Send m n) = 0"

definition stream_rate_inv :: "nxp_stream_rate \<Rightarrow> bool" where
  "stream_rate_inv r \<longleftrightarrow> sr_tokens r \<le> sr_max_burst r * 1000"

text \<open>Refilling, on numbers: products and sums of words may wrap, which only loses tokens.\<close>

lemma unat_prod_le: "unat (a * b :: 'a::len word) \<le> unat a * unat b"
  by (simp add: unat_word_ariths)

lemma unat_sum_le: "unat (a + b :: 'a::len word) \<le> unat a + unat b"
  by (simp add: unat_word_ariths)

lemma refill_bound:
  fixes rate elapsed tokens max_tokens :: u64
  defines "t \<equiv> tokens + (rate * elapsed * 1000) div 1000000"
  shows "1000 * unat (if t > max_tokens then max_tokens else t) \<le>
    1000 * unat tokens + unat rate * unat elapsed"
proof -
  define x where "x = unat (rate * elapsed * 1000)"
  have "unat rate * unat elapsed * 1000 \<ge> unat (rate * elapsed) * 1000"
    using unat_prod_le [of rate elapsed] by simp
  then have "x \<le> unat rate * unat elapsed * 1000"
    using unat_prod_le [of "rate * elapsed" 1000] by (simp add: x_def)
  moreover have "unat t \<le> unat tokens + x div 1000000"
    using unat_sum_le [of tokens "(rate * elapsed * 1000) div 1000000"] by (simp add: t_def x_def unat_div)
  moreover have "unat (if t > max_tokens then max_tokens else t) \<le> unat t"
    by (simp add: word_less_nat_alt)
  ultimately show ?thesis by linarith
qed

lemma cost_unat: "unat (ucast (n :: u32) * 1000 :: u64) = 1000 * unat n"
proof -
  have "unat n < 2 ^ 64" by (rule less_trans [OF unat_less_2p32]) simp
  then have "unat (ucast n :: u64) = unat n"
    using take_bit_nat_eq_self [of "unat n" 64] by (simp add: unsigned_ucast_eq)
  moreover have "unat n * 1000 < 18446744073709551616" using unat_less_2p32 [of n] by linarith
  ultimately show ?thesis by (simp add: unat_word_ariths)
qed

text \<open>Spending, on numbers: the level is at least what was asked, and it is lowered by the
  cost or to zero.\<close>

lemma spend_bound:
  fixes tokens :: u64 and m n :: u32
  assumes "ucast m * 1000 \<le> tokens"
  shows "unat (if ucast n * 1000 \<le> tokens then tokens - ucast n * 1000 else 0) + 1000 * unat n \<le>
    unat tokens + 1000 * (unat n - unat m)"
  using assms by (auto simp: word_le_nat_alt cost_unat unat_sub)

lemma spend_le: "c \<le> t \<Longrightarrow> t \<le> max_tokens \<Longrightarrow> t - c \<le> max_tokens" for c t max_tokens :: u64
  by (simp add: word_le_nat_alt unat_sub)

interpretation pacer: token_bucket pacer_step pacer_inv "\<lambda>p. unat (pc_tokens p)"
  "\<lambda>p. unat (pc_max_burst p * TOKEN_SCALE)" pacer_sent pacer_excess pacer_grant
proof
  fix p op
  show "pacer_inv p \<Longrightarrow> unat (pc_tokens p) \<le> unat (pc_max_burst p * TOKEN_SCALE)"
    by (auto simp: pacer_inv_def word_le_nat_alt)
  show "pacer_inv p \<Longrightarrow> pacer_inv (pacer_step p op)"
    by (cases op)
      (auto simp: pacer_inv_def pacer_step_def nxp_pacer_set_rate_def nxp_pacer_update_def
        nxp_pacer_on_send_def Let_def not_less spend_le)
  show "1000 * unat (pc_tokens (pacer_step p op)) + 1000000 * pacer_sent p op \<le>
      1000 * unat (pc_tokens p) + pacer_grant p op + 1000000 * pacer_excess p op"
  proof (cases op)
    case (Tick t)
    then show ?thesis
      using refill_bound [of "pc_max_burst p * 1000" "pc_tokens p" "pc_rate_bps p" "t - pc_last_update p"]
      by (auto simp: pacer_step_def pacer_sent_def pacer_excess_def nxp_pacer_update_def Let_def unat_sub)
  next
    case (Send m n)
    then show ?thesis using spend_bound [of m "pc_tokens p" n]
      by (auto simp: pacer_step_def pacer_sent_def pacer_excess_def nxp_pacer_can_send_def
          nxp_pacer_on_send_def Let_def)
  qed (simp add: pacer_step_def pacer_sent_def pacer_excess_def nxp_pacer_set_rate_def)
qed

interpretation stream_rate: token_bucket stream_rate_step stream_rate_inv "\<lambda>r. unat (sr_tokens r)"
  "\<lambda>r. unat (sr_max_burst r * 1000)" stream_rate_sent stream_rate_excess stream_rate_grant
proof
  fix r op
  show "stream_rate_inv r \<Longrightarrow> unat (sr_tokens r) \<le> unat (sr_max_burst r * 1000)"
    by (simp add: stream_rate_inv_def word_le_nat_alt)
  show "stream_rate_inv r \<Longrightarrow> stream_rate_inv (stream_rate_step r op)"
    by (cases op)
      (auto simp: stream_rate_inv_def stream_rate_step_def nxp_stream_rate_set_def
        nxp_stream_rate_update_def nxp_stream_rate_on_send_def Let_def not_less spend_le)
  show "1000 * unat (sr_tokens (stream_rate_step r op)) + 1000000 * stream_rate_sent r op \<le>
      1000 * unat (sr_tokens r) + stream_rate_grant r op + 1000000 * stream_rate_excess r op"
  proof (cases op)
    case (Tick t)
    then show ?thesis
      using refill_bound [of "sr_max_burst r * 1000" "sr_tokens r" "sr_rate_bps r" "t - sr_last_update r"]
      by (auto simp: stream_rate_step_def stream_rate_sent_def stream_rate_excess_def
          nxp_stream_rate_update_def Let_def unat_sub)
  next
    case (Send m n)
    then show ?thesis using spend_bound [of m "sr_tokens r" n]
      by (auto simp: stream_rate_step_def stream_rate_sent_def stream_rate_excess_def
          nxp_stream_rate_can_send_def nxp_stream_rate_on_send_def Let_def)
  qed (simp add: stream_rate_step_def stream_rate_sent_def stream_rate_excess_def)
qed

section \<open>Properties\<close>

text \<open>C32. The pacer enforces its rate.  Take any operations on a pacer from \<^verbatim>\<open>nxp_pacer_init\<close> on
  (changes of the rate, clock updates in any order, sends), and any stretch of them: while pacing is
  switched on, the bytes sent in the stretch never exceed the burst of 12000 bytes, plus for every
  clock update the rate in force times the time since the update before, plus the bytes by which a
  packet was larger than what \<^verbatim>\<open>nxp_pacer_can_send\<close> was asked for.  A send happens only when
  \<^verbatim>\<open>nxp_pacer_can_send\<close> allows the size it is asked for; the sizes may differ.  The 64-bit token
  product may wrap; the bound holds regardless.\<close>

theorem nxp_pacer_conforms:
  fixes before ops :: "bucket_op list"
  defines "p \<equiv> foldl pacer_step nxp_pacer_init before"
  shows "1000000 * tally pacer_step pacer_sent p ops \<le>
    1000000 * (12000 + tally pacer_step pacer_excess p ops) + tally pacer_step pacer_grant p ops"
proof -
  have "pacer_inv nxp_pacer_init" by (simp add: pacer_inv_def nxp_pacer_init_def)
  moreover from pacer.run_inv [OF this, of before] have "unat (pc_max_burst p * TOKEN_SCALE) = 12000000"
    by (simp add: p_def pacer_inv_def)
  ultimately show ?thesis using pacer.run_bound [of nxp_pacer_init before ops]
    by (simp add: p_def)
qed

text \<open>At 5000 bytes per second two packets use up the burst and the next byte waits; after a second
  there is room for 5000 bytes, after the rate is doubled and another second for 10000 more, and for
  none beyond: the bound is reached.\<close>

definition pacer_ops :: "bucket_op list" where
  "pacer_ops = [Send 6000 6000, Send 6000 6000, Send 1 1, Tick 2000000, Send 5000 5000, Set_rate 10000,
     Tick 3000000, Send 10000 10000, Send 1 1]"

theorem nxp_pacer_conforms_witness:
  "let p = foldl pacer_step nxp_pacer_init [Set_rate 5000, Tick 1000000] in
   tally pacer_step pacer_sent p pacer_ops = 27000 \<and> tally pacer_step pacer_excess p pacer_ops = 0 \<and>
   tally pacer_step pacer_grant p pacer_ops = 15000000000 \<and>
   1000000 * tally pacer_step pacer_sent p pacer_ops \<le>
     1000000 * (12000 + tally pacer_step pacer_excess p pacer_ops) + tally pacer_step pacer_grant p pacer_ops"
proof -
  let ?p = "foldl pacer_step nxp_pacer_init [Set_rate 5000, Tick 1000000]"
  note defs = pacer_ops_def pacer_step_def pacer_sent_def pacer_excess_def nxp_pacer_init_def
    nxp_pacer_set_rate_def nxp_pacer_update_def nxp_pacer_can_send_def nxp_pacer_on_send_def Let_def
  have "tally pacer_step pacer_sent ?p pacer_ops = 27000" by (simp add: defs)
  moreover have "tally pacer_step pacer_excess ?p pacer_ops = 0" by (simp add: defs)
  moreover have "tally pacer_step pacer_grant ?p pacer_ops = 15000000000" by (simp add: defs)
  ultimately show ?thesis
    using nxp_pacer_conforms [of "[Set_rate 5000, Tick 1000000]" pacer_ops] by (simp add: Let_def)
qed

text \<open>The same for a stream's rate limiter, from \<^verbatim>\<open>nxp_stream_rate_init\<close> on; setting its rate fills
  the bucket with a tenth of a second of the rate (at least four packets).\<close>

theorem nxp_stream_rate_conforms:
  fixes before ops :: "bucket_op list"
  defines "r \<equiv> foldl stream_rate_step nxp_stream_rate_init before"
  shows "1000000 * tally stream_rate_step stream_rate_sent r ops \<le>
    1000 * unat (sr_max_burst r * 1000) + tally stream_rate_step stream_rate_grant r ops +
    1000000 * tally stream_rate_step stream_rate_excess r ops"
  unfolding r_def
  by (rule stream_rate.run_bound) (simp add: stream_rate_inv_def nxp_stream_rate_init_def)

end
