(* ===== verification/Nxp_Stream.thy ===== *)
theory Nxp_Stream
  imports Nxp_Frame Nxp_Buffer Nxp_Flow Nxp_Rate
begin

text \<open>
  Streams (\<^verbatim>\<open>core/stream.c\<close>, the struct in \<^verbatim>\<open>core/connection_internal.h\<close>): the state machine,
  the circular send and receive buffers, frame generation and reassembly, and the ACK and loss
  callbacks.  Operations that copy bytes return an option: \<^term>\<open>None\<close> is a copy outside a
  buffer.  Log and flight-recorder calls are left out.
\<close>

section \<open>Structures\<close>

type_synonym stream_ptr = nat

record nxp_stream_send =
  snd_data :: bytes
  snd_cap :: u64
  write_offset :: u64
  sent_offset :: u64
  acked_offset :: u64
  snd_fin :: bool
  fin_sent :: bool
  fin_acked :: bool

record nxp_stream_recv =
  rcv_data :: bytes
  rcv_cap :: u64
  read_offset :: u64
  recv_offset :: u64
  fin_received :: bool
  fin_offset :: u64

text \<open>A callback pointer is kept as the fact that it is set; the links of the scheduler list are
  addresses in the connection's stream store.\<close>

record nxp_stream_s =
  st_id :: u64
  st_type :: nxp_stream_type
  st_state :: nxp_stream_state
  st_priority :: u8
  st_send :: nxp_stream_send
  st_recv :: nxp_stream_recv
  st_flow :: nxp_flow_ctrl
  st_rate_limit :: nxp_stream_rate
  st_on_writable :: bool
  st_blocked :: bool
  sched_next :: "stream_ptr option"
  sched_prev :: "stream_ptr option"
  scheduled :: bool

abbreviation (input) NXP_STREAM_BUF_SIZE :: u64 where "NXP_STREAM_BUF_SIZE \<equiv> 65536"

section \<open>State machine\<close>

fun is_valid_stream_state_transition :: "nxp_stream_state \<Rightarrow> nxp_stream_state \<Rightarrow> bool" where
  "is_valid_stream_state_transition from to =
     (if to = NXP_STREAM_RESET \<or> to = NXP_STREAM_CLOSED then True
      else case from of
        NXP_STREAM_IDLE \<Rightarrow> to = NXP_STREAM_OPEN
      | NXP_STREAM_OPEN \<Rightarrow> to = NXP_STREAM_HALF_CLOSED_LOCAL \<or> to = NXP_STREAM_HALF_CLOSED_REMOTE
      | NXP_STREAM_HALF_CLOSED_LOCAL \<Rightarrow> to = NXP_STREAM_CLOSED
      | NXP_STREAM_HALF_CLOSED_REMOTE \<Rightarrow> to = NXP_STREAM_CLOSED
      | NXP_STREAM_CLOSED \<Rightarrow> False
      | NXP_STREAM_RESET \<Rightarrow> False)"

definition set_stream_state :: "nxp_stream_s \<Rightarrow> nxp_stream_state \<Rightarrow> nxp_stream_s" where
  "set_stream_state s new_state =
     (if \<not> is_valid_stream_state_transition (st_state s) new_state then s
      else s\<lparr>st_state := new_state\<rparr>)"

definition u64_min :: "u64 \<Rightarrow> u64 \<Rightarrow> u64" where
  "u64_min a b = (if a < b then a else b)"

section \<open>Creation\<close>

text \<open>The three allocations may fail one by one.\<close>

definition nxp_stream_create ::
    "bool \<Rightarrow> bool \<Rightarrow> bool \<Rightarrow> u64 \<Rightarrow> nxp_stream_type \<Rightarrow> u64 \<Rightarrow> u64 \<Rightarrow> nxp_stream_s option" where
  "nxp_stream_create alloc_s alloc_send alloc_recv sid type initial_max_send initial_max_recv =
     (if \<not> alloc_s then None
      else if \<not> alloc_send then None
      else if \<not> alloc_recv then None
      else Some
        \<lparr>st_id = sid, st_type = type, st_state = NXP_STREAM_OPEN, st_priority = 128,
         st_send = \<lparr>snd_data = replicate (unat NXP_STREAM_BUF_SIZE) 0,
           snd_cap = NXP_STREAM_BUF_SIZE, write_offset = 0, sent_offset = 0, acked_offset = 0,
           snd_fin = False, fin_sent = False, fin_acked = False\<rparr>,
         st_recv = \<lparr>rcv_data = replicate (unat NXP_STREAM_BUF_SIZE) 0,
           rcv_cap = NXP_STREAM_BUF_SIZE, read_offset = 0, recv_offset = 0,
           fin_received = False, fin_offset = 0\<rparr>,
         st_flow = nxp_flow_init initial_max_recv initial_max_send,
         st_rate_limit = nxp_stream_rate_init, st_on_writable = False, st_blocked = False,
         sched_next = None, sched_prev = None, scheduled = False\<rparr>)"

section \<open>Application side\<close>

text \<open>The \<^verbatim>\<open>ssize_t\<close> result: -1 is \<^term>\<open>None\<close>.\<close>

definition nxp_stream_write ::
    "nxp_stream_s \<Rightarrow> bytes \<Rightarrow> bool \<Rightarrow> (nxp_stream_s \<times> nat option) option" where
  "nxp_stream_write s data fin =
     (if st_state s = NXP_STREAM_HALF_CLOSED_LOCAL \<or> st_state s = NXP_STREAM_CLOSED \<or>
         st_state s = NXP_STREAM_RESET then Some (s, None)
      else if snd_fin (st_send s) then Some (s, None)
      else
        let sb = st_send s;
            buffered = write_offset sb - acked_offset sb;
            avail = (if snd_cap sb > buffered then snd_cap sb - buffered else 0);
            fc_avail = (if peer_max_data (st_flow s) > write_offset sb
                        then peer_max_data (st_flow s) - write_offset sb else 0);
            avail = (if avail > fc_avail then fc_avail else avail);
            to_write = (if length data < unat avail then length data else unat avail) in do {
          sb \<leftarrow> (if to_write > 0 then do {
              d \<leftarrow> circ_write (snd_data sb) (unat (write_offset sb mod snd_cap sb))
                     (take to_write data);
              Some (sb\<lparr>snd_data := d, write_offset := write_offset sb + of_nat to_write\<rparr>) }
            else Some sb);
          let sb = (if fin then sb\<lparr>snd_fin := True\<rparr> else sb) in
          Some (s\<lparr>st_send := sb\<rparr>, Some to_write) })"

text \<open>The bytes read and the \<^verbatim>\<open>fin\<close> flag.\<close>

definition nxp_stream_read ::
    "nxp_stream_s \<Rightarrow> nat \<Rightarrow> (nxp_stream_s \<times> bytes \<times> bool) option" where
  "nxp_stream_read s buf_len =
     (let rcv = st_recv s in
      if read_offset rcv \<ge> recv_offset rcv then
        Some (s, [], fin_received rcv \<and> read_offset rcv \<ge> fin_offset rcv)
      else
        let available = recv_offset rcv - read_offset rcv;
            to_read = (if buf_len < unat available then buf_len else unat available) in do {
          buf \<leftarrow> circ_read (rcv_data rcv) (unat (read_offset rcv mod rcv_cap rcv)) to_read;
          let rcv = rcv\<lparr>read_offset := read_offset rcv + of_nat to_read\<rparr>;
              fin = (fin_received rcv \<and> read_offset rcv \<ge> fin_offset rcv) in
          Some (s\<lparr>st_recv := rcv, st_flow := nxp_flow_on_consume (st_flow s) (of_nat to_read)\<rparr>,
                buf, fin) })"

section \<open>Sending frames\<close>

definition nxp_stream_unsent :: "nxp_stream_s \<Rightarrow> u64" where
  "nxp_stream_unsent s =
     (if sent_offset (st_send s) \<ge> write_offset (st_send s) then 0
      else write_offset (st_send s) - sent_offset (st_send s))"

text \<open>Returns the filled frame, or no frame for \<^verbatim>\<open>false\<close>.  The data pointer refers to
  \<open>data_len\<close> bytes inside the send buffer; \<^term>\<open>None\<close> on the outside would be a pointer whose
  bytes reach past it.\<close>

definition nxp_stream_fill_frame ::
    "nxp_stream_s \<Rightarrow> nat \<Rightarrow> (nxp_stream_s \<times> nxp_frame_stream option) option" where
  "nxp_stream_fill_frame s max_data_len =
     (let sb = st_send s;
          unsent = nxp_stream_unsent s in
      if unsent = 0 \<and> \<not> (snd_fin sb \<and> \<not> fin_sent sb) then Some (s, None)
      else
        let data_len = min (unat unsent) max_data_len;
            buf_pos = unat (sent_offset sb mod snd_cap sb);
            first = unat (snd_cap sb) - buf_pos;
            data_len = (if data_len > 0 \<and> \<not> data_len \<le> first then first else data_len) in do {
          data \<leftarrow> (if data_len > 0 then map_option Some (mem_read (snd_data sb) buf_pos data_len)
                   else Some None);
          let fin = (snd_fin sb \<and> \<not> fin_sent sb \<and>
                     sent_offset sb + of_nat data_len = write_offset sb);
              out = \<lparr>sf_stream_id = st_id s, sf_offset = sent_offset sb,
                     sf_length = of_nat data_len, sf_has_offset = (sent_offset sb > 0),
                     sf_has_length = True, sf_fin = fin, sf_data = data\<rparr>;
              sb = (if fin then sb\<lparr>fin_sent := True\<rparr> else sb);
              sb = sb\<lparr>sent_offset := sent_offset sb + of_nat data_len\<rparr> in
          Some (s\<lparr>st_send := sb\<rparr>, Some out) })"

section \<open>Receiving frames\<close>

text \<open>The receive-buffer update of \<^verbatim>\<open>nxp_stream_on_recv\<close> for a frame with data.\<close>

definition recv_copy :: "nxp_stream_recv \<Rightarrow> u64 \<Rightarrow> u64 \<Rightarrow> bytes \<Rightarrow> nxp_stream_recv option" where
  "recv_copy rcv offset len data =
     (let end = offset + len in
      if end > read_offset rcv then
        let skip = (if offset < read_offset rcv then unat (read_offset rcv - offset) else 0);
            copy_start = (if offset < read_offset rcv then read_offset rcv else offset);
            copy_len = unat len - skip in do {
          src \<leftarrow> mem_read data skip copy_len;
          d \<leftarrow> circ_write (rcv_data rcv) (unat (copy_start mod rcv_cap rcv)) src;
          Some (rcv\<lparr>rcv_data := d,
                   recv_offset := (if end > recv_offset rcv then end else recv_offset rcv)\<rparr>) }
      else Some rcv)"

definition nxp_stream_on_recv ::
    "nxp_stream_s \<Rightarrow> nxp_frame_stream \<Rightarrow> (nxp_stream_s \<times> nxp_error_code) option" where
  "nxp_stream_on_recv s f =
     (if st_state s = NXP_STREAM_HALF_CLOSED_REMOTE \<or> st_state s = NXP_STREAM_CLOSED \<or>
         st_state s = NXP_STREAM_RESET then Some (s, NXP_ERR_STREAM_CLOSED)
      else
        let offset = (if sf_has_offset f then sf_offset f else 0);
            end = offset + sf_length f in
        if end > local_max_data (st_flow s) then Some (s, NXP_ERR_FLOW_CONTROL)
        else do {
          s \<leftarrow> (case sf_data f of
                  Some data \<Rightarrow>
                    if sf_length f > 0 then do {
                      rcv \<leftarrow> recv_copy (st_recv s) offset (sf_length f) data;
                      Some (s\<lparr>st_recv := rcv,
                              st_flow := nxp_flow_on_recv (st_flow s) (sf_length f)\<rparr>) }
                    else Some s
                | None \<Rightarrow> Some s);
          let s = (if sf_fin f then
                     let s = s\<lparr>st_recv := (st_recv s)\<lparr>fin_received := True, fin_offset := end\<rparr>\<rparr> in
                     if st_state s = NXP_STREAM_OPEN
                     then set_stream_state s NXP_STREAM_HALF_CLOSED_REMOTE
                     else if st_state s = NXP_STREAM_HALF_CLOSED_LOCAL
                     then set_stream_state s NXP_STREAM_CLOSED
                     else s
                   else s) in
          Some (s, NXP_OK) })"

section \<open>ACK and loss\<close>

definition nxp_stream_on_ack :: "nxp_stream_s \<Rightarrow> u64 \<Rightarrow> u32 \<Rightarrow> bool \<Rightarrow> nxp_stream_s" where
  "nxp_stream_on_ack s offset len fin =
     (let end = offset + ucast len;
          s = (if end > acked_offset (st_send s)
               then s\<lparr>st_send := (st_send s)\<lparr>acked_offset := end\<rparr>\<rparr> else s) in
      if fin then
        let s = s\<lparr>st_send := (st_send s)\<lparr>fin_acked := True\<rparr>\<rparr> in
        if st_state s = NXP_STREAM_HALF_CLOSED_REMOTE then set_stream_state s NXP_STREAM_CLOSED
        else if st_state s = NXP_STREAM_OPEN then set_stream_state s NXP_STREAM_HALF_CLOSED_LOCAL
        else s
      else s)"

definition nxp_stream_on_loss :: "nxp_stream_s \<Rightarrow> u64 \<Rightarrow> u32 \<Rightarrow> bool \<Rightarrow> nxp_stream_s" where
  "nxp_stream_on_loss s offset len fin =
     (let s = (if offset < sent_offset (st_send s)
               then s\<lparr>st_send := (st_send s)\<lparr>sent_offset := offset\<rparr>\<rparr> else s) in
      if fin then s\<lparr>st_send := (st_send s)\<lparr>fin_sent := False\<rparr>\<rparr> else s)"

section \<open>What the buffers represent\<close>

text \<open>\<open>w\<close> is everything the application wrote so far; the send buffer still holds the part that is
  not acknowledged.\<close>

definition send_repr :: "bytes \<Rightarrow> nxp_stream_send \<Rightarrow> bool" where
  "send_repr w sb \<longleftrightarrow>
     snd_data sb \<noteq> [] \<and> length (snd_data sb) = unat (snd_cap sb) \<and>
     unat (write_offset sb) = length w \<and>
     acked_offset sb \<le> sent_offset sb \<and> sent_offset sb \<le> write_offset sb \<and>
     length w - unat (acked_offset sb) \<le> length (snd_data sb) \<and>
     ring_slice (snd_data sb) (unat (acked_offset sb)) (length w - unat (acked_offset sb)) =
       drop (unat (acked_offset sb)) w"

text \<open>\<open>w\<close> is the peer's byte stream; the receive buffer holds the part that has arrived and is not
  read.\<close>

definition recv_repr :: "bytes \<Rightarrow> nxp_stream_recv \<Rightarrow> bool" where
  "recv_repr w rcv \<longleftrightarrow>
     rcv_data rcv \<noteq> [] \<and> length (rcv_data rcv) = unat (rcv_cap rcv) \<and>
     read_offset rcv \<le> recv_offset rcv \<and> unat (recv_offset rcv) \<le> length w \<and>
     unat (recv_offset rcv) - unat (read_offset rcv) \<le> length (rcv_data rcv) \<and>
     (\<forall>t < unat (recv_offset rcv) - unat (read_offset rcv).
        rcv_data rcv ! ((unat (read_offset rcv) + t) mod length (rcv_data rcv)) =
        w ! (unat (read_offset rcv) + t))"

text \<open>The bytes a STREAM frame carries, and where it says they belong.\<close>

definition frame_bytes :: "nxp_frame_stream \<Rightarrow> bytes" where
  "frame_bytes f = (case sf_data f of None \<Rightarrow> [] | Some d \<Rightarrow> d)"

definition frame_at :: "bytes \<Rightarrow> u64 \<Rightarrow> nxp_frame_stream \<Rightarrow> bool" where
  "frame_at w off f \<longleftrightarrow>
     sf_offset f = off \<and> sf_has_offset f = (off > 0) \<and> data_ok (sf_length f) (sf_data f) \<and>
     unat off + unat (sf_length f) \<le> length w \<and>
     frame_bytes f = take (unat (sf_length f)) (drop (unat off) w)"

text \<open>How many bytes \<^const>\<open>nxp_stream_write\<close> takes.\<close>

definition write_room :: "nxp_stream_s \<Rightarrow> bytes \<Rightarrow> nat" where
  "write_room s data =
     (let sb = st_send s; b = write_offset sb - acked_offset sb;
          av = (if snd_cap sb > b then snd_cap sb - b else 0);
          fc = (if peer_max_data (st_flow s) > write_offset sb
                then peer_max_data (st_flow s) - write_offset sb else 0);
          m = (if av > fc then fc else av) in
      if length data < unat m then length data else unat m)"

section \<open>Sender\<close>

lemma unat_diff_or_0: "unat (if x > y then x - y else (0 :: u64)) = unat x - unat y"
  by (simp add: unat_sub less_imp_le word_less_nat_alt [symmetric]) (simp add: word_less_nat_alt)

lemma write_room_bound:
  assumes "send_repr w (st_send s)"
  defines "n \<equiv> length w - unat (acked_offset (st_send s))"
  shows "write_room s data \<le> length data"
    "n + write_room s data \<le> length (snd_data (st_send s))"
    "length w + write_room s data < 2 ^ 64"
proof -
  let ?sb = "st_send s"
  have r: "length (snd_data ?sb) = unat (snd_cap ?sb)" "unat (write_offset ?sb) = length w"
    "acked_offset ?sb \<le> write_offset ?sb" "n \<le> length (snd_data ?sb)"
    using assms by (auto simp: send_repr_def)
  define av where "av = (if snd_cap ?sb > write_offset ?sb - acked_offset ?sb
    then snd_cap ?sb - (write_offset ?sb - acked_offset ?sb) else 0)"
  define fc where "fc = (if peer_max_data (st_flow s) > write_offset ?sb
    then peer_max_data (st_flow s) - write_offset ?sb else 0)"
  have "unat (write_offset ?sb - acked_offset ?sb) = n" using r by (simp add: n_def unat_sub)
  then have u: "unat av = unat (snd_cap ?sb) - n" "unat fc = unat (peer_max_data (st_flow s)) - length w"
    using r(2) unfolding av_def fc_def unat_diff_or_0 by simp_all
  have "write_room s data \<le> unat av" "write_room s data \<le> unat fc"
    unfolding write_room_def Let_def av_def [symmetric] fc_def [symmetric]
    by (auto simp: word_less_nat_alt)
  moreover have "length w < 2 ^ 64" "unat (peer_max_data (st_flow s)) < 2 ^ 64"
    using r(2) unat_less_2p64 [of "write_offset ?sb"] by simp_all
  ultimately show "n + write_room s data \<le> length (snd_data ?sb)" "length w + write_room s data < 2 ^ 64"
    using r(1,4) u by linarith+
  show "write_room s data \<le> length data" by (simp add: write_room_def Let_def)
qed

lemma write_eq:
  assumes repr: "send_repr w (st_send s)"
  shows "\<exists>sb'. send_repr (w @ take (write_room s data) data) sb' \<and>
      sent_offset sb' = sent_offset (st_send s) \<and> acked_offset sb' = acked_offset (st_send s) \<and>
      nxp_stream_write s data fin =
       (if st_state s = NXP_STREAM_HALF_CLOSED_LOCAL \<or> st_state s = NXP_STREAM_CLOSED \<or>
           st_state s = NXP_STREAM_RESET \<or> snd_fin (st_send s) then Some (s, None)
        else Some (s\<lparr>st_send := sb'\<rparr>, Some (write_room s data)))"
proof -
  let ?sb = "st_send s" and ?t = "write_room s data"
  define a where "a = unat (acked_offset ?sb)"
  define n where "n = length w - a"
  have r: "snd_data ?sb \<noteq> []" "length (snd_data ?sb) = unat (snd_cap ?sb)"
    "unat (write_offset ?sb) = length w" "acked_offset ?sb \<le> sent_offset ?sb"
    "sent_offset ?sb \<le> write_offset ?sb" "ring_slice (snd_data ?sb) a n = drop a w"
    using repr by (auto simp: send_repr_def a_def n_def)
  have al: "a \<le> length w" using r(3,4,5) by (simp add: a_def word_le_nat_alt)
  note t = write_room_bound [OF repr, of data, folded a_def, folded n_def]
  have pos: "unat (write_offset ?sb mod snd_cap ?sb) = (a + n) mod length (snd_data ?sb)"
    using r(2,3) al by (simp add: unat_mod n_def)
  obtain d where d: "circ_write (snd_data ?sb) ((a + n) mod length (snd_data ?sb)) (take ?t data) = Some d"
    "length d = length (snd_data ?sb)" "ring_slice d a (n + ?t) = drop a w @ take ?t data"
    using circ_write_append [OF r(1), of n "take ?t data" a] t r(6) by (auto simp: min_absorb2)
  define sb' where "sb' = (let sb = (if ?t > 0
      then ?sb\<lparr>snd_data := d, write_offset := write_offset ?sb + of_nat ?t\<rparr> else ?sb) in
      if fin then sb\<lparr>snd_fin := True\<rparr> else sb)"
  have "nxp_stream_write s data fin =
       (if st_state s = NXP_STREAM_HALF_CLOSED_LOCAL \<or> st_state s = NXP_STREAM_CLOSED \<or>
           st_state s = NXP_STREAM_RESET \<or> snd_fin ?sb then Some (s, None)
        else Some (s\<lparr>st_send := sb'\<rparr>, Some ?t))"
    unfolding nxp_stream_write_def Let_def write_room_def [unfolded Let_def, symmetric] pos d(1)
    by (simp add: sb'_def)
  moreover have wo: "unat (write_offset ?sb + of_nat ?t) = length w + ?t"
    using t(3) r(3) by (subst unat_add_nowrap) simp_all
  have "length w + ?t - a = n + ?t" using al by (simp add: n_def)
  then have "send_repr (w @ take ?t data) sb'"
    using r t d al wo unfolding sb'_def
    by (auto simp: send_repr_def Let_def a_def [symmetric] n_def word_le_nat_alt)
  moreover have "sent_offset sb' = sent_offset ?sb" "acked_offset sb' = acked_offset ?sb"
    by (simp_all add: sb'_def Let_def)
  ultimately show ?thesis by blast
qed

lemma write_spec:
  assumes "send_repr w (st_send s)" "nxp_stream_write s data fin = Some (s', Some k)"
  shows "send_repr (w @ take k data) (st_send s') \<and> k = write_room s data \<and> k \<le> length data \<and>
    s' = s\<lparr>st_send := st_send s'\<rparr> \<and> sent_offset (st_send s') = sent_offset (st_send s) \<and>
    acked_offset (st_send s') = acked_offset (st_send s)"
  using write_eq [OF assms(1), of data fin] assms(2) write_room_bound(1) [OF assms(1), of data]
  by (auto split: if_splits)

text \<open>Reading the send buffer at a logical position up to its end.\<close>

lemma send_window_read:
  assumes "data \<noteq> []" "a \<le> p" "p + k \<le> length w" "k \<le> length data - p mod length data"
    and "ring_slice data a (length w - a) = drop a w"
  shows "mem_read data (p mod length data) k = Some (take k (drop p w))"
proof -
  have "ring_slice data p (length w - p) = drop p w"
    using ring_slice_drop [of "p - a" "length w - a" data a] assms by simp
  then have "ring_slice data p k = take k (drop p w)"
    using ring_slice_take [of k "length w - p" data p] assms(3) by simp
  moreover have "circ_read data (p mod length data) k = mem_read data (p mod length data) k"
    using assms(4) by (auto simp: circ_read_def Let_def split: bind_split)
  moreover have "k \<le> length data" using assms(4) by simp
  ultimately show ?thesis using circ_read_ring [OF assms(1), of k p] by simp
qed

text \<open>A filled frame carries the bytes of the stream at its offset.\<close>

lemma fill_frame_spec:
  assumes repr: "send_repr w (st_send s)"
  shows "\<exists>s' fo. nxp_stream_fill_frame s m = Some (s', fo) \<and>
    (case fo of None \<Rightarrow> s' = s
     | Some f \<Rightarrow> frame_at w (sent_offset (st_send s)) f \<and> sf_stream_id f = st_id s \<and>
         unat (sf_length f) \<le> m \<and> send_repr w (st_send s') \<and> s' = s\<lparr>st_send := st_send s'\<rparr> \<and>
         acked_offset (st_send s') = acked_offset (st_send s) \<and>
         sent_offset (st_send s') = sent_offset (st_send s) + sf_length f)"
proof -
  let ?sb = "st_send s"
  define a where "a = unat (acked_offset ?sb)"
  define p where "p = unat (sent_offset ?sb)"
  let ?c = "length (snd_data ?sb)"
  have r: "snd_data ?sb \<noteq> []" "?c = unat (snd_cap ?sb)" "unat (write_offset ?sb) = length w"
    "a \<le> p" "p \<le> length w" "length w - a \<le> ?c" "ring_slice (snd_data ?sb) a (length w - a) = drop a w"
    using repr by (auto simp: send_repr_def a_def p_def word_le_nat_alt)
  have un: "unat (nxp_stream_unsent s) = length w - p"
    using r(3,5) by (simp add: nxp_stream_unsent_def p_def word_le_nat_alt unat_sub)
  have pos: "unat (sent_offset ?sb mod snd_cap ?sb) = p mod ?c" using r(2) by (simp add: unat_mod p_def)
  define l where "l = min (length w - p) m"
  define k where "k = (if l > 0 \<and> \<not> l \<le> ?c - p mod ?c then ?c - p mod ?c else l)"
  have pc: "p mod ?c < ?c" using r(1) by simp
  then have k: "k \<le> l" "k \<le> ?c - p mod ?c" "k \<le> length w - p" "k \<le> m" "k \<le> ?c"
    by (auto simp: k_def l_def)
  have rd: "mem_read (snd_data ?sb) (p mod ?c) k = Some (take k (drop p w))"
    using k(2,3) r by (intro send_window_read [where a = a]) auto
  have kw: "unat (of_nat k :: u64) = k"
    using k(3) r(3) le_less_trans [OF _ unat_less_2p64 [of "write_offset ?sb"], of k] by simp
  have new: "unat (sent_offset ?sb + of_nat k) = p + k"
    using k(3) r(3,5) kw le_less_trans [OF _ unat_less_2p64 [of "write_offset ?sb"], of "p + k"]
    by (subst unat_add_nowrap) (simp_all add: p_def)
  define fin where "fin = (snd_fin ?sb \<and> \<not> fin_sent ?sb \<and> sent_offset ?sb + of_nat k = write_offset ?sb)"
  define f where "f = \<lparr>sf_stream_id = st_id s, sf_offset = sent_offset ?sb, sf_length = of_nat k,
    sf_has_offset = (sent_offset ?sb > 0), sf_has_length = True, sf_fin = fin,
    sf_data = (if k > 0 then Some (take k (drop p w)) else None)\<rparr>"
  define sb' where "sb' = (let sb = (if fin then ?sb\<lparr>fin_sent := True\<rparr> else ?sb) in
    sb\<lparr>sent_offset := sent_offset sb + of_nat k\<rparr>)"
  have data: "(if k > 0 then map_option Some (mem_read (snd_data ?sb) (p mod ?c) k) else Some None) =
      Some (if k > 0 then Some (take k (drop p w)) else None)" by (simp add: rd)
  have eq: "nxp_stream_fill_frame s m =
      (if nxp_stream_unsent s = 0 \<and> \<not> (snd_fin ?sb \<and> \<not> fin_sent ?sb) then Some (s, None)
       else Some (s\<lparr>st_send := sb'\<rparr>, Some f))"
    unfolding nxp_stream_fill_frame_def Let_def un pos r(2) [symmetric] l_def [symmetric] k_def [symmetric] data
    by (simp add: f_def sb'_def fin_def Let_def)
  have "frame_at w (sent_offset ?sb) f"
    using kw k(3) r(5) by (auto simp: frame_at_def f_def data_ok_def frame_bytes_def p_def [symmetric] min_absorb2 simp flip: unat_eq_zero)
  moreover have "send_repr w sb'"
    using repr new k(3) r(3,4,5) by (auto simp: send_repr_def sb'_def Let_def word_le_nat_alt a_def p_def)
  moreover have "sent_offset sb' = sent_offset ?sb + sf_length f" "acked_offset sb' = acked_offset ?sb"
    "sf_stream_id f = st_id s" "unat (sf_length f) \<le> m"
    using kw k(4) by (simp_all add: sb'_def f_def Let_def)
  ultimately show ?thesis using eq by auto
qed

section \<open>Receiver\<close>

text \<open>Storing stream bytes at a position inside the received window (or at its end) keeps the buffer
  equal to the stream.\<close>

lemma recv_store:
  assumes D: "D \<noteq> []" and c: "c = length D"
    and old: "\<forall>t<n. D ! ((r + t) mod c) = w ! (r + t)" and n: "n \<le> c"
    and a: "a \<le> n" "a + l \<le> c" and src: "length src = l" "\<forall>j<l. src ! j = w ! (r + a + j)"
  shows "\<exists>D'. circ_write D ((r + a) mod c) src = Some D' \<and> length D' = c \<and>
    (\<forall>t<max n (a + l). D' ! ((r + t) mod c) = w ! (r + t))"
proof -
  obtain D' where D': "circ_write D ((r + a) mod c) src = Some D'" "length D' = c"
    "\<forall>j<c. D' ! ((r + a + j) mod c) = (if j < l then src ! j else D ! ((r + a + j) mod c))"
    using circ_write_ring [OF D, of src "r + a"] a(2) src(1) c by auto
  have "D' ! ((r + t) mod c) = w ! (r + t)" if t: "t < max n (a + l)" for t
  proof (cases "a \<le> t")
    case True
    then have j: "r + t = r + a + (t - a)" "t - a < c" using t n a by auto
    have "D' ! ((r + t) mod c) = (if t - a < l then src ! (t - a) else D ! ((r + t) mod c))"
      unfolding j(1) using D'(3) j(2) by blast
    moreover have "t - a < l \<Longrightarrow> src ! (t - a) = w ! (r + t)" unfolding j(1) using src(2) by blast
    moreover have "\<not> t - a < l \<Longrightarrow> t < n" using t True by auto
    ultimately show ?thesis using old by auto
  next
    case False
    let ?j = "c - a + t"
    have "r + a + ?j = (r + t) + c" "?j < c" "\<not> ?j < l" using False a n by auto
    then have "D' ! ((r + t) mod c) = D ! ((r + t) mod c)" using D'(3) by (metis mod_add_self2)
    then show ?thesis using False a old by simp
  qed
  then show ?thesis using D' by blast
qed

lemma recv_copy_spec:
  assumes repr: "recv_repr w rcv"
    and d: "length data = unat len" "0 < unat len" "unat off + unat len \<le> length w" "length w < 2 ^ 64"
      "data = take (unat len) (drop (unat off) w)"
    and order: "off \<le> recv_offset rcv"
    and room: "unat off + unat len \<le> unat (read_offset rcv) + length (rcv_data rcv)"
  shows "\<exists>rcv'. recv_copy rcv off len data = Some rcv' \<and> recv_repr w rcv' \<and>
    read_offset rcv' = read_offset rcv \<and> length (rcv_data rcv') = length (rcv_data rcv) \<and>
    unat (recv_offset rcv') = max (unat (recv_offset rcv)) (unat off + unat len)"
proof -
  let ?c = "length (rcv_data rcv)"
  define r where "r = unat (read_offset rcv)"
  define q where "q = unat (recv_offset rcv)"
  define o' where "o' = unat off"
  define e where "e = o' + unat len"
  have R: "rcv_data rcv \<noteq> []" "?c = unat (rcv_cap rcv)" "r \<le> q" "q \<le> length w" "q - r \<le> ?c"
    "\<forall>t<q - r. rcv_data rcv ! ((r + t) mod ?c) = w ! (r + t)"
    using repr by (auto simp: recv_repr_def r_def q_def word_le_nat_alt)
  have ue: "unat (off + len) = e" using d(3,4) by (simp add: e_def o'_def unat_add_nowrap)
  have oq: "o' \<le> q" "e \<le> r + ?c" "e \<le> length w" "o' < e"
    using order room d(2,3) by (auto simp: o'_def q_def r_def e_def word_le_nat_alt)
  show ?thesis
  proof (cases "r < e")
    case False
    then have "recv_copy rcv off len data = Some rcv"
      using ue by (simp add: recv_copy_def Let_def word_less_nat_alt r_def)
    then show ?thesis using repr False R(3) ue by (auto simp: q_def [symmetric] e_def [symmetric] o'_def [symmetric])
  next
    case True
    define a where "a = (if o' < r then 0 else o' - r)"
    define k where "k = (if o' < r then r - o' else 0)"
    define l where "l = unat len - k"
    have l: "r + a = max o' r" "a + l = e - r" "a \<le> q - r" "a + l \<le> ?c" "k + l = unat len" "r + a = o' + k"
      using oq True R(3) by (auto simp: a_def k_def l_def e_def)
    have src: "mem_read data k l = Some (take l (drop k data))" using l(5) d(1) by (simp add: mem_read_def)
    have "\<forall>j<l. take l (drop k data) ! j = w ! (r + a + j)"
      using l(5,6) d(1,5) oq(3) by (auto simp: o'_def e_def ac_simps)
    moreover have "length (take l (drop k data)) = l" using l(5) d(1) by simp
    ultimately obtain D' where D': "circ_write (rcv_data rcv) ((r + a) mod ?c) (take l (drop k data)) = Some D'"
      "length D' = ?c" "\<forall>t<max (q - r) (a + l). D' ! ((r + t) mod ?c) = w ! (r + t)"
      using recv_store [OF R(1) refl R(6,5) l(3,4)] by blast
    define start where "start = (if off < read_offset rcv then read_offset rcv else off)"
    have "unat start = r + a" using l(1) by (auto simp: start_def o'_def r_def word_less_nat_alt max_def)
    then have pos: "unat (start mod rcv_cap rcv) = (r + a) mod ?c" using R(2) by (simp add: unat_mod)
    have kk: "(if off < read_offset rcv then unat (read_offset rcv - off) else 0) = k"
      by (simp add: k_def o'_def r_def word_less_nat_alt unat_sub word_le_nat_alt)
    let ?rcv = "rcv\<lparr>rcv_data := D', recv_offset := (if off + len > recv_offset rcv then off + len else recv_offset rcv)\<rparr>"
    have "read_offset rcv < off + len" using True ue by (simp add: word_less_nat_alt r_def)
    then have eq: "recv_copy rcv off len data = Some ?rcv"
      unfolding recv_copy_def Let_def start_def [symmetric] kk l_def [symmetric] src pos
      by (simp add: D'(1))
    have uq: "unat (recv_offset ?rcv) = max q e" using ue by (simp add: q_def word_less_nat_alt max_def)
    have m: "max q e - r = max (q - r) (a + l)" using l(2) True R(3) by (simp add: max_def)
    have "D' \<noteq> []" "length D' = unat (rcv_cap rcv)" "r \<le> max q e" "max q e \<le> length w" "max q e - r \<le> ?c"
      using D'(2) R oq l m le_max_iff_disj [of r q e] by auto
    then have "recv_repr w ?rcv" using D'(2) uq D'(3) [folded m]
      unfolding recv_repr_def r_def by (simp add: word_le_nat_alt)
    then show ?thesis using eq D'(2) uq by (auto simp: q_def e_def o'_def)
  qed
qed

text \<open>A frame that belongs to the stream, arrives without a gap before it and fits the buffer.\<close>

lemma on_recv_spec:
  assumes repr: "recv_repr w (st_recv r)" and w: "length w < 2 ^ 64"
    and f: "frame_at w off f" and order: "off \<le> recv_offset (st_recv r)"
    and room: "unat off + unat (sf_length f) \<le>
      unat (read_offset (st_recv r)) + length (rcv_data (st_recv r))"
  shows "\<exists>r' e. nxp_stream_on_recv r f = Some (r', e) \<and> recv_repr w (st_recv r') \<and>
    read_offset (st_recv r') = read_offset (st_recv r) \<and>
    length (rcv_data (st_recv r')) = length (rcv_data (st_recv r)) \<and>
    unat (recv_offset (st_recv r')) =
      (if e = NXP_OK then max (unat (recv_offset (st_recv r))) (unat off + unat (sf_length f))
       else unat (recv_offset (st_recv r)))"
proof -
  have off: "(if sf_has_offset f then sf_offset f else 0) = off"
    using f by (auto simp: frame_at_def word_gt_0)
  have state: "st_recv (set_stream_state x y) = st_recv x" for x y by (simp add: set_stream_state_def)
  have upd: "recv_repr w (rc\<lparr>fin_received := b, fin_offset := x\<rparr>) = recv_repr w rc" for rc b x
    by (simp add: recv_repr_def)
  show ?thesis
  proof (cases "sf_data f")
    case None
    then have "sf_length f = 0" using f by (simp add: frame_at_def data_ok_def)
    then show ?thesis using None repr order off
      by (auto simp: nxp_stream_on_recv_def Let_def state upd word_le_nat_alt)
  next
    case (Some data)
    then have d: "sf_length f \<noteq> 0" "length data = unat (sf_length f)"
      "data = take (unat (sf_length f)) (drop (unat off) w)" "unat off + unat (sf_length f) \<le> length w"
      using f by (auto simp: frame_at_def data_ok_def frame_bytes_def)
    then obtain rcv where rcv: "recv_copy (st_recv r) off (sf_length f) data = Some rcv" "recv_repr w rcv"
      "read_offset rcv = read_offset (st_recv r)" "length (rcv_data rcv) = length (rcv_data (st_recv r))"
      "unat (recv_offset rcv) = max (unat (recv_offset (st_recv r))) (unat off + unat (sf_length f))"
      using recv_copy_spec [OF repr d(2) _ d(4) w d(3) order room] by (auto simp: unat_gt_0)
    then show ?thesis using Some d(1) repr off
      by (auto simp: nxp_stream_on_recv_def Let_def state upd word_gt_0)
  qed
qed

lemma read_spec:
  assumes repr: "recv_repr w (st_recv r)"
  shows "\<exists>r' ys fin. nxp_stream_read r n = Some (r', ys, fin) \<and> recv_repr w (st_recv r') \<and>
    recv_offset (st_recv r') = recv_offset (st_recv r) \<and>
    length (rcv_data (st_recv r')) = length (rcv_data (st_recv r)) \<and>
    unat (read_offset (st_recv r')) = unat (read_offset (st_recv r)) + length ys \<and>
    ys = take (min n (unat (recv_offset (st_recv r)) - unat (read_offset (st_recv r))))
           (drop (unat (read_offset (st_recv r))) w)"
proof -
  let ?rc = "st_recv r"
  define p where "p = unat (read_offset ?rc)"
  define q where "q = unat (recv_offset ?rc)"
  let ?c = "length (rcv_data ?rc)"
  have R: "rcv_data ?rc \<noteq> []" "?c = unat (rcv_cap ?rc)" "p \<le> q" "q \<le> length w" "q - p \<le> ?c"
    "\<forall>t<q - p. rcv_data ?rc ! ((p + t) mod ?c) = w ! (p + t)"
    using repr by (auto simp: recv_repr_def p_def q_def word_le_nat_alt)
  show ?thesis
  proof (cases "q \<le> p")
    case True
    then show ?thesis using repr R(3) by (simp add: nxp_stream_read_def Let_def p_def q_def word_le_nat_alt)
  next
    case False
    define k where "k = min n (q - p)"
    have lt: "\<not> read_offset ?rc \<ge> recv_offset ?rc" using False by (simp add: p_def q_def word_le_nat_alt)
    have av: "unat (recv_offset ?rc - read_offset ?rc) = q - p"
      using R(3) by (simp add: p_def q_def unat_sub word_le_nat_alt)
    have kif: "(if n < q - p then n else q - p) = k" by (simp add: k_def)
    have pos: "unat (read_offset ?rc mod rcv_cap ?rc) = p mod ?c" using R(2) by (simp add: unat_mod p_def)
    have sl: "ring_slice (rcv_data ?rc) p k = take k (drop p w)"
      using R(4,6) by (intro nth_equalityI) (auto simp: ring_slice_def k_def)
    then have rd: "circ_read (rcv_data ?rc) (p mod ?c) k = Some (take k (drop p w))"
      using circ_read_ring [OF R(1), of k p] R(5) by (simp add: k_def)
    have kp: "p + k \<le> q" using R(3) by (simp add: k_def)
    then have new: "unat (read_offset ?rc + of_nat k) = p + k"
      using le_less_trans [OF _ unat_less_2p64 [of "recv_offset ?rc"], of "p + k"]
      by (subst unat_add_nowrap) (simp_all add: p_def q_def)
    have "recv_repr w (?rc\<lparr>read_offset := read_offset ?rc + of_nat k\<rparr>)"
      unfolding recv_repr_def using R kp new
      by (auto simp: word_le_nat_alt q_def [symmetric] add.assoc)
    moreover have "length (take k (drop p w)) = k" using kp R(4) by simp
    ultimately show ?thesis using lt new
      unfolding nxp_stream_read_def Let_def av kif pos rd
      by (simp add: k_def p_def q_def)
  qed
qed


end
