(* ===== verification/Nxp_Pipe.thy ===== *)
theory Nxp_Pipe
  imports Nxp_Stream
begin

text \<open>
  Two stream objects of \<^verbatim>\<open>src/core/stream.c\<close> connected by a network that reorders, duplicates and
  loses encoded STREAM frames. The events of a run call the operations of \<open>Nxp_Stream\<close> and the
  codec of \<open>Nxp_Frame\<close>, whatever the network does. The predicate \<open>in_order\<close> names the conditions
  under which the receive buffer and the send buffer of the code hold the stream: a delivered frame
  does not start beyond the data received so far and fits the receive buffer, acknowledgements
  arrive for a prefix of the data sent, no acknowledged data is declared lost, and the frames sent
  are inside the limits of the codec. Under them delivery is reliable; without them the code hands
  out bytes nobody sent.
\<close>

section \<open>The model\<close>

text \<open>One direction of a stream between two endpoints: the sending half of one stream object, the
  receiving half of the other, and the encoded STREAM frames between them.  The history variables
  record what the application wrote and read and whether a read reported the end.\<close>

record pipe =
  p_snd :: nxp_stream_s
  p_rcv :: nxp_stream_s
  p_wire :: "bytes list"
  p_written :: bytes
  p_read :: bytes
  p_fin :: bool

text \<open>\<open>Send_frame\<close> fills and encodes a frame into the given buffer, \<open>Deliver i rest\<close> hands the frame
  at position \<open>i\<close> of the wire, followed by other bytes of its packet, to the receiver; the last two
  stand for the bookkeeping of flow control by the connection.\<close>

datatype pipe_event =
    Write bytes bool
  | Send_frame nat bytes
  | Deliver nat bytes
  | Read nat
  | Ack_frame u64 u32 bool
  | Loss_frame u64 u32 bool
  | Snd_flow nxp_flow_ctrl
  | Rcv_flow nxp_flow_ctrl

text \<open>A frame on the wire stays there: it may be delivered never, once or many times. A frame that
  does not fit the packet is given back, as \<^verbatim>\<open>nxp_conn_send\<close> does.\<close>

fun pipe_exec :: "pipe_event \<Rightarrow> pipe \<Rightarrow> pipe option" where
  "pipe_exec (Write data fin) p = do {
     (s, k) \<leftarrow> nxp_stream_write (p_snd p) data fin;
     Some (p\<lparr>p_snd := s, p_written := p_written p @ (case k of None \<Rightarrow> [] | Some k \<Rightarrow> take k data)\<rparr>) }"
| "pipe_exec (Send_frame m buf) p = do {
     (s, fo) \<leftarrow> nxp_stream_fill_frame (p_snd p) m;
     Some (case fo of
             None \<Rightarrow> p\<lparr>p_snd := s\<rparr>
           | Some f \<Rightarrow>
               (case nxp_frame_encode_stream f buf of
                  None \<Rightarrow> p\<lparr>p_snd := nxp_stream_on_loss s (sf_offset f) (ucast (sf_length f)) (sf_fin f)\<rparr>
                | Some bs \<Rightarrow> p\<lparr>p_snd := s, p_wire := p_wire p @ [bs]\<rparr>)) }"
| "pipe_exec (Deliver i rest) p =
     (if i < length (p_wire p) then
        (case nxp_frame_decode (p_wire p ! i @ rest) of
           Some (n, Stream f) \<Rightarrow> do { (r, e) \<leftarrow> nxp_stream_on_recv (p_rcv p) f; Some (p\<lparr>p_rcv := r\<rparr>) }
         | _ \<Rightarrow> Some p)
      else Some p)"
| "pipe_exec (Read n) p = do {
     (r, ys, fin) \<leftarrow> nxp_stream_read (p_rcv p) n;
     Some (p\<lparr>p_rcv := r, p_read := p_read p @ ys, p_fin := p_fin p \<or> fin\<rparr>) }"
| "pipe_exec (Ack_frame off len fin) p = Some (p\<lparr>p_snd := nxp_stream_on_ack (p_snd p) off len fin\<rparr>)"
| "pipe_exec (Loss_frame off len fin) p = Some (p\<lparr>p_snd := nxp_stream_on_loss (p_snd p) off len fin\<rparr>)"
| "pipe_exec (Snd_flow fc) p = Some (p\<lparr>p_snd := (p_snd p)\<lparr>st_flow := fc\<rparr>\<rparr>)"
| "pipe_exec (Rcv_flow fc) p = Some (p\<lparr>p_rcv := (p_rcv p)\<lparr>st_flow := fc\<rparr>\<rparr>)"

fun pipe_run :: "pipe_event list \<Rightarrow> pipe \<Rightarrow> pipe option" where
  "pipe_run [] p = Some p"
| "pipe_run (ev # evs) p = do { p \<leftarrow> pipe_exec ev p; pipe_run evs p }"

fun in_order :: "pipe_event \<Rightarrow> pipe \<Rightarrow> bool" where
  "in_order (Send_frame m buf) p =
     (case nxp_stream_fill_frame (p_snd p) m of Some (s, Some f) \<Rightarrow> frame_ok (Stream f) | _ \<Rightarrow> True)"
| "in_order (Deliver i rest) p =
     (if i < length (p_wire p) then
        (case nxp_frame_decode (p_wire p ! i @ rest) of
           Some (n, Stream f) \<Rightarrow> sf_offset f \<le> recv_offset (st_recv (p_rcv p)) \<and>
             unat (sf_offset f) + unat (sf_length f) \<le>
               unat (read_offset (st_recv (p_rcv p))) + length (rcv_data (st_recv (p_rcv p)))
         | _ \<Rightarrow> True)
      else True)"
| "in_order (Ack_frame off len fin) p =
     (off \<le> acked_offset (st_send (p_snd p)) \<and> unat off + unat len \<le> unat (sent_offset (st_send (p_snd p))))"
| "in_order (Loss_frame off len fin) p = (acked_offset (st_send (p_snd p)) \<le> off)"
| "in_order _ p = True"

text \<open>Every event of the run is in order where it happens.\<close>

fun in_order_run :: "pipe_event list \<Rightarrow> pipe \<Rightarrow> bool" where
  "in_order_run [] p = True"
| "in_order_run (ev # evs) p =
     (in_order ev p \<and> (case pipe_exec ev p of None \<Rightarrow> True | Some q \<Rightarrow> in_order_run evs q))"

definition pipe_start :: "nxp_stream_s \<Rightarrow> nxp_stream_s \<Rightarrow> pipe" where
  "pipe_start s r = \<lparr>p_snd = s, p_rcv = r, p_wire = [], p_written = [], p_read = [], p_fin = False\<rparr>"

text \<open>A stream as \<^const>\<open>nxp_stream_create\<close> makes it, for a buffer of any size.\<close>

definition fresh_stream :: "nxp_stream_s \<Rightarrow> bool" where
  "fresh_stream s \<longleftrightarrow>
     snd_data (st_send s) \<noteq> [] \<and> length (snd_data (st_send s)) = unat (snd_cap (st_send s)) \<and>
     write_offset (st_send s) = 0 \<and> sent_offset (st_send s) = 0 \<and> acked_offset (st_send s) = 0 \<and>
     rcv_data (st_recv s) \<noteq> [] \<and> length (rcv_data (st_recv s)) = unat (rcv_cap (st_recv s)) \<and>
     read_offset (st_recv s) = 0 \<and> recv_offset (st_recv s) = 0 \<and> \<not> fin_received (st_recv s)"

definition wire_ok :: "bytes \<Rightarrow> bool \<Rightarrow> bytes \<Rightarrow> bool" where
  "wire_ok w fin bs \<longleftrightarrow> (\<exists>f. frame_at w (sf_offset f) f \<and>
     (sf_fin f \<longrightarrow> fin \<and> unat (sf_offset f) + unat (sf_length f) = length w) \<and>
     (\<forall>rest. nxp_frame_decode (bs @ rest) = Some (length bs, Stream f)))"

definition pipe_inv :: "pipe \<Rightarrow> bool" where
  "pipe_inv p \<longleftrightarrow>
     (let w = p_written p; sb = st_send (p_snd p); rcv = st_recv (p_rcv p) in
      send_repr w sb \<and> recv_repr w rcv \<and> (\<forall>bs\<in>set (p_wire p). wire_ok w (snd_fin sb) bs) \<and>
      p_read p = take (unat (read_offset rcv)) w \<and>
      (fin_received rcv \<longrightarrow> snd_fin sb \<and> unat (fin_offset rcv) = length w) \<and>
      (p_fin p \<longrightarrow> snd_fin sb \<and> length w \<le> unat (read_offset rcv)))"

text \<open>What is left to send: the bytes not sent yet, and the end of the stream.\<close>

definition pending :: "nxp_stream_s \<Rightarrow> nat" where
  "pending s = unat (write_offset (st_send s)) - unat (sent_offset (st_send s)) +
     (if snd_fin (st_send s) \<and> \<not> fin_sent (st_send s) then 1 else 0)"

text \<open>An open stream with four-byte buffers, for the concrete runs below.\<close>

definition tiny_stream :: nxp_stream_s where
  "tiny_stream = \<lparr>st_id = 4, st_type = NXP_STREAM_RELIABLE, st_state = NXP_STREAM_OPEN,
     st_priority = 128,
     st_send = \<lparr>snd_data = [0, 0, 0, 0], snd_cap = 4, write_offset = 0, sent_offset = 0,
       acked_offset = 0, snd_fin = False, fin_sent = False, fin_acked = False\<rparr>,
     st_recv = \<lparr>rcv_data = [0, 0, 0, 0], rcv_cap = 4, read_offset = 0, recv_offset = 0,
       fin_received = False, fin_offset = 0\<rparr>,
     st_flow = nxp_flow_init 100 100, st_rate_limit = nxp_stream_rate_init,
     st_on_writable = False, st_blocked = False,
     sched_next = None, sched_prev = None, scheduled = False\<rparr>"

section \<open>Auxiliary facts\<close>

lemma create_fresh:
  "nxp_stream_create a b c sid ty ms mr = Some s \<Longrightarrow> fresh_stream s"
  by (auto simp: nxp_stream_create_def fresh_stream_def split: if_splits)

lemma send_repr_bound: "send_repr w sb \<Longrightarrow> length w < 2 ^ 64"
  using unat_less_2p64 [of "write_offset sb"] by (auto simp: send_repr_def simp del: unat_less_2p64)

text \<open>Growth of the written bytes keeps what was established about the earlier ones.\<close>

lemma recv_repr_append: "recv_repr w rcv \<Longrightarrow> recv_repr (w @ xs) rcv"
  by (auto simp: recv_repr_def nth_append)

lemma frame_at_append: "frame_at w off f \<Longrightarrow> frame_at (w @ xs) off f"
  by (auto simp: frame_at_def)

lemma wire_ok_append: "wire_ok w fin bs \<Longrightarrow> \<not> fin \<or> xs = [] \<Longrightarrow> fin \<longrightarrow> fin' \<Longrightarrow> wire_ok (w @ xs) fin' bs"
  unfolding wire_ok_def using frame_at_append by (metis append_Nil2)

text \<open>The end-of-stream flags.\<close>

lemma write_fin:
  "nxp_stream_write s data fin = Some (s', Some k) \<Longrightarrow>
   \<not> snd_fin (st_send s) \<and> snd_fin (st_send s') = fin"
  by (auto simp: nxp_stream_write_def Let_def bind_Some_iff split: if_splits)

lemma fill_fin:
  "nxp_stream_fill_frame s m = Some (s', Some f) \<Longrightarrow>
   snd_fin (st_send s') = snd_fin (st_send s) \<and>
   (sf_fin f \<longrightarrow> snd_fin (st_send s) \<and>
     sent_offset (st_send s) + sf_length f = write_offset (st_send s))"
  by (auto simp: nxp_stream_fill_frame_def Let_def bind_Some_iff split: if_splits)

lemma set_state_parts [simp]:
  "st_recv (set_stream_state s x) = st_recv s" "st_send (set_stream_state s x) = st_send s"
  by (simp_all add: set_stream_state_def)

lemma recv_copy_fin: "recv_copy rcv off len d = Some rcv' \<Longrightarrow>
  fin_received rcv' = fin_received rcv \<and> fin_offset rcv' = fin_offset rcv"
  by (auto simp: recv_copy_def Let_def bind_Some_iff split: if_splits)

lemma on_recv_fin:
  assumes "nxp_stream_on_recv r f = Some (r', e)"
  shows "fin_received (st_recv r') = fin_received (st_recv r) \<and>
      fin_offset (st_recv r') = fin_offset (st_recv r) \<or>
    sf_fin f \<and> fin_received (st_recv r') \<and>
      fin_offset (st_recv r') = (if sf_has_offset f then sf_offset f else 0) + sf_length f"
  using assms
  by (auto simp: nxp_stream_on_recv_def Let_def bind_Some_iff dest!: recv_copy_fin
      split: if_splits option.splits)

lemma read_fin:
  assumes "nxp_stream_read r n = Some (r', ys, fin)"
  shows "fin_received (st_recv r') = fin_received (st_recv r) \<and>
    fin_offset (st_recv r') = fin_offset (st_recv r) \<and>
    (fin \<longrightarrow> fin_received (st_recv r) \<and> fin_offset (st_recv r) \<le> read_offset (st_recv r'))"
  using assms
  by (auto simp: nxp_stream_read_def Let_def bind_Some_iff split: if_splits)

section \<open>Every step keeps the invariant\<close>

lemma inv_write:
  assumes inv: "pipe_inv p" and step: "nxp_stream_write (p_snd p) data fin = Some (s', Some k)"
  shows "pipe_inv (p\<lparr>p_snd := s', p_written := p_written p @ take k data\<rparr>)"
proof -
  have nf: "\<not> snd_fin (st_send (p_snd p))" using write_fin [OF step] by simp
  have I: "send_repr (p_written p) (st_send (p_snd p))" "recv_repr (p_written p) (st_recv (p_rcv p))"
    "\<forall>bs\<in>set (p_wire p). wire_ok (p_written p) False bs"
    "p_read p = take (unat (read_offset (st_recv (p_rcv p)))) (p_written p)"
    "\<not> fin_received (st_recv (p_rcv p))" "\<not> p_fin p"
    using inv nf by (auto simp: pipe_inv_def Let_def)
  have "unat (read_offset (st_recv (p_rcv p))) \<le> length (p_written p)"
    using I(2) by (auto simp: recv_repr_def word_le_nat_alt)
  then show ?thesis
    using write_spec [OF I(1) step] I recv_repr_append [OF I(2)] wire_ok_append [of _ False]
    by (auto simp: pipe_inv_def Let_def)
qed

lemma inv_send:
  assumes inv: "pipe_inv p" and step: "nxp_stream_fill_frame (p_snd p) m = Some (s', Some f)"
    and enc: "nxp_frame_encode_stream f buf = Some bs" "frame_ok (Stream f)"
  shows "pipe_inv (p\<lparr>p_snd := s', p_wire := p_wire p @ [bs]\<rparr>)"
proof -
  have I: "send_repr (p_written p) (st_send (p_snd p))" using inv by (simp add: pipe_inv_def Let_def)
  have F: "frame_at (p_written p) (sent_offset (st_send (p_snd p))) f" "send_repr (p_written p) (st_send s')"
    using fill_frame_spec [OF I, of m] step by auto
  have len: "sf_has_length f"
    using step by (auto simp: nxp_stream_fill_frame_def Let_def bind_Some_iff split: if_splits)
  have off: "sf_offset f = sent_offset (st_send (p_snd p))" using F(1) by (simp add: frame_at_def)
  have "unat (sf_offset f) + unat (sf_length f) = length (p_written p)" if "sf_fin f"
  proof -
    have "unat (sf_offset f + sf_length f) = length (p_written p)"
      using fill_fin [OF step] that I off by (simp add: send_repr_def)
    moreover have "unat (sf_offset f) + unat (sf_length f) < 2 ^ 64"
      using F(1) off send_repr_bound [OF I] by (simp add: frame_at_def)
    ultimately show ?thesis by (simp add: unat_add_nowrap)
  qed
  moreover have "nxp_frame_decode (bs @ rest) = Some (length bs, Stream f)" for rest
    using rt_stream [OF enc] len by simp
  ultimately have "wire_ok (p_written p) (snd_fin (st_send s')) bs"
    unfolding wire_ok_def using F(1) off fill_fin [OF step] by auto
  then show ?thesis using inv F(2) fill_fin [OF step] by (auto simp: pipe_inv_def Let_def)
qed

lemma inv_deliver:
  assumes inv: "pipe_inv p" and wire: "bs \<in> set (p_wire p)"
    and dec: "nxp_frame_decode (bs @ rest) = Some (n, Stream f)"
    and order: "sf_offset f \<le> recv_offset (st_recv (p_rcv p))"
    and room: "unat (sf_offset f) + unat (sf_length f) \<le>
      unat (read_offset (st_recv (p_rcv p))) + length (rcv_data (st_recv (p_rcv p)))"
    and step: "nxp_stream_on_recv (p_rcv p) f = Some (r', e)"
  shows "pipe_inv (p\<lparr>p_rcv := r'\<rparr>)"
proof -
  have I: "send_repr (p_written p) (st_send (p_snd p))" "recv_repr (p_written p) (st_recv (p_rcv p))"
    using inv by (simp_all add: pipe_inv_def Let_def)
  have "wire_ok (p_written p) (snd_fin (st_send (p_snd p))) bs" using inv wire by (auto simp: pipe_inv_def Let_def)
  then have F: "frame_at (p_written p) (sf_offset f) f"
    "sf_fin f \<Longrightarrow> snd_fin (st_send (p_snd p)) \<and>
       unat (sf_offset f) + unat (sf_length f) = length (p_written p)"
    using dec by (auto simp: wire_ok_def)
  have R: "recv_repr (p_written p) (st_recv r')"
    "read_offset (st_recv r') = read_offset (st_recv (p_rcv p))"
    using on_recv_spec [OF I(2) send_repr_bound [OF I(1)] F(1) order room] step by auto
  have "(if sf_has_offset f then sf_offset f else 0) = sf_offset f" using F(1) by (auto simp: frame_at_def word_gt_0)
  moreover have "sf_fin f \<Longrightarrow> unat (sf_offset f + sf_length f) = length (p_written p)"
    using F(2) send_repr_bound [OF I(1)] by (simp add: unat_add_nowrap)
  ultimately have "fin_received (st_recv r') \<longrightarrow>
      snd_fin (st_send (p_snd p)) \<and> unat (fin_offset (st_recv r')) = length (p_written p)"
    using on_recv_fin [OF step] F(2) inv by (auto simp: pipe_inv_def Let_def)
  then show ?thesis using inv R by (simp add: pipe_inv_def Let_def)
qed

lemma inv_read:
  assumes inv: "pipe_inv p" and step: "nxp_stream_read (p_rcv p) n = Some (r', ys, fin)"
  shows "pipe_inv (p\<lparr>p_rcv := r', p_read := p_read p @ ys, p_fin := p_fin p \<or> fin\<rparr>)"
proof -
  let ?w = "p_written p" and ?a = "unat (read_offset (st_recv (p_rcv p)))"
  have I: "send_repr ?w (st_send (p_snd p))" "recv_repr ?w (st_recv (p_rcv p))" "p_read p = take ?a ?w"
    using inv by (simp_all add: pipe_inv_def Let_def)
  obtain k where R: "recv_repr ?w (st_recv r')" "unat (read_offset (st_recv r')) = ?a + length ys"
      "ys = take k (drop ?a ?w)"
    using read_spec [OF I(2), of n] step by auto
  have "ys = take (length ys) (drop ?a ?w)" unfolding R(3) by (simp add: min_def)
  then have rd: "p_read p @ ys = take (unat (read_offset (st_recv r'))) ?w"
    using I(3) R(2) by (metis take_add)
  have "fin \<Longrightarrow> snd_fin (st_send (p_snd p)) \<and> length ?w \<le> unat (read_offset (st_recv r'))"
    using read_fin [OF step] inv by (auto simp: pipe_inv_def Let_def word_le_nat_alt)
  then show ?thesis using inv R(1,2) rd read_fin [OF step]
    by (auto simp: pipe_inv_def Let_def)
qed

lemma on_ack_parts:
  "st_send (nxp_stream_on_ack s off len fin) =
     (st_send s)\<lparr>acked_offset := (if acked_offset (st_send s) < off + ucast len
        then off + ucast len else acked_offset (st_send s)),
      fin_acked := (fin \<or> fin_acked (st_send s))\<rparr>"
  by (auto simp: nxp_stream_on_ack_def Let_def)

lemma on_loss_parts:
  "st_send (nxp_stream_on_loss s off len fin) =
     (st_send s)\<lparr>sent_offset := (if off < sent_offset (st_send s) then off else sent_offset (st_send s)),
      fin_sent := (\<not> fin \<and> fin_sent (st_send s))\<rparr>"
  by (auto simp: nxp_stream_on_loss_def Let_def)

lemma send_repr_ack:
  assumes "send_repr w sb" "acked_offset sb \<le> a" "a \<le> sent_offset sb"
  shows "send_repr w (sb\<lparr>acked_offset := a, fin_acked := b\<rparr>)"
proof -
  let ?o = "unat (acked_offset sb)"
  have le: "?o \<le> unat a" "unat a \<le> length w"
    using assms by (auto simp: send_repr_def word_le_nat_alt)
  have "ring_slice (snd_data sb) (?o + (unat a - ?o)) (length w - ?o - (unat a - ?o)) =
      drop (unat a - ?o) (drop ?o w)"
    using ring_slice_drop [of "unat a - ?o" "length w - ?o" "snd_data sb" ?o] assms(1) le
    by (simp add: send_repr_def)
  then show ?thesis using assms le by (auto simp: send_repr_def)
qed

lemma inv_snd:
  "pipe_inv p \<Longrightarrow> send_repr (p_written p) (st_send s') \<Longrightarrow> snd_fin (st_send s') = snd_fin (st_send (p_snd p)) \<Longrightarrow> pipe_inv (p\<lparr>p_snd := s'\<rparr>)"
  by (simp add: pipe_inv_def Let_def)

lemma inv_ack:
  assumes inv: "pipe_inv p" and order: "unat off + unat len \<le> unat (sent_offset (st_send (p_snd p)))"
  shows "pipe_inv (p\<lparr>p_snd := nxp_stream_on_ack (p_snd p) off len fin\<rparr>)"
proof (rule inv_snd [OF inv])
  let ?sb = "st_send (p_snd p)" and ?e = "off + (ucast len :: u64)"
  have "unat off + unat len < 2 ^ 64" using le_less_trans [OF order unat_less_2p64] by simp
  then have "unat ?e = unat off + unat len" by (subst unat_add_nowrap) simp_all
  then have "?e \<le> sent_offset ?sb" using order by (simp add: word_le_nat_alt)
  then show "send_repr (p_written p) (st_send (nxp_stream_on_ack (p_snd p) off len fin))"
    unfolding on_ack_parts using inv by (intro send_repr_ack) (auto simp: pipe_inv_def Let_def send_repr_def)
qed (simp add: on_ack_parts)

lemma inv_loss:
  assumes inv: "pipe_inv p" and order: "acked_offset (st_send (p_snd p)) \<le> off"
  shows "pipe_inv (p\<lparr>p_snd := nxp_stream_on_loss (p_snd p) off len fin\<rparr>)"
proof (rule inv_snd [OF inv])
  show "send_repr (p_written p) (st_send (nxp_stream_on_loss (p_snd p) off len fin))"
    unfolding on_loss_parts using inv order by (auto simp: pipe_inv_def Let_def send_repr_def)
qed (simp add: on_loss_parts)

text \<open>An event that is in order has a result, and it keeps the invariant.\<close>

lemma exec_send:
  assumes inv: "pipe_inv p" and ok: "in_order (Send_frame m buf) p"
  shows "\<exists>q. pipe_exec (Send_frame m buf) p = Some q \<and> pipe_inv q"
proof -
  have I: "send_repr (p_written p) (st_send (p_snd p))" using inv by (simp add: pipe_inv_def Let_def)
  obtain s fo where s: "nxp_stream_fill_frame (p_snd p) m = Some (s, fo)" using fill_frame_spec [OF I, of m] by blast
  show ?thesis
  proof (cases fo)
    case None
    then have "s = p_snd p" using fill_frame_spec [OF I, of m] s by auto
    then show ?thesis using s None inv by simp
  next
    case (Some f)
    have F: "frame_at (p_written p) (sent_offset (st_send (p_snd p))) f" "send_repr (p_written p) (st_send s)"
        "acked_offset (st_send s) = acked_offset (st_send (p_snd p))"
      using fill_frame_spec [OF I, of m] s Some by auto
    show ?thesis
    proof (cases "nxp_frame_encode_stream f buf")
      case None
      have i1: "pipe_inv (p\<lparr>p_snd := s\<rparr>)" using inv_snd [OF inv F(2)] fill_fin s Some by blast
      have "acked_offset (st_send s) \<le> sf_offset f" using I F by (simp add: send_repr_def frame_at_def)
      then have "pipe_inv (p\<lparr>p_snd := nxp_stream_on_loss s (sf_offset f) (ucast (sf_length f)) (sf_fin f)\<rparr>)"
        using inv_loss [OF i1, of "sf_offset f" "ucast (sf_length f)" "sf_fin f"] by simp
      then show ?thesis using s Some None by simp
    next
      case enc: (Some bs)
      then show ?thesis using inv_send [OF inv] s Some ok by simp
    qed
  qed
qed

lemma exec_deliver:
  assumes inv: "pipe_inv p" and ok: "in_order (Deliver i rest) p"
  shows "\<exists>q. pipe_exec (Deliver i rest) p = Some q \<and> pipe_inv q"
proof (cases "i < length (p_wire p)")
  case False
  then show ?thesis using inv by simp
next
  case True
  let ?bs = "p_wire p ! i"
  have bs: "?bs \<in> set (p_wire p)" using True by simp
  then obtain f where f: "frame_at (p_written p) (sf_offset f) f" "nxp_frame_decode (?bs @ rest) = Some (length ?bs, Stream f)"
    using inv by (auto simp: pipe_inv_def Let_def wire_ok_def)
  have o: "sf_offset f \<le> recv_offset (st_recv (p_rcv p))"
      "unat (sf_offset f) + unat (sf_length f) \<le> unat (read_offset (st_recv (p_rcv p))) + length (rcv_data (st_recv (p_rcv p)))"
    using ok True f(2) by simp_all
  have I: "send_repr (p_written p) (st_send (p_snd p))" "recv_repr (p_written p) (st_recv (p_rcv p))"
    using inv by (simp_all add: pipe_inv_def Let_def)
  obtain r e where "nxp_stream_on_recv (p_rcv p) f = Some (r, e)"
    using on_recv_spec [OF I(2) send_repr_bound [OF I(1)] f(1) o] by blast
  then show ?thesis using inv_deliver [OF inv bs f(2) o] True f(2) by simp
qed

lemma pipe_exec_ok:
  assumes inv: "pipe_inv p" and ok: "in_order ev p"
  shows "\<exists>q. pipe_exec ev p = Some q \<and> pipe_inv q"
proof -
  have I: "send_repr (p_written p) (st_send (p_snd p))" "recv_repr (p_written p) (st_recv (p_rcv p))"
    using inv by (simp_all add: pipe_inv_def Let_def)
  show ?thesis
  proof (cases ev)
    case (Write data fin)
    obtain s k where s: "nxp_stream_write (p_snd p) data fin = Some (s, k)" "k = None \<Longrightarrow> s = p_snd p"
      using write_eq [OF I(1), of data fin] by (auto split: if_splits)
    then show ?thesis using inv_write [OF inv, of data fin s] inv Write by (cases k) simp_all
  next
    case (Read n)
    obtain r' ys fin where "nxp_stream_read (p_rcv p) n = Some (r', ys, fin)" using read_spec [OF I(2), of n] by blast
    then show ?thesis using inv_read [OF inv] Read by simp
  next
    case (Snd_flow fc)
    then show ?thesis using inv_snd [OF inv, of "(p_snd p)\<lparr>st_flow := fc\<rparr>"] I by simp
  next
    case (Rcv_flow fc)
    then show ?thesis using inv by (simp add: pipe_inv_def Let_def)
  next
    case (Send_frame m buf)
    then show ?thesis using exec_send [OF inv] ok by blast
  next
    case (Deliver i rest)
    then show ?thesis using exec_deliver [OF inv] ok by blast
  qed (use inv_ack [OF inv] inv_loss [OF inv] ok in simp_all)
qed

lemma pipe_run_ok: "pipe_inv p \<Longrightarrow> in_order_run evs p \<Longrightarrow> \<exists>q. pipe_run evs p = Some q \<and> pipe_inv q"
proof (induction evs arbitrary: p)
  case (Cons ev evs)
  obtain q where "pipe_exec ev p = Some q" "pipe_inv q" using pipe_exec_ok [OF Cons.prems(1)] Cons.prems(2) by auto
  then show ?case using Cons.IH [of q] Cons.prems(2) by simp
qed simp

lemma pipe_start_inv: "fresh_stream s \<Longrightarrow> fresh_stream r \<Longrightarrow> pipe_inv (pipe_start s r)"
  by (auto simp: fresh_stream_def pipe_start_def pipe_inv_def send_repr_def recv_repr_def ring_slice_def)

section \<open>Progress of the sender\<close>

lemma fill_none:
  "nxp_stream_fill_frame s m = Some (s', None) \<Longrightarrow> s' = s \<and> pending s = 0"
  by (auto simp: nxp_stream_fill_frame_def nxp_stream_unsent_def pending_def Let_def bind_Some_iff
      word_le_nat_alt split: if_splits)

lemma fill_write_offset:
  "nxp_stream_fill_frame s m = Some (s', fo) \<Longrightarrow>
   write_offset (st_send s') = write_offset (st_send s) \<and> snd_fin (st_send s') = snd_fin (st_send s)"
  by (auto simp: nxp_stream_fill_frame_def Let_def bind_Some_iff split: if_splits)

lemma fill_shape:
  assumes "nxp_stream_fill_frame s m = Some (s', Some f)"
  defines "first \<equiv> unat (snd_cap (st_send s)) - unat (sent_offset (st_send s) mod snd_cap (st_send s))"
  shows "sf_length f = of_nat (min (min (unat (nxp_stream_unsent s)) m) first)"
    "fin_sent (st_send s') = (fin_sent (st_send s) \<or> sf_fin f)"
    "sf_fin f = (snd_fin (st_send s) \<and> \<not> fin_sent (st_send s) \<and>
       sent_offset (st_send s) + sf_length f = write_offset (st_send s))"
  using assms
  by (auto simp: nxp_stream_fill_frame_def Let_def bind_Some_iff min_def unat_eq_0 split: if_splits)

lemma unat_unsent:
  "unat (nxp_stream_unsent s) = unat (write_offset (st_send s)) - unat (sent_offset (st_send s))"
  by (simp add: nxp_stream_unsent_def word_le_nat_alt unat_sub)

lemma fill_length:
  assumes "send_repr w (st_send s)" "nxp_stream_fill_frame s m = Some (s', Some f)"
  shows "unat (sf_length f) = min (min (length w - unat (sent_offset (st_send s))) m)
    (unat (snd_cap (st_send s)) - unat (sent_offset (st_send s)) mod unat (snd_cap (st_send s)))"
proof -
  have w: "unat (write_offset (st_send s)) = length w" using assms(1) by (simp add: send_repr_def)
  let ?k = "min (min (length w - unat (sent_offset (st_send s))) m)
    (unat (snd_cap (st_send s)) - unat (sent_offset (st_send s)) mod unat (snd_cap (st_send s)))"
  have "sf_length f = of_nat ?k" using fill_shape(1) [OF assms(2)] w by (simp add: unat_unsent unat_mod)
  moreover have "?k \<le> length w" by (simp add: min.coboundedI1)
  then have "?k < 2 ^ 64" using unat_less_2p64 [of "write_offset (st_send s)"] w by (simp add: le_less_trans)
  ultimately show ?thesis by (simp add: unat_of_nat_u64)
qed

lemma fill_progress:
  assumes repr: "send_repr w (st_send s)" and m: "0 < m"
    and step: "nxp_stream_fill_frame s m = Some (s', Some f)"
  shows "pending s' < pending s"
proof -
  let ?sb = "st_send s"
  have r: "0 < unat (snd_cap ?sb)" "sent_offset ?sb \<le> write_offset ?sb"
    using repr unfolding send_repr_def by (metis length_greater_0_conv, blast)
  define first where "first = unat (snd_cap ?sb) - unat (sent_offset ?sb mod snd_cap ?sb)"
  have first: "0 < first" using r(1) by (simp add: first_def unat_mod)
  define k where "k = min (min (unat (nxp_stream_unsent s)) m) first"
  have k: "k \<le> unat (write_offset ?sb) - unat (sent_offset ?sb)"
    by (simp add: k_def unat_unsent)
  then have "k \<le> unat (write_offset ?sb)" by simp
  then have "k < 2 ^ 64" using le_less_trans [OF _ unat_less_2p64] by simp
  then have uk: "unat (sf_length f) = k"
    using fill_shape(1) [OF step] by (simp add: k_def first_def unat_of_nat_u64)
  have S: "sent_offset (st_send s') = sent_offset ?sb + sf_length f" "send_repr w (st_send s')"
    "write_offset (st_send s') = write_offset ?sb" "snd_fin (st_send s') = snd_fin ?sb"
    using fill_frame_spec [OF repr, of m] step fill_write_offset [OF step] by auto
  have us: "unat (sent_offset (st_send s')) = unat (sent_offset ?sb) + k"
    using uk k r(2) unfolding S(1)
    by (subst unat_add_le [of _ _ "write_offset ?sb"]) (simp_all add: word_le_nat_alt)
  show ?thesis
  proof (cases "k = 0")
    case False
    then show ?thesis using k us S fill_shape(2,3) [OF step] by (auto simp: pending_def)
  next
    case True
    then have "unat (nxp_stream_unsent s) = 0" using m first by (auto simp: k_def min_def split: if_splits)
    then have "unat (write_offset ?sb) \<le> unat (sent_offset ?sb)" by (simp add: unat_unsent)
    then have eq: "sent_offset ?sb = write_offset ?sb" "sf_length f = 0"
      using r(2) uk True by (simp_all add: word_le_nat_alt [symmetric] unat_eq_0)
    have "snd_fin ?sb \<and> \<not> fin_sent ?sb"
      using step eq by (auto simp: nxp_stream_fill_frame_def nxp_stream_unsent_def Let_def split: if_splits)
    then show ?thesis using fill_shape(2,3) [OF step] eq S by (simp add: pending_def)
  qed
qed

section \<open>Out of order\<close>

text \<open>After the second of two frames is acknowledged first, the space of the first is reused; when
  the first is then declared lost, its retransmission carries the new bytes: the stream was
  \<open>1 2 3 4 5 6\<close>, the retransmitted frame at offset 0 carries \<open>5 6 3 4\<close>.\<close>

lemma hole_retransmits_wrong_bytes:
  "do { (s, _) \<leftarrow> nxp_stream_write tiny_stream [1, 2, 3, 4] False;
        (s, _) \<leftarrow> nxp_stream_fill_frame s 2;
        (s, _) \<leftarrow> nxp_stream_fill_frame s 2;
        (s, n) \<leftarrow> nxp_stream_write (nxp_stream_on_ack s 2 2 False) [5, 6] False;
        (s, f) \<leftarrow> nxp_stream_fill_frame (nxp_stream_on_loss s 0 2 False) 4;
        Some (n, map_option sf_offset f, map_option sf_data f) } =
   Some (Some 2, Some 0, Some (Some [5, 6, 3, 4]))"
  by code_simp

lemma gap_stored:
  assumes r: "nxp_stream_create True True True sid ty ms mr = Some r"
    and f: "length d = unat len" "0 < unat len" "unat off + unat len \<le> 65536"
  shows "\<exists>D. recv_copy (st_recv r) off len d = Some ((st_recv r)\<lparr>rcv_data := D, recv_offset := off + len\<rparr>) \<and> length D = 65536 \<and>
    ring_slice D 0 (unat off + unat len) = replicate (unat off) 0 @ d \<and> unat (off + len) = unat off + unat len"
proof -
  have c: "rcv_data (st_recv r) = replicate 65536 0" "rcv_cap (st_recv r) = 65536" "read_offset (st_recv r) = 0" "recv_offset (st_recv r) = 0"
    using r by (auto simp: nxp_stream_create_def)
  have u: "unat (off + len) = unat off + unat len" using f(3) by (subst unat_add_nowrap) simp_all
  have "off < 65536" using f by (simp add: word_less_nat_alt)
  then have pos: "unat (off mod 65536) = (0 + unat off) mod length (replicate 65536 (0 :: u8))" by (simp add: unat_mod)
  have z: "ring_slice (replicate 65536 (0 :: u8)) 0 (unat off) = replicate (unat off) 0"
    using f by (intro nth_equalityI) (simp_all add: ring_slice_def)
  obtain D where D: "circ_write (replicate 65536 0) (unat (off mod 65536)) d = Some D" "length D = 65536"
      "ring_slice D 0 (unat off + length d) = replicate (unat off) 0 @ d"
    using circ_write_append [of "replicate 65536 (0 :: u8)" "unat off" d 0] f(1,3) z unfolding pos by auto
  have "mem_read d 0 (unat len) = Some d" using f(1) by (simp add: mem_read_def)
  moreover have "0 < off + len" using u f(2) by (simp add: word_less_nat_alt)
  ultimately show ?thesis using D u f(1) by (intro exI [of _ D]) (simp add: recv_copy_def c Let_def)
qed

section \<open>Properties\<close>



text \<open>C29. A gap is read as data. When a frame of a new stream arrives before the data in front of it,
  the stream accepts it and moves its frontier behind it, although the comment calls it the
  contiguous frontier. A read then hands the application zero bytes in place of the missing data,
  followed by the data of the frame. This holds for every frame inside the flow-control limit and
  the 64 KB buffer.\<close>

theorem nxp_stream_gap_read:
  assumes "nxp_stream_create True True True sid ty ms mr = Some r" "sf_has_offset f" "sf_data f = Some d"
    "length d = unat (sf_length f)" "0 < unat (sf_length f)" "unat (sf_offset f) + unat (sf_length f) \<le> 65536"
    "sf_offset f + sf_length f \<le> mr"
  shows "\<exists>r1 r2 fin. nxp_stream_on_recv r f = Some (r1, NXP_OK) \<and>
    nxp_stream_read r1 65536 = Some (r2, replicate (unat (sf_offset f)) 0 @ d, fin)"
proof -
  let ?e = "sf_offset f + sf_length f"
  obtain D where D: "recv_copy (st_recv r) (sf_offset f) (sf_length f) d = Some ((st_recv r)\<lparr>rcv_data := D, recv_offset := ?e\<rparr>)"
      "length D = 65536" "ring_slice D 0 (unat (sf_offset f) + unat (sf_length f)) = replicate (unat (sf_offset f)) 0 @ d"
      "unat ?e = unat (sf_offset f) + unat (sf_length f)"
    using gap_stored [OF assms(1,4-6)] by blast
  have c: "st_state r = NXP_STREAM_OPEN" "local_max_data (st_flow r) = mr" "rcv_cap (st_recv r) = 65536" "read_offset (st_recv r) = 0"
    using assms(1) by (auto simp: nxp_stream_create_def nxp_flow_init_def)
  have "\<not> ?e > local_max_data (st_flow r)" "sf_length f > 0" using c(2) assms(5,7) by (auto simp: word_gt_0)
  then obtain r1 where r1: "nxp_stream_on_recv r f = Some (r1, NXP_OK)" "rcv_data (st_recv r1) = D" "recv_offset (st_recv r1) = ?e"
      "rcv_cap (st_recv r1) = 65536" "read_offset (st_recv r1) = 0"
    using D(1) c(1,3,4) assms(2,3) by (auto simp: nxp_stream_on_recv_def Let_def)
  have "D \<noteq> []" using D(2) by auto
  then have "circ_read D 0 (unat ?e) = Some (replicate (unat (sf_offset f)) 0 @ d)"
    using circ_read_ring [of D "unat ?e" 0] D(2-4) assms(6) by auto
  moreover have "\<not> recv_offset (st_recv r1) \<le> read_offset (st_recv r1)" "\<not> 65536 < unat ?e"
    using r1(3,5) D(4) assms(5,6) by (auto simp: word_le_nat_alt)
  ultimately show ?thesis using r1 D(4) assms(6) by (auto simp: nxp_stream_read_def Let_def)
qed

theorem nxp_stream_gap_read_witness:
  "\<exists>r r1 r2 fin. nxp_stream_create True True True 4 NXP_STREAM_RELIABLE 100 100 = Some r \<and>
     nxp_stream_on_recv r \<lparr>sf_stream_id = 4, sf_offset = 2, sf_length = 1, sf_has_offset = True,
        sf_has_length = True, sf_fin = False, sf_data = Some [9]\<rparr> = Some (r1, NXP_OK) \<and>
     nxp_stream_read r1 65536 = Some (r2, [0, 0, 9], fin)"
proof -
  obtain r where r: "nxp_stream_create True True True 4 NXP_STREAM_RELIABLE 100 100 = Some r"
    by (simp add: nxp_stream_create_def)
  let ?f = "\<lparr>sf_stream_id = 4, sf_offset = 2, sf_length = 1, sf_has_offset = True,
        sf_has_length = True, sf_fin = False, sf_data = Some [9 :: u8]\<rparr>"
  have "replicate 2 (0 :: u8) @ [9] = [0, 0, 9]" by code_simp
  then show ?thesis using nxp_stream_gap_read [OF r, of ?f "[9]"] r by simp
qed

text \<open>C19. What a frame carries. On a sender whose buffer holds the stream \<open>w\<close>, filling a frame always
  works. It yields no frame and changes nothing exactly when neither data nor the end of the stream
  is left to send. Otherwise the frame carries the bytes of the stream at the sent offset, as many
  as are unsent, allowed by the limit and stored before the end of the buffer; it carries the FIN
  exactly when the application has finished, the FIN was not sent yet and the frame reaches the end
  of the stream; the sent offset advances by its length, the buffer still holds the stream, and
  less is left to send if the limit is positive.\<close>

theorem nxp_stream_fill_frame_exact:
  assumes "send_repr w (st_send s)"
  shows "\<exists>s' fo. nxp_stream_fill_frame s m = Some (s', fo) \<and>
    (case fo of
       None \<Rightarrow> s' = s \<and> pending s = 0
     | Some f \<Rightarrow>
         pending s \<noteq> 0 \<and> sf_offset f = sent_offset (st_send s) \<and> sf_stream_id f = st_id s \<and>
         unat (sf_length f) = min (min (length w - unat (sent_offset (st_send s))) m)
           (unat (snd_cap (st_send s)) - unat (sent_offset (st_send s)) mod unat (snd_cap (st_send s))) \<and>
         frame_bytes f = take (unat (sf_length f)) (drop (unat (sent_offset (st_send s))) w) \<and>
         sf_fin f = (snd_fin (st_send s) \<and> \<not> fin_sent (st_send s) \<and>
           unat (sent_offset (st_send s)) + unat (sf_length f) = length w) \<and>
         fin_sent (st_send s') = (fin_sent (st_send s) \<or> sf_fin f) \<and>
         unat (sent_offset (st_send s')) = unat (sent_offset (st_send s)) + unat (sf_length f) \<and>
         send_repr w (st_send s') \<and> (0 < m \<longrightarrow> pending s' < pending s))"
proof -
  obtain s' fo where fill: "nxp_stream_fill_frame s m = Some (s', fo)" using fill_frame_spec [OF assms, of m] by blast
  show ?thesis
  proof (cases fo)
    case None
    then show ?thesis using fill fill_none [of s m s'] by simp
  next
    case (Some f)
    then have fill: "nxp_stream_fill_frame s m = Some (s', Some f)" using fill by simp
    have F: "frame_at w (sent_offset (st_send s)) f" "sf_stream_id f = st_id s" "send_repr w (st_send s')"
        "sent_offset (st_send s') = sent_offset (st_send s) + sf_length f"
      using fill_frame_spec [OF assms, of m] fill by auto
    have w: "unat (write_offset (st_send s)) = length w" using assms by (simp add: send_repr_def)
    have sum: "unat (sent_offset (st_send s) + sf_length f) = unat (sent_offset (st_send s)) + unat (sf_length f)"
      using F(1) w by (intro unat_add_le [of _ _ "write_offset (st_send s)"]) (simp add: frame_at_def)
    have fin: "(sent_offset (st_send s) + sf_length f = write_offset (st_send s)) =
        (unat (sent_offset (st_send s)) + unat (sf_length f) = length w)"
      unfolding word_unat_eq_iff sum w ..
    have p: "pending s \<noteq> 0"
      using fill by (auto simp: nxp_stream_fill_frame_def pending_def Let_def unat_unsent [symmetric] unat_eq_0 split: if_splits)
    show ?thesis
      using fill_length [OF assms fill] F p sum fin fill_shape(2,3) [OF fill] fill_progress [OF assms _ fill] fill
      by (auto simp: frame_at_def)
  qed
qed

theorem nxp_stream_fill_frame_exact_witness:
  "let s = fst (the (nxp_stream_write tiny_stream [1, 2, 3, 4] True)) in
   \<exists>s' f. nxp_stream_fill_frame s 3 = Some (s', Some f) \<and> frame_bytes f = [1, 2, 3] \<and> \<not> sf_fin f \<and> pending s' < pending s"
proof -
  let ?s = "fst (the (nxp_stream_write tiny_stream [1, 2, 3, 4] True))"
  have r: "send_repr [1, 2, 3, 4] (st_send ?s)" "sent_offset (st_send ?s) = 0" "snd_cap (st_send ?s) = 4" "pending ?s = 5" by code_simp+
  obtain s' fo where f: "nxp_stream_fill_frame ?s 3 = Some (s', fo)"
      "case fo of None \<Rightarrow> pending ?s = 0
       | Some f \<Rightarrow> unat (sf_length f) = 3 \<and> frame_bytes f = take (unat (sf_length f)) [1, 2, 3, 4] \<and>
           (sf_fin f \<longrightarrow> unat (sf_length f) = 4) \<and> pending s' < pending ?s"
    using nxp_stream_fill_frame_exact [OF r(1), of 3] r(2,3) by (auto split: option.splits)
  then show ?thesis using r(4) by (cases fo) (auto simp: Let_def)
qed

end
