(* ===== verification/Nxp_Congestion.thy ===== *)
theory Nxp_Congestion
  imports Nxp_Prelude
begin

text \<open>
  Congestion control: the delivery-rate sampler of \<^verbatim>\<open>src/congestion/delivery_rate.c\<close>, the windowed
  filter of \<^verbatim>\<open>src/congestion/windowed_filter.h\<close> and the BBR state machine of
  \<^verbatim>\<open>src/congestion/bbr.c\<close>, with the interface records of \<^verbatim>\<open>src/congestion/cc_interface.h\<close>.  All
  arithmetic is the 64-bit wrap-around arithmetic of the code.
\<close>

section \<open>Delivery rate\<close>

record nxp_dr_pkt_state =
  dp_delivered :: u64
  dp_delivered_time :: u64
  dp_first_sent_time :: u64
  dp_is_app_limited :: bool
  dp_app_limited_at :: u64

record nxp_delivery_rate =
  dr_delivered :: u64
  dr_delivered_time :: u64
  dr_first_sent_time :: u64
  rate_sample_bps :: u64
  rate_interval_us :: u64
  rate_delivered :: u64
  rate_is_app_limited :: bool
  dr_app_limited :: bool
  dr_app_limited_at :: u64
  dr_round_count :: u64
  next_round_delivered :: u64
  dr_round_start :: bool

definition nxp_dr_init :: nxp_delivery_rate where
  "nxp_dr_init = \<lparr>dr_delivered = 0, dr_delivered_time = 0, dr_first_sent_time = 0,
     rate_sample_bps = 0, rate_interval_us = 0, rate_delivered = 0, rate_is_app_limited = False,
     dr_app_limited = False, dr_app_limited_at = 0, dr_round_count = 0, next_round_delivered = 0,
     dr_round_start = False\<rparr>"

definition nxp_dr_on_packet_sent ::
    "nxp_delivery_rate \<Rightarrow> u32 \<Rightarrow> u64 \<Rightarrow> nxp_delivery_rate \<times> nxp_dr_pkt_state" where
  "nxp_dr_on_packet_sent dr sent_bytes now_us =
     (let dr = (if dr_first_sent_time dr = 0
                then dr\<lparr>dr_first_sent_time := now_us, dr_delivered_time := now_us\<rparr> else dr);
          out = \<lparr>dp_delivered = dr_delivered dr, dp_delivered_time = dr_delivered_time dr,
                 dp_first_sent_time = dr_first_sent_time dr, dp_is_app_limited = dr_app_limited dr,
                 dp_app_limited_at = dr_app_limited_at dr\<rparr> in
      (dr\<lparr>dr_first_sent_time := now_us\<rparr>, out))"

definition nxp_dr_on_packet_acked ::
    "nxp_delivery_rate \<Rightarrow> nxp_dr_pkt_state \<Rightarrow> u32 \<Rightarrow> u64 \<Rightarrow> nxp_delivery_rate" where
  "nxp_dr_on_packet_acked dr pkt_state acked_bytes now_us =
     (let dr = dr\<lparr>dr_delivered := dr_delivered dr + ucast acked_bytes, dr_delivered_time := now_us\<rparr>;
          dr = (if dp_delivered pkt_state \<ge> next_round_delivered dr
                then dr\<lparr>next_round_delivered := dr_delivered dr,
                        dr_round_count := dr_round_count dr + 1, dr_round_start := True\<rparr>
                else dr\<lparr>dr_round_start := False\<rparr>);
          delta_delivered = dr_delivered dr - dp_delivered pkt_state;
          send_elapsed = (if dr_first_sent_time dr > dp_first_sent_time pkt_state
                          then dr_first_sent_time dr - dp_first_sent_time pkt_state else 0);
          ack_elapsed = (if now_us > dp_delivered_time pkt_state
                         then now_us - dp_delivered_time pkt_state else 0);
          interval = (if send_elapsed > ack_elapsed then send_elapsed else ack_elapsed) in
      if interval = 0 \<or> delta_delivered = 0 then
        dr\<lparr>dr_round_start :=
             (dp_delivered pkt_state \<ge> next_round_delivered dr - ucast acked_bytes)\<rparr>
      else
        let dr = dr\<lparr>rate_interval_us := interval, rate_delivered := delta_delivered,
                    rate_is_app_limited := dp_is_app_limited pkt_state,
                    rate_sample_bps := (delta_delivered * 1000000) div interval\<rparr> in
        if dr_app_limited dr \<and> dr_delivered dr > dr_app_limited_at dr
        then dr\<lparr>dr_app_limited := False\<rparr> else dr)"

definition nxp_dr_set_app_limited :: "nxp_delivery_rate \<Rightarrow> nxp_delivery_rate" where
  "nxp_dr_set_app_limited dr =
     dr\<lparr>dr_app_limited := True, dr_app_limited_at := dr_delivered dr\<rparr>"

definition nxp_dr_clear_app_limited :: "nxp_delivery_rate \<Rightarrow> nxp_delivery_rate" where
  "nxp_dr_clear_app_limited dr = dr\<lparr>dr_app_limited := False\<rparr>"

section \<open>Windowed filter\<close>

record nxp_wf_sample =
  wf_value :: u64
  wf_time :: u64

record nxp_windowed_filter =
  s0 :: nxp_wf_sample
  s1 :: nxp_wf_sample
  s2 :: nxp_wf_sample
  wf_window :: u64
  wf_is_max :: bool
  wf_initialized :: bool

definition nxp_wf_init :: "u64 \<Rightarrow> bool \<Rightarrow> nxp_windowed_filter" where
  "nxp_wf_init window is_max =
     \<lparr>s0 = \<lparr>wf_value = 0, wf_time = 0\<rparr>, s1 = \<lparr>wf_value = 0, wf_time = 0\<rparr>,
      s2 = \<lparr>wf_value = 0, wf_time = 0\<rparr>, wf_window = window, wf_is_max = is_max,
      wf_initialized = False\<rparr>"

definition nxp_wf_reset :: "nxp_windowed_filter \<Rightarrow> u64 \<Rightarrow> u64 \<Rightarrow> nxp_windowed_filter" where
  "nxp_wf_reset f value now =
     (let s = \<lparr>wf_value = value, wf_time = now\<rparr> in
      f\<lparr>s0 := s, s1 := s, s2 := s, wf_initialized := True\<rparr>)"

definition nxp_wf_get :: "nxp_windowed_filter \<Rightarrow> u64" where
  "nxp_wf_get f = wf_value (s0 f)"

definition nxp_wf_is_better :: "nxp_windowed_filter \<Rightarrow> u64 \<Rightarrow> u64 \<Rightarrow> bool" where
  "nxp_wf_is_better f a b = (if wf_is_max f then a \<ge> b else a \<le> b)"

definition nxp_wf_update :: "nxp_windowed_filter \<Rightarrow> u64 \<Rightarrow> u64 \<Rightarrow> nxp_windowed_filter" where
  "nxp_wf_update f value now =
     (let new_s = \<lparr>wf_value = value, wf_time = now\<rparr> in
      if \<not> wf_initialized f then nxp_wf_reset f value now
      else if nxp_wf_is_better f value (wf_value (s0 f)) then nxp_wf_reset f value now
      else if now - wf_time (s0 f) > wf_window f then
        let f = f\<lparr>s0 := s1 f, s1 := s2 f, s2 := new_s\<rparr>;
            f = (if now - wf_time (s0 f) > wf_window f then f\<lparr>s0 := s1 f, s1 := s2 f\<rparr> else f) in
        (if now - wf_time (s0 f) > wf_window f then f\<lparr>s0 := new_s, s1 := new_s\<rparr> else f)
      else if nxp_wf_is_better f value (wf_value (s1 f)) \<or> now - wf_time (s1 f) > wf_window f div 4
      then f\<lparr>s1 := new_s, s2 := new_s\<rparr>
      else if nxp_wf_is_better f value (wf_value (s2 f)) \<or> now - wf_time (s2 f) > wf_window f div 2
      then f\<lparr>s2 := new_s\<rparr>
      else f)"

section \<open>Interface records\<close>

record nxp_cc_ack_info =
  ai_pkt_num :: u64
  ai_acked_bytes :: u32
  ai_sent_time :: u64
  ai_now_us :: u64
  ai_rtt_us :: u64
  ai_min_rtt_us :: u64
  ai_bytes_in_flight :: u64
  ai_delivery_rate_bps :: u64
  ai_round_count :: u64
  ai_is_app_limited :: bool
  ai_round_start :: bool

record nxp_cc_loss_info =
  li_lost_bytes :: u32
  li_now_us :: u64
  li_bytes_in_flight :: u64

section \<open>BBR\<close>

abbreviation (input) NXP_BBR_MIN_CWND :: u64 where "NXP_BBR_MIN_CWND \<equiv> 4800"
abbreviation (input) NXP_BBR_MAX_DATAGRAM_SIZE :: u64 where "NXP_BBR_MAX_DATAGRAM_SIZE \<equiv> 1200"
abbreviation (input) NXP_BBR_PROBE_RTT_CWND :: u64 where "NXP_BBR_PROBE_RTT_CWND \<equiv> 4800"
abbreviation (input) NXP_BBR_PROBE_RTT_DURATION_US :: u64 where
  "NXP_BBR_PROBE_RTT_DURATION_US \<equiv> 200000"
abbreviation (input) NXP_BBR_RTPROP_WINDOW_US :: u64 where "NXP_BBR_RTPROP_WINDOW_US \<equiv> 10000000"

datatype nxp_bbr_state = NXP_BBR_STARTUP | NXP_BBR_DRAIN | NXP_BBR_PROBE_BW | NXP_BBR_PROBE_RTT

record nxp_bbr =
  bbr_state :: nxp_bbr_state
  bw_filter :: nxp_windowed_filter
  btl_bw :: u64
  rt_prop_us :: u64
  rt_prop_stamp :: u64
  pacing_rate :: u64
  cwnd :: u64
  send_quantum :: u64
  target_cwnd :: u64
  pacing_gain_num :: u32
  pacing_gain_den :: u32
  cwnd_gain_num :: u32
  cwnd_gain_den :: u32
  cycle_index :: u8
  cycle_stamp :: u64
  filled_pipe :: bool
  full_bw :: u64
  full_bw_count :: u32
  probe_rtt_done :: bool
  probe_rtt_done_stamp :: u64
  rt_prop_expired :: bool
  bbr_round_count :: u64
  bbr_round_start :: bool
  bbr_app_limited :: bool
  bbr_bytes_in_flight :: u64
  prior_cwnd :: u64
  loss_in_round :: u64
  loss_round_start :: u64
  bbr_initialized :: bool

definition apply_gain :: "u64 \<Rightarrow> u32 \<Rightarrow> u32 \<Rightarrow> u64" where
  "apply_gain val num den = (if den = 0 then val else (val * ucast num) div ucast den)"

definition bbr_bdp :: "nxp_bbr \<Rightarrow> u64" where
  "bbr_bdp bbr =
     (if btl_bw bbr = 0 \<or> rt_prop_us bbr = 0 then NXP_BBR_MIN_CWND
      else let bdp = (btl_bw bbr * rt_prop_us bbr) div 1000000 in
           if bdp > NXP_BBR_MIN_CWND then bdp else NXP_BBR_MIN_CWND)"

definition bbr_inflight :: "nxp_bbr \<Rightarrow> u32 \<Rightarrow> u32 \<Rightarrow> u64" where
  "bbr_inflight bbr gain_num gain_den = apply_gain (bbr_bdp bbr) gain_num gain_den"

definition nxp_bbr_init_state :: nxp_bbr where
  "nxp_bbr_init_state = \<lparr>bbr_state = NXP_BBR_STARTUP, bw_filter = nxp_wf_init 10 True, btl_bw = 0,
     rt_prop_us = 0, rt_prop_stamp = 0, pacing_rate = 0, cwnd = 10 * NXP_BBR_MAX_DATAGRAM_SIZE,
     send_quantum = NXP_BBR_MAX_DATAGRAM_SIZE, target_cwnd = 0, pacing_gain_num = 277,
     pacing_gain_den = 100, cwnd_gain_num = 200, cwnd_gain_den = 100, cycle_index = 0,
     cycle_stamp = 0, filled_pipe = False, full_bw = 0, full_bw_count = 0, probe_rtt_done = False,
     probe_rtt_done_stamp = 0, rt_prop_expired = False, bbr_round_count = 0,
     bbr_round_start = False, bbr_app_limited = False, bbr_bytes_in_flight = 0, prior_cwnd = 0,
     loss_in_round = 0, loss_round_start = 0, bbr_initialized = True\<rparr>"

definition nxp_bbr_update_model :: "nxp_bbr \<Rightarrow> nxp_cc_ack_info \<Rightarrow> nxp_bbr" where
  "nxp_bbr_update_model bbr info =
     (let bbr = bbr\<lparr>bbr_round_count := ai_round_count info, bbr_round_start := ai_round_start info,
                    bbr_app_limited := ai_is_app_limited info\<rparr>;
          bbr = (if ai_delivery_rate_bps info > 0 then
                   let bbr = (if \<not> ai_is_app_limited info \<or>
                                 ai_delivery_rate_bps info > nxp_wf_get (bw_filter bbr)
                              then bbr\<lparr>bw_filter := nxp_wf_update (bw_filter bbr)
                                     (ai_delivery_rate_bps info) (bbr_round_count bbr)\<rparr>
                              else bbr) in
                   bbr\<lparr>btl_bw := nxp_wf_get (bw_filter bbr)\<rparr>
                 else bbr) in
      if ai_rtt_us info > 0 then
        let rtt_expired = (ai_now_us info - rt_prop_stamp bbr > NXP_BBR_RTPROP_WINDOW_US);
            bbr = (if ai_rtt_us info \<le> rt_prop_us bbr \<or> rt_prop_us bbr = 0 \<or> rtt_expired
                   then bbr\<lparr>rt_prop_us := ai_rtt_us info, rt_prop_stamp := ai_now_us info\<rparr>
                   else bbr) in
        bbr\<lparr>rt_prop_expired := rtt_expired\<rparr>
      else bbr)"

definition nxp_bbr_check_startup_done :: "nxp_bbr \<Rightarrow> nxp_bbr" where
  "nxp_bbr_check_startup_done bbr =
     (if bbr_state bbr \<noteq> NXP_BBR_STARTUP \<or> filled_pipe bbr then bbr
      else if \<not> bbr_round_start bbr then bbr
      else if btl_bw bbr \<ge> apply_gain (full_bw bbr) 125 100 then
        bbr\<lparr>full_bw := btl_bw bbr, full_bw_count := 0\<rparr>
      else
        let bbr = bbr\<lparr>full_bw_count := full_bw_count bbr + 1\<rparr> in
        if full_bw_count bbr \<ge> 3 then
          bbr\<lparr>filled_pipe := True, bbr_state := NXP_BBR_DRAIN, pacing_gain_num := 100,
              pacing_gain_den := 277\<rparr>
        else bbr)"

definition nxp_bbr_check_drain_done :: "nxp_bbr \<Rightarrow> nxp_bbr" where
  "nxp_bbr_check_drain_done bbr =
     (if bbr_state bbr \<noteq> NXP_BBR_DRAIN then bbr
      else if bbr_bytes_in_flight bbr \<le> bbr_bdp bbr then
        bbr\<lparr>bbr_state := NXP_BBR_PROBE_BW, cycle_index := 0, pacing_gain_num := 125,
            pacing_gain_den := 100, cwnd_gain_num := 200, cwnd_gain_den := 100\<rparr>
      else bbr)"

definition probe_bw_gain_num :: "u32 list" where
  "probe_bw_gain_num = [125, 75, 100, 100, 100, 100, 100, 100]"

definition probe_bw_gain_den :: "u32 list" where
  "probe_bw_gain_den = [100, 100, 100, 100, 100, 100, 100, 100]"

definition nxp_bbr_update_probe_bw :: "nxp_bbr \<Rightarrow> u64 \<Rightarrow> nxp_bbr" where
  "nxp_bbr_update_probe_bw bbr now_us =
     (if bbr_state bbr \<noteq> NXP_BBR_PROBE_BW then bbr
      else
        let advance = (rt_prop_us bbr > 0 \<and> now_us - cycle_stamp bbr \<ge> rt_prop_us bbr) in
        if advance then
          let ci = (ucast ((ucast (cycle_index bbr) + 1 :: u32) mod 8) :: u8) in
          bbr\<lparr>cycle_index := ci, cycle_stamp := now_us,
              pacing_gain_num := probe_bw_gain_num ! unat ci,
              pacing_gain_den := probe_bw_gain_den ! unat ci\<rparr>
        else bbr)"

definition nxp_bbr_check_probe_rtt :: "nxp_bbr \<Rightarrow> u64 \<Rightarrow> nxp_bbr" where
  "nxp_bbr_check_probe_rtt bbr now_us =
     (let bbr = (if bbr_state bbr \<noteq> NXP_BBR_PROBE_RTT \<and> rt_prop_expired bbr \<and> \<not> bbr_app_limited bbr
                 then bbr\<lparr>prior_cwnd := cwnd bbr, bbr_state := NXP_BBR_PROBE_RTT,
                          pacing_gain_num := 100, pacing_gain_den := 100,
                          probe_rtt_done := False\<rparr>
                 else bbr) in
      if bbr_state bbr \<noteq> NXP_BBR_PROBE_RTT then bbr
      else
        let probe_cwnd = NXP_BBR_PROBE_RTT_CWND;
            bbr = (if cwnd bbr > probe_cwnd then bbr\<lparr>cwnd := probe_cwnd\<rparr> else bbr) in
        if bbr_bytes_in_flight bbr \<le> probe_cwnd then
          let bbr = (if \<not> probe_rtt_done bbr
                     then bbr\<lparr>probe_rtt_done := True, probe_rtt_done_stamp := now_us\<rparr> else bbr) in
          if probe_rtt_done bbr \<and> now_us - probe_rtt_done_stamp bbr \<ge> NXP_BBR_PROBE_RTT_DURATION_US
          then
            let bbr = bbr\<lparr>rt_prop_expired := False,
                          cwnd := (if prior_cwnd bbr > NXP_BBR_MIN_CWND then prior_cwnd bbr
                                   else NXP_BBR_MIN_CWND)\<rparr> in
            if filled_pipe bbr then
              bbr\<lparr>bbr_state := NXP_BBR_PROBE_BW, cycle_index := 0, cycle_stamp := now_us,
                  pacing_gain_num := probe_bw_gain_num ! 0,
                  pacing_gain_den := probe_bw_gain_den ! 0,
                  cwnd_gain_num := 200, cwnd_gain_den := 100\<rparr>
            else
              bbr\<lparr>bbr_state := NXP_BBR_STARTUP, pacing_gain_num := 277, pacing_gain_den := 100,
                  cwnd_gain_num := 200, cwnd_gain_den := 100\<rparr>
          else bbr
        else bbr)"

definition nxp_bbr_update_control :: "nxp_bbr \<Rightarrow> nxp_bbr" where
  "nxp_bbr_update_control bbr =
     (let bbr = bbr\<lparr>pacing_rate :=
                apply_gain (btl_bw bbr) (pacing_gain_num bbr) (pacing_gain_den bbr)\<rparr>;
          bbr = bbr\<lparr>target_cwnd := bbr_inflight bbr (cwnd_gain_num bbr) (cwnd_gain_den bbr)\<rparr>;
          bbr = (if target_cwnd bbr < NXP_BBR_MIN_CWND
                 then bbr\<lparr>target_cwnd := NXP_BBR_MIN_CWND\<rparr> else bbr);
          bbr = (if bbr_state bbr \<noteq> NXP_BBR_PROBE_RTT then
                   let bbr = (if cwnd bbr < target_cwnd bbr
                              then bbr\<lparr>cwnd := target_cwnd bbr\<rparr> else bbr) in
                   if filled_pipe bbr \<and> cwnd bbr > target_cwnd bbr * 2
                   then bbr\<lparr>cwnd := target_cwnd bbr\<rparr> else bbr
                 else bbr);
          quantum = pacing_rate bbr div 1000;
          quantum = (if quantum < 2 * NXP_BBR_MAX_DATAGRAM_SIZE
                     then 2 * NXP_BBR_MAX_DATAGRAM_SIZE else quantum);
          quantum = (if quantum > 64 * 1024 then 64 * 1024 else quantum) in
      bbr\<lparr>send_quantum := quantum\<rparr>)"

definition bbr_create :: "bool \<Rightarrow> nxp_bbr option" where
  "bbr_create alloc = (if alloc then Some nxp_bbr_init_state else None)"

definition bbr_on_sent :: "nxp_bbr \<Rightarrow> u32 \<Rightarrow> u64 \<Rightarrow> u64 \<Rightarrow> nxp_bbr" where
  "bbr_on_sent bbr sent_bytes now_us bytes_in_flight =
     bbr\<lparr>bbr_bytes_in_flight := bytes_in_flight\<rparr>"

definition bbr_on_ack :: "nxp_bbr \<Rightarrow> nxp_cc_ack_info \<Rightarrow> nxp_bbr" where
  "bbr_on_ack bbr info =
     (let bbr = bbr\<lparr>bbr_bytes_in_flight := ai_bytes_in_flight info\<rparr>;
          bbr = nxp_bbr_update_model bbr info;
          bbr = nxp_bbr_check_startup_done bbr;
          bbr = nxp_bbr_check_drain_done bbr;
          bbr = nxp_bbr_update_probe_bw bbr (ai_now_us info);
          bbr = nxp_bbr_check_probe_rtt bbr (ai_now_us info) in
      nxp_bbr_update_control bbr)"

definition bbr_on_loss :: "nxp_bbr \<Rightarrow> nxp_cc_loss_info \<Rightarrow> nxp_bbr" where
  "bbr_on_loss bbr info =
     (let bbr = bbr\<lparr>bbr_bytes_in_flight := li_bytes_in_flight info,
                    loss_in_round := loss_in_round bbr + ucast (li_lost_bytes info)\<rparr> in
      if bbr_state bbr = NXP_BBR_STARTUP \<and> \<not> filled_pipe bbr \<and>
         bbr_bytes_in_flight bbr > 0 \<and> loss_in_round bbr > bbr_bytes_in_flight bbr div 5
      then bbr\<lparr>filled_pipe := True, bbr_state := NXP_BBR_DRAIN, pacing_gain_num := 100,
               pacing_gain_den := 277\<rparr>
      else bbr)"

definition bbr_get_cwnd :: "nxp_bbr \<Rightarrow> u64" where "bbr_get_cwnd bbr = cwnd bbr"

definition bbr_get_pacing_rate :: "nxp_bbr \<Rightarrow> u64" where "bbr_get_pacing_rate bbr = pacing_rate bbr"

definition bbr_in_slow_start :: "nxp_bbr \<Rightarrow> bool" where
  "bbr_in_slow_start bbr = (bbr_state bbr = NXP_BBR_STARTUP)"

definition bbr_get_send_quantum :: "nxp_bbr \<Rightarrow> u64" where
  "bbr_get_send_quantum bbr = send_quantum bbr"


section \<open>Runs\<close>

datatype cc_event = Sent u32 u64 u64 | Acked nxp_cc_ack_info | Lost nxp_cc_loss_info

fun cc_step :: "nxp_bbr \<Rightarrow> cc_event \<Rightarrow> nxp_bbr" where
  "cc_step b (Sent n now fl) = bbr_on_sent b n now fl"
| "cc_step b (Acked info) = bbr_on_ack b info"
| "cc_step b (Lost info) = bbr_on_loss b info"

definition cc_run :: "nxp_bbr \<Rightarrow> cc_event list \<Rightarrow> nxp_bbr" where
  "cc_run b evs = foldl cc_step b evs"

definition wf_run :: "nxp_windowed_filter \<Rightarrow> (u64 \<times> u64) list \<Rightarrow> nxp_windowed_filter" where
  "wf_run f samples = foldl (\<lambda>f (v, t). nxp_wf_update f v t) f samples"

text \<open>The gains belong to the state, and the pipe has been filled exactly outside of startup (a
  ProbeRTT episode may interrupt either).\<close>

definition gains_ok :: "nxp_bbr \<Rightarrow> bool" where
  "gains_ok b \<longleftrightarrow> cwnd_gain_num b = 200 \<and> cwnd_gain_den b = 100 \<and> unat (cycle_index b) < 8 \<and>
     (case bbr_state b of
        NXP_BBR_STARTUP \<Rightarrow> pacing_gain_num b = 277 \<and> pacing_gain_den b = 100
      | NXP_BBR_DRAIN \<Rightarrow> pacing_gain_num b = 100 \<and> pacing_gain_den b = 277
      | NXP_BBR_PROBE_BW \<Rightarrow> pacing_gain_num b = probe_bw_gain_num ! unat (cycle_index b) \<and>
          pacing_gain_den b = 100
      | NXP_BBR_PROBE_RTT \<Rightarrow> pacing_gain_num b = 100 \<and> pacing_gain_den b = 100)"

definition pipe_ok :: "nxp_bbr \<Rightarrow> bool" where
  "pipe_ok b \<longleftrightarrow> (bbr_state b = NXP_BBR_STARTUP \<longrightarrow> \<not> filled_pipe b) \<and>
     (bbr_state b = NXP_BBR_DRAIN \<or> bbr_state b = NXP_BBR_PROBE_BW \<longrightarrow> filled_pipe b)"

definition bbr_inv :: "nxp_bbr \<Rightarrow> bool" where
  "bbr_inv b \<longleftrightarrow> NXP_BBR_MIN_CWND \<le> cwnd b \<and> 1200 \<le> send_quantum b \<and> send_quantum b \<le> 65536 \<and>
     gains_ok b \<and> pipe_ok b"

text \<open>The states an event may lead to.  One acknowledgement runs all checks in turn, so it can pass
  through DRAIN and enter ProbeRTT from anywhere; ProbeRTT is left for ProbeBW when the pipe was
  filled and for STARTUP otherwise.\<close>

fun bbr_moves :: "nxp_bbr \<Rightarrow> cc_event \<Rightarrow> nxp_bbr_state list" where
  "bbr_moves b (Sent n now fl) = [bbr_state b]"
| "bbr_moves b (Lost info) =
     (case bbr_state b of
        NXP_BBR_STARTUP \<Rightarrow> [NXP_BBR_STARTUP, NXP_BBR_DRAIN]
      | s \<Rightarrow> [s])"
| "bbr_moves b (Acked info) =
     (case bbr_state b of
        NXP_BBR_STARTUP \<Rightarrow> [NXP_BBR_STARTUP, NXP_BBR_DRAIN, NXP_BBR_PROBE_BW, NXP_BBR_PROBE_RTT]
      | NXP_BBR_DRAIN \<Rightarrow> [NXP_BBR_DRAIN, NXP_BBR_PROBE_BW, NXP_BBR_PROBE_RTT]
      | NXP_BBR_PROBE_BW \<Rightarrow> [NXP_BBR_PROBE_BW, NXP_BBR_PROBE_RTT]
      | NXP_BBR_PROBE_RTT \<Rightarrow>
          [NXP_BBR_PROBE_RTT, if filled_pipe b then NXP_BBR_PROBE_BW else NXP_BBR_STARTUP])"

section \<open>Windowed filter\<close>

definition wf_inv :: "nxp_windowed_filter \<Rightarrow> (u64 \<times> u64) set \<Rightarrow> bool" where
  "wf_inv f fed \<longleftrightarrow> wf_initialized f \<and>
     (wf_value (s0 f), wf_time (s0 f)) \<in> fed \<and> (wf_value (s1 f), wf_time (s1 f)) \<in> fed \<and>
     (wf_value (s2 f), wf_time (s2 f)) \<in> fed"

lemma wf_update_inv:
  "wf_inv f fed \<or> \<not> wf_initialized f \<Longrightarrow> wf_inv (nxp_wf_update f v t) (insert (v, t) fed)"
  by (auto simp: nxp_wf_update_def nxp_wf_reset_def wf_inv_def Let_def)

lemma wf_update_fresh: "t - wf_time (s0 (nxp_wf_update f v t)) \<le> wf_window f"
  by (auto simp: nxp_wf_update_def nxp_wf_reset_def Let_def not_less)

lemma wf_update_config:
  "wf_window (nxp_wf_update f v t) = wf_window f" "wf_is_max (nxp_wf_update f v t) = wf_is_max f"
  by (auto simp: nxp_wf_update_def nxp_wf_reset_def Let_def)

lemma wf_run_snoc: "wf_run f (xs @ [(v, t)]) = nxp_wf_update (wf_run f xs) v t"
  by (simp add: wf_run_def)

lemma wf_run_config: "wf_window (wf_run f xs) = wf_window f \<and> wf_is_max (wf_run f xs) = wf_is_max f"
  by (induction xs rule: rev_induct) (auto simp: wf_run_snoc wf_update_config, simp_all add: wf_run_def)

lemma wf_run_inv: "\<not> wf_initialized f \<Longrightarrow> xs \<noteq> [] \<Longrightarrow> wf_inv (wf_run f xs) (set xs)"
proof (induction xs rule: rev_induct)
  case (snoc x xs)
  obtain v t where x: "x = (v, t)" by fastforce
  have "wf_inv (wf_run f xs) (set xs) \<or> \<not> wf_initialized (wf_run f xs)"
    using snoc by (cases "xs = []") (auto simp: wf_run_def)
  from wf_update_inv [OF this, of v t] show ?case by (simp add: x wf_run_snoc)
qed simp

lemma wf_run_best:
  assumes "\<not> wf_initialized f" "\<forall>(v', t') \<in> set xs. nxp_wf_is_better f v v'"
  shows "nxp_wf_get (wf_run f (xs @ [(v, t)])) = v"
proof (cases "xs = []")
  case True
  then show ?thesis using assms(1)
    by (simp add: wf_run_def nxp_wf_update_def nxp_wf_reset_def nxp_wf_get_def Let_def)
next
  case False
  let ?g = "wf_run f xs"
  have i: "wf_inv ?g (set xs)" by (rule wf_run_inv [OF assms(1) False])
  then have "nxp_wf_is_better f v (wf_value (s0 ?g))" using assms(2) by (auto simp: wf_inv_def)
  then have "nxp_wf_is_better ?g v (wf_value (s0 ?g))"
    using wf_run_config [of f xs] by (simp add: nxp_wf_is_better_def)
  then show ?thesis
    by (simp add: wf_run_snoc nxp_wf_update_def nxp_wf_reset_def nxp_wf_get_def Let_def)
qed

text \<open>The filter is not a maximum over its window: when the best sample expires, the second best
  takes its place even if the newest sample is larger.  Here the newest sample is 80 and the filter
  answers 50.\<close>

lemma wf_misses_newest:
  "nxp_wf_get (wf_run (nxp_wf_init 10 True) [(100, 0), (50, 3), (80, 11)]) = 50"
  by code_simp

section \<open>BBR\<close>

lemma update_model_parts [simp]:
  "bbr_state (nxp_bbr_update_model b i) = bbr_state b" "cwnd (nxp_bbr_update_model b i) = cwnd b"
  "send_quantum (nxp_bbr_update_model b i) = send_quantum b"
  "filled_pipe (nxp_bbr_update_model b i) = filled_pipe b"
  "pacing_gain_num (nxp_bbr_update_model b i) = pacing_gain_num b"
  "pacing_gain_den (nxp_bbr_update_model b i) = pacing_gain_den b"
  "cwnd_gain_num (nxp_bbr_update_model b i) = cwnd_gain_num b"
  "cwnd_gain_den (nxp_bbr_update_model b i) = cwnd_gain_den b"
  "cycle_index (nxp_bbr_update_model b i) = cycle_index b"
  by (simp_all add: nxp_bbr_update_model_def Let_def)

lemma update_model_frame [simp]:
  "gains_ok (nxp_bbr_update_model b i) = gains_ok b" "pipe_ok (nxp_bbr_update_model b i) = pipe_ok b"
  by (simp_all add: gains_ok_def pipe_ok_def split: nxp_bbr_state.split)

lemma check_startup_frame:
  "cwnd (nxp_bbr_check_startup_done b) = cwnd b"
  "send_quantum (nxp_bbr_check_startup_done b) = send_quantum b"
  "gains_ok b \<Longrightarrow> gains_ok (nxp_bbr_check_startup_done b)"
  "pipe_ok b \<Longrightarrow> pipe_ok (nxp_bbr_check_startup_done b)"
  "filled_pipe b \<Longrightarrow> filled_pipe (nxp_bbr_check_startup_done b)"
  "bbr_state b = NXP_BBR_STARTUP \<and> bbr_state (nxp_bbr_check_startup_done b) = NXP_BBR_DRAIN \<or>
   bbr_state (nxp_bbr_check_startup_done b) = bbr_state b"
  by (auto simp: nxp_bbr_check_startup_done_def Let_def gains_ok_def pipe_ok_def
      split: nxp_bbr_state.splits)

lemma check_drain_frame:
  "cwnd (nxp_bbr_check_drain_done b) = cwnd b"
  "send_quantum (nxp_bbr_check_drain_done b) = send_quantum b"
  "gains_ok b \<Longrightarrow> gains_ok (nxp_bbr_check_drain_done b)"
  "pipe_ok b \<Longrightarrow> pipe_ok (nxp_bbr_check_drain_done b)"
  "filled_pipe (nxp_bbr_check_drain_done b) = filled_pipe b"
  "bbr_state b = NXP_BBR_DRAIN \<and> bbr_state (nxp_bbr_check_drain_done b) = NXP_BBR_PROBE_BW \<or>
   bbr_state (nxp_bbr_check_drain_done b) = bbr_state b"
  by (auto simp: nxp_bbr_check_drain_done_def Let_def gains_ok_def pipe_ok_def probe_bw_gain_num_def
      split: nxp_bbr_state.splits)

lemma cycle_lt: "unat (ucast ((ucast (c :: u8) + 1 :: u32) mod 8) :: u8) < 8"
proof -
  have "unat ((ucast c + 1 :: u32) mod 8) < 8" by (simp add: unat_mod)
  then show ?thesis by (simp add: unsigned_ucast_eq take_bit_nat_eq_self)
qed

lemma gain_den_100: "i < 8 \<Longrightarrow> probe_bw_gain_den ! i = 100"
  by (auto simp: probe_bw_gain_den_def nth_Cons' numeral_eq_Suc less_Suc_eq)

lemma probe_bw_frame:
  "cwnd (nxp_bbr_update_probe_bw b t) = cwnd b"
  "send_quantum (nxp_bbr_update_probe_bw b t) = send_quantum b"
  "gains_ok b \<Longrightarrow> gains_ok (nxp_bbr_update_probe_bw b t)"
  "pipe_ok b \<Longrightarrow> pipe_ok (nxp_bbr_update_probe_bw b t)"
  "filled_pipe (nxp_bbr_update_probe_bw b t) = filled_pipe b"
  "bbr_state (nxp_bbr_update_probe_bw b t) = bbr_state b"
  using cycle_lt [of "cycle_index b"]
  by (auto simp: nxp_bbr_update_probe_bw_def Let_def gains_ok_def pipe_ok_def gain_den_100
      split: nxp_bbr_state.splits)

lemma probe_rtt_frame:
  "4800 \<le> cwnd b \<Longrightarrow> 4800 \<le> cwnd (nxp_bbr_check_probe_rtt b t)"
  "send_quantum (nxp_bbr_check_probe_rtt b t) = send_quantum b"
  "gains_ok b \<Longrightarrow> gains_ok (nxp_bbr_check_probe_rtt b t)"
  "pipe_ok b \<Longrightarrow> pipe_ok (nxp_bbr_check_probe_rtt b t)"
  "filled_pipe (nxp_bbr_check_probe_rtt b t) = filled_pipe b"
  "bbr_state (nxp_bbr_check_probe_rtt b t) = bbr_state b \<or>
   bbr_state (nxp_bbr_check_probe_rtt b t) = NXP_BBR_PROBE_RTT \<or>
   bbr_state b = NXP_BBR_PROBE_RTT \<and>
     bbr_state (nxp_bbr_check_probe_rtt b t) = (if filled_pipe b then NXP_BBR_PROBE_BW else NXP_BBR_STARTUP)"
  by (auto simp: nxp_bbr_check_probe_rtt_def Let_def gains_ok_def pipe_ok_def
      probe_bw_gain_num_def probe_bw_gain_den_def split: nxp_bbr_state.splits)

lemma control_parts [simp]:
  "filled_pipe (nxp_bbr_update_control b) = filled_pipe b"
  "bbr_state (nxp_bbr_update_control b) = bbr_state b"
  "pacing_gain_num (nxp_bbr_update_control b) = pacing_gain_num b"
  "pacing_gain_den (nxp_bbr_update_control b) = pacing_gain_den b"
  "cwnd_gain_num (nxp_bbr_update_control b) = cwnd_gain_num b"
  "cwnd_gain_den (nxp_bbr_update_control b) = cwnd_gain_den b"
  "cycle_index (nxp_bbr_update_control b) = cycle_index b"
  by (simp_all add: nxp_bbr_update_control_def Let_def)

lemma control_quantum: "\<exists>q. send_quantum (nxp_bbr_update_control b) = min 65536 (max 2400 q)"
proof -
  have clamp: "(if (if q < 2 * 1200 then 2 * 1200 else q) > 64 * 1024 then 64 * 1024
      else if q < 2 * 1200 then 2 * 1200 else q) = min 65536 (max 2400 (q :: u64))" for q
    by (auto simp: min_def max_def)
  have sel: "send_quantum (r\<lparr>send_quantum := x\<rparr>) = x" for r :: nxp_bbr and x by simp
  show ?thesis unfolding nxp_bbr_update_control_def Let_def clamp sel by blast
qed

lemma control_frame:
  "gains_ok (nxp_bbr_update_control b) = gains_ok b" "pipe_ok (nxp_bbr_update_control b) = pipe_ok b"
  by (simp_all add: gains_ok_def pipe_ok_def split: nxp_bbr_state.split)

lemma control_cwnd: "4800 \<le> cwnd b \<Longrightarrow> 4800 \<le> cwnd (nxp_bbr_update_control b)"
  by (simp add: nxp_bbr_update_control_def Let_def not_less)

lemma control_burst:
  "1200 \<le> send_quantum (nxp_bbr_update_control b) \<and> send_quantum (nxp_bbr_update_control b) \<le> 65536"
  using control_quantum [of b] by (auto simp: le_max_iff_disj)

lemma in_flight_frame [simp]:
  "gains_ok (b\<lparr>bbr_bytes_in_flight := x\<rparr>) = gains_ok b" "pipe_ok (b\<lparr>bbr_bytes_in_flight := x\<rparr>) = pipe_ok b"
  by (simp_all add: gains_ok_def pipe_ok_def split: nxp_bbr_state.split)

lemma bbr_on_ack_inv:
  assumes "bbr_inv b"
  shows "bbr_inv (bbr_on_ack b i) \<and> bbr_state (bbr_on_ack b i) \<in> set (bbr_moves b (Acked i))"
proof -
  define b1 where "b1 = nxp_bbr_update_model (b\<lparr>bbr_bytes_in_flight := ai_bytes_in_flight i\<rparr>) i"
  define b2 where "b2 = nxp_bbr_check_startup_done b1"
  define b3 where "b3 = nxp_bbr_check_drain_done b2"
  define b4 where "b4 = nxp_bbr_update_probe_bw b3 (ai_now_us i)"
  define b5 where "b5 = nxp_bbr_check_probe_rtt b4 (ai_now_us i)"
  have e: "bbr_on_ack b i = nxp_bbr_update_control b5"
    by (simp add: bbr_on_ack_def Let_def b1_def b2_def b3_def b4_def b5_def)
  have 1: "4800 \<le> cwnd b1" "gains_ok b1" "pipe_ok b1" "bbr_state b1 = bbr_state b"
    "filled_pipe b1 = filled_pipe b"
    using assms by (simp_all add: b1_def bbr_inv_def)
  note 2 = check_startup_frame [of b1, folded b2_def] and 3 = check_drain_frame [of b2, folded b3_def]
    and 4 = probe_bw_frame [of b3 "ai_now_us i", folded b4_def]
    and 5 = probe_rtt_frame [of b4 "ai_now_us i", folded b5_def] and 6 = control_frame [of b5] control_cwnd [of b5] control_burst [of b5]
  have ok: "gains_ok b5" "pipe_ok b5" "4800 \<le> cwnd b5" using 1 2 3 4 5 by simp_all
  have same: "filled_pipe b4 = filled_pipe b" if "bbr_state b \<noteq> NXP_BBR_STARTUP"
    using that 1(4,5) 3(5) 4(5) by (simp add: b2_def nxp_bbr_check_startup_done_def)
  have "bbr_state b5 \<in> set (bbr_moves b (Acked i))"
    using same 1(4) 2(6) 3(6) 4(6) 5(6)
    by (cases "bbr_state b") (auto split: if_splits)
  then show ?thesis using ok 6 by (simp add: e bbr_inv_def)
qed

lemma bbr_on_loss_inv:
  assumes "bbr_inv b"
  shows "bbr_inv (bbr_on_loss b i) \<and> bbr_state (bbr_on_loss b i) \<in> set (bbr_moves b (Lost i))"
  using assms
  by (cases "bbr_state b") (auto simp: bbr_on_loss_def Let_def bbr_inv_def gains_ok_def pipe_ok_def)

lemma cc_step_inv:
  assumes "bbr_inv b"
  shows "bbr_inv (cc_step b e) \<and> bbr_state (cc_step b e) \<in> set (bbr_moves b e)"
proof (cases e)
  case (Sent n now fl)
  then show ?thesis using assms
    by (cases "bbr_state b") (simp_all add: bbr_on_sent_def bbr_inv_def)
qed (use assms bbr_on_ack_inv bbr_on_loss_inv in auto)

lemma bbr_init_inv: "bbr_inv nxp_bbr_init_state"
  by code_simp

lemma cc_run_inv: "bbr_inv b \<Longrightarrow> bbr_inv (cc_run b evs)"
  by (induction evs rule: rev_induct) (auto simp: cc_run_def dest: cc_step_inv)

section \<open>Properties\<close>

text \<open>C33. Every value the filter reports is one of the samples fed to it, taken no longer than the
  window before the newest one (the clock being monotone); and a sample at least as good as all
  before it is reported at once.\<close>

theorem nxp_wf_window:
  fixes window :: u64 and is_max :: bool
  assumes "sorted (map snd (samples @ [(v, t)]))"
  defines "f \<equiv> wf_run (nxp_wf_init window is_max) (samples @ [(v, t)])"
  shows "(\<exists>t'. (nxp_wf_get f, t') \<in> set (samples @ [(v, t)]) \<and> t' \<le> t \<and> unat t - unat t' \<le> unat window) \<and>
    ((\<forall>(v', t') \<in> set samples. if is_max then v' \<le> v else v \<le> v') \<longrightarrow> nxp_wf_get f = v)"
proof -
  let ?f0 = "nxp_wf_init window is_max"
  have ni: "\<not> wf_initialized ?f0" by (simp add: nxp_wf_init_def)
  let ?t' = "wf_time (s0 f)"
  have mem: "(nxp_wf_get f, ?t') \<in> set (samples @ [(v, t)])"
    using wf_run_inv [OF ni, of "samples @ [(v, t)]"] by (simp add: f_def wf_inv_def nxp_wf_get_def)
  then have le: "?t' \<le> t" using assms(1) by (auto simp: sorted_append)
  have "t - ?t' \<le> window"
    using wf_update_fresh [of t "wf_run ?f0 samples" v] wf_run_config [of ?f0 samples]
    by (simp add: f_def wf_run_snoc) (simp add: nxp_wf_init_def)
  then have "unat t - unat ?t' \<le> unat window" using le by (simp add: word_le_nat_alt unat_sub)
  moreover have "nxp_wf_get f = v" if "\<forall>(v', t') \<in> set samples. if is_max then v' \<le> v else v \<le> v'"
    unfolding f_def using that
    by (intro wf_run_best [OF ni]) (auto simp: nxp_wf_is_better_def nxp_wf_init_def split: if_splits)
  ultimately show ?thesis using mem le by blast
qed

theorem nxp_wf_window_witness:
  "nxp_wf_get (wf_run (nxp_wf_init 10 True) ([(100, 0), (50, 3)] @ [(120, 11)])) = 120"
  using nxp_wf_window [of "[(100, 0), (50, 3)]" 120 11 10 True] by simp

text \<open>C25. BBR keeps its safety envelope under every sequence of sent, acknowledged and lost packets
  from its creation, whatever the measurements and even where the 64-bit products wrap: the congestion
  window never falls below four datagrams, the burst stays between one datagram and 64 KB, the gains
  are those of the current state, STARTUP runs only while the pipe is not filled, and DRAIN and
  ProbeBW only once it is.  Every event moves the state along the transitions of
  \<^const>\<open>bbr_moves\<close> only.  These are the transitions of the code and more than the comment
  \<^verbatim>\<open>STARTUP -> DRAIN -> PROBE_BW <-> PROBE_RTT\<close> of \<^verbatim>\<open>bbr_internal.h\<close> names: ProbeRTT is entered
  from every state, and left for STARTUP again when the pipe was not filled.\<close>

theorem nxp_bbr_safe:
  assumes "bbr_create True = Some b0"
  shows "bbr_inv (cc_run b0 evs) \<and>
    bbr_state (cc_step (cc_run b0 evs) e) \<in> set (bbr_moves (cc_run b0 evs) e)"
proof -
  have "bbr_inv (cc_run b0 evs)"
    using assms cc_run_inv [OF bbr_init_inv] by (simp add: bbr_create_def)
  then show ?thesis using cc_step_inv by blast
qed

text \<open>Three acknowledgements: a first sample, one more than ten seconds later (the minimum RTT has
  expired) and one 0.2 seconds after that.  The connection goes from STARTUP through ProbeRTT back to
  STARTUP.\<close>

definition rtt_expiry_acks :: "cc_event list" where
  "rtt_expiry_acks = map (\<lambda>now. Acked \<lparr>ai_pkt_num = 0, ai_acked_bytes = 1200, ai_sent_time = now - 50000,
      ai_now_us = now, ai_rtt_us = 50000, ai_min_rtt_us = 50000, ai_bytes_in_flight = 1200,
      ai_delivery_rate_bps = 100000, ai_round_count = 1, ai_is_app_limited = False,
      ai_round_start = False\<rparr>) [100000, 11000000, 11300000]"

theorem nxp_bbr_safe_witness:
  "map (\<lambda>n. bbr_state (cc_run nxp_bbr_init_state (take n rtt_expiry_acks))) [0, 1, 2, 3] =
     [NXP_BBR_STARTUP, NXP_BBR_STARTUP, NXP_BBR_PROBE_RTT, NXP_BBR_STARTUP] \<and>
   bbr_inv (cc_run nxp_bbr_init_state (take 2 rtt_expiry_acks)) \<and>
   bbr_state (cc_step (cc_run nxp_bbr_init_state (take 2 rtt_expiry_acks)) (rtt_expiry_acks ! 2)) \<in>
     set (bbr_moves (cc_run nxp_bbr_init_state (take 2 rtt_expiry_acks)) (rtt_expiry_acks ! 2))"
proof -
  have "map (\<lambda>n. bbr_state (cc_run nxp_bbr_init_state (take n rtt_expiry_acks))) [0, 1, 2, 3] =
     [NXP_BBR_STARTUP, NXP_BBR_STARTUP, NXP_BBR_PROBE_RTT, NXP_BBR_STARTUP]"
    by code_simp
  moreover have "bbr_create True = Some nxp_bbr_init_state" by (simp add: bbr_create_def)
  ultimately show ?thesis using nxp_bbr_safe by blast
qed

end
