(* ===== verification/Nxp_Ack.thy ===== *)
theory Nxp_Ack
  imports Nxp_Frame Nxp_Congestion "HOL-Library.Multiset"
begin

text \<open>
  ACK tracking and loss detection, \<^verbatim>\<open>src/core/ack.c\<close>: the ranges of received packet numbers and the
  ACK frame built from them, the metadata of sent packets, RTT estimation, the processing of an ACK
  frame and the two loss-detection rules.  The callbacks of the connection are functions on a context
  that also see the current ACK state; the arrays of received ranges and of sent packets are lists of
  their used prefix.
\<close>

section \<open>State\<close>

record nxp_stream_frame_record =
  fr_stream_id :: u64
  fr_offset :: u64
  fr_len :: u32
  fr_fin :: bool

record nxp_sent_pkt =
  sp_pkt_num :: u64
  sp_sent_time :: u64
  sp_sent_bytes :: u32
  sp_ack_eliciting :: bool
  sp_in_flight :: bool
  sp_declared_lost :: bool
  sp_frames :: "nxp_stream_frame_record list"
  sp_dr_state :: nxp_dr_pkt_state

record nxp_recv_pn_range =
  pr_start :: u64
  pr_end :: u64

record nxp_ack_state =
  recv_ranges :: "nxp_recv_pn_range list"
  largest_recv_pn :: u64
  largest_recv_time :: u64
  ack_needed :: bool
  ack_delay_timer :: u64
  smoothed_rtt :: u64
  rtt_var :: u64
  min_rtt :: u64
  latest_rtt :: u64
  has_rtt :: bool
  sent :: "nxp_sent_pkt list"
  sent_null :: bool
  sent_cap :: u32
  bytes_in_flight :: u64
  loss_time :: u64
  pto_count :: u32
  time_of_last_ack_eliciting :: u64

abbreviation (input) NXP_MAX_RECV_RANGES :: nat where "NXP_MAX_RECV_RANGES \<equiv> 64"
abbreviation (input) NXP_ACK_DELAY_US :: u64 where "NXP_ACK_DELAY_US \<equiv> 25000"
abbreviation (input) NXP_LOSS_DELAY_FACTOR :: u64 where "NXP_LOSS_DELAY_FACTOR \<equiv> 9"
abbreviation (input) NXP_PACKET_REORDER_THRESH :: u64 where "NXP_PACKET_REORDER_THRESH \<equiv> 3"
abbreviation (input) INITIAL_RTT_US :: u64 where "INITIAL_RTT_US \<equiv> 333000"
abbreviation (input) UINT64_MAX :: u64 where "UINT64_MAX \<equiv> 0xffffffffffffffff"

type_synonym 'c pkt_cb = "nxp_ack_state \<Rightarrow> nxp_sent_pkt \<Rightarrow> 'c \<Rightarrow> 'c"

definition compute_pto :: "nxp_ack_state \<Rightarrow> u64" where
  "compute_pto ack =
     (let rtt = (if has_rtt ack then smoothed_rtt ack else INITIAL_RTT_US);
          var = (if has_rtt ack then rtt_var ack else INITIAL_RTT_US div 2) in
      rtt + max (4 * var) 1000 + NXP_ACK_DELAY_US)"

text \<open>The allocation of the array of sent packets may fail; the pointer is then null.\<close>

definition nxp_ack_init :: "bool \<Rightarrow> nxp_ack_state" where
  "nxp_ack_init alloc = \<lparr>recv_ranges = [], largest_recv_pn = 0, largest_recv_time = 0,
     ack_needed = False, ack_delay_timer = 0, smoothed_rtt = INITIAL_RTT_US,
     rtt_var = INITIAL_RTT_US div 2, min_rtt = UINT64_MAX, latest_rtt = 0, has_rtt = False,
     sent = [], sent_null = (\<not> alloc), sent_cap = 256, bytes_in_flight = 0, loss_time = UINT64_MAX,
     pto_count = 0, time_of_last_ack_eliciting = 0\<rparr>"

definition nxp_ack_cleanup :: "nxp_ack_state \<Rightarrow> nxp_ack_state" where
  "nxp_ack_cleanup ack = ack\<lparr>sent := [], sent_null := True, sent_cap := 0\<rparr>"

section \<open>Received packets\<close>

definition in_range :: "u64 \<Rightarrow> nxp_recv_pn_range \<Rightarrow> bool" where
  "in_range pkt_num r \<longleftrightarrow> pkt_num \<ge> pr_start r \<and> pkt_num \<le> pr_end r"

text \<open>The loop that extends or merges a range; the flag is \<^verbatim>\<open>inserted\<close>.\<close>

function range_extend ::
    "u64 \<Rightarrow> nat \<Rightarrow> nxp_recv_pn_range list \<Rightarrow> nxp_recv_pn_range list \<times> bool" where
  "range_extend pkt_num i rs =
     (if i \<ge> length rs then (rs, False)
      else let r = rs ! i in
        if in_range pkt_num r then (rs, True)
        else if pkt_num = pr_end r + 1 then
          let rs = rs[i := r\<lparr>pr_end := pkt_num\<rparr>] in
          if i > 0 \<and> pr_start (rs ! (i - 1)) = pkt_num + 1 then
            let rs = rs[i - 1 := (rs ! (i - 1))\<lparr>pr_start := pr_start r\<rparr>] in
            (take i rs @ drop (i + 1) rs, True)
          else (rs, True)
        else if pkt_num + 1 = pr_start r then
          if i + 1 < length rs \<and> pr_end (rs ! (i + 1)) + 1 = pkt_num then
            let rs = rs[i := r\<lparr>pr_start := pr_start (rs ! (i + 1))\<rparr>] in
            (take (i + 1) rs @ drop (i + 2) rs, True)
          else (rs[i := r\<lparr>pr_start := pkt_num\<rparr>], True)
        else range_extend pkt_num (i + 1) rs)"
  by auto
termination by (relation "measure (\<lambda>(pn, i, rs). length rs - i)") auto

definition range_insert :: "u64 \<Rightarrow> nxp_recv_pn_range list \<Rightarrow> nxp_recv_pn_range list" where
  "range_insert pkt_num rs =
     takeWhile (\<lambda>r. pr_start r > pkt_num) rs @ [\<lparr>pr_start = pkt_num, pr_end = pkt_num\<rparr>] @
     dropWhile (\<lambda>r. pr_start r > pkt_num) rs"

definition nxp_ack_on_pkt_recv :: "nxp_ack_state \<Rightarrow> u64 \<Rightarrow> u64 \<Rightarrow> bool \<Rightarrow> nxp_ack_state" where
  "nxp_ack_on_pkt_recv ack pkt_num now_us ack_eliciting =
     (if \<exists>r\<in>set (recv_ranges ack). in_range pkt_num r then ack
      else
        let ack = (if recv_ranges ack = [] \<or> pkt_num > largest_recv_pn ack
                   then ack\<lparr>largest_recv_pn := pkt_num, largest_recv_time := now_us\<rparr> else ack);
            (rs, inserted) = range_extend pkt_num 0 (recv_ranges ack);
            rs = (if \<not> inserted \<and> length rs < NXP_MAX_RECV_RANGES then range_insert pkt_num rs
                  else rs);
            ack = ack\<lparr>recv_ranges := rs\<rparr> in
        if ack_eliciting
        then ack\<lparr>ack_needed := True, ack_delay_timer := now_us + NXP_ACK_DELAY_US\<rparr>
        else ack)"

section \<open>Sent packets\<close>

text \<open>\<^term>\<open>None\<close> is a write outside the array.\<close>

definition nxp_ack_on_pkt_sent :: "bool \<Rightarrow> nxp_ack_state \<Rightarrow> nxp_sent_pkt \<Rightarrow> nxp_ack_state option" where
  "nxp_ack_on_pkt_sent realloc_ok ack pkt =
     (let full = (length (sent ack) \<ge> unat (sent_cap ack)) in
      if full \<and> \<not> realloc_ok then Some ack
      else
        let ack = (if full then ack\<lparr>sent_cap := sent_cap ack * 2, sent_null := False\<rparr> else ack) in
        if sent_null ack \<or> length (sent ack) \<ge> unat (sent_cap ack) then None
        else
          let ack = ack\<lparr>sent := sent ack @ [pkt]\<rparr>;
              ack = (if sp_in_flight pkt
                     then ack\<lparr>bytes_in_flight := bytes_in_flight ack + ucast (sp_sent_bytes pkt)\<rparr>
                     else ack) in
          Some (if sp_ack_eliciting pkt
                then ack\<lparr>time_of_last_ack_eliciting := sp_sent_time pkt\<rparr> else ack))"

section \<open>RTT\<close>

definition update_rtt :: "nxp_ack_state \<Rightarrow> u64 \<Rightarrow> u64 \<Rightarrow> nxp_ack_state" where
  "update_rtt ack latest delay =
     (let ack = ack\<lparr>latest_rtt := latest, min_rtt := min (min_rtt ack) latest\<rparr>;
          delay = (if delay > NXP_ACK_DELAY_US then NXP_ACK_DELAY_US else delay) in
      if \<not> has_rtt ack then
        ack\<lparr>smoothed_rtt := latest, rtt_var := latest div 2, has_rtt := True\<rparr>
      else
        let adjusted = (if latest > delay \<and> latest - delay \<ge> min_rtt ack
                        then latest - delay else latest);
            diff = (if smoothed_rtt ack > adjusted then smoothed_rtt ack - adjusted
                    else adjusted - smoothed_rtt ack) in
        ack\<lparr>rtt_var := (3 * rtt_var ack + diff) div 4,
            smoothed_rtt := (7 * smoothed_rtt ack + adjusted) div 8\<rparr>)"

section \<open>Loss detection\<close>

definition loss_delay :: "nxp_ack_state \<Rightarrow> u64" where
  "loss_delay ack =
     (let d = max (smoothed_rtt ack) (latest_rtt ack) * NXP_LOSS_DELAY_FACTOR div 8 in
      if d < 1000 then 1000 else d)"

definition is_lost :: "u64 \<Rightarrow> u64 \<Rightarrow> u64 \<Rightarrow> nxp_sent_pkt \<Rightarrow> bool" where
  "is_lost delay now_us largest_acked_pn pkt \<longleftrightarrow>
     sp_pkt_num pkt + NXP_PACKET_REORDER_THRESH \<le> largest_acked_pn \<or>
     sp_sent_time pkt + delay \<le> now_us"

definition remove_in_flight :: "nxp_sent_pkt \<Rightarrow> nxp_ack_state \<Rightarrow> nxp_ack_state" where
  "remove_in_flight pkt ack =
     (if sp_in_flight pkt \<and> bytes_in_flight ack \<ge> ucast (sp_sent_bytes pkt)
      then ack\<lparr>bytes_in_flight := bytes_in_flight ack - ucast (sp_sent_bytes pkt)\<rparr> else ack)"

text \<open>The loop over the sent packets: the packets kept, the state and the context.\<close>

fun detect_loop ::
    "u64 \<Rightarrow> u64 \<Rightarrow> u64 \<Rightarrow> 'c pkt_cb option \<Rightarrow> nxp_sent_pkt list \<Rightarrow> nxp_ack_state \<Rightarrow> 'c \<Rightarrow>
     nxp_sent_pkt list \<times> nxp_ack_state \<times> 'c" where
  "detect_loop delay now_us largest on_loss [] ack ctx = ([], ack, ctx)"
| "detect_loop delay now_us largest on_loss (pkt # ps) ack ctx =
     (if sp_declared_lost pkt then detect_loop delay now_us largest on_loss ps ack ctx
      else if sp_pkt_num pkt > largest then
        let (kept, ack, ctx) = detect_loop delay now_us largest on_loss ps ack ctx in
        (pkt # kept, ack, ctx)
      else if is_lost delay now_us largest pkt then
        let pkt = pkt\<lparr>sp_declared_lost := True\<rparr>;
            ack = remove_in_flight pkt ack;
            ctx = (case on_loss of Some cb \<Rightarrow> cb ack pkt ctx | None \<Rightarrow> ctx) in
        detect_loop delay now_us largest on_loss ps ack ctx
      else
        let ack = ack\<lparr>loss_time := min (loss_time ack) (sp_sent_time pkt + delay)\<rparr>;
            (kept, ack, ctx) = detect_loop delay now_us largest on_loss ps ack ctx in
        (pkt # kept, ack, ctx))"

definition detect_lost_packets ::
    "nxp_ack_state \<Rightarrow> u64 \<Rightarrow> u64 \<Rightarrow> 'c pkt_cb option \<Rightarrow> 'c \<Rightarrow> nxp_ack_state \<times> 'c" where
  "detect_lost_packets ack now_us largest_acked_pn on_loss ctx =
     (let ack = ack\<lparr>loss_time := UINT64_MAX\<rparr>;
          (kept, ack, ctx) =
            detect_loop (loss_delay ack) now_us largest_acked_pn on_loss (sent ack) ack ctx in
      (ack\<lparr>sent := kept\<rparr>, ctx))"

section \<open>Incoming ACK frames\<close>

fun acked_in_ranges :: "u64 \<Rightarrow> u64 \<Rightarrow> nxp_ack_range list \<Rightarrow> bool" where
  "acked_in_ranges pkt_num cur_end [] = False"
| "acked_in_ranges pkt_num cur_end (r # rs) =
     (if cur_end < gap r + 2 then False
      else
        let cur_end = cur_end - gap r - 2;
            r_start = (if cur_end \<ge> ack_range r then cur_end - ack_range r else 0) in
        if pkt_num \<ge> r_start \<and> pkt_num \<le> cur_end then True
        else acked_in_ranges pkt_num r_start rs)"

definition pkt_acked :: "nxp_frame_ack \<Rightarrow> u64 \<Rightarrow> bool" where
  "pkt_acked f pkt_num =
     (let re = largest_acked f; rs = largest_acked f - first_ack_range f in
      pkt_num \<ge> rs \<and> pkt_num \<le> re \<or> acked_in_ranges pkt_num rs (ranges f))"

text \<open>The packets kept, the RTT sample, the state and the context.\<close>

fun ack_loop ::
    "nxp_frame_ack \<Rightarrow> u64 \<Rightarrow> 'c pkt_cb option \<Rightarrow> nxp_sent_pkt list \<Rightarrow> u64 option \<Rightarrow>
     nxp_ack_state \<Rightarrow> 'c \<Rightarrow> nxp_sent_pkt list \<times> u64 option \<times> nxp_ack_state \<times> 'c" where
  "ack_loop f now_us on_ack [] rtt ack ctx = ([], rtt, ack, ctx)"
| "ack_loop f now_us on_ack (pkt # ps) rtt ack ctx =
     (if pkt_acked f (sp_pkt_num pkt) then
        let rtt = (if sp_pkt_num pkt = largest_acked f \<and> sp_ack_eliciting pkt
                   then Some (now_us - sp_sent_time pkt) else rtt);
            ack = remove_in_flight pkt ack;
            ctx = (case on_ack of Some cb \<Rightarrow> cb ack pkt ctx | None \<Rightarrow> ctx) in
        ack_loop f now_us on_ack ps rtt ack ctx
      else
        let (kept, rtt, ack, ctx) = ack_loop f now_us on_ack ps rtt ack ctx in
        (pkt # kept, rtt, ack, ctx))"

definition nxp_ack_on_ack_recv ::
    "nxp_ack_state \<Rightarrow> nxp_frame_ack \<Rightarrow> u64 \<Rightarrow> 'c pkt_cb option \<Rightarrow> 'c pkt_cb option \<Rightarrow> 'c \<Rightarrow>
     nxp_ack_state \<times> 'c" where
  "nxp_ack_on_ack_recv ack f now_us on_ack on_loss ctx =
     (let (kept, rtt, ack, ctx) = ack_loop f now_us on_ack (sent ack) None ack ctx;
          ack = ack\<lparr>sent := kept\<rparr>;
          ack = (case rtt of Some sample \<Rightarrow> update_rtt ack sample (ack_delay f) | None \<Rightarrow> ack);
          ack = ack\<lparr>pto_count := 0\<rparr> in
      detect_lost_packets ack now_us (largest_acked f) on_loss ctx)"

section \<open>Building an ACK frame\<close>

fun build_ranges :: "nat \<Rightarrow> u64 \<Rightarrow> nxp_recv_pn_range list \<Rightarrow> nxp_ack_range list" where
  "build_ranges n prev_start [] = []"
| "build_ranges n prev_start (r # rs) =
     (if n \<ge> unat NXP_ACK_MAX_RANGES \<or> prev_start < pr_end r + 2 then []
      else \<lparr>gap = prev_start - pr_end r - 2, ack_range = pr_end r - pr_start r\<rparr> #
           build_ranges (n + 1) (pr_start r) rs)"

definition nxp_ack_build_frame :: "nxp_ack_state \<Rightarrow> u64 \<Rightarrow> nxp_frame_ack option" where
  "nxp_ack_build_frame ack now_us =
     (case recv_ranges ack of [] \<Rightarrow> None
      | r # rs \<Rightarrow> Some
          \<lparr>largest_acked = pr_end r,
           ack_delay = (if now_us > largest_recv_time ack then now_us - largest_recv_time ack else 0),
           first_ack_range = pr_end r - pr_start r,
           ranges = build_ranges 0 (pr_start r) rs,
           has_ecn = False, ect0_count = 0, ect1_count = 0, ecn_ce_count = 0\<rparr>)"

section \<open>Timers\<close>

text \<open>\<^term>\<open>None\<close> is a shift by 64 or more.\<close>

definition nxp_ack_loss_timeout :: "nxp_ack_state \<Rightarrow> u64 option" where
  "nxp_ack_loss_timeout ack =
     (if loss_time ack \<noteq> UINT64_MAX then Some (loss_time ack)
      else if bytes_in_flight ack = 0 then Some UINT64_MAX
      else if unat (pto_count ack) \<ge> 64 then None
      else Some (time_of_last_ack_eliciting ack + compute_pto ack * push_bit (unat (pto_count ack)) 1))"

definition nxp_ack_on_loss_timeout ::
    "nxp_ack_state \<Rightarrow> u64 \<Rightarrow> 'c pkt_cb option \<Rightarrow> 'c \<Rightarrow> nxp_ack_state \<times> 'c" where
  "nxp_ack_on_loss_timeout ack now_us on_loss ctx =
     (if loss_time ack \<noteq> UINT64_MAX \<and> now_us \<ge> loss_time ack then
        let largest = foldl (\<lambda>m p. if sp_pkt_num p > m then sp_pkt_num p else m) 0 (sent ack) in
        detect_lost_packets ack now_us largest on_loss ctx
      else (ack\<lparr>pto_count := pto_count ack + 1\<rparr>, ctx))"

declare range_extend.simps [simp del]

section \<open>Received packet numbers\<close>

text \<open>The packet numbers a list of ranges stands for; the ranges are in descending order and
  never adjacent.\<close>

definition pns :: "nxp_recv_pn_range list \<Rightarrow> u64 set" where
  "pns rs = {pn. \<exists>r\<in>set rs. in_range pn r}"

definition range_gap :: "nxp_recv_pn_range \<Rightarrow> nxp_recv_pn_range \<Rightarrow> bool" where
  "range_gap r q \<longleftrightarrow> unat (pr_end q) + 1 < unat (pr_start r)"

definition ranges_ok :: "nxp_recv_pn_range list \<Rightarrow> bool" where
  "ranges_ok rs \<longleftrightarrow> (\<forall>r\<in>set rs. pr_start r \<le> pr_end r \<and> unat (pr_end r) + 1 < 2 ^ 64) \<and>
     sorted_wrt range_gap rs"

text \<open>A packet number that extends no range.\<close>

definition isolated :: "u64 \<Rightarrow> nxp_recv_pn_range \<Rightarrow> bool" where
  "isolated pn r \<longleftrightarrow> unat pn + 1 < unat (pr_start r) \<or> unat (pr_end r) + 1 < unat pn"

lemma pns_append [simp]: "pns (xs @ ys) = pns xs \<union> pns ys" "pns [] = {}"
  "pns (r # rs) = {pn. in_range pn r} \<union> pns rs"
  by (auto simp: pns_def)

lemma ranges_ok_append:
  "ranges_ok (xs @ ys) \<longleftrightarrow> ranges_ok xs \<and> ranges_ok ys \<and> (\<forall>x\<in>set xs. \<forall>y\<in>set ys. range_gap x y)"
  by (auto simp: ranges_ok_def sorted_wrt_append)

lemma ranges_ok_Cons:
  "ranges_ok (r # rs) \<longleftrightarrow> pr_start r \<le> pr_end r \<and> unat (pr_end r) + 1 < 2 ^ 64 \<and> ranges_ok rs \<and>
     (\<forall>q\<in>set rs. range_gap r q)"
  by (auto simp: ranges_ok_def)

lemma unat_plus_1: "unat (x :: u64) + 1 < 2 ^ 64 \<Longrightarrow> unat (x + 1) = unat x + 1"
  using unat_add_nowrap [of x 1] by simp

lemma scanned_isolated:
  assumes "pr_start r \<le> pr_end r" "unat (pr_end r) + 1 < 2 ^ 64" "unat pn + 1 < 2 ^ 64"
    and "\<not> in_range pn r" "pn \<noteq> pr_end r + 1" "pn + 1 \<noteq> pr_start r"
  shows "isolated pn r"
proof -
  have "unat pn \<noteq> unat (pr_end r) + 1" "unat pn + 1 \<noteq> unat (pr_start r)"
    using assms(5,6) unat_plus_1 [OF assms(2)] unat_plus_1 [OF assms(3)]
    by (simp_all add: word_unat_eq_iff)
  then show ?thesis using assms(1,4) by (auto simp: isolated_def in_range_def word_le_nat_alt)
qed

lemma in_range_nat: "in_range pn r \<longleftrightarrow> unat (pr_start r) \<le> unat pn \<and> unat pn \<le> unat (pr_end r)"
  by (simp add: in_range_def word_le_nat_alt)

lemmas range_nat = ranges_ok_append ranges_ok_Cons range_gap_def isolated_def word_le_nat_alt

lemma isolated_above:
  assumes "ranges_ok (xs @ r # ys)" "\<forall>x\<in>set xs. isolated pn x" "x \<in> set xs"
    and "unat pn = unat (pr_end r) + 1"
  shows "unat pn + 1 < unat (pr_start x)"
proof -
  have "unat (pr_end r) + 1 < unat (pr_start x)" "unat (pr_start x) \<le> unat (pr_end x)"
    using assms(1,3) by (auto simp: range_gap_def ranges_ok_def sorted_wrt_append word_le_nat_alt)
  then show ?thesis using assms(2,3,4) by (auto simp: isolated_def)
qed

lemma extend_up:
  assumes "ranges_ok (xs @ r # ys)" "\<forall>x\<in>set xs. isolated pn x" "unat pn + 1 < 2 ^ 64"
    and "unat pn = unat (pr_end r) + 1"
  shows "ranges_ok (xs @ r\<lparr>pr_end := pn\<rparr> # ys)"
    "pns (xs @ r\<lparr>pr_end := pn\<rparr> # ys) = insert pn (pns (xs @ r # ys))"
proof -
  show "ranges_ok (xs @ r\<lparr>pr_end := pn\<rparr> # ys)"
    using assms isolated_above [OF assms(1,2) _ assms(4)] by (auto simp: range_nat)
  have "in_range x (r\<lparr>pr_end := pn\<rparr>) \<longleftrightarrow> x = pn \<or> in_range x r" for x
    using assms by (auto simp: in_range_nat range_nat word_unat_eq_iff)
  then show "pns (xs @ r\<lparr>pr_end := pn\<rparr> # ys) = insert pn (pns (xs @ r # ys))" by auto
qed

lemma extend_down:
  assumes "ranges_ok (xs @ r # ys)" "unat pn + 1 = unat (pr_start r)"
    and "ys = [] \<or> unat (pr_end (hd ys)) + 1 \<noteq> unat pn"
  shows "ranges_ok (xs @ r\<lparr>pr_start := pn\<rparr> # ys)"
    "pns (xs @ r\<lparr>pr_start := pn\<rparr> # ys) = insert pn (pns (xs @ r # ys))"
proof -
  have "unat (pr_end y) + 1 < unat pn" if "y \<in> set ys" for y
  proof (cases ys)
    case (Cons q zs)
    then have "unat (pr_end q) + 1 < unat pn" using assms by (auto simp: range_nat)
    then show ?thesis using assms(1) that Cons by (force simp: range_nat)
  qed (use that in simp)
  then show "ranges_ok (xs @ r\<lparr>pr_start := pn\<rparr> # ys)" using assms by (auto simp: range_nat)
  have "in_range x (r\<lparr>pr_start := pn\<rparr>) \<longleftrightarrow> x = pn \<or> in_range x r" for x
    using assms by (auto simp: in_range_nat range_nat word_unat_eq_iff)
  then show "pns (xs @ r\<lparr>pr_start := pn\<rparr> # ys) = insert pn (pns (xs @ r # ys))" by auto
qed

lemma extend_merge:
  assumes "ranges_ok (xs @ r # q # ys)" "unat pn + 1 = unat (pr_start r)" "unat (pr_end q) + 1 = unat pn"
  shows "ranges_ok (xs @ r\<lparr>pr_start := pr_start q\<rparr> # ys)"
    "pns (xs @ r\<lparr>pr_start := pr_start q\<rparr> # ys) = insert pn (pns (xs @ r # q # ys))"
proof -
  show "ranges_ok (xs @ r\<lparr>pr_start := pr_start q\<rparr> # ys)" using assms by (auto simp: range_nat)
  have "in_range x (r\<lparr>pr_start := pr_start q\<rparr>) \<longleftrightarrow> x = pn \<or> in_range x r \<or> in_range x q" for x
    using assms by (auto simp: in_range_nat range_nat word_unat_eq_iff)
  then show "pns (xs @ r\<lparr>pr_start := pr_start q\<rparr> # ys) = insert pn (pns (xs @ r # q # ys))" by auto
qed

lemma range_extend_spec:
  assumes "ranges_ok rs" "unat pn + 1 < 2 ^ 64" "pn \<notin> pns rs"
    and "i \<le> length rs" "\<forall>r\<in>set (take i rs). isolated pn r"
  shows "case range_extend pn i rs of
      (rs', True) \<Rightarrow> ranges_ok rs' \<and> pns rs' = insert pn (pns rs) \<and> length rs' \<le> length rs
    | (rs', False) \<Rightarrow> rs' = rs \<and> (\<forall>r\<in>set rs. isolated pn r)"
  using assms
proof (induction pn i rs rule: range_extend.induct)
  case (1 pn i rs)
  show ?case
  proof (cases "i < length rs")
    case False
    then show ?thesis using "1.prems" by (subst range_extend.simps) simp
  next
    case True
    define r where "r = rs ! i"
    define xs where "xs = take i rs"
    define ys where "ys = drop (Suc i) rs"
    have rs: "rs = xs @ r # ys" and len: "length xs = i"
      using True by (simp_all add: r_def xs_def ys_def id_take_nth_drop)
    have R: "pr_start r \<le> pr_end r" "unat (pr_end r) + 1 < 2 ^ 64" "\<not> in_range pn r"
      using "1.prems"(1,3) by (auto simp: rs ranges_ok_append ranges_ok_Cons)
    consider (up) "pn = pr_end r + 1" | (down) "pn \<noteq> pr_end r + 1" "pn + 1 = pr_start r"
      | (skip) "pn \<noteq> pr_end r + 1" "pn + 1 \<noteq> pr_start r" by blast
    then show ?thesis
    proof cases
      case up
      have iso: "\<forall>x\<in>set xs. isolated pn x" using "1.prems"(5) by (simp add: xs_def)
      have un: "unat pn = unat (pr_end r) + 1" using up unat_plus_1 [OF R(2)] by simp
      have "pr_start (rs ! (i - 1)) \<noteq> pn + 1" if "0 < i"
      proof -
        have "rs ! (i - 1) \<in> set xs" using that len by (simp add: rs nth_append)
        then have "unat pn + 1 < unat (pr_start (rs ! (i - 1)))"
          using isolated_above [OF "1.prems"(1) [unfolded rs] iso _ un] by blast
        then show ?thesis using unat_plus_1 [OF "1.prems"(2)] by auto
      qed
      then have "range_extend pn i rs = (xs @ r\<lparr>pr_end := pn\<rparr> # ys, True)"
        using True R(3) up by (subst range_extend.simps) (auto simp: Let_def r_def [symmetric] rs len [symmetric] nth_append)
      then show ?thesis using extend_up [of xs r ys pn] "1.prems"(1,2) iso un rs by simp
    next
      case down
      have un: "unat pn + 1 = unat (pr_start r)" using down(2) unat_plus_1 [OF "1.prems"(2)] by simp
      show ?thesis
      proof (cases "ys \<noteq> [] \<and> pr_end (hd ys) + 1 = pn")
        case True
        then obtain q zs where ys: "ys = q # zs" by (cases ys) auto
        have q: "unat (pr_end q) + 1 = unat pn"
          using "1.prems"(1) True unat_plus_1 [of "pr_end q"] by (auto simp: rs ys range_nat)
        have "range_extend pn i rs = (xs @ r\<lparr>pr_start := pr_start q\<rparr> # zs, True)"
          using \<open>i < length rs\<close> R(3) down True
          by (subst range_extend.simps) (simp add: Let_def rs ys len [symmetric] nth_append)
        then show ?thesis using extend_merge [of xs r q zs pn] "1.prems"(1) un q by (simp add: rs ys)
      next
        case False
        have "ys = [] \<or> unat (pr_end (hd ys)) + 1 \<noteq> unat pn"
          using False "1.prems"(1) unat_plus_1 [of "pr_end (hd ys)"]
          by (cases ys) (auto simp: rs range_nat word_unat_eq_iff)
        moreover have "range_extend pn i rs = (xs @ r\<lparr>pr_start := pn\<rparr> # ys, True)"
          using \<open>i < length rs\<close> R(3) down False
          by (subst range_extend.simps) (cases ys; simp add: Let_def rs len [symmetric] nth_append)
        ultimately show ?thesis using extend_down [of xs r ys pn] "1.prems"(1) un by (simp add: rs)
      qed
    next
      case skip
      then have "isolated pn r" using scanned_isolated R "1.prems"(2) by blast
      then have "\<forall>r\<in>set (take (i + 1) rs). isolated pn r"
        using "1.prems"(5) True by (auto simp: take_Suc_conv_app_nth r_def)
      then have "case range_extend pn (i + 1) rs of
          (rs', True) \<Rightarrow> ranges_ok rs' \<and> pns rs' = insert pn (pns rs) \<and> length rs' \<le> length rs
        | (rs', False) \<Rightarrow> rs' = rs \<and> (\<forall>r\<in>set rs. isolated pn r)"
        using "1.IH" [of r] True R skip "1.prems" by (simp add: r_def)
      moreover have "range_extend pn i rs = range_extend pn (i + 1) rs"
        using True R skip by (subst range_extend.simps) (simp add: r_def)
      ultimately show ?thesis by simp
    qed
  qed
qed

lemma range_insert_spec:
  assumes ok: "ranges_ok rs" and iso: "\<forall>r\<in>set rs. isolated pn r" and pn: "unat pn + 1 < 2 ^ 64"
  shows "ranges_ok (range_insert pn rs)" "pns (range_insert pn rs) = insert pn (pns rs)"
    "length (range_insert pn rs) = Suc (length rs)"
proof -
  let ?hi = "takeWhile (\<lambda>r. pr_start r > pn) rs" and ?lo = "dropWhile (\<lambda>r. pr_start r > pn) rs"
  have rs: "rs = ?hi @ ?lo" by simp
  have split: "ranges_ok ?hi" "ranges_ok ?lo" "\<forall>x\<in>set ?hi. \<forall>y\<in>set ?lo. range_gap x y"
    using ok ranges_ok_append [of ?hi ?lo] by (simp_all add: rs [symmetric])
  have hi: "unat pn + 1 < unat (pr_start x)" if "x \<in> set ?hi" for x
  proof -
    have x: "pr_start x > pn" "x \<in> set rs" using that by (auto dest: set_takeWhileD)
    have "isolated pn x" "pr_start x \<le> pr_end x" using iso ok x(2) by (auto simp: ranges_ok_def)
    then show ?thesis using x(1) by (auto simp: isolated_def word_le_nat_alt word_less_nat_alt)
  qed
  have lo: "unat (pr_end y) + 1 < unat pn" if y: "y \<in> set ?lo" for y
  proof -
    obtain q zs where q: "?lo = q # zs" using y by (cases ?lo) auto
    have nq: "\<not> pr_start q > pn" using q by (metis dropWhile_eq_Cons_conv)
    have "q \<in> set rs" using q by (metis list.set_intros(1) set_dropWhileD)
    then have "unat (pr_end q) + 1 < unat pn" using iso nq by (auto simp: isolated_def word_less_nat_alt)
    moreover have "y = q \<or> unat (pr_end y) + 1 < unat (pr_start q)" "unat (pr_start q) \<le> unat (pr_end q)"
      using split(2) y unfolding q by (auto simp: ranges_ok_Cons range_gap_def word_le_nat_alt)
    ultimately show ?thesis by auto
  qed
  show "ranges_ok (range_insert pn rs)"
    unfolding range_insert_def ranges_ok_append append_Cons append_Nil ranges_ok_Cons
    using split hi lo pn by (simp add: range_gap_def)
  have "pns rs = pns ?hi \<union> pns ?lo" using pns_append(1) [of ?hi ?lo] by (simp add: rs [symmetric])
  then show "pns (range_insert pn rs) = insert pn (pns rs)"
    by (auto simp: range_insert_def in_range_def)
  show "length (range_insert pn rs) = Suc (length rs)"
    unfolding range_insert_def using length_append [of ?hi ?lo] by simp
qed

lemma on_pkt_recv_spec:
  fixes now :: u64 and el :: bool
  assumes ok: "ranges_ok (recv_ranges ack)" and pn: "unat pn + 1 < 2 ^ 64"
  defines "rs' \<equiv> recv_ranges (nxp_ack_on_pkt_recv ack pn now el)"
  shows "ranges_ok rs' \<and>
    (pns rs' = insert pn (pns (recv_ranges ack)) \<or>
     64 \<le> length (recv_ranges ack) \<and> pns rs' = pns (recv_ranges ack)) \<and>
    length rs' \<le> max 64 (length (recv_ranges ack)) \<and> length rs' \<le> Suc (length (recv_ranges ack))"
proof (cases "\<exists>r\<in>set (recv_ranges ack). in_range pn r")
  case True
  then show ?thesis using ok by (auto simp: rs'_def nxp_ack_on_pkt_recv_def pns_def)
next
  case False
  then have "pn \<notin> pns (recv_ranges ack)" by (simp add: pns_def)
  note ext = range_extend_spec [OF ok pn this, of 0]
  obtain rs b where e: "range_extend pn 0 (recv_ranges ack) = (rs, b)" by fastforce
  have r': "rs' = (if \<not> b \<and> length rs < 64 then range_insert pn rs else rs)"
    using False e by (auto simp: rs'_def nxp_ack_on_pkt_recv_def Let_def)
  show ?thesis
  proof (cases b)
    case True
    then have "ranges_ok rs" "pns rs = insert pn (pns (recv_ranges ack))"
        "length rs \<le> length (recv_ranges ack)"
      using ext e by simp_all
    then show ?thesis using r' True by simp
  next
    case False
    then have "rs = recv_ranges ack" "\<forall>r\<in>set rs. isolated pn r" using ext e by simp_all
    then show ?thesis using r' False ok range_insert_spec [OF _ _ pn, of rs] by (cases "length rs < 64") simp_all
  qed
qed

section \<open>ACK frames\<close>

lemma build_ranges_acked:
  assumes "ranges_ok (r # rs)" "n + length rs \<le> 64"
  shows "acked_in_ranges pn (pr_start r) (build_ranges n (pr_start r) rs) \<longleftrightarrow> pn \<in> pns rs"
  using assms
proof (induction rs arbitrary: r n)
  case (Cons q rs)
  have q: "unat (pr_end q) + 1 < unat (pr_start r)" "pr_start q \<le> pr_end q" "ranges_ok (q # rs)"
    using Cons.prems(1) by (auto simp: range_nat)
  have "unat (pr_end q + 2) = unat (pr_end q) + 2"
    using q(1) unat_add_le [of "pr_end q" 2 "pr_start r"] by simp
  then have ge: "pr_end q + 2 \<le> pr_start r" using q(1) by (simp add: word_le_nat_alt)
  let ?g = "pr_start r - pr_end q - 2"
  have "?g + 2 = pr_start r - pr_end q" "pr_start r - ?g - 2 = pr_end q" by simp_all
  moreover have "pr_start r - pr_end q \<le> pr_start r"
    using q(1) by (intro word_sub_le) (simp add: word_le_nat_alt)
  moreover have "pr_end q - pr_start q \<le> pr_end q" using q(2) by (rule word_sub_le)
  ultimately show ?case
    using Cons.IH [OF q(3), of "Suc n"] Cons.prems(2) q(2) ge
    by (auto simp: Let_def not_less in_range_def)
qed simp

lemma build_frame_acked:
  assumes "ranges_ok (recv_ranges ack)" "length (recv_ranges ack) \<le> 64"
    and "nxp_ack_build_frame ack now = Some f"
  shows "pkt_acked f pn \<longleftrightarrow> pn \<in> pns (recv_ranges ack)"
proof -
  obtain r rs where rs: "recv_ranges ack = r # rs"
    using assms(3) by (auto simp: nxp_ack_build_frame_def split: list.splits)
  have "pr_end r - (pr_end r - pr_start r) = pr_start r" by simp
  then show ?thesis using assms build_ranges_acked [of r rs 0 pn]
    by (auto simp: rs nxp_ack_build_frame_def pkt_acked_def Let_def in_range_def)
qed

definition recv_all :: "nxp_ack_state \<Rightarrow> (u64 \<times> u64 \<times> bool) list \<Rightarrow> nxp_ack_state" where
  "recv_all ack pkts = foldl (\<lambda>ack (pn, now, el). nxp_ack_on_pkt_recv ack pn now el) ack pkts"

lemma recv_all_snoc:
  "recv_all ack (pkts @ [(pn, now, el)]) = nxp_ack_on_pkt_recv (recv_all ack pkts) pn now el"
  by (simp add: recv_all_def)

lemma recv_all_spec:
  fixes a :: bool
  assumes "\<forall>(pn, now, el)\<in>set pkts. unat pn + 1 < 2 ^ 64"
  defines "rs \<equiv> \<lambda>pkts. recv_ranges (recv_all (nxp_ack_init a) pkts)"
  shows "ranges_ok (rs pkts) \<and> pns (rs pkts) \<subseteq> fst ` set pkts \<and> length (rs pkts) \<le> 64 \<and>
    ((\<forall>n<length pkts. length (rs (take n pkts)) < 64) \<longrightarrow> pns (rs pkts) = fst ` set pkts)"
  using assms(1)
proof (induction pkts rule: rev_induct)
  case Nil
  then show ?case by (simp add: rs_def recv_all_def nxp_ack_init_def ranges_ok_def)
next
  case (snoc x pkts)
  obtain pn now el where x: "x = (pn, now, el)" by (cases x) auto
  have IH: "ranges_ok (rs pkts)" "pns (rs pkts) \<subseteq> fst ` set pkts" "length (rs pkts) \<le> 64"
    "(\<forall>n<length pkts. length (rs (take n pkts)) < 64) \<Longrightarrow> pns (rs pkts) = fst ` set pkts"
    using snoc by simp_all
  have pn: "unat pn + 1 < 2 ^ 64" using snoc.prems by (simp add: x)
  have r: "rs (pkts @ [x]) = recv_ranges (nxp_ack_on_pkt_recv (recv_all (nxp_ack_init a) pkts) pn now el)"
    by (simp add: rs_def x recv_all_snoc)
  have r0: "recv_ranges (recv_all (nxp_ack_init a) pkts) = rs pkts" by (simp add: rs_def)
  note step = on_pkt_recv_spec [OF IH(1) [unfolded rs_def] pn, of now el, folded r, unfolded r0]
  have "pns (rs (pkts @ [x])) \<subseteq> fst ` set (pkts @ [x])" using step IH(2) by (auto simp: x)
  moreover have "pns (rs (pkts @ [x])) = fst ` set (pkts @ [x])"
    if "\<forall>n<length (pkts @ [x]). length (rs (take n (pkts @ [x]))) < 64"
  proof -
    have "length (rs (take n pkts)) < 64" if "n \<le> length pkts" for n
      using \<open>\<forall>n<length (pkts @ [x]). length (rs (take n (pkts @ [x]))) < 64\<close> [rule_format, of n] that
      by simp
    from this [of "length pkts"] this show ?thesis using step IH(4) by (auto simp: x)
  qed
  ultimately show ?case using step IH(3) by auto
qed

section \<open>Accounting\<close>

text \<open>Bytes of the packets in flight.\<close>

definition flight :: "nxp_sent_pkt list \<Rightarrow> nat" where
  "flight ps = (\<Sum>p\<leftarrow>ps. if sp_in_flight p then unat (sp_sent_bytes p) else 0)"

lemma flight_simps [simp]:
  "flight [] = 0" "flight (p # ps) = (if sp_in_flight p then unat (sp_sent_bytes p) else 0) + flight ps"
  "flight (ps @ qs) = flight ps + flight qs"
  by (simp_all add: flight_def)

lemma remove_in_flight_eq:
  assumes "unat (bytes_in_flight ack) = k + (if sp_in_flight p then unat (sp_sent_bytes p) else 0)"
  shows "unat (bytes_in_flight (remove_in_flight p ack)) = k"
  using assms by (auto simp: remove_in_flight_def word_le_nat_alt unat_sub)

lemma remove_in_flight_parts [simp]:
  "sent (remove_in_flight p ack) = sent ack" "loss_time (remove_in_flight p ack) = loss_time ack"
  "sent_cap (remove_in_flight p ack) = sent_cap ack" "sent_null (remove_in_flight p ack) = sent_null ack"
  "remove_in_flight (p\<lparr>sp_declared_lost := b\<rparr>) ack = remove_in_flight p ack"
  by (auto simp: remove_in_flight_def)

lemma ack_loop_spec:
  assumes "ack_loop f now (Some (\<lambda>a p c. g c p)) ps rtt ack c = (kept, rtt', ack', c')"
    and "unat (bytes_in_flight ack) = k + flight ps"
  shows "kept = filter (\<lambda>p. \<not> pkt_acked f (sp_pkt_num p)) ps \<and>
    c' = foldl g c (filter (\<lambda>p. pkt_acked f (sp_pkt_num p)) ps) \<and>
    unat (bytes_in_flight ack') = k + flight kept \<and> sent ack' = sent ack \<and>
    sent_cap ack' = sent_cap ack \<and> sent_null ack' = sent_null ack"
  using assms
proof (induction ps arbitrary: rtt ack c kept k)
  case (Cons p ps)
  show ?case
  proof (cases "pkt_acked f (sp_pkt_num p)")
    case True
    let ?a = "remove_in_flight p ack"
    have "unat (bytes_in_flight ?a) = k + flight ps"
      using Cons.prems(2) by (intro remove_in_flight_eq) simp
    from Cons.IH [OF _ this] show ?thesis using Cons.prems(1) True by (auto simp: Let_def)
  next
    case False
    obtain kept0 where k0: "ack_loop f now (Some (\<lambda>a p c. g c p)) ps rtt ack c = (kept0, rtt', ack', c')"
        "kept = p # kept0"
      using Cons.prems(1) False by (auto simp: Let_def split: prod.splits)
    have "unat (bytes_in_flight ack) =
        (k + (if sp_in_flight p then unat (sp_sent_bytes p) else 0)) + flight ps"
      using Cons.prems(2) by simp
    from Cons.IH [OF k0(1) this] show ?thesis using False k0(2) by simp
  qed
qed auto

definition loses :: "u64 \<Rightarrow> u64 \<Rightarrow> u64 \<Rightarrow> nxp_sent_pkt \<Rightarrow> bool" where
  "loses delay now la p \<longleftrightarrow> sp_pkt_num p \<le> la \<and> is_lost delay now la p"

lemma detect_loop_spec:
  assumes "detect_loop delay now la (Some (\<lambda>a p c. g c p)) ps ack c = (kept, ack', c')"
    and "unat (bytes_in_flight ack) = k + flight ps" "\<forall>p\<in>set ps. \<not> sp_declared_lost p"
  shows "kept = filter (\<lambda>p. \<not> loses delay now la p) ps \<and>
    c' = foldl g c (map (\<lambda>p. p\<lparr>sp_declared_lost := True\<rparr>) (filter (loses delay now la) ps)) \<and>
    unat (bytes_in_flight ack') = k + flight kept \<and> sent ack' = sent ack \<and>
    sent_cap ack' = sent_cap ack \<and> sent_null ack' = sent_null ack"
  using assms
proof (induction ps arbitrary: ack c kept k)
  case (Cons p ps)
  have nl: "\<not> sp_declared_lost p" "\<forall>p\<in>set ps. \<not> sp_declared_lost p" using Cons.prems(3) by simp_all
  show ?case
  proof (cases "loses delay now la p")
    case True
    let ?a = "remove_in_flight p ack"
    have b: "unat (bytes_in_flight ?a) = k + flight ps"
      using Cons.prems(2) by (intro remove_in_flight_eq) simp
    have e: "detect_loop delay now la (Some (\<lambda>a p c. g c p)) ps ?a (g c (p\<lparr>sp_declared_lost := True\<rparr>)) =
        (kept, ack', c')"
      using Cons.prems(1) True nl(1) by (simp add: Let_def loses_def leD)
    show ?thesis using Cons.IH [OF e b nl(2)] True by simp
  next
    case False
    obtain a0 kept0 where k0: "detect_loop delay now la (Some (\<lambda>a p c. g c p)) ps a0 c = (kept0, ack', c')"
        "kept = p # kept0" "bytes_in_flight a0 = bytes_in_flight ack" "sent a0 = sent ack"
        "sent_cap a0 = sent_cap ack" "sent_null a0 = sent_null ack"
      using Cons.prems(1) False nl(1)
      by (cases "sp_pkt_num p > la") (auto simp: Let_def loses_def split: prod.splits)
    have "unat (bytes_in_flight a0) =
        (k + (if sp_in_flight p then unat (sp_sent_bytes p) else 0)) + flight ps"
      using Cons.prems(2) k0(3) by simp
    from Cons.IH [OF k0(1) this nl(2)] show ?thesis using False k0(2,4,5,6) by simp
  qed
qed auto

section \<open>Runs of the tracker\<close>

datatype ack_event =
    Pkt_sent bool nxp_sent_pkt
  | Pkt_recv u64 u64 bool
  | Ack_frame nxp_frame_ack u64
  | Loss_timer u64

text \<open>The context records the packets reported to the two callbacks.\<close>

fun ack_step :: "nxp_ack_state \<times> nxp_sent_pkt list \<times> nxp_sent_pkt list \<Rightarrow> ack_event \<Rightarrow>
    (nxp_ack_state \<times> nxp_sent_pkt list \<times> nxp_sent_pkt list) option" where
  "ack_step (a, acked, lost) (Pkt_sent ok p) =
     map_option (\<lambda>a. (a, acked, lost)) (nxp_ack_on_pkt_sent ok a p)"
| "ack_step (a, acked, lost) (Pkt_recv pn now el) = Some (nxp_ack_on_pkt_recv a pn now el, acked, lost)"
| "ack_step (a, acked, lost) (Ack_frame f now) =
     Some (nxp_ack_on_ack_recv a f now (Some (\<lambda>_ p (x, y). (x @ [p], y)))
       (Some (\<lambda>_ p (x, y). (x, y @ [p]))) (acked, lost))"
| "ack_step (a, acked, lost) (Loss_timer now) =
     Some (nxp_ack_on_loss_timeout a now (Some (\<lambda>_ p (x, y). (x, y @ [p]))) (acked, lost))"

fun ack_run :: "nxp_ack_state \<times> nxp_sent_pkt list \<times> nxp_sent_pkt list \<Rightarrow> ack_event list \<Rightarrow>
    (nxp_ack_state \<times> nxp_sent_pkt list \<times> nxp_sent_pkt list) option" where
  "ack_run s [] = Some s"
| "ack_run s (e # es) = Option.bind (ack_step s e) (\<lambda>s. ack_run s es)"

fun event_pkts :: "ack_event list \<Rightarrow> nxp_sent_pkt list" where
  "event_pkts [] = []"
| "event_pkts (Pkt_sent ok p # es) = p # event_pkts es"
| "event_pkts (e # es) = event_pkts es"

definition pnums :: "nxp_sent_pkt list \<Rightarrow> u64 multiset" where
  "pnums ps = image_mset sp_pkt_num (mset ps)"

text \<open>\<open>n\<close> events so far, \<open>all\<close> the packet numbers sent in them.\<close>

definition ack_inv :: "nat \<Rightarrow> u64 multiset \<Rightarrow> nxp_ack_state \<times> nxp_sent_pkt list \<times> nxp_sent_pkt list \<Rightarrow> bool" where
  "ack_inv n all s \<longleftrightarrow> (case s of (a, acked, lost) \<Rightarrow>
     unat (bytes_in_flight a) = flight (sent a) \<and> (\<forall>p\<in>set (sent a). \<not> sp_declared_lost p) \<and>
     0 < unat (sent_cap a) \<and> length (sent a) \<le> unat (sent_cap a) \<and> \<not> sent_null a \<and>
     length (sent a) \<le> n \<and> pnums acked + pnums lost + pnums (sent a) \<subseteq># all)"

lemma foldl_log1: "foldl (\<lambda>(x, y) p. (x @ [p], y)) (x, y) ps = (x @ ps, y)"
  by (induction ps arbitrary: x) auto

lemma foldl_log2: "foldl (\<lambda>(x, y) p. (x, y @ [p])) (x, y) ps = (x, y @ ps)"
  by (induction ps arbitrary: y) auto

lemma pnums_simps [simp]:
  "pnums [] = {#}" "pnums (p # ps) = add_mset (sp_pkt_num p) (pnums ps)" "pnums (ps @ qs) = pnums ps + pnums qs"
  "pnums (map (\<lambda>p. p\<lparr>sp_declared_lost := b\<rparr>) ps) = pnums ps"
  by (simp_all add: pnums_def image_mset.compositionality o_def)

lemma pnums_filter: "pnums (filter P ps) + pnums (filter (\<lambda>p. \<not> P p) ps) = pnums ps"
  by (induction ps) auto

lemma update_rtt_parts [simp]:
  "bytes_in_flight (update_rtt a x d) = bytes_in_flight a" "sent (update_rtt a x d) = sent a"
  "sent_cap (update_rtt a x d) = sent_cap a" "sent_null (update_rtt a x d) = sent_null a"
  by (simp_all add: update_rtt_def Let_def)

lemma ack_inv_shrink:
  assumes "ack_inv n all (a, acked, lost)"
    and "unat (bytes_in_flight a') = flight (sent a')" "set (sent a') \<subseteq> set (sent a)"
      "length (sent a') \<le> length (sent a)" "sent_cap a' = sent_cap a" "sent_null a' = sent_null a"
    and "pnums acked' + pnums lost' + pnums (sent a') = pnums acked + pnums lost + pnums (sent a)"
  shows "ack_inv n all (a', acked', lost')"
  using assms by (auto simp: ack_inv_def)

lemma detect_inv:
  assumes "ack_inv n all (a, acked, lost)"
  shows "ack_inv n all (detect_lost_packets a now la (Some (\<lambda>_ p (x, y). (x, y @ [p]))) (acked, lost))"
proof -
  let ?a = "a\<lparr>loss_time := UINT64_MAX\<rparr>"
  let ?g = "\<lambda>(x, y) p. (x, y @ [p])"
  have cb: "(\<lambda>_ p (x, y). (x, y @ [p])) = (\<lambda>a p c. ?g c p)" by (auto simp: fun_eq_iff)
  obtain kept a' c' where d: "detect_loop (loss_delay ?a) now la (Some (\<lambda>a p c. ?g c p)) (sent ?a) ?a (acked, lost) =
      (kept, a', c')" by (cases "detect_loop (loss_delay ?a) now la (Some (\<lambda>a p c. ?g c p)) (sent ?a) ?a (acked, lost)")
  let ?L = "loses (loss_delay ?a) now la"
  have "unat (bytes_in_flight ?a) = 0 + flight (sent ?a)" "\<forall>p\<in>set (sent ?a). \<not> sp_declared_lost p"
    using assms by (simp_all add: ack_inv_def)
  note D = detect_loop_spec [OF d this, unfolded foldl_log2]
  have "pnums (map (\<lambda>p. p\<lparr>sp_declared_lost := True\<rparr>) (filter ?L (sent a))) + pnums kept = pnums (sent a)"
    using pnums_filter [of ?L "sent a"] D by simp
  then have "pnums acked + pnums (lost @ map (\<lambda>p. p\<lparr>sp_declared_lost := True\<rparr>) (filter ?L (sent a))) +
      pnums kept = pnums acked + pnums lost + pnums (sent a)"
    by (simp add: add.assoc)
  then have "ack_inv n all (a'\<lparr>sent := kept\<rparr>, acked,
      lost @ map (\<lambda>p. p\<lparr>sp_declared_lost := True\<rparr>) (filter ?L (sent a)))"
    using D by (intro ack_inv_shrink [OF assms]) auto
  then show ?thesis using D unfolding detect_lost_packets_def Let_def cb d by simp
qed

lemma ack_recv_inv:
  assumes "ack_inv n all (a, acked, lost)"
  shows "ack_inv n all (nxp_ack_on_ack_recv a f now (Some (\<lambda>_ p (x, y). (x @ [p], y)))
       (Some (\<lambda>_ p (x, y). (x, y @ [p]))) (acked, lost))"
proof -
  let ?g = "\<lambda>(x, y) p. (x @ [p], y)" and ?A = "\<lambda>p. pkt_acked f (sp_pkt_num p)"
  have cb: "(\<lambda>_ p (x, y). (x @ [p], y)) = (\<lambda>a p c. ?g c p)" by (auto simp: fun_eq_iff)
  obtain kept rtt a' c' where d: "ack_loop f now (Some (\<lambda>a p c. ?g c p)) (sent a) None a (acked, lost) =
      (kept, rtt, a', c')"
    by (cases "ack_loop f now (Some (\<lambda>a p c. ?g c p)) (sent a) None a (acked, lost)")
  have "unat (bytes_in_flight a) = 0 + flight (sent a)" using assms by (simp add: ack_inv_def)
  note D = ack_loop_spec [OF d this, unfolded foldl_log1]
  have "pnums (filter ?A (sent a)) + pnums kept = pnums (sent a)"
    using pnums_filter [of ?A "sent a"] D by simp
  then have sum: "pnums (acked @ filter ?A (sent a)) + pnums lost + pnums kept =
      pnums acked + pnums lost + pnums (sent a)"
    by (simp add: ac_simps)
  define a2 where "a2 = (case rtt of Some sample \<Rightarrow> update_rtt (a'\<lparr>sent := kept\<rparr>) sample (ack_delay f)
      | None \<Rightarrow> a'\<lparr>sent := kept\<rparr>)\<lparr>pto_count := 0\<rparr>"
  have parts: "sent a2 = kept" "sent_cap a2 = sent_cap a'" "sent_null a2 = sent_null a'"
    "bytes_in_flight a2 = bytes_in_flight a'"
    by (simp_all add: a2_def split: option.split)
  have "ack_inv n all (a2, acked @ filter ?A (sent a), lost)"
    using D sum parts by (intro ack_inv_shrink [OF assms]) auto
  note inv = detect_inv [OF this, of now "largest_acked f"]
  have c': "c' = (acked @ filter ?A (sent a), lost)" using D by simp
  show ?thesis unfolding nxp_ack_on_ack_recv_def Let_def cb d using inv by (simp add: a2_def c')
qed

lemma timeout_inv:
  assumes "ack_inv n all (a, acked, lost)"
  shows "ack_inv n all (nxp_ack_on_loss_timeout a now (Some (\<lambda>_ p (x, y). (x, y @ [p]))) (acked, lost))"
  using detect_inv [OF assms] assms by (auto simp: nxp_ack_on_loss_timeout_def Let_def ack_inv_def)

lemma pkt_recv_parts [simp]:
  "sent (nxp_ack_on_pkt_recv a pn now el) = sent a" "sent_cap (nxp_ack_on_pkt_recv a pn now el) = sent_cap a"
  "sent_null (nxp_ack_on_pkt_recv a pn now el) = sent_null a"
  "bytes_in_flight (nxp_ack_on_pkt_recv a pn now el) = bytes_in_flight a"
  by (auto simp: nxp_ack_on_pkt_recv_def Let_def split: prod.splits)

lemma flight_bound: "flight ps \<le> length ps * 2 ^ 32"
proof (induction ps)
  case (Cons p ps)
  have "unat (sp_sent_bytes p) \<le> 2 ^ 32" by (rule less_imp_le) (use unat_less_2p32 in simp)
  then show ?case using Cons by auto
qed simp

lemma subseteq_add_mset: "A \<subseteq># B \<Longrightarrow> A \<subseteq># add_mset x B"
  by (metis add_mset_add_single mset_subset_eq_add_left subset_mset.order_trans)

lemma pkt_sent_inv:
  assumes "ack_inv n all (a, acked, lost)" "n < 2 ^ 31" "\<not> sp_declared_lost p"
  shows "\<exists>a'. nxp_ack_on_pkt_sent ok a p = Some a' \<and>
    ack_inv (Suc n) (add_mset (sp_pkt_num p) all) (a', acked, lost)"
proof -
  have I: "unat (bytes_in_flight a) = flight (sent a)" "0 < unat (sent_cap a)"
    "length (sent a) \<le> unat (sent_cap a)" "\<not> sent_null a" "length (sent a) \<le> n"
    "pnums acked + pnums lost + pnums (sent a) \<subseteq># all" "\<forall>p\<in>set (sent a). \<not> sp_declared_lost p"
    using assms(1) by (simp_all add: ack_inv_def)
  have all': "pnums acked + pnums lost + pnums (sent a) \<subseteq># add_mset (sp_pkt_num p) all"
    "pnums acked + pnums lost + pnums (sent a @ [p]) \<subseteq># add_mset (sp_pkt_num p) all"
    using I(6) by (simp_all add: subseteq_add_mset add.assoc)
  show ?thesis
  proof (cases "length (sent a) \<ge> unat (sent_cap a) \<and> \<not> ok")
    case True
    then show ?thesis using I all' by (auto simp: nxp_ack_on_pkt_sent_def ack_inv_def)
  next
    case False
    define cap where "cap = (if length (sent a) \<ge> unat (sent_cap a) then sent_cap a * 2 else sent_cap a)"
    have "unat (sent_cap a * 2) = unat (sent_cap a) * 2" if "length (sent a) \<ge> unat (sent_cap a)"
      using that I(5) assms(2) by (simp add: unat_word_ariths)
    then have cap: "length (sent a) < unat cap" using I(2,3) by (auto simp: cap_def)
    have "flight (sent a @ [p]) \<le> (n + 1) * 2 ^ 32"
      using flight_bound [of "sent a @ [p]"] I(5) by (simp del: flight_simps)
    then have fl: "flight (sent a @ [p]) < 2 ^ 64" using assms(2) by (simp del: flight_simps)
    have bytes: "sp_in_flight p \<Longrightarrow> unat (bytes_in_flight a + ucast (sp_sent_bytes p)) =
        flight (sent a) + unat (sp_sent_bytes p)"
      using I(1) fl by (subst unat_add_nowrap) simp_all
    define a' where "a' = a\<lparr>sent_cap := cap, sent := sent a @ [p],
        bytes_in_flight := (if sp_in_flight p then bytes_in_flight a + ucast (sp_sent_bytes p) else bytes_in_flight a),
        time_of_last_ack_eliciting := (if sp_ack_eliciting p then sp_sent_time p else time_of_last_ack_eliciting a)\<rparr>"
    have "nxp_ack_on_pkt_sent ok a p = Some a'"
      using False I(4) cap by (auto simp: nxp_ack_on_pkt_sent_def Let_def a'_def cap_def)
    moreover have "ack_inv (Suc n) (add_mset (sp_pkt_num p) all) (a', acked, lost)"
      using I all'(2) cap bytes assms(3) by (auto simp: ack_inv_def a'_def)
    ultimately show ?thesis by blast
  qed
qed

lemma ack_inv_mono: "ack_inv n all s \<Longrightarrow> ack_inv (Suc n) all s"
  by (auto simp: ack_inv_def)

lemma ack_run_inv:
  assumes "ack_inv n all s" "n + length es < 2 ^ 31" "\<forall>p\<in>set (event_pkts es). \<not> sp_declared_lost p"
  shows "\<exists>s'. ack_run s es = Some s' \<and> ack_inv (n + length es) (all + pnums (event_pkts es)) s'"
  using assms
proof (induction es arbitrary: n all s)
  case (Cons e es)
  obtain a acked lost where s: "s = (a, acked, lost)" by (cases s) auto
  show ?case
  proof (cases e)
    case (Pkt_sent ok p)
    then obtain a' where "nxp_ack_on_pkt_sent ok a p = Some a'"
      "ack_inv (Suc n) (add_mset (sp_pkt_num p) all) (a', acked, lost)"
      using pkt_sent_inv [of n all a acked lost p ok] Cons.prems s by auto
    then show ?thesis using Cons.IH [of "Suc n" "add_mset (sp_pkt_num p) all" "(a', acked, lost)"] Cons.prems Pkt_sent s
      by auto
  next
    case (Pkt_recv pn now el)
    have "ack_inv (Suc n) all (nxp_ack_on_pkt_recv a pn now el, acked, lost)"
      using Cons.prems(1) s by (auto simp: ack_inv_def)
    from Cons.IH [OF this] show ?thesis using Cons.prems Pkt_recv s by auto
  next
    case (Ack_frame f now)
    then show ?thesis using Cons.IH [OF ack_inv_mono [OF ack_recv_inv]] Cons.prems s by fastforce
  next
    case (Loss_timer now)
    then show ?thesis using Cons.IH [OF ack_inv_mono [OF timeout_inv]] Cons.prems s by fastforce
  qed
qed auto

section \<open>RTT estimation\<close>

definition rtt_run :: "nxp_ack_state \<Rightarrow> (u64 \<times> u64) list \<Rightarrow> nxp_ack_state" where
  "rtt_run ack samples = foldl (\<lambda>a (r, d). update_rtt a r d) ack samples"

definition rtt_inv :: "nat \<Rightarrow> nat \<Rightarrow> nxp_ack_state \<Rightarrow> bool" where
  "rtt_inv lo hi a \<longleftrightarrow> has_rtt a \<and> lo \<le> unat (smoothed_rtt a) \<and> unat (smoothed_rtt a) \<le> hi \<and>
     unat (rtt_var a) \<le> hi \<and> lo \<le> unat (min_rtt a)"

lemma update_rtt_first:
  assumes "\<not> has_rtt a" "lo \<le> unat r" "unat r \<le> hi" "lo \<le> unat (min_rtt a)"
  shows "rtt_inv lo hi (update_rtt a r d)"
  using assms by (auto simp: update_rtt_def Let_def rtt_inv_def unat_div min_def)

lemma update_rtt_next:
  assumes inv: "rtt_inv lo hi a" and r: "lo \<le> unat r" "unat r \<le> hi" and hi: "hi < 2 ^ 60"
  shows "rtt_inv lo hi (update_rtt a r d)"
proof -
  let ?m = "min (min_rtt a) r" and ?d = "if d > 25000 then 25000 else d"
  define adj where "adj = (if r > ?d \<and> r - ?d \<ge> ?m then r - ?d else r)"
  define diff where "diff = (if smoothed_rtt a > adj then smoothed_rtt a - adj else adj - smoothed_rtt a)"
  have u: "update_rtt a r d = a\<lparr>latest_rtt := r, min_rtt := ?m,
      rtt_var := (3 * rtt_var a + diff) div 4, smoothed_rtt := (7 * smoothed_rtt a + adj) div 8\<rparr>"
    using inv by (simp add: update_rtt_def Let_def adj_def diff_def rtt_inv_def)
  have m: "lo \<le> unat ?m" using inv r by (simp add: rtt_inv_def min_def)
  have adj: "lo \<le> unat adj" "unat adj \<le> hi"
  proof -
    have "r - ?d \<le> r" if "r > ?d" using that by (intro word_sub_le) simp
    then have "unat adj \<le> unat r" by (auto simp: adj_def word_le_nat_alt)
    then show "unat adj \<le> hi" using r by simp
    show "lo \<le> unat adj" using m r by (auto simp: adj_def word_le_nat_alt)
  qed
  have "unat diff = (if unat (smoothed_rtt a) > unat adj then unat (smoothed_rtt a) - unat adj
      else unat adj - unat (smoothed_rtt a))"
    by (auto simp: diff_def word_less_nat_alt unat_sub word_le_nat_alt)
  then have diff: "unat diff \<le> hi" using inv adj by (auto simp: rtt_inv_def)
  have b: "unat (smoothed_rtt a) \<le> hi" "unat (rtt_var a) \<le> hi" "lo \<le> unat (smoothed_rtt a)"
    using inv by (simp_all add: rtt_inv_def)
  have s7: "unat (7 * smoothed_rtt a) = 7 * unat (smoothed_rtt a)"
    and v3: "unat (3 * rtt_var a) = 3 * unat (rtt_var a)"
    using b hi by (simp_all add: unat_word_ariths)
  have "unat ((7 * smoothed_rtt a + adj) div 8) = (7 * unat (smoothed_rtt a) + unat adj) div 8"
    "unat ((3 * rtt_var a + diff) div 4) = (3 * unat (rtt_var a) + unat diff) div 4"
    using b adj diff hi s7 v3 by (simp_all add: unat_div unat_add_nowrap)
  moreover have "lo \<le> (7 * x + y) div 8" if "lo \<le> x" "lo \<le> y" for x y :: nat using that by linarith
  moreover have "(7 * x + y) div 8 \<le> hi" "(3 * x + y) div 4 \<le> hi" if "x \<le> hi" "y \<le> hi" for x y :: nat
    using that by linarith+
  ultimately show ?thesis using inv b adj diff m by (simp add: u rtt_inv_def)
qed

lemma rtt_run_inv:
  assumes "samples \<noteq> []" "\<forall>(r, d)\<in>set samples. lo \<le> unat r \<and> unat r \<le> hi" "hi < 2 ^ 60"
  shows "rtt_inv lo hi (rtt_run (nxp_ack_init al) samples)"
  using assms(1,2)
proof (induction samples rule: rev_induct)
  case (snoc x xs)
  obtain r d where x: "x = (r, d)" by fastforce
  have r: "lo \<le> unat r" "unat r \<le> hi" using snoc.prems x by auto
  have run: "rtt_run (nxp_ack_init al) (xs @ [x]) = update_rtt (rtt_run (nxp_ack_init al) xs) r d"
    by (simp add: rtt_run_def x)
  show ?case
  proof (cases "xs = []")
    case True
    have "lo \<le> unat (min_rtt (nxp_ack_init al))"
      using r assms(3) by (simp add: nxp_ack_init_def)
    then show ?thesis unfolding run using True r
      by (intro update_rtt_first) (simp_all add: rtt_run_def, simp add: nxp_ack_init_def)
  next
    case False
    then show ?thesis unfolding run using snoc r assms(3) by (intro update_rtt_next) auto
  qed
qed simp

section \<open>Outside the specification\<close>

text \<open>The loss timer compares against the largest packet number \<open>sent\<close>, not the largest
  acknowledged one: here packet 10 was sent at the very moment the timer fires and nothing newer was
  acknowledged, yet it is declared lost because three newer packets are in flight.\<close>

definition fresh_pkt :: "u64 \<Rightarrow> u64 \<Rightarrow> nxp_sent_pkt" where
  "fresh_pkt pn t = \<lparr>sp_pkt_num = pn, sp_sent_time = t, sp_sent_bytes = 1200, sp_ack_eliciting = True,
     sp_in_flight = True, sp_declared_lost = False, sp_frames = [],
     sp_dr_state = \<lparr>dp_delivered = 0, dp_delivered_time = 0, dp_first_sent_time = 0,
       dp_is_app_limited = False, dp_app_limited_at = 0\<rparr>\<rparr>"

lemma loss_timer_spurious:
  "map sp_pkt_num (snd (nxp_ack_on_loss_timeout
     ((nxp_ack_init True)\<lparr>sent := map (\<lambda>n. fresh_pkt n 1000000) [10, 11, 12, 13],
        bytes_in_flight := 4800, loss_time := 1000000\<rparr>)
     1000000 (Some (\<lambda>_ p c. c @ [p])) [])) = [10]"
  by code_simp

section \<open>Properties\<close>

text \<open>C8. ACK frames are truthful and complete: after any sequence of received packets, the frame
  the receiver builds, once encoded, is decoded by the peer to a frame that acknowledges only packet
  numbers that were received; and as long as fewer than 64 separate ranges were open when each packet
  arrived, it acknowledges all of them.\<close>

theorem nxp_ack_frame_exact:
  assumes "\<forall>(pn, now, el)\<in>set pkts. unat pn < 2 ^ 62"
    and "nxp_ack_build_frame (recv_all (nxp_ack_init alloc) pkts) t = Some f"
    and "nxp_frame_encode_ack f buf = Some bs"
  shows "\<exists>g. nxp_frame_decode (bs @ rest) = Some (length bs, Ack g) \<and>
    (pkt_acked g pn \<longrightarrow> pn \<in> fst ` set pkts) \<and>
    ((\<forall>n<length pkts. length (recv_ranges (recv_all (nxp_ack_init alloc) (take n pkts))) < 64) \<longrightarrow>
      (pkt_acked g pn \<longleftrightarrow> pn \<in> fst ` set pkts))"
proof -
  have "\<forall>(pn, now, el)\<in>set pkts. unat pn + 1 < 2 ^ 64" using assms(1) by fastforce
  note R = recv_all_spec [OF this, of alloc]
  have len: "length (build_ranges n s rs) \<le> length rs" for n s rs
    by (induction rs arbitrary: n s) auto
  obtain r rs where rs: "recv_ranges (recv_all (nxp_ack_init alloc) pkts) = r # rs"
    using assms(2) by (auto simp: nxp_ack_build_frame_def split: list.splits)
  then have "length rs < 64" using R by auto
  then have "frame_ok (Ack f)"
    using assms(2) le_trans [OF len [of 0 "pr_start r" rs], of 64] by (auto simp: nxp_ack_build_frame_def rs)
  then have "nxp_frame_decode (bs @ rest) = Some (length bs, Ack f)" by (rule rt_ack [OF assms(3)])
  moreover have "pkt_acked f pn \<longleftrightarrow> pn \<in> pns (recv_ranges (recv_all (nxp_ack_init alloc) pkts))"
    using R by (intro build_frame_acked [OF _ _ assms(2)]) simp_all
  ultimately show ?thesis using R by (intro exI [of _ f]) auto
qed

theorem nxp_ack_frame_exact_witness:
  "\<exists>g. nxp_frame_decode ([2, 4, 10, 1, 0, 0, 1] @ []) = Some (7, Ack g) \<and>
     (pkt_acked g 3 \<longrightarrow>
      3 \<in> fst ` set [(4 :: u64, 10 :: u64, True), (1, 11, True), (2, 13, True)])"
proof -
  let ?pkts = "[(4, 10, True), (1, 11, True), (2, 13, True)] :: (u64 \<times> u64 \<times> bool) list"
  let ?f = "\<lparr>largest_acked = 4, ack_delay = 10, first_ack_range = 0, ranges = [\<lparr>gap = 0, ack_range = 1\<rparr>],
    has_ecn = False, ect0_count = 0, ect1_count = 0, ecn_ce_count = 0\<rparr>"
  have f: "nxp_ack_build_frame (recv_all (nxp_ack_init True) ?pkts) 20 = Some ?f" by code_simp
  have bs: "nxp_frame_encode_ack ?f (replicate 20 0) = Some [2, 4, 10, 1, 0, 0, 1]" by code_simp
  have small: "\<forall>(pn, now, el)\<in>set ?pkts. unat pn < 2 ^ 62" by simp
  from nxp_ack_frame_exact [OF small f bs, of "[]" 3]
  obtain g where g: "nxp_frame_decode ([2, 4, 10, 1, 0, 0, 1] @ []) =
      Some (length [2, 4, 10, 1, 0, 0, 1 :: u8], Ack g)" "pkt_acked g 3 \<longrightarrow> 3 \<in> fst ` set ?pkts"
    by (elim exE conjE)
  have "length [2, 4, 10, 1, 0, 0, 1 :: u8] = 7" by simp
  with g show ?thesis by (intro exI [of _ g]) (simp only: simp_thms)
qed

text \<open>C9. Sent packets are accounted for exactly: over every sequence of sends (with or without memory
  to grow the array), received packets, ACK frames of any content and loss timers, no array access is
  out of bounds, the bytes in flight are the sum over the tracked packets, and every packet sent is
  reported at most once, as acknowledged or as lost, never both, and is no longer tracked then.\<close>

theorem nxp_ack_accounting:
  assumes "length es < 2 ^ 31" "\<forall>p\<in>set (event_pkts es). \<not> sp_declared_lost p"
  shows "\<exists>a acked lost. ack_run (nxp_ack_init True, [], []) es = Some (a, acked, lost) \<and>
    unat (bytes_in_flight a) = flight (sent a) \<and>
    pnums acked + pnums lost + pnums (sent a) \<subseteq># pnums (event_pkts es)"
proof -
  have "ack_inv 0 {#} (nxp_ack_init True, [], [])" by (simp add: ack_inv_def nxp_ack_init_def)
  then obtain s where s: "ack_run (nxp_ack_init True, [], []) es = Some s"
      "ack_inv (0 + length es) ({#} + pnums (event_pkts es)) s"
    using ack_run_inv [of 0 "{#}" _ es] assms by (metis add_0)
  obtain a acked lost where "s = (a, acked, lost)" by (cases s)
  then show ?thesis using s by (auto simp: ack_inv_def)
qed

theorem nxp_ack_accounting_witness:
  "\<exists>a acked lost. ack_run (nxp_ack_init True, [], [])
      [Pkt_sent True (fresh_pkt 1 5), Pkt_sent True (fresh_pkt 2 6), Loss_timer 9] = Some (a, acked, lost) \<and>
    unat (bytes_in_flight a) = flight (sent a)"
proof -
  let ?es = "[Pkt_sent True (fresh_pkt 1 5), Pkt_sent True (fresh_pkt 2 6), Loss_timer 9]"
  have "length ?es < 2 ^ 31" "\<forall>p\<in>set (event_pkts ?es). \<not> sp_declared_lost p"
    by (simp_all add: fresh_pkt_def)
  from nxp_ack_accounting [OF this] show ?thesis by blast
qed

text \<open>The RTT estimator stays within its samples: after any number of samples between \<open>lo\<close> and
  \<open>hi\<close> microseconds (with any reported ACK delays) the smoothed RTT is between them, the variation is
  at most \<open>hi\<close>, and the probe timeout lies between \<open>lo + 26\<close> ms and \<open>5 * hi + 26\<close> ms; no 64-bit
  operation wraps.\<close>

theorem nxp_ack_rtt_bounds:
  assumes "samples \<noteq> []" "\<forall>(r, d)\<in>set samples. lo \<le> unat r \<and> unat r \<le> hi" "hi < 2 ^ 60"
  defines "a \<equiv> rtt_run (nxp_ack_init True) samples"
  shows "lo \<le> unat (smoothed_rtt a) \<and> unat (smoothed_rtt a) \<le> hi \<and> unat (rtt_var a) \<le> hi \<and>
    lo + 26000 \<le> unat (compute_pto a) \<and> unat (compute_pto a) \<le> 5 * hi + 26000"
proof -
  have i: "rtt_inv lo hi a" unfolding a_def by (rule rtt_run_inv [OF assms(1-3)])
  then have b: "has_rtt a" "lo \<le> unat (smoothed_rtt a)" "unat (smoothed_rtt a) \<le> hi" "unat (rtt_var a) \<le> hi"
    by (simp_all add: rtt_inv_def)
  have "unat (4 * rtt_var a) = 4 * unat (rtt_var a)" using b assms(3) by (simp add: unat_word_ariths)
  then have "unat (max (4 * rtt_var a) 1000) = max (4 * unat (rtt_var a)) 1000"
    by (simp add: max_def word_le_nat_alt)
  then have "unat (compute_pto a) = unat (smoothed_rtt a) + max (4 * unat (rtt_var a)) 1000 + 25000"
    using b assms(3) by (simp add: compute_pto_def unat_add_nowrap)
  then show ?thesis using b by auto
qed

theorem nxp_ack_rtt_bounds_witness:
  "unat (smoothed_rtt (rtt_run (nxp_ack_init True) [(40000, 0), (60000, 30000)])) \<le> 60000"
  using nxp_ack_rtt_bounds [of "[(40000, 0), (60000, 30000)]" 40000 60000] by simp

end
