(* ===== verification/Nxp_HashMap.thy ===== *)
theory Nxp_HashMap
  imports Nxp_Prelude
begin

text \<open>
  The open-addressing hash map of \<^verbatim>\<open>src/util/hash_map.c\<close> (Robin Hood hashing with backward-shift
  deletion).  Keys are 64-bit, values are pointers (\<^term>\<open>None\<close> is the null pointer), and the slots
  are a list of \<^verbatim>\<open>capacity\<close> entries.  The endless probe loops carry fuel: \<^term>\<open>None\<close> would be a
  loop that does not end; the fuel is the capacity, and the lemmas below show that it is enough.  The
  probe length is a natural number; it never exceeds the capacity.
\<close>

section \<open>Data\<close>

record 'v nxp_hash_entry =
  he_key :: u64
  he_value :: "'v option"
  he_psl :: nat

record 'v nxp_hash_map =
  hm_entries :: "'v nxp_hash_entry list"
  hm_capacity :: u32
  hm_count :: u32
  hm_mask :: u32

definition next_power_of_2_u32 :: "u32 \<Rightarrow> u32" where
  "next_power_of_2_u32 v =
     (let v = v - 1;
          v = v OR drop_bit 1 v;
          v = v OR drop_bit 2 v;
          v = v OR drop_bit 4 v;
          v = v OR drop_bit 8 v;
          v = v OR drop_bit 16 v in
      v + 1)"

definition hash_u64 :: "u64 \<Rightarrow> u32" where
  "hash_u64 key =
     (let key = NOT key + push_bit 21 key;
          key = key XOR drop_bit 24 key;
          key = (key + push_bit 3 key) + push_bit 8 key;
          key = key XOR drop_bit 14 key;
          key = (key + push_bit 2 key) + push_bit 4 key;
          key = key XOR drop_bit 28 key;
          key = key + push_bit 31 key in
      ucast key)"

definition home_slot :: "u32 \<Rightarrow> u64 \<Rightarrow> nat" where
  "home_slot msk key = unat (hash_u64 key AND msk)"

definition next_slot :: "u32 \<Rightarrow> nat \<Rightarrow> nat" where
  "next_slot msk i = unat ((of_nat i + 1) AND msk)"

definition empty_entry :: "'v nxp_hash_entry" where
  "empty_entry = \<lparr>he_key = 0, he_value = None, he_psl = 0\<rparr>"

definition nxp_hash_map_create :: "bool \<Rightarrow> bool \<Rightarrow> u32 \<Rightarrow> 'v nxp_hash_map option" where
  "nxp_hash_map_create alloc_map alloc_entries initial_capacity =
     (let initial_capacity = (if initial_capacity < 16 then 16 else initial_capacity);
          initial_capacity = next_power_of_2_u32 initial_capacity in
      if \<not> alloc_map then None
      else if \<not> alloc_entries then None
      else Some \<lparr>hm_entries = replicate (unat initial_capacity) empty_entry,
                 hm_capacity = initial_capacity, hm_count = 0, hm_mask = initial_capacity - 1\<rparr>)"

section \<open>Resize\<close>

fun insert_loop ::
    "nat \<Rightarrow> u32 \<Rightarrow> 'v nxp_hash_entry \<Rightarrow> nat \<Rightarrow> 'v nxp_hash_entry list \<Rightarrow>
     'v nxp_hash_entry list option" where
  "insert_loop 0 msk entry idx es = None"
| "insert_loop (Suc fuel) msk entry idx es =
     (if he_psl (es ! idx) = 0 then Some (es[idx := entry])
      else
        let (es, entry) = (if he_psl (es ! idx) < he_psl entry then (es[idx := entry], es ! idx)
                           else (es, entry)) in
        insert_loop fuel msk (entry\<lparr>he_psl := he_psl entry + 1\<rparr>) (next_slot msk idx) es)"

fun reinsert_all ::
    "u32 \<Rightarrow> 'v nxp_hash_entry list \<Rightarrow> 'v nxp_hash_entry list \<Rightarrow> 'v nxp_hash_entry list option" where
  "reinsert_all new_msk [] new_entries = Some new_entries"
| "reinsert_all new_msk (e # es) new_entries =
     (if he_psl e = 0 then reinsert_all new_msk es new_entries
      else
        let entry = e\<lparr>he_psl := 1\<rparr> in do {
          new_entries \<leftarrow> insert_loop (length new_entries) new_msk entry
                            (home_slot new_msk (he_key entry)) new_entries;
          reinsert_all new_msk es new_entries })"

text \<open>The second component is the \<^verbatim>\<open>bool\<close> result.\<close>

definition hash_map_resize :: "bool \<Rightarrow> 'v nxp_hash_map \<Rightarrow> ('v nxp_hash_map \<times> bool) option" where
  "hash_map_resize alloc m =
     (let new_cap = hm_capacity m * 2 in
      if \<not> alloc then Some (m, False)
      else
        let new_msk = new_cap - 1 in do {
          new_entries \<leftarrow> reinsert_all new_msk (hm_entries m)
                            (replicate (unat new_cap) empty_entry);
          Some (m\<lparr>hm_entries := new_entries, hm_capacity := new_cap, hm_mask := new_msk\<rparr>, True) })"

section \<open>Put\<close>

text \<open>The slots, whether a slot was filled, and the previous value.\<close>

fun put_loop ::
    "nat \<Rightarrow> u32 \<Rightarrow> u64 \<Rightarrow> 'v option \<Rightarrow> 'v nxp_hash_entry \<Rightarrow> nat \<Rightarrow> 'v nxp_hash_entry list \<Rightarrow>
     ('v nxp_hash_entry list \<times> bool \<times> 'v option) option" where
  "put_loop 0 msk key value entry idx es = None"
| "put_loop (Suc fuel) msk key value entry idx es =
     (if he_psl (es ! idx) = 0 then Some (es[idx := entry], True, None)
      else if he_key (es ! idx) = key then
        Some (es[idx := (es ! idx)\<lparr>he_value := value\<rparr>], False, he_value (es ! idx))
      else
        let (es, entry) = (if he_psl (es ! idx) < he_psl entry then (es[idx := entry], es ! idx)
                           else (es, entry)) in
        put_loop fuel msk key value (entry\<lparr>he_psl := he_psl entry + 1\<rparr>) (next_slot msk idx) es)"

definition nxp_hash_map_put ::
    "bool \<Rightarrow> 'v nxp_hash_map \<Rightarrow> u64 \<Rightarrow> 'v option \<Rightarrow> ('v nxp_hash_map \<times> 'v option) option" where
  "nxp_hash_map_put alloc m key value = do {
     (m, ok) \<leftarrow> (if hm_count m * 100 \<ge> hm_capacity m * 75 then hash_map_resize alloc m
                   else Some (m, True));
     if \<not> ok then Some (m, None)
     else
       let entry = \<lparr>he_key = key, he_value = value, he_psl = 1\<rparr> in do {
         (es, filled, old_value) \<leftarrow> put_loop (unat (hm_capacity m)) (hm_mask m) key value entry
                                       (home_slot (hm_mask m) key) (hm_entries m);
         Some (m\<lparr>hm_entries := es,
                   hm_count := (if filled then hm_count m + 1 else hm_count m)\<rparr>, old_value) } }"

section \<open>Lookup and removal\<close>

fun get_loop :: "nat \<Rightarrow> u32 \<Rightarrow> u64 \<Rightarrow> nat \<Rightarrow> nat \<Rightarrow> 'v nxp_hash_entry list \<Rightarrow> nat option option" where
  "get_loop 0 msk key psl idx es = None"
| "get_loop (Suc fuel) msk key psl idx es =
     (if he_psl (es ! idx) = 0 then Some None
      else if he_psl (es ! idx) < psl then Some None
      else if he_key (es ! idx) = key then Some (Some idx)
      else get_loop fuel msk key (psl + 1) (next_slot msk idx) es)"

text \<open>The slot both lookup and removal search for.\<close>

definition find_slot :: "'v nxp_hash_map \<Rightarrow> u64 \<Rightarrow> nat option option" where
  "find_slot m key =
     get_loop (Suc (unat (hm_capacity m))) (hm_mask m) key 1 (home_slot (hm_mask m) key)
       (hm_entries m)"

definition nxp_hash_map_get :: "'v nxp_hash_map \<Rightarrow> u64 \<Rightarrow> 'v option option" where
  "nxp_hash_map_get m key = do {
     slot \<leftarrow> find_slot m key;
     Some (case slot of None \<Rightarrow> None | Some idx \<Rightarrow> he_value (hm_entries m ! idx)) }"

fun shift_loop :: "nat \<Rightarrow> u32 \<Rightarrow> nat \<Rightarrow> 'v nxp_hash_entry list \<Rightarrow> 'v nxp_hash_entry list option" where
  "shift_loop 0 msk idx es = None"
| "shift_loop (Suc fuel) msk idx es =
     (let nxt = next_slot msk idx in
      if he_psl (es ! nxt) \<le> 1 then Some (es[idx := (es ! idx)\<lparr>he_psl := 0, he_value := None\<rparr>])
      else
        let es = es[idx := (es ! nxt)\<lparr>he_psl := he_psl (es ! nxt) - 1\<rparr>] in
        shift_loop fuel msk nxt es)"

definition nxp_hash_map_remove :: "'v nxp_hash_map \<Rightarrow> u64 \<Rightarrow> ('v nxp_hash_map \<times> 'v option) option" where
  "nxp_hash_map_remove m key = do {
     slot \<leftarrow> find_slot m key;
     (case slot of None \<Rightarrow> Some (m, None)
      | Some idx \<Rightarrow> do {
          es \<leftarrow> shift_loop (unat (hm_capacity m)) (hm_mask m) idx (hm_entries m);
          Some (m\<lparr>hm_entries := es, hm_count := hm_count m - 1\<rparr>,
                he_value (hm_entries m ! idx)) }) }"

definition nxp_hash_map_contains :: "'v nxp_hash_map \<Rightarrow> u64 \<Rightarrow> bool option" where
  "nxp_hash_map_contains m key = map_option (\<lambda>v. v \<noteq> None) (nxp_hash_map_get m key)"

definition nxp_hash_map_count :: "'v nxp_hash_map \<Rightarrow> u32" where
  "nxp_hash_map_count m = hm_count m"

text \<open>The callback updates a context and says whether to go on.\<close>

fun foreach_loop :: "(u64 \<Rightarrow> 'v option \<Rightarrow> 'c \<Rightarrow> bool \<times> 'c) \<Rightarrow> 'v nxp_hash_entry list \<Rightarrow> 'c \<Rightarrow> 'c" where
  "foreach_loop fn [] ctx = ctx"
| "foreach_loop fn (e # es) ctx =
     (if he_psl e > 0 then
        let (go_on, ctx) = fn (he_key e) (he_value e) ctx in
        if \<not> go_on then ctx else foreach_loop fn es ctx
      else foreach_loop fn es ctx)"

definition nxp_hash_map_foreach ::
    "'v nxp_hash_map \<Rightarrow> (u64 \<Rightarrow> 'v option \<Rightarrow> 'c \<Rightarrow> bool \<times> 'c) \<Rightarrow> 'c \<Rightarrow> 'c" where
  "nxp_hash_map_foreach m fn ctx = foreach_loop fn (hm_entries m) ctx"

section \<open>Invariant and abstraction\<close>

text \<open>\<open>n\<close> slots: every entry is at the position its probe length says, and no probe length exceeds
  that of the slot before by more than one.\<close>

definition slot_ok :: "nat \<Rightarrow> 'v nxp_hash_entry \<Rightarrow> nat \<Rightarrow> bool" where
  "slot_ok n e i \<longleftrightarrow> he_psl e > 0 \<longrightarrow>
     he_psl e \<le> n \<and> i = (unat (hash_u64 (he_key e)) + he_psl e - 1) mod n"

definition robin_hood :: "nat \<Rightarrow> 'v nxp_hash_entry list \<Rightarrow> bool" where
  "robin_hood n es \<longleftrightarrow> length es = n \<and> (\<forall>i<n. slot_ok n (es ! i) i) \<and>
     (\<forall>i<n. he_psl (es ! (Suc i mod n)) \<le> he_psl (es ! i) + 1)"

definition occupied :: "'v nxp_hash_entry list \<Rightarrow> nat set" where
  "occupied es = {i. i < length es \<and> he_psl (es ! i) > 0}"

definition distinct_keys :: "'v nxp_hash_entry list \<Rightarrow> bool" where
  "distinct_keys es \<longleftrightarrow> inj_on (\<lambda>i. he_key (es ! i)) (occupied es)"

definition bindings :: "'v nxp_hash_entry list \<Rightarrow> (u64 \<times> 'v option) set" where
  "bindings es = (\<lambda>i. (he_key (es ! i), he_value (es ! i))) ` occupied es"

definition hm_inv :: "'v nxp_hash_map \<Rightarrow> bool" where
  "hm_inv m \<longleftrightarrow> (\<exists>k. 4 \<le> k \<and> k \<le> 25 \<and> hm_capacity m = 2 ^ k \<and> hm_mask m = mask k \<and>
     robin_hood (2 ^ k) (hm_entries m)) \<and> distinct_keys (hm_entries m) \<and>
     unat (hm_count m) = card (occupied (hm_entries m)) \<and>
     unat (hm_count m) < length (hm_entries m)"

definition hm_abs :: "'v nxp_hash_map \<Rightarrow> u64 \<rightharpoonup> 'v option" where
  "hm_abs m = map_of (map (\<lambda>e. (he_key e, he_value e)) (filter (\<lambda>e. he_psl e > 0) (hm_entries m)))"

section \<open>Slots\<close>

lemma slots_mod:
  assumes "k \<le> 25"
  shows "home_slot (mask k) key = unat (hash_u64 key) mod 2 ^ k"
    "i < 2 ^ k \<Longrightarrow> next_slot (mask k) i = Suc i mod 2 ^ k"
proof -
  show "home_slot (mask k) key = unat (hash_u64 key) mod 2 ^ k"
    by (simp add: home_slot_def unat_and_mask)
  assume i: "i < 2 ^ k"
  have "(2 :: nat) ^ k \<le> 2 ^ 25" using assms by (intro power_increasing) auto
  then have "Suc i < 2 ^ 32" using i by simp
  then have "unat (of_nat i + 1 :: u32) = Suc i"
    by (simp add: unat_word_ariths unat_of_nat)
  then show "next_slot (mask k) i = Suc i mod 2 ^ k" by (simp add: next_slot_def unat_and_mask)
qed

lemma Suc_mod_add: "(Suc (i mod n) + d) mod n = (i + Suc d) mod (n :: nat)"
  by (metis add_Suc_shift mod_Suc_eq mod_add_left_eq add_Suc)

lemma Suc_mod_mod: "Suc (x mod n) mod n = Suc x mod (n :: nat)"
  by (simp add: mod_Suc_eq)

lemma rotate_neq: "0 < d \<Longrightarrow> d < n \<Longrightarrow> i < n \<Longrightarrow> (i + d) mod n \<noteq> (i :: nat)"
  by (cases "i + d < n") (auto simp: mod_if)

text \<open>How far ahead a slot is.\<close>

lemma reach_slot:
  assumes "(i :: nat) < n" "j < n"
  shows "\<exists>d<n. j = (i + d) mod n"
proof (cases "i \<le> j")
  case True
  then show ?thesis using assms by (intro exI [of _ "j - i"]) auto
next
  case False
  then show ?thesis using assms by (intro exI [of _ "j + n - i"]) auto
qed

lemma psl_back:
  assumes "robin_hood n es" "0 < n"
  shows "he_psl (es ! ((i + d) mod n)) \<le> he_psl (es ! (i mod n)) + d"
proof (induction d)
  case (Suc d)
  have "he_psl (es ! (Suc ((i + d) mod n) mod n)) \<le> he_psl (es ! ((i + d) mod n)) + 1"
    using assms by (simp add: robin_hood_def)
  then show ?case using Suc by (simp add: Suc_mod_mod)
qed simp

lemma psl_lt:
  assumes rh: "robin_hood n es" and e: "i0 < n" "he_psl (es ! i0) = 0" and i: "i < n"
  shows "he_psl (es ! i) < n"
proof -
  obtain d where "d < n" "i = (i0 + d) mod n" using reach_slot [OF e(1) i] by blast
  then show ?thesis using psl_back [OF rh, of i0 d] e by simp
qed

lemma slot_home:
  assumes "robin_hood n es" "i < n" "he_psl (es ! i) = Suc d"
  shows "i = (unat (hash_u64 (he_key (es ! i))) + d) mod n" "Suc d \<le> n"
proof -
  have "slot_ok n (es ! i) i" using assms by (simp add: robin_hood_def)
  then show "i = (unat (hash_u64 (he_key (es ! i))) + d) mod n" "Suc d \<le> n"
    using assms(3) by (simp_all add: slot_ok_def)
qed

lemma probe_bound:
  assumes rh: "robin_hood n es" "0 < n" and i: "i < n" "he_psl (es ! i) = Suc d" and j: "j \<le> d"
  shows "Suc j \<le> he_psl (es ! ((unat (hash_u64 (he_key (es ! i))) + j) mod n))"
proof -
  let ?h = "unat (hash_u64 (he_key (es ! i)))"
  have "i = (?h + d) mod n" by (rule slot_home(1) [OF rh(1) i])
  then show ?thesis using psl_back [OF rh, of "?h + j" "d - j"] i j by simp
qed

section \<open>Lookup\<close>

lemma get_loop_found:
  assumes rh: "robin_hood n es" "distinct_keys es" "0 < n"
    and nx: "\<And>i. i < n \<Longrightarrow> next_slot msk i = Suc i mod n"
    and i: "i < n" "he_psl (es ! i) = Suc d" "he_key (es ! i) = key"
  shows "j \<le> d \<Longrightarrow> d - j < fuel \<Longrightarrow>
    get_loop fuel msk key (Suc j) ((unat (hash_u64 key) + j) mod n) es = Some (Some i)"
proof (induction fuel arbitrary: j)
  case (Suc fuel)
  let ?s = "(unat (hash_u64 key) + j) mod n"
  have b: "Suc j \<le> he_psl (es ! ?s)"
    using probe_bound [OF rh(1,3) i(1,2) Suc.prems(1)] by (simp add: i(3))
  have s: "?s < n" "length es = n" using rh by (simp_all add: robin_hood_def)
  have home: "i = (unat (hash_u64 key) + d) mod n"
    using slot_home(1) [OF rh(1) i(1,2)] i(3) by simp
  show ?case
  proof (cases "he_key (es ! ?s) = key")
    case True
    then have "?s = i"
      using rh(2) b s i unfolding distinct_keys_def inj_on_def occupied_def by auto
    then show ?thesis using b i by simp
  next
    case False
    then have "j \<noteq> d" using home i by auto
    then have "j < d" using Suc.prems(1) by simp
    moreover have "next_slot msk ?s = (unat (hash_u64 key) + Suc j) mod n"
      using nx [OF s(1)] by (simp add: Suc_mod_mod)
    ultimately show ?thesis using Suc.IH [of "Suc j"] Suc.prems b False by simp
  qed
qed simp

lemma get_loop_absent:
  assumes nx: "\<And>i. i < n \<Longrightarrow> next_slot msk i = Suc i mod n" and n: "0 < n" "length es = n"
    and absent: "\<forall>i\<in>occupied es. he_key (es ! i) \<noteq> key"
  shows "he_psl (es ! ((s + m) mod n)) = 0 \<Longrightarrow> m < fuel \<Longrightarrow> get_loop fuel msk key p (s mod n) es = Some None"
proof (induction fuel arbitrary: p s m)
  case (Suc fuel)
  show ?case
  proof (cases "he_psl (es ! (s mod n)) = 0")
    case False
    then obtain m' where m: "m = Suc m'" using Suc.prems(1) by (cases m) auto
    have "s mod n \<in> occupied es" using False n by (simp add: occupied_def)
    then have "he_key (es ! (s mod n)) \<noteq> key" using absent by blast
    moreover have "next_slot msk (s mod n) = Suc s mod n" using nx [of "s mod n"] n by (simp add: Suc_mod_mod)
    ultimately show ?thesis using Suc.IH [of "Suc s" m' "p + 1"] Suc.prems False m by simp
  qed simp
qed simp

section \<open>Updating one slot\<close>

text \<open>What the slots other than \<open>i\<close> hold.\<close>

definition others :: "'v nxp_hash_entry list \<Rightarrow> nat \<Rightarrow> (u64 \<times> 'v option) set" where
  "others es i = (\<lambda>j. (he_key (es ! j), he_value (es ! j))) ` (occupied es - {i})"

definition distinct_others :: "'v nxp_hash_entry list \<Rightarrow> nat \<Rightarrow> bool" where
  "distinct_others es i \<longleftrightarrow> inj_on (\<lambda>j. he_key (es ! j)) (occupied es - {i})"

lemma occupied_update:
  "i < length es \<Longrightarrow> occupied (es[i := e]) = (if he_psl e > 0 then insert i (occupied es) else occupied es - {i})"
  by (auto simp: occupied_def nth_list_update)

lemma finite_occupied [simp]: "finite (occupied es)"
  by (simp add: occupied_def)

lemma occupied_update_others: "occupied (es[i := e]) - {i} = occupied es - {i}"
  by (auto simp: occupied_def)

lemma others_update [simp]: "others (es[i := e]) i = others es i"
  unfolding others_def occupied_update_others by (rule image_cong) auto

lemma distinct_others_update [simp]: "distinct_others (es[i := e]) i = distinct_others es i"
  unfolding distinct_others_def occupied_update_others by (rule inj_on_cong) auto

lemma bindings_others:
  "bindings es = (if i \<in> occupied es then insert (he_key (es ! i), he_value (es ! i)) (others es i) else others es i)"
  by (auto simp: bindings_def others_def)

lemma distinct_keys_others:
  "distinct_keys es \<longleftrightarrow> distinct_others es i \<and>
     (i \<in> occupied es \<longrightarrow> he_key (es ! i) \<notin> fst ` others es i)"
proof (cases "i \<in> occupied es")
  case True
  have "fst ` others es i = (\<lambda>j. he_key (es ! j)) ` (occupied es - {i})"
    by (simp add: others_def image_image)
  then show ?thesis
    using True inj_on_insert [of "\<lambda>j. he_key (es ! j)" i "occupied es - {i}"]
    by (simp add: distinct_keys_def distinct_others_def insert_absorb)
qed (simp add: distinct_keys_def distinct_others_def)

lemma robin_hood_update:
  assumes rh: "robin_hood n es" and i: "i < n" "1 < n" and e: "slot_ok n e i"
    and prev: "\<forall>p<n. Suc p mod n = i \<longrightarrow> he_psl e \<le> he_psl (es ! p) + 1"
    and succ: "he_psl (es ! (Suc i mod n)) \<le> he_psl e + 1"
  shows "robin_hood n (es[i := e])"
proof -
  have "Suc i mod n \<noteq> i" using rotate_neq [of 1 n i] i by simp
  then show ?thesis using assms by (auto simp: robin_hood_def nth_list_update)
qed

text \<open>An entry on its way to the slot its probe length names.\<close>

definition carried :: "nat \<Rightarrow> 'v nxp_hash_entry list \<Rightarrow> 'v nxp_hash_entry \<Rightarrow> nat \<Rightarrow> bool" where
  "carried n es e i \<longleftrightarrow> he_psl e > 0 \<and> i = (unat (hash_u64 (he_key e)) + he_psl e - 1) mod n \<and>
     (\<forall>p<n. Suc p mod n = i \<longrightarrow> he_psl e \<le> he_psl (es ! p) + 1)"

lemma prev_exists: "i < n \<Longrightarrow> \<exists>p<n. Suc p mod n = (i :: nat)"
proof (cases i)
  case 0
  assume "i < n"
  then show ?thesis using 0 by (intro exI [of _ "n - 1"]) auto
next
  case (Suc p)
  assume "i < n"
  then show ?thesis using Suc by (intro exI [of _ p]) auto
qed

lemma carried_ok:
  assumes "robin_hood n es" "carried n es e i" "i < n" "i0 < n" "he_psl (es ! i0) = 0"
  shows "slot_ok n e i"
proof -
  obtain p where p: "p < n" "Suc p mod n = i" using prev_exists [OF assms(3)] by blast
  have "he_psl (es ! p) < n" by (rule psl_lt [OF assms(1,4,5) p(1)])
  then show ?thesis using assms(2) p by (auto simp: carried_def slot_ok_def)
qed

lemma Suc_mod_inj: "p < n \<Longrightarrow> q < n \<Longrightarrow> Suc p mod n = Suc q mod n \<Longrightarrow> p = (q :: nat)"
  by (auto simp: mod_Suc split: if_splits)

lemma insert_loop_spec:
  assumes nx: "\<And>i. i < n \<Longrightarrow> next_slot msk i = Suc i mod n" and n: "1 < n"
  shows "robin_hood n es \<Longrightarrow> distinct_keys es \<Longrightarrow> i < n \<Longrightarrow> carried n es e i \<Longrightarrow>
    he_key e \<notin> fst ` bindings es \<Longrightarrow> m < n \<Longrightarrow> he_psl (es ! ((i + m) mod n)) = 0 \<Longrightarrow> m < fuel \<Longrightarrow>
    \<exists>es'. insert_loop fuel msk e i es = Some es' \<and> robin_hood n es' \<and> distinct_keys es' \<and>
      bindings es' = insert (he_key e, he_value e) (bindings es) \<and>
      card (occupied es') = Suc (card (occupied es))"
proof (induction fuel arbitrary: e i es m)
  case (Suc fuel)
  have len: "length es = n" using Suc.prems(1) by (simp add: robin_hood_def)
  have im: "(i + m) mod n < n" using n by simp
  have ok: "slot_ok n e i" by (rule carried_ok [OF Suc.prems(1,4,3) im Suc.prems(7)])
  have pos: "he_psl e > 0" using Suc.prems(4) by (simp add: carried_def)
  have place: "robin_hood n (es[i := e])" if "he_psl (es ! i) < he_psl e"
  proof (rule robin_hood_update [OF Suc.prems(1,3) n ok])
    show "\<forall>p<n. Suc p mod n = i \<longrightarrow> he_psl e \<le> he_psl (es ! p) + 1" using Suc.prems(4) by (simp add: carried_def)
    have "he_psl (es ! (Suc i mod n)) \<le> he_psl (es ! i) + 1" using Suc.prems(1,3) by (simp add: robin_hood_def)
    then show "he_psl (es ! (Suc i mod n)) \<le> he_psl e + 1" using that by simp
  qed
  note upd = bindings_others [of "es[i := e]" i] distinct_keys_others [of "es[i := e]" i]
    bindings_others [of es i] distinct_keys_others [of es i]
  show ?case
  proof (cases "he_psl (es ! i) = 0")
    case True
    then have "i \<notin> occupied es" by (simp add: occupied_def)
    then show ?thesis using True Suc.prems len upd place pos by (simp add: occupied_update)
  next
    case False
    then obtain m' where m: "m = Suc m'" using Suc.prems(3,7) by (cases m) auto
    then have m0: "0 < m" by simp
    let ?s = "he_psl (es ! i) < he_psl e"
    define es1 where "es1 = (if ?s then es[i := e] else es)"
    define e1 where "e1 = (if ?s then es ! i else e)"
    let ?e = "e1\<lparr>he_psl := he_psl e1 + 1\<rparr>" and ?i = "Suc i mod n"
    have occ: "i \<in> occupied es" using False Suc.prems(3) len by (simp add: occupied_def)
    have step: "insert_loop (Suc fuel) msk e i es = insert_loop fuel msk ?e ?i es1"
      using False nx [OF Suc.prems(3)] by (simp add: es1_def e1_def Let_def)
    have rh1: "robin_hood n es1" using place Suc.prems(1) by (simp add: es1_def)
    have e1: "slot_ok n e1 i" "he_psl e1 > 0" "he_psl e1 \<le> he_psl (es1 ! i)"
      using ok Suc.prems(1,3) False pos len by (auto simp: e1_def es1_def robin_hood_def)
    have "carried n es1 ?e ?i"
    proof -
      have "?i = (unat (hash_u64 (he_key e1)) + he_psl e1) mod n"
      proof -
        have i: "i = (unat (hash_u64 (he_key e1)) + he_psl e1 - 1) mod n"
          using e1 by (simp add: slot_ok_def)
        show ?thesis using e1(2) by (subst i) (simp add: Suc_mod_mod)
      qed
      moreover have "p = i" if "p < n" "Suc p mod n = ?i" for p
        using Suc_mod_inj [OF that(1) Suc.prems(3)] that(2) by simp
      ultimately show ?thesis using e1 by (auto simp: carried_def)
    qed
    moreover have "distinct_keys es1" "he_key ?e \<notin> fst ` bindings es1"
      "insert (he_key ?e, he_value ?e) (bindings es1) = insert (he_key e, he_value e) (bindings es)"
      "card (occupied es1) = card (occupied es)"
      using Suc.prems(2,5) upd occ len Suc.prems(3) pos
      by (auto simp: es1_def e1_def occupied_update insert_absorb)
    moreover have "es1 ! ((?i + m') mod n) = es ! ((i + m) mod n)"
      using rotate_neq [OF m0 Suc.prems(6,3)] by (auto simp: es1_def m mod_add_left_eq)
    moreover have "?i < n" using n by simp
    ultimately show ?thesis
      using Suc.IH [OF rh1, of ?i ?e m'] Suc.prems(6,7,8) m step by auto
  qed
qed simp

lemma carried_home: "he_psl e = 1 \<Longrightarrow> carried n es e (unat (hash_u64 (he_key e)) mod n)"
  unfolding carried_def by (intro conjI allI impI) simp_all

section \<open>Resize\<close>

lemma empty_slot_ahead:
  assumes "length es = n" "card (occupied es) < n" "i < n"
  shows "\<exists>m<n. he_psl (es ! ((i + m) mod n)) = 0"
proof -
  have "\<not> {..<n} \<subseteq> occupied es"
    using assms(2) card_mono [OF finite_occupied, of "{..<n}" es] by auto
  then obtain j where "j < n" "he_psl (es ! j) = 0" using assms(1) by (auto simp: occupied_def)
  then show ?thesis using reach_slot [OF assms(3), of j] by blast
qed

lemma insert_home:
  assumes nx: "\<And>i. i < n \<Longrightarrow> next_slot msk i = Suc i mod n" and n: "1 < n"
    and rh: "robin_hood n es" "distinct_keys es" "card (occupied es) < n" "he_key e \<notin> fst ` bindings es"
    and e: "he_psl e = 1"
  shows "\<exists>es'. insert_loop n msk e (unat (hash_u64 (he_key e)) mod n) es = Some es' \<and>
    robin_hood n es' \<and> distinct_keys es' \<and> bindings es' = insert (he_key e, he_value e) (bindings es) \<and>
    card (occupied es') = Suc (card (occupied es))"
proof -
  let ?h = "unat (hash_u64 (he_key e)) mod n"
  have h: "?h < n" using n by simp
  have "length es = n" using rh(1) by (simp add: robin_hood_def)
  then obtain m where "m < n" "he_psl (es ! ((?h + m) mod n)) = 0"
    using empty_slot_ahead [OF _ rh(3) h] by blast
  then show ?thesis using insert_loop_spec [OF nx n rh(1,2) h carried_home [OF e] rh(4)] by simp
qed

text \<open>The entries of a list of slots, in order.\<close>

definition live :: "'v nxp_hash_entry list \<Rightarrow> 'v nxp_hash_entry list" where
  "live es = filter (\<lambda>e. he_psl e > 0) es"

lemma reinsert_all_spec:
  assumes nx: "\<And>i. i < n \<Longrightarrow> next_slot msk i = Suc i mod n" and n: "1 < n"
    and hm: "\<And>key. home_slot msk key = unat (hash_u64 key) mod n"
  shows "robin_hood n new \<Longrightarrow> distinct_keys new \<Longrightarrow> card (occupied new) + length (live es) < n \<Longrightarrow>
    distinct (map he_key (live es)) \<Longrightarrow> fst ` bindings new \<inter> he_key ` set (live es) = {} \<Longrightarrow>
    \<exists>es'. reinsert_all msk es new = Some es' \<and> robin_hood n es' \<and> distinct_keys es' \<and>
      bindings es' = bindings new \<union> (\<lambda>e. (he_key e, he_value e)) ` set (live es) \<and>
      card (occupied es') = card (occupied new) + length (live es)"
proof (induction es arbitrary: new)
  case (Cons e es)
  show ?case
  proof (cases "he_psl e = 0")
    case True
    then show ?thesis using Cons by (simp add: live_def)
  next
    case False
    have len: "length new = n" using Cons.prems(1) by (simp add: robin_hood_def)
    have "card (occupied new) < n" "he_key e \<notin> fst ` bindings new"
      using Cons.prems(3,5) False by (auto simp: live_def)
    then obtain new1 where new1: "insert_loop n msk (e\<lparr>he_psl := 1\<rparr>) (home_slot msk (he_key e)) new = Some new1"
        "robin_hood n new1" "distinct_keys new1"
        "bindings new1 = insert (he_key e, he_value e) (bindings new)"
        "card (occupied new1) = Suc (card (occupied new))"
      using insert_home [OF nx n Cons.prems(1,2), of "e\<lparr>he_psl := 1\<rparr>"] by (auto simp: hm)
    have "card (occupied new1) + length (live es) < n" "distinct (map he_key (live es))"
        "fst ` bindings new1 \<inter> he_key ` set (live es) = {}"
      using Cons.prems(3-5) new1(4,5) False by (auto simp: live_def)
    from Cons.IH [OF new1(2,3) this] show ?thesis
      using new1 False len by (auto simp: live_def Let_def)
  qed
qed (simp add: live_def)

lemma live_bindings: "(\<lambda>e. (he_key e, he_value e)) ` set (live es) = bindings es"
  by (force simp: live_def bindings_def occupied_def in_set_conv_nth image_iff)

lemma filter_inj:
  "distinct (map f (filter P xs)) \<longleftrightarrow> inj_on (\<lambda>i. f (xs ! i)) {i. i < length xs \<and> P (xs ! i)}"
proof (induction xs rule: rev_induct)
  case (snoc x xs)
  let ?S = "{i. i < length xs \<and> P (xs ! i)}"
  have im: "f ` set (filter P xs) = (\<lambda>i. f (xs ! i)) ` ?S" by (force simp: in_set_conv_nth)
  have S: "{i. i < length (xs @ [x]) \<and> P ((xs @ [x]) ! i)} = (if P x then insert (length xs) ?S else ?S)"
    by (auto simp: nth_append less_Suc_eq)
  have c: "inj_on (\<lambda>i. f ((xs @ [x]) ! i)) ?S = inj_on (\<lambda>i. f (xs ! i)) ?S"
    "(\<lambda>i. f ((xs @ [x]) ! i)) ` ?S = (\<lambda>i. f (xs ! i)) ` ?S"
    by (auto simp: nth_append intro!: inj_on_cong image_cong)
  have "length xs \<notin> ?S" by simp
  then show ?case unfolding S using snoc c im by (auto simp: nth_append)
qed simp

lemma live_distinct: "distinct (map he_key (live es)) \<longleftrightarrow> distinct_keys es"
  by (simp add: live_def filter_inj distinct_keys_def occupied_def)

lemma live_card: "length (live es) = card (occupied es)"
  by (simp add: live_def occupied_def length_filter_conv_card)

lemma empty_table:
  assumes "0 < n"
  shows "robin_hood n (replicate n empty_entry)" "occupied (replicate n empty_entry) = {}"
    "bindings (replicate n empty_entry) = {}" "distinct_keys (replicate n empty_entry)"
  using assms
  by (simp_all add: robin_hood_def slot_ok_def empty_entry_def occupied_def bindings_def distinct_keys_def
      cong: conj_cong)

lemma abs_bindings: "distinct_keys (hm_entries m) \<Longrightarrow> hm_abs m k = Some v \<longleftrightarrow> (k, v) \<in> bindings (hm_entries m)"
  unfolding hm_abs_def live_def [symmetric] live_bindings [symmetric]
  by (subst map_of_eq_Some_iff) (auto simp: live_distinct o_def)

section \<open>Put\<close>

text \<open>For a new key the loop of put does what the loop of resize does.\<close>

lemma put_loop_absent:
  assumes nx: "\<And>i. i < n \<Longrightarrow> next_slot msk i = Suc i mod n" and n: "1 < n"
  shows "length es = n \<Longrightarrow> i < n \<Longrightarrow> m < n \<Longrightarrow> he_psl (es ! ((i + m) mod n)) = 0 \<Longrightarrow> m < fuel \<Longrightarrow>
    \<forall>t<m. he_key (es ! ((i + t) mod n)) \<noteq> key \<or> he_psl (es ! ((i + t) mod n)) = 0 \<Longrightarrow>
    put_loop fuel msk key v e i es = map_option (\<lambda>es. (es, True, None)) (insert_loop fuel msk e i es)"
proof (induction fuel arbitrary: e i es m)
  case (Suc fuel)
  show ?case
  proof (cases "he_psl (es ! i) = 0")
    case False
    then obtain m' where m: "m = Suc m'" using Suc.prems(2,4) by (cases m) auto
    have ne: "he_key (es ! i) \<noteq> key" using Suc.prems(2,6) m False by force
    have far: "(Suc i mod n + t) mod n = (i + Suc t) mod n" for t by (simp add: mod_add_left_eq)
    have away: "(i + Suc t) mod n \<noteq> i" if "t \<le> m'" for t
      using rotate_neq [of "Suc t" n i] Suc.prems(2,3) m that by simp
    define es1 where "es1 = (if he_psl (es ! i) < he_psl e then es[i := e] else es)"
    have same: "es1 ! ((Suc i mod n + t) mod n) = es ! ((i + Suc t) mod n)" if "t \<le> m'" for t
      unfolding far using away [OF that] by (auto simp: es1_def)
    have "\<forall>t<m'. he_key (es1 ! ((Suc i mod n + t) mod n)) \<noteq> key \<or> he_psl (es1 ! ((Suc i mod n + t) mod n)) = 0"
      using Suc.prems(6) m same by (auto simp del: add_Suc_right)
    moreover have "he_psl (es1 ! ((Suc i mod n + m') mod n)) = 0" using same [of m'] Suc.prems(4) m by simp
    moreover have "length es1 = n" "Suc i mod n < n" "m' < n" "m' < fuel"
      using Suc.prems n m by (simp_all add: es1_def)
    ultimately have "put_loop fuel msk key v x (Suc i mod n) es1 =
        map_option (\<lambda>es. (es, True, None)) (insert_loop fuel msk x (Suc i mod n) es1)" for x
      using Suc.IH by blast
    then show ?thesis using False ne nx [OF Suc.prems(2)]
      by (cases "he_psl (es ! i) < he_psl e") (simp_all add: es1_def)
  qed simp
qed simp

lemma put_loop_present:
  assumes rh: "robin_hood n es" "distinct_keys es" "0 < n"
    and nx: "\<And>i. i < n \<Longrightarrow> next_slot msk i = Suc i mod n"
    and i: "i < n" "he_psl (es ! i) = Suc d" "he_key (es ! i) = key"
  shows "j \<le> d \<Longrightarrow> d - j < fuel \<Longrightarrow> he_psl e = Suc j \<Longrightarrow>
    put_loop fuel msk key v e ((unat (hash_u64 key) + j) mod n) es =
      Some (es[i := (es ! i)\<lparr>he_value := v\<rparr>], False, he_value (es ! i))"
proof (induction fuel arbitrary: j e)
  case (Suc fuel)
  let ?s = "(unat (hash_u64 key) + j) mod n"
  have b: "Suc j \<le> he_psl (es ! ?s)"
    using probe_bound [OF rh(1,3) i(1,2) Suc.prems(1)] by (simp add: i(3))
  have s: "?s < n" "length es = n" using rh by (simp_all add: robin_hood_def)
  have home: "i = (unat (hash_u64 key) + d) mod n"
    using slot_home(1) [OF rh(1) i(1,2)] i(3) by simp
  show ?case
  proof (cases "he_key (es ! ?s) = key")
    case True
    then have "?s = i"
      using rh(2) b s i unfolding distinct_keys_def inj_on_def occupied_def by auto
    then show ?thesis using b i by simp
  next
    case False
    then have "j \<noteq> d" using home i by auto
    then have "j < d" using Suc.prems(1) by simp
    moreover have "next_slot msk ?s = (unat (hash_u64 key) + Suc j) mod n"
      using nx [OF s(1)] by (simp add: Suc_mod_mod)
    ultimately show ?thesis using Suc.IH [of "Suc j" "e\<lparr>he_psl := he_psl e + 1\<rparr>"] Suc.prems b False by simp
  qed
qed simp

section \<open>Remove\<close>

lemma shift_loop_spec:
  assumes nx: "\<And>i. i < n \<Longrightarrow> next_slot msk i = Suc i mod n" and n: "1 < n"
  shows "robin_hood n es \<Longrightarrow> i \<in> occupied es \<Longrightarrow> distinct_others es i \<Longrightarrow>
    he_psl (es ! ((i + m) mod n)) = 0 \<Longrightarrow> m < n \<Longrightarrow> m \<le> fuel \<Longrightarrow>
    \<exists>es'. shift_loop fuel msk i es = Some es' \<and> robin_hood n es' \<and> distinct_keys es' \<and>
      bindings es' = others es i \<and> card (occupied es') = card (occupied es) - 1"
proof (induction fuel arbitrary: i es m)
  case 0
  then show ?case by (simp add: occupied_def robin_hood_def)
next
  case (Suc fuel)
  have len: "length es = n" using Suc.prems(1) by (simp add: robin_hood_def)
  have i: "i < n" "he_psl (es ! i) > 0" using Suc.prems(2) len by (simp_all add: occupied_def)
  let ?x = "Suc i mod n"
  have x: "?x < n" "?x \<noteq> i" using n i rotate_neq [of 1 n i] by simp_all
  have step: "he_psl (es ! ?x) \<le> he_psl (es ! i) + 1" using Suc.prems(1) i by (simp add: robin_hood_def)
  have prev: "he_psl (es ! i) \<le> he_psl (es ! p) + 1" if "p < n" "Suc p mod n = i" for p
    using Suc.prems(1) that by (auto simp: robin_hood_def)
  show ?case
  proof (cases "he_psl (es ! ?x) \<le> 1")
    case True
    let ?e = "(es ! i)\<lparr>he_psl := 0, he_value := None\<rparr>"
    have "robin_hood n (es[i := ?e])"
      using True by (intro robin_hood_update [OF Suc.prems(1) i(1) n]) (simp_all add: slot_ok_def)
    moreover have "bindings (es[i := ?e]) = others es i" "distinct_keys (es[i := ?e])"
      using bindings_others [of "es[i := ?e]" i] distinct_keys_others [of "es[i := ?e]" i] Suc.prems(3) len i
      by (simp_all add: occupied_update)
    moreover have "card (occupied (es[i := ?e])) = card (occupied es) - 1"
      using Suc.prems(2) len i by (simp add: occupied_update)
    ultimately show ?thesis using True nx [OF i(1)] by simp
  next
    case False
    then obtain m' where m: "m = Suc m'" using i Suc.prems(4) by (cases m) auto
    have m': "m' \<noteq> 0" using False Suc.prems(4) m by (cases m') auto
    let ?e = "(es ! ?x)\<lparr>he_psl := he_psl (es ! ?x) - 1\<rparr>"
    let ?es = "es[i := ?e]"
    have "slot_ok n ?e i"
    proof -
      obtain d where d: "he_psl (es ! ?x) = Suc (Suc d)" using False by (cases "he_psl (es ! ?x)"; cases "he_psl (es ! ?x) - 1") auto
      have h: "Suc i mod n = (unat (hash_u64 (he_key (es ! ?x))) + Suc d) mod n" "Suc (Suc d) \<le> n"
        using slot_home [OF Suc.prems(1) x(1) d] by simp_all
      have "Suc i mod n = Suc ((unat (hash_u64 (he_key (es ! ?x))) + d) mod n) mod n"
        using h(1) by (simp add: Suc_mod_mod)
      then have "i = (unat (hash_u64 (he_key (es ! ?x))) + d) mod n"
        using i(1) n by (intro Suc_mod_inj [of i n]) simp_all
      then show ?thesis using d h(2) by (simp add: slot_ok_def)
    qed
    then have rh: "robin_hood n ?es"
      using step prev by (intro robin_hood_update [OF Suc.prems(1) i(1) n]) (auto dest: prev)
    have occ: "?x \<in> occupied es" "occupied ?es = occupied es"
      using False x(1) len i Suc.prems(2) by (auto simp: occupied_def nth_list_update)
    have swap: "occupied es - {?x} = insert i (occupied es - {i, ?x})" "occupied es - {i} = insert ?x (occupied es - {i, ?x})"
      using occ(1) Suc.prems(2) x(2) by auto
    have oth: "others ?es ?x = others es i"
      unfolding others_def occ(2) swap using len i(1) by (auto simp: image_iff nth_list_update)
    have dis: "distinct_others ?es ?x"
    proof -
      have c: "inj_on (\<lambda>j. he_key (?es ! j)) (occupied es - {i, ?x}) = inj_on (\<lambda>j. he_key (es ! j)) (occupied es - {i, ?x})"
        "(\<lambda>j. he_key (?es ! j)) ` (occupied es - {i, ?x}) = (\<lambda>j. he_key (es ! j)) ` (occupied es - {i, ?x})"
        by (auto intro!: inj_on_cong image_cong)
      have "he_key (?es ! i) = he_key (es ! ?x)" using len i(1) by simp
      then show ?thesis using Suc.prems(3) c
        unfolding distinct_others_def occ(2) swap by (simp add: inj_on_insert)
    qed
    have "(?x + m') mod n = (i + m) mod n" by (simp add: m mod_add_left_eq)
    then have "he_psl (?es ! ((?x + m') mod n)) = 0"
      using rotate_neq [of m n i] Suc.prems(4,5) m i(1) by simp
    then have "\<exists>es'. shift_loop fuel msk ?x ?es = Some es' \<and> robin_hood n es' \<and> distinct_keys es' \<and>
        bindings es' = others ?es ?x \<and> card (occupied es') = card (occupied ?es) - 1"
      using Suc.prems(5,6) m occ dis rh by (intro Suc.IH [of ?es ?x m']) simp_all
    then show ?thesis using False nx [OF i(1)] oth occ by (simp add: Let_def)
  qed
qed

section \<open>The map interface\<close>

datatype 'v map_op = Get u64 | Put u64 "'v option" | Remove u64

text \<open>The value a caller sees: null both for a missing key and for a stored null pointer.\<close>

definition deref :: "'v option option \<Rightarrow> 'v option" where
  "deref b = (case b of None \<Rightarrow> None | Some v \<Rightarrow> v)"

fun run_map ::
    "('m \<Rightarrow> u64 \<Rightarrow> 'v option option) \<Rightarrow> ('m \<Rightarrow> u64 \<Rightarrow> 'v option \<Rightarrow> ('m \<times> 'v option) option) \<Rightarrow>
     ('m \<Rightarrow> u64 \<Rightarrow> ('m \<times> 'v option) option) \<Rightarrow> 'm \<Rightarrow> 'v map_op list \<Rightarrow> ('m \<times> 'v option list) option" where
  "run_map get put remove m [] = Some (m, [])"
| "run_map get put remove m (op # ops) = do {
     (m, r) \<leftarrow> (case op of Get k \<Rightarrow> map_option (\<lambda>r. (m, r)) (get m k)
                 | Put k v \<Rightarrow> put m k v | Remove k \<Rightarrow> remove m k);
     (m, rs) \<leftarrow> run_map get put remove m ops;
     Some (m, r # rs) }"

text \<open>The same operations on a mathematical map.\<close>

fun spec_step :: "(u64 \<rightharpoonup> 'v option) \<Rightarrow> 'v map_op \<Rightarrow> u64 \<rightharpoonup> 'v option" where
  "spec_step f (Get k) = f"
| "spec_step f (Put k v) = f(k \<mapsto> v)"
| "spec_step f (Remove k) = f(k := None)"

fun op_key :: "'v map_op \<Rightarrow> u64" where
  "op_key (Get k) = k" | "op_key (Put k v) = k" | "op_key (Remove k) = k"

fun spec_map :: "(u64 \<rightharpoonup> 'v option) \<Rightarrow> 'v map_op list \<Rightarrow> (u64 \<rightharpoonup> 'v option) \<times> 'v option list" where
  "spec_map f [] = (f, [])"
| "spec_map f (op # ops) =
     (let (g, rs) = spec_map (spec_step f op) ops in (g, deref (f (op_key op)) # rs))"

locale key_map =
  fixes get :: "'m \<Rightarrow> u64 \<Rightarrow> 'v option option"
    and put :: "'m \<Rightarrow> u64 \<Rightarrow> 'v option \<Rightarrow> ('m \<times> 'v option) option"
    and remove :: "'m \<Rightarrow> u64 \<Rightarrow> ('m \<times> 'v option) option"
    and abs :: "'m \<Rightarrow> u64 \<rightharpoonup> 'v option"
    and inv :: "'m \<Rightarrow> bool"
    and limit :: nat
  assumes get_ok: "inv m \<Longrightarrow> get m k = Some (deref (abs m k))"
    and put_ok: "inv m \<Longrightarrow> card (dom (abs m)) < limit \<Longrightarrow>
      \<exists>m'. put m k v = Some (m', deref (abs m k)) \<and> inv m' \<and> abs m' = (abs m)(k \<mapsto> v)"
    and remove_ok: "inv m \<Longrightarrow>
      \<exists>m'. remove m k = Some (m', deref (abs m k)) \<and> inv m' \<and> abs m' = (abs m)(k := None)"
    and finite_dom: "inv m \<Longrightarrow> finite (dom (abs m))"
begin

lemma step_ok:
  assumes "inv m" "card (dom (abs m)) < limit"
  shows "\<exists>m'. (case op of Get k \<Rightarrow> map_option (\<lambda>r. (m, r)) (get m k)
      | Put k v \<Rightarrow> put m k v | Remove k \<Rightarrow> remove m k) = Some (m', deref (abs m (op_key op))) \<and>
    inv m' \<and> abs m' = spec_step (abs m) op"
  using get_ok [OF assms(1)] put_ok [OF assms] remove_ok [OF assms(1)] assms(1) by (cases op) auto

lemma card_step:
  assumes "inv m"
  shows "card (dom (spec_step (abs m) op)) \<le> Suc (card (dom (abs m)))"
proof (cases op)
  case (Remove k)
  then show ?thesis using finite_dom [OF assms] card_mono [of "dom (abs m)" "dom (abs m) - {k}"]
    by (simp add: le_SucI)
qed (use finite_dom [OF assms] card_insert_le_m1 in \<open>auto simp: card_insert_if\<close>)

lemma run_refines:
  "inv m \<Longrightarrow> card (dom (abs m)) + length ops \<le> limit \<Longrightarrow>
   \<exists>m' rs. run_map get put remove m ops = Some (m', rs) \<and> inv m' \<and> spec_map (abs m) ops = (abs m', rs)"
proof (induction ops arbitrary: m)
  case (Cons op ops)
  obtain m1 where m1: "(case op of Get k \<Rightarrow> map_option (\<lambda>r. (m, r)) (get m k)
      | Put k v \<Rightarrow> put m k v | Remove k \<Rightarrow> remove m k) = Some (m1, deref (abs m (op_key op)))"
      "inv m1" "abs m1 = spec_step (abs m) op"
    using step_ok [of m op] Cons.prems by auto
  then show ?case using Cons.IH [of m1] Cons.prems card_step [OF Cons.prems(1), of op] by auto
qed simp

end

section \<open>The hash map implements the interface\<close>

lemma unsigned_2p_u32: "k < 32 \<Longrightarrow> unat (2 ^ k :: u32) = 2 ^ k"
  using unat_of_nat [where 'a = 32, of "2 ^ k"] power_strict_increasing [of k 32 "2 :: nat"]
  by simp

lemma hm_inv_shape:
  assumes "hm_inv m"
  obtains k where "4 \<le> k" "k \<le> 25" "hm_capacity m = 2 ^ k" "hm_mask m = mask k" "unat (2 ^ k :: u32) = 2 ^ k"
    "robin_hood (2 ^ k) (hm_entries m)" "length (hm_entries m) = 2 ^ k" "1 < (2 :: nat) ^ k"
proof -
  obtain k where k: "4 \<le> k" "k \<le> 25" "hm_capacity m = 2 ^ k" "hm_mask m = mask k"
      "robin_hood (2 ^ k) (hm_entries m)"
    using assms by (auto simp: hm_inv_def)
  have "unat (2 ^ k :: u32) = 2 ^ k" using k by (simp add: unsigned_2p_u32)
  moreover have "1 < (2 :: nat) ^ k" using k(1) by (intro one_less_power) auto
  ultimately show ?thesis using that [OF k(1-4)] k(5) by (simp add: robin_hood_def)
qed

lemma find_slot_spec:
  assumes inv: "hm_inv m"
  shows "(\<exists>i\<in>occupied (hm_entries m). he_key (hm_entries m ! i) = key \<and> find_slot m key = Some (Some i)) \<or>
    (\<forall>i\<in>occupied (hm_entries m). he_key (hm_entries m ! i) \<noteq> key) \<and> find_slot m key = Some None"
proof -
  obtain k where k: "4 \<le> k" "k \<le> 25" "hm_capacity m = 2 ^ k" "hm_mask m = mask k"
      "unat (2 ^ k :: u32) = 2 ^ k" "robin_hood (2 ^ k) (hm_entries m)" "length (hm_entries m) = 2 ^ k"
      "1 < (2 :: nat) ^ k"
    using hm_inv_shape [OF inv] by metis
  let ?es = "hm_entries m" and ?n = "2 ^ k :: nat" and ?h = "unat (hash_u64 key)"
  have nx: "\<And>i. i < ?n \<Longrightarrow> next_slot (mask k) i = Suc i mod ?n" using slots_mod(2) [OF k(2)] .
  have find: "find_slot m key = get_loop (Suc ?n) (mask k) key 1 (?h mod ?n) ?es"
    by (simp add: find_slot_def k(3-5) slots_mod(1) [OF k(2)])
  have d: "distinct_keys ?es" "card (occupied ?es) < ?n" using inv k(7) by (auto simp: hm_inv_def)
  show ?thesis
  proof (cases "\<exists>i\<in>occupied ?es. he_key (?es ! i) = key")
    case True
    then obtain i where i: "i \<in> occupied ?es" "he_key (?es ! i) = key" by blast
    then obtain p where p: "i < ?n" "he_psl (?es ! i) = Suc p" using k(7) by (auto simp: occupied_def gr0_conv_Suc)
    have "p - 0 < Suc ?n" using slot_home(2) [OF k(6) p] by simp
    then have "find_slot m key = Some (Some i)"
      using get_loop_found [OF k(6) d(1) _ nx p i(2), of 0 "Suc ?n"] find by simp
    then show ?thesis using i by blast
  next
    case False
    obtain e where e: "e < ?n" "he_psl (?es ! ((?h mod ?n + e) mod ?n)) = 0"
      using empty_slot_ahead [OF k(7) d(2), of "?h mod ?n"] by auto
    then have "find_slot m key = Some None"
      using get_loop_absent [OF nx _ k(7), of key "?h mod ?n" e "Suc ?n" 1] False find by simp
    then show ?thesis using False by blast
  qed
qed

lemma abs_at:
  assumes "hm_inv m"
  shows "i \<in> occupied (hm_entries m) \<Longrightarrow>
      hm_abs m (he_key (hm_entries m ! i)) = Some (he_value (hm_entries m ! i))"
    and "\<forall>i\<in>occupied (hm_entries m). he_key (hm_entries m ! i) \<noteq> key \<Longrightarrow> hm_abs m key = None"
proof -
  have d: "distinct_keys (hm_entries m)" using assms by (simp add: hm_inv_def)
  show "hm_abs m (he_key (hm_entries m ! i)) = Some (he_value (hm_entries m ! i))"
    if "i \<in> occupied (hm_entries m)"
    using that by (auto simp: abs_bindings [OF d] bindings_def)
  show "hm_abs m key = None" if "\<forall>i\<in>occupied (hm_entries m). he_key (hm_entries m ! i) \<noteq> key"
    using that abs_bindings [OF d, of key] by (cases "hm_abs m key") (auto simp: bindings_def)
qed

lemma get_spec: "hm_inv m \<Longrightarrow> nxp_hash_map_get m key = Some (deref (hm_abs m key))"
proof -
  assume inv: "hm_inv m"
  show ?thesis
    using find_slot_spec [OF inv, of key]
  proof (elim disjE bexE conjE)
    fix i assume "i \<in> occupied (hm_entries m)" "he_key (hm_entries m ! i) = key" "find_slot m key = Some (Some i)"
    then show ?thesis using abs_at(1) [OF inv, of i] by (simp add: nxp_hash_map_get_def deref_def)
  next
    assume "\<forall>i\<in>occupied (hm_entries m). he_key (hm_entries m ! i) \<noteq> key" "find_slot m key = Some None"
    then show ?thesis using abs_at(2) [OF inv, of key] by (simp add: nxp_hash_map_get_def deref_def)
  qed
qed

lemma abs_eqI:
  assumes "distinct_keys (hm_entries m)" "\<And>k v. (k, v) \<in> bindings (hm_entries m) \<longleftrightarrow> f k = Some v"
  shows "hm_abs m = f"
proof
  fix k
  have "hm_abs m k = Some v \<longleftrightarrow> f k = Some v" for v
    unfolding abs_bindings [OF assms(1)] by (rule assms(2))
  then show "hm_abs m k = f k" by (metis not_Some_eq)
qed

lemma dom_abs: "hm_inv m \<Longrightarrow> finite (dom (hm_abs m)) \<and> card (dom (hm_abs m)) = unat (hm_count m)"
proof -
  assume inv: "hm_inv m"
  then have d: "distinct_keys (hm_entries m)" by (simp add: hm_inv_def)
  have "dom (hm_abs m) = (\<lambda>i. he_key (hm_entries m ! i)) ` occupied (hm_entries m)"
    using abs_bindings [OF d] by (auto simp: dom_def bindings_def image_iff)
  then show ?thesis using d inv by (simp add: distinct_keys_def card_image hm_inv_def)
qed

lemma remove_spec:
  assumes inv: "hm_inv m"
  shows "\<exists>m'. nxp_hash_map_remove m key = Some (m', deref (hm_abs m key)) \<and> hm_inv m' \<and>
    hm_abs m' = (hm_abs m)(key := None)"
  using find_slot_spec [OF inv, of key]
proof (elim disjE bexE conjE)
  fix i assume i: "i \<in> occupied (hm_entries m)" "he_key (hm_entries m ! i) = key" "find_slot m key = Some (Some i)"
  obtain k where k: "4 \<le> k" "k \<le> 25" "hm_capacity m = 2 ^ k" "hm_mask m = mask k"
      "unat (2 ^ k :: u32) = 2 ^ k" "robin_hood (2 ^ k) (hm_entries m)" "length (hm_entries m) = 2 ^ k"
      "1 < (2 :: nat) ^ k"
    using hm_inv_shape [OF inv] by metis
  let ?es = "hm_entries m" and ?n = "2 ^ k :: nat"
  have nx: "\<And>i. i < ?n \<Longrightarrow> next_slot (mask k) i = Suc i mod ?n" using slots_mod(2) [OF k(2)] .
  have d: "distinct_keys ?es" "card (occupied ?es) < ?n" "unat (hm_count m) = card (occupied ?es)"
    using inv k(7) by (auto simp: hm_inv_def)
  have "i < ?n" using i(1) k(7) by (simp add: occupied_def)
  then obtain e where e: "e < ?n" "he_psl (?es ! ((i + e) mod ?n)) = 0"
    using empty_slot_ahead [OF k(7) d(2), of i] by auto
  have di: "distinct_others ?es i" "key \<notin> fst ` others ?es i" using d(1) distinct_keys_others [of ?es i] i by auto
  obtain es' where es': "shift_loop ?n (mask k) i ?es = Some es'" "robin_hood ?n es'" "distinct_keys es'"
      "bindings es' = others ?es i" "card (occupied es') = card (occupied ?es) - 1"
    using shift_loop_spec [OF nx k(8,6) i(1) di(1) e(2,1), of ?n] e(1) by auto
  let ?m = "m\<lparr>hm_entries := es', hm_count := hm_count m - 1\<rparr>"
  have pos: "0 < unat (hm_count m)" using d(3) i(1) card_gt_0_iff [of "occupied ?es"] by auto
  then have "hm_count m \<noteq> 0" by auto
  then have c: "unat (hm_count m - 1) = card (occupied ?es) - 1" using d(3) by (simp add: unat_minus_one)
  have "hm_inv ?m" using k es' c d(2) by (auto simp: hm_inv_def robin_hood_def)
  moreover have "hm_abs ?m = (hm_abs m)(key := None)"
  proof (rule abs_eqI)
    have b: "bindings ?es = insert (key, he_value (?es ! i)) (others ?es i)"
      using bindings_others [of ?es i] i by simp
    show "(k', v) \<in> bindings (hm_entries ?m) \<longleftrightarrow> ((hm_abs m)(key := None)) k' = Some v" for k' v
      using es'(4) di(2) abs_bindings [OF d(1), of k' v] b by force
  qed (use es' in simp)
  ultimately show ?thesis using i(3) es'(1) abs_at(1) [OF inv i(1)] i(2)
    by (simp add: nxp_hash_map_remove_def k(3-5) deref_def)
next
  assume "\<forall>i\<in>occupied (hm_entries m). he_key (hm_entries m ! i) \<noteq> key" "find_slot m key = Some None"
  then show ?thesis using abs_at(2) [OF inv] inv by (auto simp: nxp_hash_map_remove_def deref_def)
qed

lemma resize_spec:
  fixes m :: "'a nxp_hash_map"
  assumes inv: "hm_inv m" and small: "hm_capacity m \<le> 2 ^ 24"
  shows "\<exists>m'. hash_map_resize True m = Some (m', True) \<and> hm_inv m' \<and> hm_abs m' = hm_abs m \<and>
    hm_count m' = hm_count m \<and> unat (hm_count m) + 1 < length (hm_entries m')"
proof -
  obtain k where k: "4 \<le> k" "k \<le> 25" "hm_capacity m = 2 ^ k" "hm_mask m = mask k"
      "unat (2 ^ k :: u32) = 2 ^ k" "robin_hood (2 ^ k) (hm_entries m)" "length (hm_entries m) = 2 ^ k"
      "1 < (2 :: nat) ^ k"
    using hm_inv_shape [OF inv] by metis
  have k24: "k \<le> 24"
  proof (rule ccontr)
    assume "\<not> k \<le> 24"
    then have "k = 25" using k(2) by simp
    then show False using small k(3) by simp
  qed
  let ?es = "hm_entries m" and ?n = "2 ^ Suc k :: nat" and ?msk = "mask (Suc k) :: u32"
  have u: "unat (2 ^ Suc k :: u32) = ?n" using k24 unsigned_2p_u32 [of "Suc k"] by simp
  have cap: "hm_capacity m * 2 = 2 ^ Suc k" using k(3) by simp
  have msk: "(2 ^ Suc k :: u32) - 1 = ?msk" by (simp add: mask_eq_exp_minus_1)
  have d: "distinct_keys ?es" "card (occupied ?es) < 2 ^ k" "unat (hm_count m) = card (occupied ?es)"
    using inv k(7) by (auto simp: hm_inv_def)
  have n1: "1 < ?n" using k(8) by simp
  have slots: "\<And>i. i < ?n \<Longrightarrow> next_slot ?msk i = Suc i mod ?n" "\<And>key. home_slot ?msk key = unat (hash_u64 key) mod ?n"
    using k24 by (auto intro!: slots_mod simp del: power_Suc)
  have n0: "0 < ?n" by simp
  have fits: "card (occupied (replicate ?n empty_entry)) + length (live ?es) < ?n"
    "distinct (map he_key (live ?es))"
    "fst ` bindings (replicate ?n (empty_entry :: 'a nxp_hash_entry)) \<inter> he_key ` set (live ?es) = {}"
    unfolding empty_table(2,3) [OF n0] live_card live_distinct using d by simp_all
  have "\<exists>es'. reinsert_all ?msk ?es (replicate ?n empty_entry) = Some es' \<and> robin_hood ?n es' \<and> distinct_keys es' \<and>
      bindings es' = bindings (replicate ?n empty_entry) \<union> (\<lambda>e. (he_key e, he_value e)) ` set (live ?es) \<and>
      card (occupied es') = card (occupied (replicate ?n (empty_entry :: 'a nxp_hash_entry))) + length (live ?es)"
    by (rule reinsert_all_spec [OF slots(1) n1 slots(2) empty_table(1,4) [OF n0] fits])
  then obtain es' where es': "reinsert_all ?msk ?es (replicate ?n empty_entry) = Some es'" "robin_hood ?n es'"
      "distinct_keys es'" "bindings es' = bindings ?es" "card (occupied es') = card (occupied ?es)"
    unfolding empty_table(2,3) [OF n0] live_card live_bindings by (elim exE conjE) simp
  let ?m = "m\<lparr>hm_entries := es', hm_capacity := 2 ^ Suc k, hm_mask := ?msk\<rparr>"
  have len: "length es' = ?n" using es'(2) by (simp add: robin_hood_def)
  have "hash_map_resize True m = Some (?m, True)"
    unfolding hash_map_resize_def Let_def cap msk u using es'(1) by simp
  moreover have "hm_inv ?m"
  proof -
    have "\<exists>j. 4 \<le> j \<and> j \<le> 25 \<and> hm_capacity ?m = 2 ^ j \<and> hm_mask ?m = mask j \<and> robin_hood (2 ^ j) (hm_entries ?m)"
      using k(1) k24 es'(2) by (intro exI [of _ "Suc k"]) simp
    then show ?thesis unfolding hm_inv_def using es'(3,5) d len by simp
  qed
  moreover have "hm_abs ?m = hm_abs m"
    using es' abs_bindings [OF d(1)] by (intro abs_eqI) simp_all
  moreover have "unat (hm_count m) + 1 < ?n" using d k(8) by simp
  ultimately show ?thesis using len by auto
qed

text \<open>The part of put after the resize check.\<close>

lemma put_loop_spec:
  fixes m :: "'v nxp_hash_map" and key :: u64 and v :: "'v option"
  assumes inv: "hm_inv m" and room: "unat (hm_count m) + 1 < length (hm_entries m)"
  defines "e \<equiv> \<lparr>he_key = key, he_value = v, he_psl = 1\<rparr>"
  shows "\<exists>es filled. put_loop (unat (hm_capacity m)) (hm_mask m) key v e (home_slot (hm_mask m) key) (hm_entries m) =
      Some (es, filled, deref (hm_abs m key)) \<and>
    (let m' = m\<lparr>hm_entries := es, hm_count := (if filled then hm_count m + 1 else hm_count m)\<rparr> in
     hm_inv m' \<and> hm_abs m' = (hm_abs m)(key \<mapsto> v))"
proof -
  obtain k where k: "4 \<le> k" "k \<le> 25" "hm_capacity m = 2 ^ k" "hm_mask m = mask k"
      "unat (2 ^ k :: u32) = 2 ^ k" "robin_hood (2 ^ k) (hm_entries m)" "length (hm_entries m) = 2 ^ k"
      "1 < (2 :: nat) ^ k"
    using hm_inv_shape [OF inv] by metis
  let ?es = "hm_entries m" and ?n = "2 ^ k :: nat" and ?h = "unat (hash_u64 key)"
  have nx: "\<And>i. i < ?n \<Longrightarrow> next_slot (mask k) i = Suc i mod ?n" using slots_mod(2) [OF k(2)] .
  have d: "distinct_keys ?es" "card (occupied ?es) < ?n" "unat (hm_count m) = card (occupied ?es)"
    using inv k(7) by (auto simp: hm_inv_def)
  have start: "home_slot (hm_mask m) key = ?h mod ?n" by (simp add: k(4) slots_mod(1) [OF k(2)])
  have keep: "hm_inv (m\<lparr>hm_entries := es, hm_count := c\<rparr>)"
    if "robin_hood ?n es" "distinct_keys es" "unat c = card (occupied es)" "unat c < ?n" for es c
    using that k by (auto simp: hm_inv_def robin_hood_def)
  show ?thesis
  proof (cases "\<exists>i\<in>occupied ?es. he_key (?es ! i) = key")
    case True
    then obtain i where i: "i \<in> occupied ?es" "he_key (?es ! i) = key" by blast
    then obtain p where p: "i < ?n" "he_psl (?es ! i) = Suc p" using k(7) by (auto simp: occupied_def gr0_conv_Suc)
    let ?e = "(?es ! i)\<lparr>he_value := v\<rparr>"
    have lt: "p < ?n" using slot_home(2) [OF k(6) p] by simp
    have put: "put_loop ?n (mask k) key v e (?h mod ?n) ?es = Some (?es[i := ?e], False, deref (hm_abs m key))"
      using put_loop_present [OF k(6) d(1) _ nx p i(2), of 0 ?n e v] lt abs_at(1) [OF inv i(1)] i(2)
      by (simp add: e_def deref_def)
    have rh: "robin_hood ?n (?es[i := ?e])"
      using k(6) p(1) by (auto simp: robin_hood_def nth_list_update slot_ok_def)
    have occ: "occupied (?es[i := ?e]) = occupied ?es" using i(1) p k(7) by (auto simp: occupied_update)
    have others: "key \<notin> fst ` others ?es i" using d(1) distinct_keys_others [of ?es i] i by auto
    have dk: "distinct_keys (?es[i := ?e])"
      using d(1) distinct_keys_others [of "?es[i := ?e]" i] distinct_keys_others [of ?es i] occ i p k(7) by simp
    have abs: "hm_abs (m\<lparr>hm_entries := ?es[i := ?e]\<rparr>) = (hm_abs m)(key \<mapsto> v)"
    proof (rule abs_eqI)
      show "(k', v') \<in> bindings (hm_entries (m\<lparr>hm_entries := ?es[i := ?e]\<rparr>)) \<longleftrightarrow>
          ((hm_abs m)(key \<mapsto> v)) k' = Some v'" for k' v'
        using bindings_others [of "?es[i := ?e]" i] bindings_others [of ?es i] abs_bindings [OF d(1), of k' v']
          others occ i p k(7) by force
    qed (use dk in simp)
    show ?thesis using put keep [OF rh dk, of "hm_count m"] occ d abs start k(3-5)
      by (intro exI [of _ "?es[i := ?e]"] exI [of _ False]) (simp add: Let_def)
  next
    case False
    obtain x where x: "x < ?n" "he_psl (?es ! ((?h mod ?n + x) mod ?n)) = 0"
      using empty_slot_ahead [OF k(7) d(2), of "?h mod ?n"] by auto
    have fresh: "key \<notin> fst ` bindings ?es" using False by (auto simp: bindings_def)
    obtain es where es: "insert_loop ?n (mask k) e (?h mod ?n) ?es = Some es" "robin_hood ?n es" "distinct_keys es"
        "bindings es = insert (key, v) (bindings ?es)" "card (occupied es) = Suc (card (occupied ?es))"
      using insert_home [OF nx k(8,6) d(1,2), of e] fresh by (auto simp: e_def)
    have "he_key (?es ! j) \<noteq> key \<or> he_psl (?es ! j) = 0" if "j < ?n" for j
      using False k(7) that by (auto simp: occupied_def)
    note slot = this
    have other: "he_key (?es ! ((?h mod ?n + t) mod ?n)) \<noteq> key \<or> he_psl (?es ! ((?h mod ?n + t) mod ?n)) = 0" for t
      by (rule slot) simp
    have put: "put_loop ?n (mask k) key v e (?h mod ?n) ?es = Some (es, True, None)"
      using put_loop_absent [OF nx k(8,7), of "?h mod ?n" x ?n key v e] x other es(1) by simp
    have c: "unat (hm_count m + 1) = Suc (card (occupied ?es))"
      using room d(3) k(5,7) unat_less_2p32 [of "2 ^ k"] by (simp add: unat_word_ariths)
    have none: "hm_abs m key = None" using abs_at(2) [OF inv] False by blast
    have abs: "hm_abs (m\<lparr>hm_entries := es, hm_count := hm_count m + 1\<rparr>) = (hm_abs m)(key \<mapsto> v)"
    proof (rule abs_eqI)
      show "(k', v') \<in> bindings (hm_entries (m\<lparr>hm_entries := es, hm_count := hm_count m + 1\<rparr>)) \<longleftrightarrow>
          ((hm_abs m)(key \<mapsto> v)) k' = Some v'" for k' v'
        using es(4) abs_bindings [OF d(1), of k' v'] none by auto
    qed (use es in simp)
    show ?thesis using put keep [OF es(2,3), of "hm_count m + 1"] c es(5) room d(3) k(3-5,7) abs start none
      by (intro exI [of _ es] exI [of _ True]) (simp add: Let_def deref_def)
  qed
qed

lemma put_spec:
  assumes inv: "hm_inv m" and limit: "card (dom (hm_abs m)) < 2 ^ 23"
  shows "\<exists>m'. nxp_hash_map_put True m key v = Some (m', deref (hm_abs m key)) \<and> hm_inv m' \<and>
    hm_abs m' = (hm_abs m)(key \<mapsto> v)"
proof -
  obtain k where k: "4 \<le> k" "k \<le> 25" "hm_capacity m = 2 ^ k" "hm_mask m = mask k"
      "unat (2 ^ k :: u32) = 2 ^ k" "robin_hood (2 ^ k) (hm_entries m)" "length (hm_entries m) = 2 ^ k"
      "1 < (2 :: nat) ^ k"
    using hm_inv_shape [OF inv] by metis
  have cnt: "unat (hm_count m) < 2 ^ 23" using limit dom_abs [OF inv] by simp
  have cap: "(2 :: nat) ^ k \<le> 2 ^ 25" "(2 :: nat) ^ 4 \<le> 2 ^ k" using k(1,2) by (intro power_increasing; simp)+
  have load: "hm_capacity m * 75 \<le> hm_count m * 100 \<longleftrightarrow> 2 ^ k * 75 \<le> unat (hm_count m) * 100"
    using cnt cap k(5) by (simp add: word_le_nat_alt unat_word_ariths k(3))
  obtain m1 where m1: "(if hm_count m * 100 \<ge> hm_capacity m * 75 then hash_map_resize True m else Some (m, True)) =
      Some (m1, True)" "hm_inv m1" "hm_abs m1 = hm_abs m" "unat (hm_count m1) + 1 < length (hm_entries m1)"
  proof (cases "hm_capacity m * 75 \<le> hm_count m * 100")
    case True
    then have "2 ^ k * 75 \<le> unat (hm_count m) * 100" using load by simp
    then have "(2 :: nat) ^ k \<le> 2 ^ 24" using cnt by simp
    then have "hm_capacity m \<le> 2 ^ 24" using k(3,5) by (simp add: word_le_nat_alt)
    then show ?thesis using that resize_spec [OF inv] True by auto
  next
    case False
    then have "unat (hm_count m) + 1 < 2 ^ k" using load cap by simp
    then show ?thesis using that [of m] False inv k(7) by simp
  qed
  show ?thesis using put_loop_spec [OF m1(2,4), of key v] m1(1,3)
    by (auto simp: nxp_hash_map_put_def Let_def)
qed

interpretation hm: key_map nxp_hash_map_get "nxp_hash_map_put True" nxp_hash_map_remove hm_abs hm_inv "2 ^ 23"
  by unfold_locales (simp_all add: get_spec put_spec remove_spec dom_abs)

lemma word_top_bit:
  fixes x :: "'a::len word"
  assumes "bit x t" "\<And>j. bit x j \<Longrightarrow> j \<le> t"
  shows "2 ^ t \<le> unat x" "unat x < 2 ^ Suc t"
proof -
  have "x = take_bit (Suc t) x"
    by (rule bit_eqI) (use assms(2) in \<open>auto simp: bit_take_bit_iff less_Suc_eq_le\<close>)
  then have "unat x = take_bit (Suc t) (unat x)" by (metis unsigned_take_bit_eq)
  then show "unat x < 2 ^ Suc t" by (metis take_bit_nat_less_exp)
  have "odd (unat x div 2 ^ t)" using assms(1) by (simp add: bit_unsigned_iff flip: bit_iff_odd)
  then show "2 ^ t \<le> unat x" by (metis div_less even_zero not_le)
qed

lemma next_power_of_2_u32_spec:
  assumes "16 \<le> v" "v \<le> 2 ^ 25"
  shows "\<exists>k. 4 \<le> k \<and> k \<le> 25 \<and> next_power_of_2_u32 v = 2 ^ k"
proof -
  define m where "m = v - 1"
  have "v \<noteq> 0" using assms(1) by auto
  then have um: "unat m = unat v - 1" by (simp add: m_def unat_minus_one)
  then have b: "15 \<le> unat m" "unat m < 2 ^ 25" using assms by (simp_all add: word_le_nat_alt)
  then have m0: "m \<noteq> 0" by auto
  define a1 where "a1 = m OR drop_bit 1 m"
  define a2 where "a2 = a1 OR drop_bit 2 a1"
  define a3 where "a3 = a2 OR drop_bit 4 a2"
  define a4 where "a4 = a3 OR drop_bit 8 a3"
  define a5 where "a5 = a4 OR drop_bit 16 a4"
  have "bit m i \<longleftrightarrow> (\<exists>d<1. bit m (i + d))" for i by auto
  then have "bit a1 i \<longleftrightarrow> (\<exists>d<2. bit m (i + d))" for i unfolding a1_def by (rule smear_step) simp
  then have "bit a2 i \<longleftrightarrow> (\<exists>d<4. bit m (i + d))" for i unfolding a2_def by (rule smear_step) simp
  then have "bit a3 i \<longleftrightarrow> (\<exists>d<8. bit m (i + d))" for i unfolding a3_def by (rule smear_step) simp
  then have "bit a4 i \<longleftrightarrow> (\<exists>d<16. bit m (i + d))" for i unfolding a4_def by (rule smear_step) simp
  then have "bit a5 i \<longleftrightarrow> (\<exists>d<32. bit m (i + d))" for i unfolding a5_def by (rule smear_step) simp
  then obtain t where t: "a5 = mask (Suc t)" "bit m t" "\<forall>j. bit m j \<longrightarrow> j \<le> t"
    using smear_mask [of a5 m] m0 by auto
  note w = word_top_bit [OF t(2), OF t(3) [rule_format]]
  have "(2 :: nat) ^ t < 2 ^ 25" using w(1) b(2) by (rule le_less_trans)
  then have "t < 25" by (rule power_less_imp_less_exp [rotated]) simp
  moreover have "3 \<le> t"
  proof (rule ccontr)
    assume "\<not> 3 \<le> t"
    then have "(2 :: nat) ^ Suc t \<le> 2 ^ 3" by (intro power_increasing) auto
    then show False using w(2) b(1) by simp
  qed
  moreover have "next_power_of_2_u32 v = 2 ^ Suc t"
    unfolding next_power_of_2_u32_def Let_def m_def [symmetric] a1_def [symmetric] a2_def [symmetric]
      a3_def [symmetric] a4_def [symmetric] a5_def [symmetric] t(1)
    by (simp add: mask_eq_exp_minus_1)
  ultimately show ?thesis by (intro exI [of _ "Suc t"]) simp
qed

lemma create_spec:
  assumes "nxp_hash_map_create True True cap = Some m" "cap \<le> 2 ^ 25"
  shows "hm_inv m" "hm_abs m = Map.empty"
proof -
  define c where "c = (if cap < 16 then 16 else cap)"
  have "16 \<le> c" "c \<le> 2 ^ 25" using assms(2) by (auto simp: c_def not_less)
  then obtain k where k: "4 \<le> k" "k \<le> 25" "next_power_of_2_u32 c = 2 ^ k"
    using next_power_of_2_u32_spec by blast
  have u: "unat (2 ^ k :: u32) = 2 ^ k" using k by (simp add: unsigned_2p_u32)
  have m: "m = \<lparr>hm_entries = replicate (2 ^ k) empty_entry, hm_capacity = 2 ^ k, hm_count = 0, hm_mask = mask k\<rparr>"
    using assms(1) k(3) u by (simp add: nxp_hash_map_create_def c_def [symmetric] Let_def mask_eq_exp_minus_1)
  have t: "robin_hood (2 ^ k) (replicate (2 ^ k) (empty_entry :: 'a nxp_hash_entry))"
    "occupied (replicate (2 ^ k) (empty_entry :: 'a nxp_hash_entry)) = {}"
    "distinct_keys (replicate (2 ^ k) (empty_entry :: 'a nxp_hash_entry))"
    using empty_table [of "2 ^ k"] by simp_all
  then show "hm_inv m" unfolding hm_inv_def m using k(1,2) by auto
  show "hm_abs m = Map.empty" by (simp add: m hm_abs_def empty_entry_def)
qed

section \<open>Properties\<close>

text \<open>C7. The hash map is a map: starting from an empty map, every sequence of fewer than 2^23
  insertions, lookups and removals terminates (no probe or shift loop runs forever) and returns
  exactly what the same operations return on a mathematical map, through all growth of the table, all
  displacements of entries and all backward shifts; at the end the map holds the same bindings and
  its count is their number.\<close>

theorem nxp_hash_map_refines:
  assumes "nxp_hash_map_create True True cap = Some m" "cap \<le> 2 ^ 25" "length ops \<le> 2 ^ 23"
  shows "\<exists>m' rs. run_map nxp_hash_map_get (nxp_hash_map_put True) nxp_hash_map_remove m ops = Some (m', rs) \<and>
    spec_map Map.empty ops = (hm_abs m', rs) \<and> unat (nxp_hash_map_count m') = card (dom (hm_abs m'))"
proof -
  note c = create_spec [OF assms(1,2)]
  obtain m' rs where "run_map nxp_hash_map_get (nxp_hash_map_put True) nxp_hash_map_remove m ops = Some (m', rs)"
      "hm_inv m'" "spec_map (hm_abs m) ops = (hm_abs m', rs)"
    using hm.run_refines [OF c(1), of ops] assms(3) by (auto simp: c(2))
  then show ?thesis using dom_abs [of m'] c(2) by (auto simp: nxp_hash_map_count_def)
qed

theorem nxp_hash_map_refines_witness:
  "\<exists>m' rs. run_map nxp_hash_map_get (nxp_hash_map_put True) nxp_hash_map_remove
      (the (nxp_hash_map_create True True 16)) [Put 7 (Some True), Get 7, Remove 7, Get 7] = Some (m', rs) \<and>
    rs = [None, Some True, Some True, None]"
proof -
  let ?ops = "[Put 7 (Some True), Get 7, Remove 7, Get 7]"
  have c: "nxp_hash_map_create True True 16 = Some (the (nxp_hash_map_create True True 16))"
    by (simp add: nxp_hash_map_create_def Let_def)
  have s: "snd (spec_map Map.empty ?ops) = [None, Some True, Some True, None]" by (simp add: deref_def)
  show ?thesis using nxp_hash_map_refines [OF c, of ?ops] s by auto
qed

end
