(* ===== verification/Nxp_List.thy ===== *)
theory Nxp_List
  imports Nxp_Prelude
begin

text \<open>
  Circular doubly linked lists. The first part is a small library on rings of pointers: a ring
  is the list of the addresses on it, and the pointer surgery of insertion and removal is
  described on that list. The second part is the intrusive list of
  \<^verbatim>\<open>src/util/intrusive_list.h\<close> (a ring through a sentinel node embedded in the list), with
  nodes as addresses of a store. The stream scheduler uses the same library.
\<close>

section \<open>Rings of pointers\<close>

fun chain :: "('p \<Rightarrow> 'p option) \<Rightarrow> ('p \<Rightarrow> 'p option) \<Rightarrow> 'p list \<Rightarrow> bool" where
  "chain nx pv [] = True"
| "chain nx pv [x] = True"
| "chain nx pv (x # y # xs) = (nx x = Some y \<and> pv y = Some x \<and> chain nx pv (y # xs))"

definition ring :: "('p \<Rightarrow> 'p option) \<Rightarrow> ('p \<Rightarrow> 'p option) \<Rightarrow> 'p list \<Rightarrow> bool" where
  "ring nx pv xs = (distinct xs \<and> (xs \<noteq> [] \<longrightarrow> chain nx pv (xs @ [hd xs])))"

lemma chain_append:
  "chain nx pv (xs @ y # ys) = (chain nx pv (xs @ [y]) \<and> chain nx pv (y # ys))"
  by (induction nx pv xs rule: chain.induct) (cases ys; auto)+

lemma chain_cong:
  assumes "\<forall>x \<in> set (butlast xs). nx' x = nx x" and "\<forall>x \<in> set (tl xs). pv' x = pv x"
  shows "chain nx' pv' xs = chain nx pv xs"
  using assms by (induction nx pv xs rule: chain.induct) (auto split: if_splits)

lemma ring_Nil [simp]: "ring nx pv []"
  by (simp add: ring_def)

lemma ring_distinct: "ring nx pv xs \<Longrightarrow> distinct xs"
  by (simp add: ring_def)

lemma ring_Cons: "ring nx pv (x # xs) = (distinct (x # xs) \<and> chain nx pv (x # xs @ [x]))"
  by (simp add: ring_def)

lemma ring_rotate1: "ring nx pv (x # xs) = ring nx pv (xs @ [x])"
proof (cases xs)
  case (Cons y ys)
  have "chain nx pv (x # y # ys @ [x]) = (chain nx pv [x, y] \<and> chain nx pv (y # ys @ [x]))"
    by simp
  moreover have "chain nx pv ((y # ys) @ x # [y]) = (chain nx pv ((y # ys) @ [x]) \<and> chain nx pv [x, y])"
    by (rule chain_append)
  ultimately show ?thesis using Cons by (auto simp: ring_def)
qed simp

lemma ring_rotate: "ring nx pv (xs @ ys) = ring nx pv (ys @ xs)"
proof (induction xs arbitrary: ys)
  case (Cons x xs)
  have "ring nx pv ((x # xs) @ ys) = ring nx pv (xs @ ys @ [x])"
    using ring_rotate1 [of nx pv x "xs @ ys"] by simp
  also have "\<dots> = ring nx pv ((ys @ [x]) @ xs)" by (rule Cons)
  finally show ?case by simp
qed simp

lemma ring_cong:
  assumes "\<forall>x \<in> set xs. nx' x = nx x \<and> pv' x = pv x"
  shows "ring nx' pv' xs = ring nx pv xs"
proof -
  have "chain nx' pv' (xs @ [hd xs]) = chain nx pv (xs @ [hd xs])" if "xs \<noteq> []"
    using that assms by (intro chain_cong) (auto simp: butlast_append tl_append split: list.splits)
  then show ?thesis by (auto simp: ring_def)
qed

lemma ring_next: "ring nx pv (x # xs) \<Longrightarrow> nx x = Some (hd (xs @ [x]))"
  by (cases xs) (auto simp: ring_Cons)

lemma ring_prev: "ring nx pv (x # xs) \<Longrightarrow> pv x = Some (last (x # xs))"
proof -
  assume "ring nx pv (x # xs)"
  moreover have "x # xs @ [x] = butlast (x # xs) @ last (x # xs) # [x]"
    using append_butlast_last_id [of "x # xs"] by (metis append.assoc append_Cons append_Nil list.distinct(1))
  ultimately have "chain nx pv (butlast (x # xs) @ last (x # xs) # [x])"
    by (simp only: ring_Cons)
  then show ?thesis by (subst (asm) chain_append) simp
qed

lemma ring_single: "nx x = Some x \<Longrightarrow> pv x = Some x \<Longrightarrow> ring nx pv [x]"
  by (simp add: ring_def)

text \<open>Splicing a fresh node after \<open>a\<close>, and unlinking a node.\<close>

lemma ring_insert:
  assumes "ring nx pv (a # ys)" and "s \<notin> set (a # ys)" and "nx a = Some b"
  shows "ring (nx(s \<mapsto> b, a \<mapsto> s)) (pv(s \<mapsto> a, b \<mapsto> s)) (a # s # ys)"
proof -
  let ?n = "nx(s \<mapsto> b, a \<mapsto> s)" and ?p = "pv(s \<mapsto> a, b \<mapsto> s)"
  have b: "b = hd (ys @ [a])" using ring_next [OF assms(1)] assms(3) by simp
  have "chain ?n ?p (ys @ [a])"
  proof (cases ys)
    case (Cons y zs)
    with assms b have "chain nx pv (ys @ [a])" "b = y" "distinct (a # ys)" by (auto simp: ring_Cons)
    then show ?thesis
      using Cons assms(2) by (subst chain_cong [where nx = nx and pv = pv]) (auto simp: butlast_append)
  qed simp
  then show ?thesis
    using assms b by (cases ys) (auto simp: ring_Cons)
qed

lemma ring_remove:
  assumes "ring nx pv (s # ys)" and "ys \<noteq> []" and "nx s = Some b" and "pv s = Some a"
  shows "ring (nx(a \<mapsto> b)) (pv(b \<mapsto> a)) ys"
proof -
  have b: "b = hd ys" using ring_next [OF assms(1)] assms(2,3) by (cases ys) auto
  have a: "a = last ys" using ring_prev [OF assms(1)] assms(2,4) by simp
  have d: "distinct ys" using assms(1) by (simp add: ring_def)
  obtain zs where ys: "ys = zs @ [a]" using a assms(2) by (metis append_butlast_last_id)
  have "chain nx pv ys"
    using assms(1,2) chain_append [of nx pv "s # zs" a "[s]"] ys
    by (cases zs) (auto simp: ring_Cons)
  then have "chain (nx(a \<mapsto> b)) (pv(b \<mapsto> a)) ys"
    using d ys b by (subst chain_cong [where nx = nx and pv = pv]) (cases zs; auto)+
  then have "chain (nx(a \<mapsto> b)) (pv(b \<mapsto> a)) (zs @ a # [b])"
    using ys by (subst chain_append) simp
  then show ?thesis using d b ys assms(2) by (auto simp: ring_def)
qed

section \<open>The intrusive list\<close>

type_synonym node_ptr = nat

record nxp_list_node =
  node_prev :: "node_ptr option"
  node_next :: "node_ptr option"

text \<open>The sentinel is embedded in the C structure; the model keeps its address.\<close>

record nxp_list =
  list_head :: node_ptr
  list_count :: u64

type_synonym node_store = "node_ptr \<rightharpoonup> nxp_list_node"

definition upd_node :: "node_ptr \<Rightarrow> (nxp_list_node \<Rightarrow> nxp_list_node) \<Rightarrow> node_store \<Rightarrow> node_store option" where
  "upd_node p f h = (case h p of None \<Rightarrow> None | Some n \<Rightarrow> Some (h(p \<mapsto> f n)))"

definition nxp_list_init :: "node_store \<Rightarrow> node_ptr \<Rightarrow> node_store \<times> nxp_list" where
  "nxp_list_init h a =
     (h(a \<mapsto> \<lparr>node_prev = Some a, node_next = Some a\<rparr>), \<lparr>list_head = a, list_count = 0\<rparr>)"

definition nxp_list_is_empty :: "node_store \<Rightarrow> nxp_list \<Rightarrow> bool option" where
  "nxp_list_is_empty h l = do { n \<leftarrow> h (list_head l); Some (node_next n = Some (list_head l)) }"

definition nxp_list_count :: "nxp_list \<Rightarrow> u64" where
  "nxp_list_count l = list_count l"

definition nxp_list_insert_after ::
    "node_store \<Rightarrow> nxp_list \<Rightarrow> node_ptr \<Rightarrow> node_ptr \<Rightarrow> (node_store \<times> nxp_list) option" where
  "nxp_list_insert_after h l after node = do {
     h \<leftarrow> upd_node node (node_prev_update (\<lambda>_. Some after)) h;
     a \<leftarrow> h after;
     h \<leftarrow> upd_node node (node_next_update (\<lambda>_. node_next a)) h;
     a \<leftarrow> h after;
     nxt \<leftarrow> node_next a;
     h \<leftarrow> upd_node nxt (node_prev_update (\<lambda>_. Some node)) h;
     h \<leftarrow> upd_node after (node_next_update (\<lambda>_. Some node)) h;
     Some (h, l\<lparr>list_count := list_count l + 1\<rparr>) }"

definition nxp_list_push_front ::
    "node_store \<Rightarrow> nxp_list \<Rightarrow> node_ptr \<Rightarrow> (node_store \<times> nxp_list) option" where
  "nxp_list_push_front h l node = nxp_list_insert_after h l (list_head l) node"

definition nxp_list_push_back ::
    "node_store \<Rightarrow> nxp_list \<Rightarrow> node_ptr \<Rightarrow> (node_store \<times> nxp_list) option" where
  "nxp_list_push_back h l node = do {
     s \<leftarrow> h (list_head l);
     last \<leftarrow> node_prev s;
     nxp_list_insert_after h l last node }"

definition nxp_list_remove ::
    "node_store \<Rightarrow> nxp_list \<Rightarrow> node_ptr \<Rightarrow> (node_store \<times> nxp_list) option" where
  "nxp_list_remove h l node = do {
     n \<leftarrow> h node;
     p \<leftarrow> node_prev n;
     h \<leftarrow> upd_node p (node_next_update (\<lambda>_. node_next n)) h;
     n \<leftarrow> h node;
     nxt \<leftarrow> node_next n;
     h \<leftarrow> upd_node nxt (node_prev_update (\<lambda>_. node_prev n)) h;
     h \<leftarrow> upd_node node (node_prev_update (\<lambda>_. None)) h;
     h \<leftarrow> upd_node node (node_next_update (\<lambda>_. None)) h;
     Some (h, l\<lparr>list_count := list_count l - 1\<rparr>) }"

definition nxp_list_pop_front ::
    "node_store \<Rightarrow> nxp_list \<Rightarrow> (node_ptr option \<times> node_store \<times> nxp_list) option" where
  "nxp_list_pop_front h l = do {
     e \<leftarrow> nxp_list_is_empty h l;
     if e then Some (None, h, l)
     else do {
       s \<leftarrow> h (list_head l);
       node \<leftarrow> node_next s;
       (h, l) \<leftarrow> nxp_list_remove h l node;
       Some (Some node, h, l) } }"

text \<open>The walk of \<^verbatim>\<open>nxp_list_for_each\<close>, bounded by fuel.\<close>

fun list_walk :: "nat \<Rightarrow> node_store \<Rightarrow> nxp_list \<Rightarrow> node_ptr \<Rightarrow> node_ptr list option" where
  "list_walk 0 h l p = None"
| "list_walk (Suc f) h l p =
     (if p = list_head l then Some []
      else do { n \<leftarrow> h p; q \<leftarrow> node_next n; xs \<leftarrow> list_walk f h l q; Some (p # xs) })"

definition nxp_list_for_each :: "nat \<Rightarrow> node_store \<Rightarrow> nxp_list \<Rightarrow> node_ptr list option" where
  "nxp_list_for_each f h l = do { s \<leftarrow> h (list_head l); p \<leftarrow> node_next s; list_walk f h l p }"

text \<open>The list represents the sequence \<open>xs\<close> of nodes.\<close>

definition list_repr :: "node_store \<Rightarrow> nxp_list \<Rightarrow> node_ptr list \<Rightarrow> bool" where
  "list_repr h l xs =
     (set (list_head l # xs) \<subseteq> dom h \<and> list_count l = of_nat (length xs) \<and>
      ring (\<lambda>p. h p \<bind> node_next) (\<lambda>p. h p \<bind> node_prev) (list_head l # xs))"

lemma nxp_list_insert_after_links:
  assumes "h node = Some n" "h a = Some an" "node_next an = Some b" "h b = Some bn" "node \<noteq> a" "node \<noteq> b"
  shows "\<exists>h'. nxp_list_insert_after h l a node = Some (h', l\<lparr>list_count := list_count l + 1\<rparr>) \<and>
     dom h' = dom h \<and>
     (\<lambda>p. h' p \<bind> node_next) = (\<lambda>p. h p \<bind> node_next)(node \<mapsto> b, a \<mapsto> node) \<and>
     (\<lambda>p. h' p \<bind> node_prev) = (\<lambda>p. h p \<bind> node_prev)(node \<mapsto> a, b \<mapsto> node)"
  using assms
  by (cases "a = b") (simp_all add: nxp_list_insert_after_def upd_node_def domD, auto simp: fun_eq_iff)

lemma nxp_list_remove_links:
  assumes "h node = Some n" "node_prev n = Some a" "node_next n = Some b" "h a = Some an" "h b = Some bn"
    "node \<noteq> a" "node \<noteq> b"
  shows "\<exists>h'. nxp_list_remove h l node = Some (h', l\<lparr>list_count := list_count l - 1\<rparr>) \<and>
     dom h' = dom h \<and>
     (\<lambda>p. h' p \<bind> node_next) = ((\<lambda>p. h p \<bind> node_next)(a \<mapsto> b))(node := None) \<and>
     (\<lambda>p. h' p \<bind> node_prev) = ((\<lambda>p. h p \<bind> node_prev)(b \<mapsto> a))(node := None)"
  using assms
  by (cases "a = b") (simp_all add: nxp_list_remove_def upd_node_def domD, auto simp: fun_eq_iff)

lemma list_repr_insert_after:
  assumes r: "list_repr h l xs" and s: "list_head l # xs = us @ a # vs"
    and n: "node \<in> dom h" "node \<notin> set (list_head l # xs)"
  shows "\<exists>h' l'. nxp_list_insert_after h l a node = Some (h', l') \<and> dom h' = dom h \<and>
     list_repr h' l' (List.tl (us @ a # node # vs))"
proof -
  let ?nx = "\<lambda>p. h p \<bind> node_next" and ?pv = "\<lambda>p. h p \<bind> node_prev"
  have ring: "ring ?nx ?pv (a # vs @ us)"
    using r s ring_rotate [of ?nx ?pv us "a # vs"] by (simp add: list_repr_def)
  define b where "b = hd (vs @ us @ [a])"
  have nb: "?nx a = Some b" using ring_next [OF ring] by (simp add: b_def)
  have "b \<in> set (us @ a # vs)" unfolding b_def by (cases vs; cases us) auto
  then have b: "b \<in> dom h" "node \<noteq> b" using r n unfolding list_repr_def s by auto
  have a: "a \<in> dom h" "node \<noteq> a" using r n unfolding list_repr_def s by auto
  obtain an m bn where am: "h a = Some an" "node_next an = Some b" "h node = Some m" "h b = Some bn"
    using a b nb n(1) by auto
  obtain h' where h': "nxp_list_insert_after h l a node = Some (h', l\<lparr>list_count := list_count l + 1\<rparr>)"
      "dom h' = dom h" "(\<lambda>p. h' p \<bind> node_next) = ?nx(node \<mapsto> b, a \<mapsto> node)"
      "(\<lambda>p. h' p \<bind> node_prev) = ?pv(node \<mapsto> a, b \<mapsto> node)"
    using nxp_list_insert_after_links [OF am(3,1,2,4) a(2) b(2)] by blast
  have "ring (\<lambda>p. h' p \<bind> node_next) (\<lambda>p. h' p \<bind> node_prev) (a # node # vs @ us)"
    unfolding h'(3,4) using n(2) unfolding s by (intro ring_insert [OF ring _ nb]) auto
  then have "ring (\<lambda>p. h' p \<bind> node_next) (\<lambda>p. h' p \<bind> node_prev) (us @ a # node # vs)"
    using ring_rotate [of _ _ us "a # node # vs"] by simp
  moreover have e: "us @ a # node # vs = list_head l # List.tl (us @ a # node # vs)"
    using s by (cases us) auto
  moreover have "set (us @ a # node # vs) \<subseteq> dom h"
    using r n(1) unfolding list_repr_def s by simp
  moreover have "length (us @ a # node # vs) = Suc (length (list_head l # xs))" unfolding s by simp
  ultimately have "list_repr h' (l\<lparr>list_count := list_count l + 1\<rparr>) (List.tl (us @ a # node # vs))"
    using r h'(2) by (simp add: list_repr_def)
  then show ?thesis using h'(1,2) by blast
qed

lemma list_repr_remove:
  assumes r: "list_repr h l xs" and s: "xs = us @ node # vs"
  shows "\<exists>h' l'. nxp_list_remove h l node = Some (h', l') \<and> dom h' = dom h \<and>
     list_head l' = list_head l \<and> list_repr h' l' (us @ vs)"
proof -
  let ?nx = "\<lambda>p. h p \<bind> node_next" and ?pv = "\<lambda>p. h p \<bind> node_prev"
  let ?ys = "vs @ list_head l # us"
  have ring: "ring ?nx ?pv (node # ?ys)"
    using r s ring_rotate [of ?nx ?pv "list_head l # us" "node # vs"] by (simp add: list_repr_def)
  have d: "node \<notin> set ?ys" using ring_distinct [OF ring] by auto
  define a b where "a = last ?ys" and "b = hd ?ys"
  have ab: "?nx node = Some b" "?pv node = Some a"
    using ring_next [OF ring] ring_prev [OF ring] by (auto simp: a_def b_def hd_append)
  have m: "a \<in> set ?ys" "b \<in> set ?ys" unfolding a_def b_def by (intro last_in_set hd_in_set; simp)+
  have sub: "set ?ys \<subseteq> dom h" "node \<in> dom h" using r s by (auto simp: list_repr_def)
  obtain n where n: "h node = Some n" "node_next n = Some b" "node_prev n = Some a"
    using ab sub(2) by auto
  obtain an bn where e: "h a = Some an" "h b = Some bn" using m sub(1) by blast
  have e': "node \<noteq> a" "node \<noteq> b" using m d by blast+
  obtain h' where h': "nxp_list_remove h l node = Some (h', l\<lparr>list_count := list_count l - 1\<rparr>)"
      "dom h' = dom h" "(\<lambda>p. h' p \<bind> node_next) = (?nx(a \<mapsto> b))(node := None)"
      "(\<lambda>p. h' p \<bind> node_prev) = (?pv(b \<mapsto> a))(node := None)"
    using nxp_list_remove_links [OF n(1,3,2) e e'] by blast
  have "ring (?nx(a \<mapsto> b)) (?pv(b \<mapsto> a)) ?ys" by (rule ring_remove [OF ring _ ab]) simp
  then have "ring (\<lambda>p. h' p \<bind> node_next) (\<lambda>p. h' p \<bind> node_prev) ?ys"
    unfolding h'(3,4) using d by (subst ring_cong) auto
  then have "ring (\<lambda>p. h' p \<bind> node_next) (\<lambda>p. h' p \<bind> node_prev) (list_head l # us @ vs)"
    using ring_rotate [of _ _ vs "list_head l # us"] by simp
  then show ?thesis using h'(1,2) r s by (auto simp: list_repr_def)
qed

lemma list_repr_sentinel:
  "list_repr h l xs \<Longrightarrow> \<exists>s. h (list_head l) = Some s \<and>
     node_next s = Some (hd (xs @ [list_head l])) \<and> node_prev s = Some (last (list_head l # xs))"
  using ring_next ring_prev by (fastforce simp: list_repr_def)

lemma list_repr_init: "list_repr (fst (nxp_list_init h a)) (snd (nxp_list_init h a)) []"
  by (simp add: list_repr_def nxp_list_init_def ring_def)

lemma list_repr_is_empty: "list_repr h l xs \<Longrightarrow> nxp_list_is_empty h l = Some (xs = [])"
proof -
  assume r: "list_repr h l xs"
  then have "list_head l \<notin> set xs" by (auto simp: list_repr_def ring_def)
  then show ?thesis
    using list_repr_sentinel [OF r] by (cases xs) (auto simp: nxp_list_is_empty_def)
qed

lemma list_repr_push_front:
  assumes "list_repr h l xs" "node \<in> dom h" "node \<notin> set (list_head l # xs)"
  shows "\<exists>h' l'. nxp_list_push_front h l node = Some (h', l') \<and> list_repr h' l' (node # xs)"
  using list_repr_insert_after [OF assms(1) _ assms(2,3), of "[]"]
  by (auto simp: nxp_list_push_front_def)

lemma list_repr_push_back:
  assumes r: "list_repr h l xs" and n: "node \<in> dom h" "node \<notin> set (list_head l # xs)"
  shows "\<exists>h' l'. nxp_list_push_back h l node = Some (h', l') \<and> list_repr h' l' (xs @ [node])"
proof -
  let ?y = "last (list_head l # xs)"
  have e: "list_head l # xs = butlast (list_head l # xs) @ ?y # []"
    using append_butlast_last_id [of "list_head l # xs"] by simp
  have "butlast (list_head l # xs) @ ?y # node # [] = (butlast (list_head l # xs) @ [?y]) @ [node]"
    by simp
  also have "\<dots> = list_head l # xs @ [node]"
    by (subst append_butlast_last_id) simp_all
  finally have t: "List.tl (butlast (list_head l # xs) @ ?y # node # []) = xs @ [node]" by simp
  obtain h' l' where "nxp_list_insert_after h l ?y node = Some (h', l')" "list_repr h' l' (xs @ [node])"
    using list_repr_insert_after [OF r e n] unfolding t by blast
  then show ?thesis
    using list_repr_sentinel [OF r] by (auto simp: nxp_list_push_back_def simp del: last.simps)
qed

lemma list_repr_pop_front:
  assumes "list_repr h l (x # xs)"
  shows "\<exists>h' l'. nxp_list_pop_front h l = Some (Some x, h', l') \<and> list_repr h' l' xs"
  using list_repr_remove [OF assms, of "[]" x xs] list_repr_sentinel [OF assms]
    list_repr_is_empty [OF assms]
  by (auto simp: nxp_list_pop_front_def)

lemma list_walk_chain:
  assumes "chain (\<lambda>p. h p \<bind> node_next) pv (xs @ [list_head l])" "list_head l \<notin> set xs" "length xs < f"
  shows "list_walk f h l (hd (xs @ [list_head l])) = Some xs"
  using assms
proof (induction xs arbitrary: f)
  case (Cons x xs)
  obtain g where "f = Suc g" using Cons.prems(3) by (cases f) auto
  with Cons show ?case by (cases xs) (auto simp: bind_Some_iff split: option.splits bind_splits)
qed (auto elim: less_natE)

lemma list_repr_for_each:
  assumes r: "list_repr h l xs" and f: "length xs < f"
  shows "nxp_list_for_each f h l = Some xs"
proof -
  have "chain (\<lambda>p. h p \<bind> node_next) (\<lambda>p. h p \<bind> node_prev) (xs @ [list_head l])"
      "list_head l \<notin> set xs"
    using r by (cases xs; auto simp: list_repr_def ring_Cons)+
  then show ?thesis
    using list_walk_chain f list_repr_sentinel [OF r] by (auto simp: nxp_list_for_each_def)
qed

text \<open>C38. The intrusive list is a sequence: a list that represents the nodes \<open>xs\<close> reports whether it
  is empty and how many nodes it has, walks exactly \<open>xs\<close> in order, and pushing a fresh node to
  the front or the back, removing any of its nodes and popping the front give a list that
  represents the sequence changed in the same way, with no null or dangling pointer followed.
\<close>

theorem nxp_list_refines:
  assumes "list_repr h l xs" and "length xs < f"
    and "node \<in> dom h" and "node \<notin> set (list_head l # xs)"
  shows "nxp_list_is_empty h l = Some (xs = []) \<and> nxp_list_count l = of_nat (length xs) \<and>
    nxp_list_for_each f h l = Some xs \<and>
    (\<exists>h' l'. nxp_list_push_front h l node = Some (h', l') \<and> list_repr h' l' (node # xs)) \<and>
    (\<exists>h' l'. nxp_list_push_back h l node = Some (h', l') \<and> list_repr h' l' (xs @ [node])) \<and>
    (\<forall>x \<in> set xs. \<exists>h' l'. nxp_list_remove h l x = Some (h', l') \<and> list_repr h' l' (remove1 x xs)) \<and>
    (case xs of [] \<Rightarrow> nxp_list_pop_front h l = Some (None, h, l)
     | x # ys \<Rightarrow> \<exists>h' l'. nxp_list_pop_front h l = Some (Some x, h', l') \<and> list_repr h' l' ys)"
proof -
  have d: "distinct xs" using assms(1) by (simp add: list_repr_def ring_def)
  have "\<exists>h' l'. nxp_list_remove h l x = Some (h', l') \<and> list_repr h' l' (remove1 x xs)" if "x \<in> set xs" for x
  proof -
    obtain us vs where "xs = us @ x # vs" using split_list [OF \<open>x \<in> set xs\<close>] by blast
    with d list_repr_remove [OF assms(1) this] show ?thesis by (auto simp: remove1_append)
  qed
  moreover have "case xs of [] \<Rightarrow> nxp_list_pop_front h l = Some (None, h, l)
     | x # ys \<Rightarrow> \<exists>h' l'. nxp_list_pop_front h l = Some (Some x, h', l') \<and> list_repr h' l' ys"
  proof (cases xs)
    case Nil
    then show ?thesis using list_repr_is_empty [OF assms(1)] by (simp add: nxp_list_pop_front_def)
  next
    case (Cons x ys)
    then show ?thesis using list_repr_pop_front [of h l x ys] assms(1) by simp
  qed
  moreover have "nxp_list_count l = of_nat (length xs)"
    using assms(1) by (simp add: nxp_list_count_def list_repr_def)
  ultimately show ?thesis
    using list_repr_is_empty [OF assms(1)] list_repr_for_each [OF assms(1,2)]
      list_repr_push_front [OF assms(1,3,4)] list_repr_push_back [OF assms(1,3,4)] by blast
qed

text \<open>A store with a sentinel, two linked nodes and a loose one.\<close>

definition tiny_list :: "node_store \<times> nxp_list" where
  "tiny_list = ([0 \<mapsto> \<lparr>node_prev = Some 2, node_next = Some 1\<rparr>, 1 \<mapsto> \<lparr>node_prev = Some 0, node_next = Some 2\<rparr>,
     2 \<mapsto> \<lparr>node_prev = Some 1, node_next = Some 0\<rparr>, 3 \<mapsto> \<lparr>node_prev = None, node_next = None\<rparr>],
     \<lparr>list_head = 0, list_count = 2\<rparr>)"

theorem nxp_list_refines_witness:
  "nxp_list_for_each 3 (fst tiny_list) (snd tiny_list) = Some [1, 2] \<and>
   (\<exists>h' l'. nxp_list_push_back (fst tiny_list) (snd tiny_list) 3 = Some (h', l') \<and> list_repr h' l' [1, 2, 3]) \<and>
   (\<exists>h' l'. nxp_list_remove (fst tiny_list) (snd tiny_list) 2 = Some (h', l') \<and> list_repr h' l' [1])"
proof -
  have "list_repr (fst tiny_list) (snd tiny_list) [1, 2]"
    by (simp add: list_repr_def tiny_list_def ring_def)
  from nxp_list_refines [OF this, of 3 3] show ?thesis by (simp add: tiny_list_def)
qed

end
