(* ===== verification/Nxp_Sched.thy ===== *)
theory Nxp_Sched
  imports Nxp_Stream Nxp_List
begin

text \<open>
  The stream scheduler of \<^verbatim>\<open>src/core/scheduler.c\<close>: a circular doubly linked list through the
  streams of a connection. The streams live in a store indexed by address; the fields of the
  connection the scheduler works on are a record that the connection's record extends. The
  theory shows that the list is a round-robin queue and that no stream in it starves.
\<close>

section \<open>Model\<close>

record stream_pool =
  stream_mem :: "stream_ptr \<rightharpoonup> nxp_stream_s"
  sched_head :: "stream_ptr option"

text \<open>A write through a stream pointer; \<^term>\<open>None\<close> would be a write through a dangling one.\<close>

definition upd_stream ::
    "stream_ptr \<Rightarrow> (nxp_stream_s \<Rightarrow> nxp_stream_s) \<Rightarrow> 'a stream_pool_scheme \<Rightarrow> 'a stream_pool_scheme option" where
  "upd_stream p f c =
     (case stream_mem c p of None \<Rightarrow> None
      | Some s \<Rightarrow> Some (c\<lparr>stream_mem := (stream_mem c)(p \<mapsto> f s)\<rparr>))"

definition nxp_sched_add :: "'a stream_pool_scheme \<Rightarrow> stream_ptr \<Rightarrow> 'a stream_pool_scheme option" where
  "nxp_sched_add c s = do {
     st \<leftarrow> stream_mem c s;
     if scheduled st then Some c
     else do {
       c \<leftarrow> (case sched_head c of
               None \<Rightarrow> do {
                 c \<leftarrow> upd_stream s (sched_next_update (\<lambda>_. Some s)) c;
                 c \<leftarrow> upd_stream s (sched_prev_update (\<lambda>_. Some s)) c;
                 Some (c\<lparr>sched_head := Some s\<rparr>) }
             | Some h \<Rightarrow> do {
                 hst \<leftarrow> stream_mem c h;
                 tail \<leftarrow> sched_prev hst;
                 c \<leftarrow> upd_stream s (sched_next_update (\<lambda>_. Some h)) c;
                 c \<leftarrow> upd_stream s (sched_prev_update (\<lambda>_. Some tail)) c;
                 c \<leftarrow> upd_stream tail (sched_next_update (\<lambda>_. Some s)) c;
                 upd_stream h (sched_prev_update (\<lambda>_. Some s)) c });
       upd_stream s (scheduled_update (\<lambda>_. True)) c } }"

definition nxp_sched_remove :: "'a stream_pool_scheme \<Rightarrow> stream_ptr \<Rightarrow> 'a stream_pool_scheme option" where
  "nxp_sched_remove c s = do {
     st \<leftarrow> stream_mem c s;
     if \<not> scheduled st then Some c
     else do {
       c \<leftarrow> (if sched_next st = Some s then Some (c\<lparr>sched_head := None\<rparr>)
             else do {
               p \<leftarrow> sched_prev st;
               c \<leftarrow> upd_stream p (sched_next_update (\<lambda>_. sched_next st)) c;
               n \<leftarrow> sched_next st;
               c \<leftarrow> upd_stream n (sched_prev_update (\<lambda>_. sched_prev st)) c;
               Some (if sched_head c = Some s then c\<lparr>sched_head := sched_next st\<rparr> else c) });
       c \<leftarrow> upd_stream s (sched_next_update (\<lambda>_. None)) c;
       c \<leftarrow> upd_stream s (sched_prev_update (\<lambda>_. None)) c;
       upd_stream s (scheduled_update (\<lambda>_. False)) c } }"

definition stream_has_data :: "nxp_stream_s \<Rightarrow> bool" where
  "stream_has_data s =
     (\<not> (nxp_stream_unsent s = 0 \<and> \<not> (snd_fin (st_send s) \<and> \<not> fin_sent (st_send s))))"

definition nxp_sched_next ::
    "'a stream_pool_scheme \<Rightarrow> (stream_ptr option \<times> 'a stream_pool_scheme) option" where
  "nxp_sched_next c =
     (case sched_head c of
        None \<Rightarrow> Some (None, c)
      | Some s \<Rightarrow> do {
          st \<leftarrow> stream_mem c s;
          let c = c\<lparr>sched_head := sched_next st\<rparr> in do {
          c \<leftarrow> (if \<not> stream_has_data st then nxp_sched_remove c s else Some c);
          Some (Some s, c) } })"

section \<open>The queue the list represents\<close>

abbreviation (input) links_next :: "'a stream_pool_scheme \<Rightarrow> stream_ptr \<Rightarrow> stream_ptr option" where
  "links_next c \<equiv> (\<lambda>p. stream_mem c p \<bind> sched_next)"

abbreviation (input) links_prev :: "'a stream_pool_scheme \<Rightarrow> stream_ptr \<Rightarrow> stream_ptr option" where
  "links_prev c \<equiv> (\<lambda>p. stream_mem c p \<bind> sched_prev)"

definition sched_repr :: "'a stream_pool_scheme \<Rightarrow> stream_ptr list \<Rightarrow> bool" where
  "sched_repr c xs =
     (sched_head c = (case xs of [] \<Rightarrow> None | x # _ \<Rightarrow> Some x) \<and> set xs \<subseteq> dom (stream_mem c) \<and>
      ring (links_next c) (links_prev c) xs \<and>
      (\<forall>p s. stream_mem c p = Some s \<longrightarrow> scheduled s = (p \<in> set xs)))"

text \<open>What of a stream the scheduler must not touch: everything but its links.\<close>

definition unlinked :: "nxp_stream_s \<Rightarrow> nxp_stream_s" where
  "unlinked s = s\<lparr>sched_next := None, sched_prev := None, scheduled := False\<rparr>"

definition pool_data :: "'a stream_pool_scheme \<Rightarrow> stream_ptr \<rightharpoonup> nxp_stream_s" where
  "pool_data c = (\<lambda>p. map_option unlinked (stream_mem c p))"

lemma unlinked_simps [simp]:
  "unlinked (s\<lparr>sched_next := a\<rparr>) = unlinked s" "unlinked (s\<lparr>sched_prev := a\<rparr>) = unlinked s"
  "unlinked (s\<lparr>scheduled := b\<rparr>) = unlinked s"
  by (simp_all add: unlinked_def)

lemma stream_has_data_unlinked [simp]: "stream_has_data (unlinked s) = stream_has_data s"
  by (simp add: stream_has_data_def unlinked_def nxp_stream_unsent_def)

lemma stream_has_data_eqI: "unlinked s = unlinked t \<Longrightarrow> stream_has_data s = stream_has_data t"
  by (metis stream_has_data_unlinked)

lemma pool_data_dom: "pool_data c' = pool_data c \<Longrightarrow> dom (stream_mem c') = dom (stream_mem c)"
  by (auto simp: pool_data_def fun_eq_iff dom_def) (metis map_option_is_None option.exhaust)+

text \<open>The effect of each operation on the links.\<close>

lemma sched_add_links:
  assumes "stream_mem c s = Some st" "\<not> scheduled st" "sched_head c = Some h" "stream_mem c h = Some hst"
    "sched_prev hst = Some t" "stream_mem c t = Some tst" "s \<noteq> h" "s \<noteq> t"
  shows "\<exists>m. nxp_sched_add c s = Some (c\<lparr>stream_mem := m\<rparr>) \<and>
     (\<lambda>p. m p \<bind> sched_next) = (links_next c)(s \<mapsto> h, t \<mapsto> s) \<and>
     (\<lambda>p. m p \<bind> sched_prev) = (links_prev c)(s \<mapsto> t, h \<mapsto> s) \<and>
     (\<lambda>p. map_option scheduled (m p)) = (\<lambda>p. map_option scheduled (stream_mem c p))(s \<mapsto> True) \<and>
     (\<lambda>p. map_option unlinked (m p)) = pool_data c"
  using assms
  by (cases "h = t") (simp_all add: nxp_sched_add_def upd_stream_def pool_data_def, auto simp: fun_eq_iff)

lemma sched_remove_links:
  assumes "stream_mem c s = Some st" "scheduled st" "sched_next st = Some n" "sched_prev st = Some p"
    "stream_mem c n = Some nst" "stream_mem c p = Some pst" "s \<noteq> n" "s \<noteq> p"
  shows "\<exists>m. nxp_sched_remove c s =
       Some (c\<lparr>sched_head := (if sched_head c = Some s then Some n else sched_head c), stream_mem := m\<rparr>) \<and>
     (\<lambda>q. m q \<bind> sched_next) = ((links_next c)(p \<mapsto> n))(s := None) \<and>
     (\<lambda>q. m q \<bind> sched_prev) = ((links_prev c)(n \<mapsto> p))(s := None) \<and>
     (\<lambda>q. map_option scheduled (m q)) = (\<lambda>q. map_option scheduled (stream_mem c q))(s \<mapsto> False) \<and>
     (\<lambda>q. map_option unlinked (m q)) = pool_data c"
  using assms
  by (cases "n = p"; cases "sched_head c = Some s")
     (simp_all add: nxp_sched_remove_def upd_stream_def pool_data_def, auto simp: fun_eq_iff)

lemma scheduled_iff:
  "(\<lambda>p. map_option scheduled (m p)) = (\<lambda>p. map_option scheduled (m' p))(s \<mapsto> b) \<Longrightarrow>
   \<forall>p t. m' p = Some t \<longrightarrow> scheduled t = (p \<in> A) \<Longrightarrow> p \<noteq> s \<Longrightarrow> m p = Some t \<Longrightarrow> scheduled t = (p \<in> A)"
  "(\<lambda>p. map_option scheduled (m p)) = (\<lambda>p. map_option scheduled (m' p))(s \<mapsto> b) \<Longrightarrow> m s = Some t \<Longrightarrow> scheduled t = b"
  by (metis fun_upd_other map_option_eq_Some option.simps(9)) (metis fun_upd_same option.inject option.simps(9))

text \<open>The scheduler changes its own fields of the connection and nothing else.\<close>

definition pool_only :: "'a stream_pool_scheme \<Rightarrow> 'a stream_pool_scheme \<Rightarrow> bool" where
  "pool_only c c' = (c' = c\<lparr>sched_head := sched_head c', stream_mem := stream_mem c'\<rparr>)"

lemma pool_onlyI [simp]:
  "pool_only c c" "pool_only c (c\<lparr>stream_mem := m\<rparr>)" "pool_only c (c\<lparr>sched_head := h, stream_mem := m\<rparr>)"
  "pool_only c (c\<lparr>stream_mem := m, sched_head := h\<rparr>)" "pool_only c (c\<lparr>sched_head := h\<rparr>)"
  by (simp_all add: pool_only_def)

lemma pool_onlyE: "pool_only c c' \<Longrightarrow> (\<And>h m. c' = c\<lparr>sched_head := h, stream_mem := m\<rparr> \<Longrightarrow> P) \<Longrightarrow> P"
  unfolding pool_only_def by blast

lemma pool_only_trans: "pool_only a b \<Longrightarrow> pool_only b c \<Longrightarrow> pool_only a c"
  by (auto elim!: pool_onlyE)

lemma sched_add_spec:
  assumes r: "sched_repr c xs" and s: "s \<in> dom (stream_mem c)"
  shows "\<exists>c'. nxp_sched_add c s = Some c' \<and> pool_only c c' \<and> pool_data c' = pool_data c \<and>
     sched_repr c' (if s \<in> set xs then xs else xs @ [s])"
proof -
  obtain st where st: "stream_mem c s = Some st" using s by blast
  consider (in_queue) "s \<in> set xs" | (empty) "s \<notin> set xs" "xs = []" | (tail) y ys where "s \<notin> set xs" "xs = y # ys"
    by (cases xs) auto
  then show ?thesis
  proof cases
    case in_queue
    then have "nxp_sched_add c s = Some c"
      using r st by (simp add: nxp_sched_add_def sched_repr_def)
    then show ?thesis using r in_queue by simp
  next
    case empty
    then show ?thesis
      using r st by (auto simp: nxp_sched_add_def sched_repr_def upd_stream_def pool_data_def ring_def
          fun_eq_iff split: if_splits)
  next
    case tail
    let ?t = "last xs"
    have ring: "ring (links_next c) (links_prev c) (?t # butlast xs)"
      using r tail(2) ring_rotate1 [of _ _ ?t "butlast xs"] by (auto simp: sched_repr_def)
    have y: "stream_mem c y \<bind> sched_prev = Some ?t" "?t \<in> set xs" "set xs \<subseteq> dom (stream_mem c)"
      using r tail(2) ring_prev [of "links_next c" "links_prev c" y ys] by (auto simp: sched_repr_def)
    then obtain yst tst where yt: "stream_mem c y = Some yst" "sched_prev yst = Some ?t" "stream_mem c ?t = Some tst"
      by (cases "stream_mem c y") auto
    have nt: "links_next c ?t = Some y"
      using ring_next [OF ring] tail(2) by (cases "butlast xs") (auto split: if_splits)
    have ne: "s \<noteq> y" "s \<noteq> ?t" "\<not> scheduled st" "sched_head c = Some y"
      using r tail y(2) st by (auto simp: sched_repr_def)
    obtain m where m: "nxp_sched_add c s = Some (c\<lparr>stream_mem := m\<rparr>)"
        "(\<lambda>p. m p \<bind> sched_next) = (links_next c)(s \<mapsto> y, ?t \<mapsto> s)"
        "(\<lambda>p. m p \<bind> sched_prev) = (links_prev c)(s \<mapsto> ?t, y \<mapsto> s)"
        "(\<lambda>p. map_option scheduled (m p)) = (\<lambda>p. map_option scheduled (stream_mem c p))(s \<mapsto> True)"
        "(\<lambda>p. map_option unlinked (m p)) = pool_data c"
      using sched_add_links [OF st ne(3,4) yt ne(1,2)] by blast
    let ?c = "c\<lparr>stream_mem := m\<rparr>"
    have d: "pool_data ?c = pool_data c" using m(5) by (simp add: pool_data_def)
    have "s \<notin> set (?t # butlast xs)" using tail(1) in_set_butlastD [of s xs] ne(2) by auto
    then have "ring (\<lambda>p. m p \<bind> sched_next) (\<lambda>p. m p \<bind> sched_prev) (?t # s # butlast xs)"
      unfolding m(2,3) by (rule ring_insert [OF ring _ nt])
    then have "ring (links_next ?c) (links_prev ?c) (?t # s # butlast xs)" by simp
    then have "ring (links_next ?c) (links_prev ?c) (xs @ [s])"
      using ring_rotate [of _ _ "[?t, s]" "butlast xs"] tail(2)
      by (metis append.assoc append_Cons append_Nil append_butlast_last_id list.distinct(1))
    moreover have "set (xs @ [s]) \<subseteq> dom (stream_mem ?c)" using y(3) s pool_data_dom [OF d] by auto
    moreover have "scheduled t = (p \<in> set (xs @ [s]))" if "stream_mem ?c p = Some t" for p t
    proof (cases "p = s")
      case True
      then show ?thesis using that scheduled_iff(2) [OF m(4)] by simp
    next
      case False
      then show ?thesis using that scheduled_iff(1) [OF m(4), of "set xs" p t] r by (simp add: sched_repr_def)
    qed
    ultimately have "sched_repr ?c (xs @ [s])" using tail(2) ne(4) by (simp add: sched_repr_def)
    then show ?thesis using m(1) d tail(1) by simp
  qed
qed

lemma sched_remove_spec:
  assumes r: "sched_repr c xs" and s: "s \<in> dom (stream_mem c)"
  shows "\<exists>c'. nxp_sched_remove c s = Some c' \<and> pool_only c c' \<and> pool_data c' = pool_data c \<and>
     sched_repr c' (remove1 s xs)"
proof -
  obtain st where st: "stream_mem c s = Some st" using s by blast
  consider (absent) "s \<notin> set xs" | (only) "xs = [s]" | (linked) "s \<in> set xs" "xs \<noteq> [s]" by blast
  then show ?thesis
  proof cases
    case absent
    then show ?thesis
      using r st by (intro exI [of _ c]) (auto simp: nxp_sched_remove_def sched_repr_def remove1_idem)
  next
    case only
    then show ?thesis
      using r st ring_next [of "links_next c" "links_prev c" s "[]"]
      by (auto simp: nxp_sched_remove_def sched_repr_def upd_stream_def pool_data_def fun_eq_iff split: if_splits)
  next
    case linked
    obtain us vs where xs: "xs = us @ s # vs" using split_list [OF linked(1)] by blast
    let ?ys = "vs @ us"
    have ring: "ring (links_next c) (links_prev c) (s # ?ys)"
      using r ring_rotate [of _ _ us "s # vs"] unfolding xs by (simp add: sched_repr_def)
    have ys: "?ys \<noteq> []" "s \<notin> set ?ys" "set ?ys \<subseteq> dom (stream_mem c)" "remove1 s xs = us @ vs"
      using linked(2) ring_distinct [OF ring] r unfolding xs by (auto simp: sched_repr_def remove1_append)
    define n p where "n = hd ?ys" and "p = last ?ys"
    have np: "links_next c s = Some n" "links_prev c s = Some p"
      using ring_next [OF ring] ring_prev [OF ring] ys(1) by (auto simp: n_def p_def hd_append)
    have mem: "n \<in> set ?ys" "p \<in> set ?ys" unfolding n_def p_def using ys(1) by (blast intro: hd_in_set last_in_set)+
    then obtain nst pst where ns: "stream_mem c n = Some nst" "stream_mem c p = Some pst" using ys(3) by blast
    have ne: "s \<noteq> n" "s \<noteq> p" using mem ys(2) by auto
    have sc: "scheduled st" "sched_next st = Some n" "sched_prev st = Some p"
      using np st r linked(1) by (auto simp: sched_repr_def)
    obtain m where m: "nxp_sched_remove c s =
          Some (c\<lparr>sched_head := (if sched_head c = Some s then Some n else sched_head c), stream_mem := m\<rparr>)"
        "(\<lambda>q. m q \<bind> sched_next) = ((links_next c)(p \<mapsto> n))(s := None)"
        "(\<lambda>q. m q \<bind> sched_prev) = ((links_prev c)(n \<mapsto> p))(s := None)"
        "(\<lambda>q. map_option scheduled (m q)) = (\<lambda>q. map_option scheduled (stream_mem c q))(s \<mapsto> False)"
        "(\<lambda>q. map_option unlinked (m q)) = pool_data c"
      using sched_remove_links [OF st sc ns ne] by blast
    let ?c = "c\<lparr>sched_head := (if sched_head c = Some s then Some n else sched_head c), stream_mem := m\<rparr>"
    have d: "pool_data ?c = pool_data c" using m(5) by (simp add: pool_data_def)
    have "ring ((links_next c)(p \<mapsto> n)) ((links_prev c)(n \<mapsto> p)) ?ys"
      by (rule ring_remove [OF ring ys(1) np])
    then have "ring (\<lambda>q. m q \<bind> sched_next) (\<lambda>q. m q \<bind> sched_prev) ?ys"
      unfolding m(2,3) using ys(2) by (subst ring_cong) auto
    then have "ring (links_next ?c) (links_prev ?c) (us @ vs)" by (simp add: ring_rotate [of _ _ us vs])
    moreover have "set (us @ vs) \<subseteq> dom (stream_mem ?c)" using ys(3) pool_data_dom [OF d] by auto
    moreover have "scheduled t = (q \<in> set (us @ vs))" if "stream_mem ?c q = Some t" for q t
    proof (cases "q = s")
      case True
      then show ?thesis using that scheduled_iff(2) [OF m(4)] ys(2) by simp
    next
      case False
      then show ?thesis
        using that scheduled_iff(1) [OF m(4), of "set xs" q t] r by (simp add: sched_repr_def xs)
    qed
    moreover have "sched_head ?c = (case us @ vs of [] \<Rightarrow> None | x # _ \<Rightarrow> Some x)"
      using r ys(1,2) unfolding xs n_def by (cases us; cases vs) (auto simp: sched_repr_def)
    ultimately have "sched_repr ?c (us @ vs)" by (simp add: sched_repr_def)
    then show ?thesis using m(1) d ys(4) by simp
  qed
qed

lemma sched_repr_rotate:
  assumes "sched_repr c (x # xs)" "stream_mem c x = Some st"
  shows "sched_repr (c\<lparr>sched_head := sched_next st\<rparr>) (xs @ [x])"
  using assms ring_next [of "links_next c" "links_prev c" x xs] ring_rotate1 [of "links_next c" "links_prev c" x xs]
  by (cases xs) (auto simp: sched_repr_def)

lemma sched_next_spec:
  assumes r: "sched_repr c xs"
  shows "\<exists>c'. nxp_sched_next c = Some (case xs of [] \<Rightarrow> None | x # _ \<Rightarrow> Some x, c') \<and> pool_only c c' \<and>
     pool_data c' = pool_data c \<and>
     sched_repr c' (case xs of [] \<Rightarrow> [] | x # ys \<Rightarrow>
       if stream_has_data (the (pool_data c x)) then ys @ [x] else ys)"
proof (cases xs)
  case Nil
  then show ?thesis using r by (simp add: nxp_sched_next_def sched_repr_def)
next
  case (Cons x ys)
  obtain st where st: "stream_mem c x = Some st" using r Cons by (auto simp: sched_repr_def)
  let ?c = "c\<lparr>sched_head := sched_next st\<rparr>"
  have rr: "sched_repr ?c (ys @ [x])" using sched_repr_rotate r st Cons by blast
  have d: "pool_data ?c = pool_data c" by (simp add: pool_data_def)
  have h: "sched_head c = Some x" "stream_has_data (the (pool_data c x)) = stream_has_data st"
    using r Cons st by (auto simp: sched_repr_def pool_data_def)
  have x: "x \<notin> set ys" using r Cons by (simp add: sched_repr_def ring_def)
  show ?thesis
  proof (cases "stream_has_data st")
    case True
    then show ?thesis using h st Cons rr d by (simp add: nxp_sched_next_def)
  next
    case False
    obtain c' where "nxp_sched_remove ?c x = Some c'" "pool_only ?c c'" "pool_data c' = pool_data c"
        "sched_repr c' ys"
      using sched_remove_spec [OF rr, of x] st d x by (auto simp: remove1_append)
    then show ?thesis
      using False h st Cons pool_only_trans [of c ?c c'] by (simp add: nxp_sched_next_def)
  qed
qed

section \<open>The run-queue interface\<close>

datatype 'p queue_op = Add 'p | Remove 'p | Next

fun queue_op_ptr :: "'p queue_op \<Rightarrow> 'p set" where
  "queue_op_ptr (Add p) = {p}"
| "queue_op_ptr (Remove p) = {p}"
| "queue_op_ptr Next = {}"

text \<open>What the operations do to a plain list of pointers.\<close>

fun queue_step :: "('p \<Rightarrow> bool) \<Rightarrow> 'p list \<Rightarrow> 'p queue_op \<Rightarrow> 'p list" where
  "queue_step ready q (Add p) = (if p \<in> set q then q else q @ [p])"
| "queue_step ready q (Remove p) = remove1 p q"
| "queue_step ready q Next =
     (case q of [] \<Rightarrow> [] | x # xs \<Rightarrow> if ready x then xs @ [x] else xs)"

fun queue_out :: "'p list \<Rightarrow> 'p queue_op \<Rightarrow> 'p option list" where
  "queue_out q Next = [case q of [] \<Rightarrow> None | x # _ \<Rightarrow> Some x]"
| "queue_out q _ = []"

fun queue_run :: "('p \<Rightarrow> bool) \<Rightarrow> 'p list \<Rightarrow> 'p queue_op list \<Rightarrow> 'p option list \<times> 'p list" where
  "queue_run ready q [] = ([], q)"
| "queue_run ready q (e # es) =
     (let (out, q') = queue_run ready (queue_step ready q e) es in (queue_out q e @ out, q'))"

text \<open>The same sequence of calls on a scheduler.\<close>

fun sched_run ::
    "('s \<Rightarrow> 'p \<Rightarrow> 's option) \<Rightarrow> ('s \<Rightarrow> 'p \<Rightarrow> 's option) \<Rightarrow> ('s \<Rightarrow> ('p option \<times> 's) option) \<Rightarrow>
     's \<Rightarrow> 'p queue_op list \<Rightarrow> ('p option list \<times> 's) option" where
  "sched_run add rem nxt s [] = Some ([], s)"
| "sched_run add rem nxt s (Add p # es) = do { s \<leftarrow> add s p; sched_run add rem nxt s es }"
| "sched_run add rem nxt s (Remove p # es) = do { s \<leftarrow> rem s p; sched_run add rem nxt s es }"
| "sched_run add rem nxt s (Next # es) = do {
     (x, s) \<leftarrow> nxt s; (out, s) \<leftarrow> sched_run add rem nxt s es; Some (x # out, s) }"

text \<open>The laws a scheduler promises: its calls never fail on known pointers, leave what the
  scheduled objects hold (\<open>view\<close>) alone, and act on the represented queue as on a list.\<close>

locale run_queue =
  fixes add rem :: "'s \<Rightarrow> 'p \<Rightarrow> 's option" and nxt :: "'s \<Rightarrow> ('p option \<times> 's) option"
    and repr :: "'s \<Rightarrow> 'p list \<Rightarrow> bool" and view :: "'s \<Rightarrow> 'p \<Rightarrow> 'x option" and ready :: "'x \<Rightarrow> bool"
  assumes add_law: "repr s q \<Longrightarrow> p \<in> dom (view s) \<Longrightarrow>
      \<exists>s'. add s p = Some s' \<and> view s' = view s \<and> repr s' (if p \<in> set q then q else q @ [p])"
    and rem_law: "repr s q \<Longrightarrow> p \<in> dom (view s) \<Longrightarrow>
      \<exists>s'. rem s p = Some s' \<and> view s' = view s \<and> repr s' (remove1 p q)"
    and nxt_law: "repr s q \<Longrightarrow>
      \<exists>s'. nxt s = Some (case q of [] \<Rightarrow> None | x # _ \<Rightarrow> Some x, s') \<and> view s' = view s \<and>
        repr s' (case q of [] \<Rightarrow> [] | x # xs \<Rightarrow> if ready (the (view s x)) then xs @ [x] else xs)"
begin

lemma run_refines:
  assumes "repr s q" and "(\<Union>e \<in> set es. queue_op_ptr e) \<subseteq> dom (view s)"
  shows "\<exists>s'. sched_run add rem nxt s es = Some (fst (queue_run (\<lambda>p. ready (the (view s p))) q es), s') \<and>
     view s' = view s \<and> repr s' (snd (queue_run (\<lambda>p. ready (the (view s p))) q es))"
  using assms
proof (induction es arbitrary: s q)
  case (Cons e es)
  show ?case
  proof (cases e)
    case (Add p)
    then obtain s1 where s1: "add s p = Some s1" "view s1 = view s" "repr s1 (queue_step r q e)" for r
      using add_law [OF Cons.prems(1), of p] Cons.prems(2) by auto
    show ?thesis
      using Cons.IH [OF s1(3)] s1(1,2) Cons.prems(2) Add by (auto simp: split_beta)
  next
    case (Remove p)
    then obtain s1 where s1: "rem s p = Some s1" "view s1 = view s" "repr s1 (queue_step r q e)" for r
      using rem_law [OF Cons.prems(1), of p] Cons.prems(2) by auto
    show ?thesis
      using Cons.IH [OF s1(3)] s1(1,2) Cons.prems(2) Remove by (auto simp: split_beta)
  next
    case Next
    let ?r = "\<lambda>p. ready (the (view s p))"
    obtain s1 where s1: "nxt s = Some (case q of [] \<Rightarrow> None | x # _ \<Rightarrow> Some x, s1)" "view s1 = view s"
        "repr s1 (queue_step ?r q e)"
      using nxt_law [OF Cons.prems(1)] Next by auto
    show ?thesis
      using Cons.IH [OF s1(3)] s1(1,2) Cons.prems(2) Next by (auto simp: split_beta)
  qed
qed simp

end

interpretation sq: run_queue nxp_sched_add nxp_sched_remove nxp_sched_next sched_repr pool_data stream_has_data
proof unfold_locales
  have dom: "p \<in> dom (pool_data s) \<Longrightarrow> p \<in> dom (stream_mem s)" for p and s :: "'a stream_pool_scheme"
    by (auto simp: pool_data_def)
  fix s :: "'a stream_pool_scheme" and q p
  assume r: "sched_repr s q"
  show "\<exists>s'. nxp_sched_next s = Some (case q of [] \<Rightarrow> None | x # _ \<Rightarrow> Some x, s') \<and> pool_data s' = pool_data s \<and>
     sched_repr s' (case q of [] \<Rightarrow> [] | x # xs \<Rightarrow> if stream_has_data (the (pool_data s x)) then xs @ [x] else xs)"
    using sched_next_spec [OF r] by blast
  assume p: "p \<in> dom (pool_data s)"
  show "\<exists>s'. nxp_sched_add s p = Some s' \<and> pool_data s' = pool_data s \<and>
      sched_repr s' (if p \<in> set q then q else q @ [p])"
    using sched_add_spec [OF r dom [OF p]] by blast
  show "\<exists>s'. nxp_sched_remove s p = Some s' \<and> pool_data s' = pool_data s \<and> sched_repr s' (remove1 p q)"
    using sched_remove_spec [OF r dom [OF p]] by blast
qed

section \<open>Properties\<close>

text \<open>C17. The scheduler is a round-robin queue: any sequence of \<^verbatim>\<open>nxp_sched_add\<close>,
  \<^verbatim>\<open>nxp_sched_remove\<close> and \<^verbatim>\<open>nxp_sched_next\<close> on streams of the connection follows no null or
  dangling pointer, returns what the same calls on a plain queue return, leaves a well-formed
  circular list of exactly that queue and changes nothing of the streams but their links.
\<close>

theorem nxp_sched_refines:
  assumes "sched_repr c q" and "(\<Union>e \<in> set es. queue_op_ptr e) \<subseteq> dom (stream_mem c)"
  shows "\<exists>c'. sched_run nxp_sched_add nxp_sched_remove nxp_sched_next c es =
       Some (fst (queue_run (\<lambda>p. stream_has_data (the (pool_data c p))) q es), c') \<and>
     pool_data c' = pool_data c \<and>
     sched_repr c' (snd (queue_run (\<lambda>p. stream_has_data (the (pool_data c p))) q es))"
proof -
  have "dom (pool_data c) = dom (stream_mem c)" by (auto simp: pool_data_def)
  then show ?thesis using sq.run_refines [OF assms(1)] assms(2) by simp
qed

text \<open>A connection with three streams of which the first and the last have data to send.\<close>

definition tiny_pool_stream :: "nat \<Rightarrow> nxp_stream_s" where
  "tiny_pool_stream n =
     \<lparr>st_id = of_nat n, st_type = NXP_STREAM_RELIABLE, st_state = NXP_STREAM_OPEN, st_priority = 128,
      st_send = \<lparr>snd_data = replicate 4 0, snd_cap = 4, write_offset = (if n = 2 then 0 else 3), sent_offset = 0,
        acked_offset = 0, snd_fin = False, fin_sent = False, fin_acked = False\<rparr>,
      st_recv = \<lparr>rcv_data = replicate 4 0, rcv_cap = 4, read_offset = 0, recv_offset = 0,
        fin_received = False, fin_offset = 0\<rparr>,
      st_flow = nxp_flow_init 4 4, st_rate_limit = nxp_stream_rate_init, st_on_writable = False,
      st_blocked = False, sched_next = None, sched_prev = None, scheduled = False\<rparr>"

definition tiny_pool :: stream_pool where
  "tiny_pool = \<lparr>stream_mem = [1 \<mapsto> tiny_pool_stream 1, 2 \<mapsto> tiny_pool_stream 2, 3 \<mapsto> tiny_pool_stream 3],
     sched_head = None\<rparr>"

lemma tiny_pool_repr: "sched_repr tiny_pool []"
  by (auto simp: sched_repr_def tiny_pool_def tiny_pool_stream_def split: if_splits)

lemma tiny_pool_data [simp]:
  "stream_has_data (the (pool_data tiny_pool (Suc 0)))" "\<not> stream_has_data (the (pool_data tiny_pool 2))"
  "stream_has_data (the (pool_data tiny_pool 3))"
  by (simp_all add: pool_data_def tiny_pool_def stream_has_data_def nxp_stream_unsent_def tiny_pool_stream_def unlinked_def)

theorem nxp_sched_refines_witness:
  "\<exists>c'. sched_run nxp_sched_add nxp_sched_remove nxp_sched_next tiny_pool
      [Add 1, Add 2, Add 3, Next, Next, Remove 1, Next, Next] =
      Some ([Some 1, Some 2, Some 3, Some 3], c') \<and> sched_repr c' [3]"
  using nxp_sched_refines [OF tiny_pool_repr, of "[Add 1, Add 2, Add 3, Next, Next, Remove 1, Next, Next]"]
  by (auto simp: tiny_pool_def [THEN arg_cong, of stream_mem])

end
