(* ===== verification/Nxp_Heartbeat.thy ===== *)
theory Nxp_Heartbeat
  imports Nxp_Prelude
begin

text \<open>
  The keep-alive engine of \<^verbatim>\<open>src/core/heartbeat.c\<close>: probing at a fixed interval, echoing the
  peer's probes and declaring the connection dead after three unanswered probes. The theory
  shows when exactly a silent peer is declared dead.
\<close>

section \<open>Model\<close>

abbreviation (input) NXP_HEARTBEAT_MISS_THRESHOLD :: u32 where "NXP_HEARTBEAT_MISS_THRESHOLD \<equiv> 3"

record nxp_heartbeat =
  hb_interval_us :: u64
  hb_last_sent_us :: u64
  hb_last_recv_us :: u64
  hb_pending_timestamp :: u64
  hb_consecutive_misses :: u32
  hb_enabled :: bool
  hb_send_heartbeat :: bool
  hb_send_echo :: bool
  hb_echo_timestamp :: u64
  hb_awaiting_response :: bool
  hb_time_initialized :: bool

definition nxp_heartbeat_init :: "u64 \<Rightarrow> nxp_heartbeat" where
  "nxp_heartbeat_init interval_us =
     \<lparr>hb_interval_us = interval_us, hb_last_sent_us = 0, hb_last_recv_us = 0, hb_pending_timestamp = 0,
      hb_consecutive_misses = 0, hb_enabled = (interval_us > 0), hb_send_heartbeat = False,
      hb_send_echo = False, hb_echo_timestamp = 0, hb_awaiting_response = False,
      hb_time_initialized = False\<rparr>"

definition nxp_heartbeat_check :: "nxp_heartbeat \<Rightarrow> u64 \<Rightarrow> nxp_heartbeat" where
  "nxp_heartbeat_check hb now_us =
     (if \<not> hb_enabled hb then hb
      else
        let (hb, fire) =
              (if \<not> hb_time_initialized hb then (hb\<lparr>hb_time_initialized := True\<rparr>, True)
               else if now_us \<ge> hb_last_sent_us hb + hb_interval_us hb then (hb, True)
               else (hb, False)) in
        if fire then
          let hb = (if hb_awaiting_response hb
                    then hb\<lparr>hb_consecutive_misses := hb_consecutive_misses hb + 1\<rparr> else hb) in
          hb\<lparr>hb_send_heartbeat := True, hb_pending_timestamp := now_us,
             hb_awaiting_response := True, hb_last_sent_us := now_us\<rparr>
        else hb)"

definition nxp_heartbeat_on_recv :: "nxp_heartbeat \<Rightarrow> u64 \<Rightarrow> u64 \<Rightarrow> nxp_heartbeat" where
  "nxp_heartbeat_on_recv hb timestamp_us now_us =
     hb\<lparr>hb_last_recv_us := now_us, hb_send_echo := True, hb_echo_timestamp := timestamp_us,
        hb_consecutive_misses := 0, hb_awaiting_response := False\<rparr>"

definition nxp_heartbeat_on_echo :: "nxp_heartbeat \<Rightarrow> u64 \<Rightarrow> u64 \<Rightarrow> nxp_heartbeat" where
  "nxp_heartbeat_on_echo hb echo_timestamp now_us =
     (if echo_timestamp = hb_pending_timestamp hb
      then hb\<lparr>hb_consecutive_misses := 0, hb_awaiting_response := False\<rparr> else hb)"

definition nxp_heartbeat_next_timeout :: "nxp_heartbeat \<Rightarrow> u64" where
  "nxp_heartbeat_next_timeout hb =
     (if \<not> hb_enabled hb then - 1 else hb_last_sent_us hb + hb_interval_us hb)"

definition nxp_heartbeat_is_dead :: "nxp_heartbeat \<Rightarrow> bool" where
  "nxp_heartbeat_is_dead hb =
     (if \<not> hb_enabled hb then False
      else hb_consecutive_misses hb \<ge> NXP_HEARTBEAT_MISS_THRESHOLD)"

definition nxp_heartbeat_has_pending :: "nxp_heartbeat \<Rightarrow> bool" where
  "nxp_heartbeat_has_pending hb = (hb_send_heartbeat hb \<or> hb_send_echo hb)"

section \<open>Unanswered probes\<close>

text \<open>The probes sent since the peer last answered.\<close>

definition hb_unanswered :: "nxp_heartbeat \<Rightarrow> nat" where
  "hb_unanswered hb = unat (hb_consecutive_misses hb) + (if hb_awaiting_response hb then 1 else 0)"

definition hb_due :: "nxp_heartbeat \<Rightarrow> u64 \<Rightarrow> bool" where
  "hb_due hb now = (hb_enabled hb \<and> (\<not> hb_time_initialized hb \<or> now \<ge> hb_last_sent_us hb + hb_interval_us hb))"

lemma hb_check_not_due: "\<not> hb_due hb now \<Longrightarrow> nxp_heartbeat_check hb now = hb"
  by (auto simp: nxp_heartbeat_check_def hb_due_def)

lemma hb_check_due:
  assumes "hb_due hb now"
  shows "hb_last_sent_us (nxp_heartbeat_check hb now) = now"
    and "hb_time_initialized (nxp_heartbeat_check hb now)"
    and "hb_awaiting_response (nxp_heartbeat_check hb now)"
    and "hb_consecutive_misses (nxp_heartbeat_check hb now) =
      hb_consecutive_misses hb + (if hb_awaiting_response hb then 1 else 0)"
  using assms by (auto simp: nxp_heartbeat_check_def hb_due_def)

lemma hb_check_kept [simp]:
  "hb_enabled (nxp_heartbeat_check hb now) = hb_enabled hb"
  "hb_interval_us (nxp_heartbeat_check hb now) = hb_interval_us hb"
  by (auto simp: nxp_heartbeat_check_def)

text \<open>The invariant of a silent period that started at time \<open>t\<close>: \<open>k\<close> unanswered probes take
  \<open>k - 1\<close> intervals.\<close>

definition hb_silent :: "nat \<Rightarrow> nat \<Rightarrow> nxp_heartbeat \<Rightarrow> bool" where
  "hb_silent t now hb =
     ((\<not> hb_awaiting_response hb \<longrightarrow> hb_consecutive_misses hb = 0) \<and>
      (hb_awaiting_response hb \<longrightarrow>
         t + unat (hb_consecutive_misses hb) * unat (hb_interval_us hb) \<le> unat (hb_last_sent_us hb) \<and>
         unat (hb_last_sent_us hb) \<le> now))"

lemma unat_Suc_le32: "unat (x + 1 :: u32) \<le> Suc (unat x)"
  by (simp add: unat_word_ariths)

lemma hb_silent_check:
  assumes s: "hb_silent t (unat now) hb" and t: "t \<le> unat now" and i: "hb_time_initialized hb"
    and w: "unat (hb_last_sent_us hb) + unat (hb_interval_us hb) < 2 ^ 64"
  shows "hb_silent t (unat now) (nxp_heartbeat_check hb now)"
proof (cases "hb_due hb now")
  case True
  then have due: "unat (hb_last_sent_us hb) + unat (hb_interval_us hb) \<le> unat now"
    using w i by (simp add: hb_due_def word_le_nat_alt unat_add_nowrap)
  show ?thesis
  proof (cases "hb_awaiting_response hb")
    case True
    have "unat (hb_consecutive_misses hb + 1) * unat (hb_interval_us hb) \<le>
        Suc (unat (hb_consecutive_misses hb)) * unat (hb_interval_us hb)"
      by (rule mult_le_mono1 [OF unat_Suc_le32])
    then have "t + unat (hb_consecutive_misses hb + 1) * unat (hb_interval_us hb) \<le> unat now"
      using s due True by (simp add: hb_silent_def)
    then show ?thesis
      using hb_check_due [OF \<open>hb_due hb now\<close>] True by (simp add: hb_silent_def)
  next
    case False
    then show ?thesis
      using hb_check_due [OF \<open>hb_due hb now\<close>] s t by (simp add: hb_silent_def)
  qed
qed (use s in \<open>simp add: hb_check_not_due\<close>)

text \<open>The converse bound, when the timer is polled at least every \<open>g\<close>: after \<open>now\<close> the next
  probe is due, and the \<open>k\<close>-th unanswered one was sent within \<open>k\<close> intervals and gaps.\<close>

definition hb_polled :: "nat \<Rightarrow> nat \<Rightarrow> nat \<Rightarrow> nxp_heartbeat \<Rightarrow> bool" where
  "hb_polled t g now hb =
     (let l = unat (hb_last_sent_us hb); i = unat (hb_interval_us hb); m = unat (hb_consecutive_misses hb) in
      (\<not> hb_awaiting_response hb \<longrightarrow> hb_consecutive_misses hb = 0 \<and> l \<le> t \<and> (now \<le> t \<or> now < l + i)) \<and>
      (hb_awaiting_response hb \<longrightarrow> now < l + i \<and> (3 \<le> m \<or> l \<le> t + (m + 1) * (i + g))))"

lemma hb_polled_check:
  assumes s: "hb_polled t g now hb" and n: "now \<le> unat now'" "unat now' \<le> now + g"
    and e: "hb_enabled hb" "hb_time_initialized hb" "0 < unat (hb_interval_us hb)"
    and w: "unat (hb_last_sent_us hb) + unat (hb_interval_us hb) < 2 ^ 64"
    and m: "unat (hb_consecutive_misses hb) + 1 < 2 ^ 32"
  shows "hb_polled t g (unat now') (nxp_heartbeat_check hb now')"
proof (cases "hb_due hb now'")
  case True
  have m1: "unat (hb_consecutive_misses hb + 1) = unat (hb_consecutive_misses hb) + 1"
    using m by (simp add: unat_word_ariths)
  show ?thesis
    using hb_check_due [OF True] s n e(3) m1
    by (cases "hb_awaiting_response hb") (auto simp: hb_polled_def Let_def)
next
  case False
  then have "unat now' < unat (hb_last_sent_us hb) + unat (hb_interval_us hb)"
    using w e by (simp add: hb_due_def word_less_nat_alt unat_add_nowrap not_le)
  then show ?thesis
    using s False by (auto simp: hb_polled_def Let_def hb_check_not_due)
qed

lemma hb_check_misses:
  "unat (hb_consecutive_misses (nxp_heartbeat_check hb now)) \<le> Suc (unat (hb_consecutive_misses hb))"
  using hb_check_due(4) [of hb now] hb_check_not_due [of hb now] unat_Suc_le32 [of "hb_consecutive_misses hb"]
  by (cases "hb_due hb now") auto

lemma hb_check_last_sent:
  "hb_last_sent_us (nxp_heartbeat_check hb now) = (if hb_due hb now then now else hb_last_sent_us hb)"
  using hb_check_due(1) [of hb now] hb_check_not_due [of hb now] by auto

lemma hb_check_initialized: "hb_time_initialized hb \<Longrightarrow> hb_time_initialized (nxp_heartbeat_check hb now)"
  by (auto simp: nxp_heartbeat_check_def)

text \<open>A run of timer checks: times that grow, at most \<open>g\<close> apart, and far from the end of the clock.\<close>

fun hb_polls :: "nat \<Rightarrow> nat \<Rightarrow> nat \<Rightarrow> u64 list \<Rightarrow> bool" where
  "hb_polls i g now [] = True"
| "hb_polls i g now (x # xs) =
     (now \<le> unat x \<and> unat x \<le> now + g \<and> unat x + i < 2 ^ 64 \<and> hb_polls i g (unat x) xs)"

lemma hb_polls_run:
  assumes "hb_polls (unat (hb_interval_us hb)) g now ts"
    and "hb_silent t now hb" "hb_polled t g now hb" "t \<le> now"
    and "hb_enabled hb" "hb_time_initialized hb" "0 < unat (hb_interval_us hb)"
    and "unat (hb_last_sent_us hb) + unat (hb_interval_us hb) < 2 ^ 64"
    and "unat (hb_consecutive_misses hb) + length ts < 2 ^ 32"
  shows "let hb' = foldl nxp_heartbeat_check hb ts; now' = (if ts = [] then now else unat (last ts)) in
     hb_silent t now' hb' \<and> hb_polled t g now' hb' \<and> hb_enabled hb' = hb_enabled hb \<and>
     hb_interval_us hb' = hb_interval_us hb"
  using assms
proof (induction ts arbitrary: hb now)
  case (Cons x xs)
  let ?h = "nxp_heartbeat_check hb x"
  have "hb_silent t (unat x) hb"
    using Cons.prems(1,2) by (auto simp: hb_silent_def)
  then have s: "hb_silent t (unat x) ?h"
    using Cons.prems by (intro hb_silent_check) auto
  have p: "hb_polled t g (unat x) ?h"
    using Cons.prems by (intro hb_polled_check [of t g now]) auto
  have w: "unat (hb_last_sent_us ?h) + unat (hb_interval_us ?h) < 2 ^ 64"
    using Cons.prems(1,8) by (simp add: hb_check_last_sent)
  have m: "unat (hb_consecutive_misses ?h) + length xs < 2 ^ 32"
    using Cons.prems(9) hb_check_misses [of hb x] by simp
  show ?case
    using Cons.IH [of ?h "unat x", OF _ s p _ _ _ _ w m] Cons.prems hb_check_initialized
    by (auto simp: Let_def split: if_splits)
qed simp

section \<open>Properties\<close>

text \<open>C37. The keep-alive timer declares a silent peer dead, and only a silent one: if the last
  heartbeat arrived at time \<open>t\<close> and the timer is then checked at times at most \<open>g\<close> apart, the
  connection is not dead before three intervals have passed since \<open>t\<close>, and it is dead once
  four intervals and four gaps have passed.
\<close>

theorem nxp_heartbeat_detects:
  assumes "hb_enabled hb" "hb_time_initialized hb" "0 < unat (hb_interval_us hb)"
    and "hb_last_sent_us hb \<le> t" and "unat t + unat (hb_interval_us hb) < 2 ^ 64"
    and "hb_polls (unat (hb_interval_us hb)) g (unat t) ts" and "ts \<noteq> []" and "length ts < 2 ^ 32"
  shows "let hb' = foldl nxp_heartbeat_check (nxp_heartbeat_on_recv hb stamp t) ts in
     (nxp_heartbeat_is_dead hb' \<longrightarrow> unat t + 3 * unat (hb_interval_us hb) \<le> unat (last ts)) \<and>
     (unat t + 4 * (unat (hb_interval_us hb) + g) \<le> unat (last ts) \<longrightarrow> nxp_heartbeat_is_dead hb')"
proof -
  let ?h = "nxp_heartbeat_on_recv hb stamp t"
  let ?i = "unat (hb_interval_us hb)"
  have le: "unat (hb_last_sent_us hb) \<le> unat t" using assms(4) by (simp add: word_le_nat_alt)
  have "hb_silent (unat t) (unat t) ?h" "hb_polled (unat t) g (unat t) ?h"
    using le by (simp_all add: nxp_heartbeat_on_recv_def hb_silent_def hb_polled_def Let_def)
  then obtain h' where h': "h' = foldl nxp_heartbeat_check ?h ts" "hb_silent (unat t) (unat (last ts)) h'"
      "hb_polled (unat t) g (unat (last ts)) h'" "hb_enabled h'" "hb_interval_us h' = hb_interval_us hb"
    using hb_polls_run [of ?h g "unat t" ts "unat t"] assms le by (auto simp: nxp_heartbeat_on_recv_def Let_def)
  have dead: "nxp_heartbeat_is_dead h' = (3 \<le> unat (hb_consecutive_misses h'))"
    using h'(4) by (simp add: nxp_heartbeat_is_dead_def word_le_nat_alt)
  have "unat t + 3 * ?i \<le> unat (last ts)" if "3 \<le> unat (hb_consecutive_misses h')"
  proof -
    have "3 * ?i \<le> unat (hb_consecutive_misses h') * ?i" using that by (rule mult_le_mono1)
    moreover have "hb_awaiting_response h'" using h'(2) that by (auto simp: hb_silent_def)
    then have "unat t + unat (hb_consecutive_misses h') * ?i \<le> unat (last ts)"
      using h'(2,5) by (simp add: hb_silent_def)
    ultimately show ?thesis by linarith
  qed
  moreover have "unat (last ts) < unat t + 4 * (?i + g)" if "unat (hb_consecutive_misses h') < 3"
  proof (cases "hb_awaiting_response h'")
    case True
    have "(unat (hb_consecutive_misses h') + 1) * (?i + g) \<le> 3 * (?i + g)" using that by (intro mult_le_mono1) simp
    then have "unat t + (unat (hb_consecutive_misses h') + 1) * (?i + g) + ?i \<le> unat t + 3 * (?i + g) + ?i"
      by (intro add_mono order.refl)
    moreover have "unat (last ts) < unat t + (unat (hb_consecutive_misses h') + 1) * (?i + g) + ?i"
      using h'(3,5) True that by (simp add: hb_polled_def Let_def)
    ultimately have "unat (last ts) < unat t + 3 * (?i + g) + ?i" by (rule less_le_trans [rotated])
    then show ?thesis by simp
  next
    case False
    then show ?thesis using h'(3,5) assms(3) by (auto simp: hb_polled_def Let_def)
  qed
  ultimately show ?thesis using h'(1) dead by (auto simp: Let_def not_le [symmetric])
qed

theorem nxp_heartbeat_detects_witness:
  "let hb = (nxp_heartbeat_init 10)\<lparr>hb_time_initialized := True\<rparr>;
       run = \<lambda>ts. foldl nxp_heartbeat_check (nxp_heartbeat_on_recv hb 7 100) ts in
   \<not> nxp_heartbeat_is_dead (run [105, 111, 117, 123, 129]) \<and>
   nxp_heartbeat_is_dead (run [106, 112, 118, 124, 130, 136, 142, 148, 154, 160, 166])"
  using nxp_heartbeat_detects [of "(nxp_heartbeat_init 10)\<lparr>hb_time_initialized := True\<rparr>" 100 6
      "[105, 111, 117, 123, 129]" 7]
    nxp_heartbeat_detects [of "(nxp_heartbeat_init 10)\<lparr>hb_time_initialized := True\<rparr>" 100 6
      "[106, 112, 118, 124, 130, 136, 142, 148, 154, 160, 166]" 7]
  by (simp add: nxp_heartbeat_init_def Let_def)

end
