(* ===== verification/Nxp_Migration.thy ===== *)
theory Nxp_Migration
  imports Nxp_Prelude
begin

text \<open>
  Connection migration, \<^verbatim>\<open>src/core/migration.c\<close>: validation of a new peer address by a random
  challenge and the pool of connection IDs the peer supplied. The bytes of
  \<^verbatim>\<open>nxp_random_bytes\<close> are arguments of the operations that draw them. The theory shows that
  a path is only adopted after its challenge was answered and that the pool stays well formed.
\<close>

section \<open>Model\<close>

abbreviation (input) NXP_MAX_CID_POOL_SIZE :: nat where "NXP_MAX_CID_POOL_SIZE \<equiv> 8"
abbreviation (input) NXP_DEFAULT_ACTIVE_CID_LIMIT :: nat where "NXP_DEFAULT_ACTIVE_CID_LIMIT \<equiv> 4"
abbreviation (input) NXP_PATH_VALIDATION_TIMEOUT_FACTOR :: u64 where
  "NXP_PATH_VALIDATION_TIMEOUT_FACTOR \<equiv> 3"
abbreviation (input) NXP_STATELESS_RESET_TOKEN_LEN :: nat where "NXP_STATELESS_RESET_TOKEN_LEN \<equiv> 16"

record nxp_cid_entry =
  ce_cid :: nxp_conn_id
  ce_seq_num :: u64
  ce_stateless_reset_token :: bytes
  ce_in_use :: bool
  ce_retired :: bool

record nxp_path_state =
  path_addr :: nxp_addr
  path_challenge_data :: bytes
  path_challenge_sent_time :: u64
  path_challenge_pending :: bool
  path_validated :: bool

record nxp_migration_state =
  peer_cid_pool :: "nxp_cid_entry list"
  peer_cid_count :: u32
  local_cid_next_seq :: u64
  current_path :: nxp_path_state
  new_path :: nxp_path_state
  migration_in_progress :: bool
  send_path_challenge :: bool
  send_path_response :: bool
  pending_response_data :: bytes
  pending_new_cids :: "nxp_cid_entry list"
  pending_new_cid_count :: u32
  send_retire_cid :: bool
  retire_seq :: u64
  active_cid_limit :: u32
  mig_enabled :: bool

definition zero_cid_entry :: nxp_cid_entry where
  "zero_cid_entry = \<lparr>ce_cid = \<lparr>cid_data = []\<rparr>, ce_seq_num = 0,
     ce_stateless_reset_token = replicate 16 0, ce_in_use = False, ce_retired = False\<rparr>"

definition zero_path :: nxp_path_state where
  "zero_path = \<lparr>path_addr = zero_addr, path_challenge_data = replicate 8 0, path_challenge_sent_time = 0,
     path_challenge_pending = False, path_validated = False\<rparr>"

definition nxp_migration_init :: nxp_migration_state where
  "nxp_migration_init =
     \<lparr>peer_cid_pool = replicate NXP_MAX_CID_POOL_SIZE zero_cid_entry, peer_cid_count = 0,
      local_cid_next_seq = 1, current_path = zero_path, new_path = zero_path,
      migration_in_progress = False, send_path_challenge = False, send_path_response = False,
      pending_response_data = replicate 8 0,
      pending_new_cids = replicate NXP_DEFAULT_ACTIVE_CID_LIMIT zero_cid_entry,
      pending_new_cid_count = 0, send_retire_cid = False, retire_seq = 0,
      active_cid_limit = of_nat NXP_DEFAULT_ACTIVE_CID_LIMIT, mig_enabled = True\<rparr>"

text \<open>\<open>rnd\<close> is the challenge \<^verbatim>\<open>nxp_random_bytes\<close> draws, or its error.\<close>

definition nxp_migration_on_peer_addr_change ::
    "nxp_error_code + bytes \<Rightarrow> nxp_migration_state \<Rightarrow> nxp_addr \<Rightarrow> u64 \<Rightarrow> nxp_migration_state \<times> nxp_error_code" where
  "nxp_migration_on_peer_addr_change rnd ms new_addr now_us =
     (if \<not> mig_enabled ms then (ms, NXP_ERR_INVALID_ARGUMENT)
      else if migration_in_progress ms then (ms, NXP_OK)
      else
        let ms = ms\<lparr>new_path := (new_path ms)\<lparr>path_addr := new_addr, path_validated := False\<rparr>\<rparr> in
        case rnd of
          Inl e \<Rightarrow> (ms, e)
        | Inr d \<Rightarrow>
            (ms\<lparr>new_path := (new_path ms)\<lparr>path_challenge_data := d, path_challenge_sent_time := now_us,
                  path_challenge_pending := True\<rparr>,
                send_path_challenge := True, migration_in_progress := True\<rparr>, NXP_OK))"

definition nxp_migration_on_path_challenge :: "nxp_migration_state \<Rightarrow> bytes \<Rightarrow> nxp_migration_state" where
  "nxp_migration_on_path_challenge ms data =
     ms\<lparr>pending_response_data := data, send_path_response := True\<rparr>"

definition nxp_migration_on_path_response ::
    "nxp_migration_state \<Rightarrow> bytes \<Rightarrow> nxp_migration_state \<times> bool" where
  "nxp_migration_on_path_response ms data =
     (if \<not> path_challenge_pending (new_path ms) then (ms, False)
      else if data \<noteq> path_challenge_data (new_path ms) then (ms, False)
      else
        let ms = ms\<lparr>new_path := (new_path ms)\<lparr>path_validated := True, path_challenge_pending := False\<rparr>\<rparr> in
        (ms\<lparr>current_path := new_path ms, migration_in_progress := False, new_path := zero_path\<rparr>, True))"

text \<open>A loop over the first \<open>n\<close> entries of an array.\<close>

definition map_first :: "nat \<Rightarrow> ('a \<Rightarrow> 'a) \<Rightarrow> 'a list \<Rightarrow> 'a list" where
  "map_first n f xs = List.map f (take n xs) @ drop n xs"

definition retire_prior :: "u64 \<Rightarrow> nxp_cid_entry \<Rightarrow> nxp_cid_entry" where
  "retire_prior retire_prior_to e =
     (if ce_seq_num e < retire_prior_to \<and> \<not> ce_retired e
      then e\<lparr>ce_retired := True, ce_in_use := (if ce_in_use e then False else ce_in_use e)\<rparr> else e)"

text \<open>The first index from \<open>i\<close> below \<open>n\<close> whose entry satisfies \<open>P\<close>.\<close>

fun find_index :: "('a \<Rightarrow> bool) \<Rightarrow> 'a list \<Rightarrow> nat \<Rightarrow> nat option" where
  "find_index P [] i = None"
| "find_index P (x # xs) i = (if P x then Some i else find_index P xs (Suc i))"

definition nxp_migration_on_new_connection_id ::
    "nxp_migration_state \<Rightarrow> nxp_conn_id \<Rightarrow> u64 \<Rightarrow> u64 \<Rightarrow> bytes \<Rightarrow> nxp_migration_state \<times> nxp_error_code" where
  "nxp_migration_on_new_connection_id ms cid seq_num retire_prior_to token =
     (let ms = ms\<lparr>peer_cid_pool :=
              map_first (unat (peer_cid_count ms)) (retire_prior retire_prior_to) (peer_cid_pool ms)\<rparr>;
          live = take (unat (peer_cid_count ms)) (peer_cid_pool ms) in
      if \<exists>e \<in> set live. ce_seq_num e = seq_num then (ms, NXP_OK)
      else
        let (ms, slot) =
              (if peer_cid_count ms < of_nat NXP_MAX_CID_POOL_SIZE
               then (ms\<lparr>peer_cid_count := peer_cid_count ms + 1\<rparr>, Some (unat (peer_cid_count ms)))
               else (ms, find_index (\<lambda>e. ce_retired e \<and> \<not> ce_in_use e)
                           (take NXP_MAX_CID_POOL_SIZE (peer_cid_pool ms)) 0)) in
        case slot of
          None \<Rightarrow> (ms, NXP_OK)
        | Some i \<Rightarrow>
            (ms\<lparr>peer_cid_pool := (peer_cid_pool ms)[i := \<lparr>ce_cid = cid, ce_seq_num = seq_num,
                 ce_stateless_reset_token = take 16 token, ce_in_use = False, ce_retired = False\<rparr>]\<rparr>, NXP_OK))"

definition nxp_migration_on_retire_connection_id ::
    "nxp_migration_state \<Rightarrow> u64 \<Rightarrow> nxp_migration_state \<times> nxp_error_code" where
  "nxp_migration_on_retire_connection_id ms seq_num = (ms, NXP_OK)"

definition nxp_migration_get_unused_cid :: "nxp_migration_state \<Rightarrow> nxp_cid_entry option" where
  "nxp_migration_get_unused_cid ms =
     map_option (\<lambda>i. peer_cid_pool ms ! i)
       (find_index (\<lambda>e. \<not> ce_in_use e \<and> \<not> ce_retired e) (take (unat (peer_cid_count ms)) (peer_cid_pool ms)) 0)"

text \<open>The first loop of \<^verbatim>\<open>nxp_migration_use_cid\<close>: release every entry in use and queue its
  retirement; the last one found stays queued.\<close>

fun release_loop :: "nxp_cid_entry list \<Rightarrow> nxp_migration_state \<Rightarrow> nxp_cid_entry list \<times> nxp_migration_state" where
  "release_loop [] ms = ([], ms)"
| "release_loop (e # es) ms =
     (let (e, ms) = (if ce_in_use e
                     then (e\<lparr>ce_in_use := False\<rparr>, ms\<lparr>send_retire_cid := True, retire_seq := ce_seq_num e\<rparr>)
                     else (e, ms));
          (es, ms) = release_loop es ms in (e # es, ms))"

definition nxp_migration_use_cid :: "nxp_migration_state \<Rightarrow> u64 \<Rightarrow> nxp_migration_state" where
  "nxp_migration_use_cid ms seq_num =
     (let n = unat (peer_cid_count ms);
          rest = drop n (peer_cid_pool ms);
          (live, ms) = release_loop (take n (peer_cid_pool ms)) ms;
          live = (case find_index (\<lambda>e. ce_seq_num e = seq_num) live 0 of
                    None \<Rightarrow> live
                  | Some i \<Rightarrow> live[i := (live ! i)\<lparr>ce_in_use := True\<rparr>]) in
      ms\<lparr>peer_cid_pool := live @ rest\<rparr>)"

text \<open>\<open>rnd_cid k n\<close> and \<open>rnd_token k n\<close> are the \<open>n\<close> bytes the two draws for the \<open>k\<close>-th entry
  leave in it.\<close>

function generate_cids_loop ::
    "(nat \<Rightarrow> nat \<Rightarrow> bytes) \<Rightarrow> (nat \<Rightarrow> nat \<Rightarrow> bytes) \<Rightarrow> nxp_migration_state \<Rightarrow> nxp_conn_id \<Rightarrow> u32 \<Rightarrow>
     nxp_migration_state \<times> u32" where
  "generate_cids_loop rnd_cid rnd_token ms base_scid generated =
     (if pending_new_cid_count ms < active_cid_limit ms \<and>
         pending_new_cid_count ms < of_nat NXP_DEFAULT_ACTIVE_CID_LIMIT then
        let k = unat (pending_new_cid_count ms);
            entry = \<lparr>ce_cid = \<lparr>cid_data = rnd_cid k (length (cid_data base_scid))\<rparr>,
              ce_seq_num = local_cid_next_seq ms,
              ce_stateless_reset_token = rnd_token k NXP_STATELESS_RESET_TOKEN_LEN,
              ce_in_use = False, ce_retired = False\<rparr> in
        generate_cids_loop rnd_cid rnd_token
          (ms\<lparr>pending_new_cids := (pending_new_cids ms)[k := entry],
              local_cid_next_seq := local_cid_next_seq ms + 1,
              pending_new_cid_count := pending_new_cid_count ms + 1\<rparr>) base_scid (generated + 1)
      else (ms, generated))"
  by pat_completeness auto

termination
  by (relation "measure (\<lambda>(rc, rt, ms, b, g). 4 - unat (pending_new_cid_count ms))")
     (auto simp: word_less_nat_alt unat_word_ariths)

declare generate_cids_loop.simps [simp del]

definition nxp_migration_generate_cids ::
    "(nat \<Rightarrow> nat \<Rightarrow> bytes) \<Rightarrow> (nat \<Rightarrow> nat \<Rightarrow> bytes) \<Rightarrow> nxp_migration_state \<Rightarrow> nxp_conn_id \<Rightarrow>
     nxp_migration_state \<times> u32" where
  "nxp_migration_generate_cids rnd_cid rnd_token ms base_scid = generate_cids_loop rnd_cid rnd_token ms base_scid 0"

definition nxp_migration_has_pending :: "nxp_migration_state \<Rightarrow> bool" where
  "nxp_migration_has_pending ms =
     (send_path_challenge ms \<or> send_path_response ms \<or> send_retire_cid ms \<or> pending_new_cid_count ms > 0)"

definition nxp_migration_check_timeout ::
    "nxp_migration_state \<Rightarrow> u64 \<Rightarrow> u64 \<Rightarrow> nxp_migration_state \<times> bool" where
  "nxp_migration_check_timeout ms now_us pto_us =
     (if \<not> path_challenge_pending (new_path ms) then (ms, False)
      else
        let timeout = path_challenge_sent_time (new_path ms) + pto_us * NXP_PATH_VALIDATION_TIMEOUT_FACTOR in
        if now_us \<ge> timeout then
          (ms\<lparr>migration_in_progress := False, new_path := zero_path\<rparr>, True)
        else (ms, False))"

section \<open>Histories\<close>

text \<open>Everything that can happen to the migration state: the handlers of this file, the rotation
  to an unused connection ID after a validated path, and the flags the sender clears once a frame
  is written (\<^verbatim>\<open>nxp_conn_send\<close>).\<close>

datatype mig_event =
    Mig_addr "nxp_error_code + bytes" nxp_addr u64
  | Mig_challenge bytes
  | Mig_response bytes
  | Mig_new_cid nxp_conn_id u64 u64 bytes
  | Mig_retire u64
  | Mig_rotate
  | Mig_generate "nat \<Rightarrow> nat \<Rightarrow> bytes" "nat \<Rightarrow> nat \<Rightarrow> bytes" nxp_conn_id
  | Mig_timeout u64 u64
  | Mig_sent_response
  | Mig_sent_challenge
  | Mig_sent_cid
  | Mig_sent_retire

fun mig_step :: "nxp_migration_state \<Rightarrow> mig_event \<Rightarrow> nxp_migration_state" where
  "mig_step ms (Mig_addr rnd a now) = fst (nxp_migration_on_peer_addr_change rnd ms a now)"
| "mig_step ms (Mig_challenge d) = nxp_migration_on_path_challenge ms d"
| "mig_step ms (Mig_response d) = fst (nxp_migration_on_path_response ms d)"
| "mig_step ms (Mig_new_cid cid seq rpt tok) = fst (nxp_migration_on_new_connection_id ms cid seq rpt tok)"
| "mig_step ms (Mig_retire seq) = fst (nxp_migration_on_retire_connection_id ms seq)"
| "mig_step ms Mig_rotate =
     (case nxp_migration_get_unused_cid ms of None \<Rightarrow> ms
      | Some e \<Rightarrow> nxp_migration_use_cid ms (ce_seq_num e))"
| "mig_step ms (Mig_generate rc rt b) = fst (nxp_migration_generate_cids rc rt ms b)"
| "mig_step ms (Mig_timeout now pto) = fst (nxp_migration_check_timeout ms now pto)"
| "mig_step ms Mig_sent_response = ms\<lparr>send_path_response := False\<rparr>"
| "mig_step ms Mig_sent_challenge = ms\<lparr>send_path_challenge := False\<rparr>"
| "mig_step ms Mig_sent_cid =
     (if pending_new_cid_count ms > 0 then ms\<lparr>pending_new_cid_count := pending_new_cid_count ms - 1\<rparr> else ms)"
| "mig_step ms Mig_sent_retire = ms\<lparr>send_retire_cid := False\<rparr>"

section \<open>Path validation\<close>

lemma release_loop_kept [simp]:
  "new_path (snd (release_loop es ms)) = new_path ms"
  "current_path (snd (release_loop es ms)) = current_path ms"
  "migration_in_progress (snd (release_loop es ms)) = migration_in_progress ms"
  "peer_cid_count (snd (release_loop es ms)) = peer_cid_count ms"
  "peer_cid_pool (snd (release_loop es ms)) = peer_cid_pool ms"
  "pending_new_cids (snd (release_loop es ms)) = pending_new_cids ms"
  "pending_new_cid_count (snd (release_loop es ms)) = pending_new_cid_count ms"
  by (induction es arbitrary: ms) (auto simp: split_beta)

lemma release_loop_entries: "fst (release_loop es ms) = List.map (\<lambda>e. e\<lparr>ce_in_use := False\<rparr>) es"
  by (induction es arbitrary: ms) (auto simp: split_beta)

lemma use_cid_kept [simp]:
  "new_path (nxp_migration_use_cid ms q) = new_path ms"
  "current_path (nxp_migration_use_cid ms q) = current_path ms"
  "migration_in_progress (nxp_migration_use_cid ms q) = migration_in_progress ms"
  "peer_cid_count (nxp_migration_use_cid ms q) = peer_cid_count ms"
  "pending_new_cids (nxp_migration_use_cid ms q) = pending_new_cids ms"
  "pending_new_cid_count (nxp_migration_use_cid ms q) = pending_new_cid_count ms"
  by (simp_all add: nxp_migration_use_cid_def Let_def split_beta)

lemma generate_loop_kept:
  "new_path (fst (generate_cids_loop rc rt ms b g)) = new_path ms \<and>
   current_path (fst (generate_cids_loop rc rt ms b g)) = current_path ms \<and>
   migration_in_progress (fst (generate_cids_loop rc rt ms b g)) = migration_in_progress ms \<and>
   peer_cid_count (fst (generate_cids_loop rc rt ms b g)) = peer_cid_count ms \<and>
   peer_cid_pool (fst (generate_cids_loop rc rt ms b g)) = peer_cid_pool ms \<and>
   length (pending_new_cids (fst (generate_cids_loop rc rt ms b g))) = length (pending_new_cids ms)"
proof (induction rc rt ms b g rule: generate_cids_loop.induct)
  case (1 rc rt ms b g)
  then show ?case unfolding generate_cids_loop.simps [of rc rt ms b g] by (simp add: Let_def)
qed

lemma new_cid_kept [simp]:
  "new_path (fst (nxp_migration_on_new_connection_id ms c q r t)) = new_path ms"
  "current_path (fst (nxp_migration_on_new_connection_id ms c q r t)) = current_path ms"
  "migration_in_progress (fst (nxp_migration_on_new_connection_id ms c q r t)) = migration_in_progress ms"
  "pending_new_cids (fst (nxp_migration_on_new_connection_id ms c q r t)) = pending_new_cids ms"
  "pending_new_cid_count (fst (nxp_migration_on_new_connection_id ms c q r t)) = pending_new_cid_count ms"
  by (simp_all add: nxp_migration_on_new_connection_id_def Let_def split: option.splits)

text \<open>Only these events touch the paths.\<close>

lemma mig_step_paths:
  assumes "\<And>r a n. e \<noteq> Mig_addr r a n" "\<And>d. e \<noteq> Mig_response d" "\<And>n p. e \<noteq> Mig_timeout n p"
  shows "new_path (mig_step ms e) = new_path ms" "current_path (mig_step ms e) = current_path ms"
    "migration_in_progress (mig_step ms e) = migration_in_progress ms"
  using assms
  by (cases e; simp add: nxp_migration_on_path_challenge_def nxp_migration_on_retire_connection_id_def
      nxp_migration_generate_cids_def generate_loop_kept split: option.split)+

definition challenged :: "mig_event list \<Rightarrow> nxp_addr \<Rightarrow> bytes \<Rightarrow> bool" where
  "challenged es a d = (\<exists>us vs now. es = us @ Mig_addr (Inr d) a now # vs)"

definition answered :: "mig_event list \<Rightarrow> nxp_addr \<Rightarrow> bool" where
  "answered es a = (\<exists>us d ws. challenged us a d \<and> es = us @ Mig_response d # ws)"

lemma answeredE:
  "answered es a \<Longrightarrow> \<exists>us vs ws d now. es = us @ Mig_addr (Inr d) a now # vs @ Mig_response d # ws"
  unfolding answered_def challenged_def by (metis append_Cons append_assoc)

lemma challenged_snoc: "challenged es a d \<Longrightarrow> challenged (es @ [e]) a d"
  unfolding challenged_def by (metis append_Cons append_assoc)

lemma answered_snoc: "answered es a \<Longrightarrow> answered (es @ [e]) a"
  unfolding answered_def by (metis append_Cons append_assoc)

definition path_history :: "mig_event list \<Rightarrow> nxp_migration_state \<Rightarrow> bool" where
  "path_history es ms =
     (path_challenge_pending (new_path ms) = migration_in_progress ms \<and>
      (path_challenge_pending (new_path ms) \<longrightarrow>
         challenged es (path_addr (new_path ms)) (path_challenge_data (new_path ms))) \<and>
      (path_validated (current_path ms) \<longrightarrow> answered es (path_addr (current_path ms))))"

lemma path_history_step:
  assumes h: "path_history es ms"
  shows "path_history (es @ [e]) (mig_step ms e)"
proof (cases e)
  case (Mig_addr rnd a now)
  show ?thesis
  proof (cases rnd)
    case (Inr d)
    have "challenged (es @ [e]) a d" using Mig_addr Inr by (auto simp: challenged_def)
    then show ?thesis
      using h Mig_addr Inr challenged_snoc answered_snoc
      by (auto simp: path_history_def nxp_migration_on_peer_addr_change_def Let_def)
  next
    case (Inl x)
    then show ?thesis
      using h Mig_addr challenged_snoc answered_snoc
      by (auto simp: path_history_def nxp_migration_on_peer_addr_change_def Let_def)
  qed
next
  case (Mig_response d)
  have "answered (es @ [e]) a" if "challenged es a d" for a
    using that Mig_response unfolding answered_def by blast
  then show ?thesis
    using h Mig_response challenged_snoc answered_snoc
    by (auto simp: path_history_def nxp_migration_on_path_response_def Let_def zero_path_def)
next
  case (Mig_timeout now pto)
  then show ?thesis
    using h challenged_snoc answered_snoc
    by (auto simp: path_history_def nxp_migration_check_timeout_def Let_def zero_path_def)
qed (use h mig_step_paths [of e ms] challenged_snoc answered_snoc in \<open>auto simp: path_history_def simp del: mig_step.simps\<close>)

lemma path_history_run: "path_history es (foldl mig_step nxp_migration_init es)"
proof (induction es rule: rev_induct)
  case Nil
  show ?case by (simp add: path_history_def nxp_migration_init_def zero_path_def)
next
  case (snoc e es)
  then show ?case using path_history_step by simp
qed

section \<open>The connection ID pool\<close>

definition live_cids :: "nxp_migration_state \<Rightarrow> nxp_cid_entry list" where
  "live_cids ms = take (unat (peer_cid_count ms)) (peer_cid_pool ms)"

definition cids_ok :: "nxp_cid_entry list \<Rightarrow> bool" where
  "cids_ok es =
     (distinct (List.map ce_seq_num es) \<and> (\<forall>e \<in> set es. ce_in_use e \<longrightarrow> \<not> ce_retired e) \<and>
      (\<forall>i < length es. \<forall>j < length es. ce_in_use (es ! i) \<and> ce_in_use (es ! j) \<longrightarrow> i = j))"

definition pool_inv :: "nxp_migration_state \<Rightarrow> bool" where
  "pool_inv ms =
     (length (peer_cid_pool ms) = NXP_MAX_CID_POOL_SIZE \<and> unat (peer_cid_count ms) \<le> NXP_MAX_CID_POOL_SIZE \<and>
      length (pending_new_cids ms) = NXP_DEFAULT_ACTIVE_CID_LIMIT \<and>
      unat (pending_new_cid_count ms) \<le> NXP_DEFAULT_ACTIVE_CID_LIMIT \<and> cids_ok (live_cids ms))"

lemma find_index_Some:
  "find_index P xs i = Some k \<Longrightarrow> i \<le> k \<and> k < i + length xs \<and> P (xs ! (k - i))"
  by (induction P xs i rule: find_index.induct) (auto split: if_splits simp: nth_Cons' Suc_diff_le)

lemma find_index_None: "find_index P xs i = None \<Longrightarrow> x \<in> set xs \<Longrightarrow> \<not> P x"
  by (induction P xs i rule: find_index.induct) (auto split: if_splits)

lemma retire_prior_simps [simp]:
  "ce_seq_num (retire_prior r e) = ce_seq_num e"
  "ce_in_use (retire_prior r e) \<longleftrightarrow> ce_in_use e \<and> (ce_seq_num e \<ge> r \<or> ce_retired e)"
  "ce_retired (retire_prior r e) \<longleftrightarrow> ce_retired e \<or> ce_seq_num e < r"
  by (auto simp: retire_prior_def)

lemma cids_ok_retire: "cids_ok es \<Longrightarrow> cids_ok (List.map (retire_prior r) es)"
  unfolding cids_ok_def by (auto simp: comp_def)

lemma cids_ok_append:
  assumes "cids_ok es" "ce_seq_num e \<notin> ce_seq_num ` set es" "\<not> ce_in_use e"
  shows "cids_ok (es @ [e])"
  using assms unfolding cids_ok_def by (auto simp: nth_append less_Suc_eq split: if_splits)

lemma cids_ok_replace:
  assumes "cids_ok es" "ce_seq_num e \<notin> ce_seq_num ` set es" "\<not> ce_in_use e" "i < length es"
  shows "cids_ok (es[i := e])"
proof -
  have "distinct (List.map ce_seq_num (es[i := e]))"
    using assms by (simp add: cids_ok_def map_update distinct_list_update)
  then show ?thesis
    using assms set_update_subset_insert [of es i e]
    unfolding cids_ok_def by (auto simp: nth_list_update split: if_splits)
qed

lemma cids_ok_use:
  assumes "cids_ok es" "i < length es" "\<not> ce_retired (es ! i)"
  shows "cids_ok ((List.map (\<lambda>e. e\<lparr>ce_in_use := False\<rparr>) es)[i := (es ! i)\<lparr>ce_in_use := True\<rparr>])"
proof -
  let ?m = "List.map (\<lambda>e. e\<lparr>ce_in_use := False\<rparr>) es"
  have "List.map ce_seq_num (?m[i := (es ! i)\<lparr>ce_in_use := True\<rparr>]) = List.map ce_seq_num es"
    using assms(2) by (simp add: map_update comp_def) (metis list_update_id nth_map)
  moreover have "\<not> ce_retired e" if "e \<in> set (?m[i := (es ! i)\<lparr>ce_in_use := True\<rparr>])" "ce_in_use e" for e
    using that assms(3) set_update_subset_insert [of ?m i "(es ! i)\<lparr>ce_in_use := True\<rparr>"] by auto
  moreover have "k = i" if "k < length es" "ce_in_use (?m[i := (es ! i)\<lparr>ce_in_use := True\<rparr>] ! k)" for k
    using that by (cases "k = i") auto
  ultimately show ?thesis
    using assms(1) unfolding cids_ok_def by (metis length_list_update length_map)
qed

lemma pool_inv_new_cid:
  assumes i: "pool_inv ms"
  shows "pool_inv (fst (nxp_migration_on_new_connection_id ms cid seq r tok))"
proof -
  let ?n = "unat (peer_cid_count ms)"
  let ?pool = "map_first ?n (retire_prior r) (peer_cid_pool ms)"
  let ?e = "\<lparr>ce_cid = cid, ce_seq_num = seq, ce_stateless_reset_token = take 16 tok, ce_in_use = False, ce_retired = False\<rparr>"
  let ?live = "List.map (retire_prior r) (live_cids ms)"
  have n: "?n \<le> 8" "length (peer_cid_pool ms) = 8" using i by (auto simp: pool_inv_def)
  have len: "length ?pool = 8" and live: "take ?n ?pool = ?live" "length ?live = ?n"
    using n by (auto simp: map_first_def live_cids_def)
  have ok: "cids_ok ?live" using i by (intro cids_ok_retire) (simp add: pool_inv_def)
  consider (dup) "\<exists>e \<in> set ?live. ce_seq_num e = seq"
    | (new) "\<not> (\<exists>e \<in> set ?live. ce_seq_num e = seq)" by blast
  then show ?thesis
  proof cases
    case dup
    then show ?thesis
      using i ok len live by (simp add: nxp_migration_on_new_connection_id_def pool_inv_def Let_def live_cids_def)
  next
    case new
    then have fresh: "ce_seq_num ?e \<notin> ce_seq_num ` set ?live" by auto
    show ?thesis
    proof (cases "peer_cid_count ms < 8")
      case True
      then have n8: "?n < 8" by (simp add: word_less_nat_alt)
      then have n1: "unat (peer_cid_count ms + 1) = Suc ?n" by (simp add: unat_word_ariths)
      have "take (Suc ?n) (?pool[?n := ?e]) = take ?n (?pool[?n := ?e]) @ [?pool[?n := ?e] ! ?n]"
        using n8 len by (intro take_Suc_conv_app_nth) simp
      then have "take (Suc ?n) (?pool[?n := ?e]) = ?live @ [?e]"
        using n8 len live(1) by simp
      moreover have "cids_ok (?live @ [?e])" using ok fresh by (intro cids_ok_append) auto
      ultimately show ?thesis
        using i new True n1 n8 len live(1)
        by (simp add: nxp_migration_on_new_connection_id_def pool_inv_def Let_def live_cids_def)
    next
      case False
      then have n8: "?n = 8" using n by (simp add: word_less_nat_alt)
      show ?thesis
      proof (cases "find_index (\<lambda>e. ce_retired e \<and> \<not> ce_in_use e) ?pool 0")
        case None
        then show ?thesis
          using i ok new False n8 len live(1)
          by (simp add: nxp_migration_on_new_connection_id_def pool_inv_def Let_def live_cids_def)
      next
        case (Some k)
        then have k: "k < 8" using find_index_Some [OF Some] len by simp
        have "cids_ok (?live[k := ?e])" using ok fresh k live(2) n8 by (intro cids_ok_replace) auto
        moreover have "?pool = ?live" using live(1) len n8 by simp
        ultimately show ?thesis
          using i new False n8 len live Some
          by (simp add: nxp_migration_on_new_connection_id_def pool_inv_def Let_def live_cids_def)
      qed
    qed
  qed
qed

lemma get_unused_cid_Some:
  assumes "nxp_migration_get_unused_cid ms = Some e" "pool_inv ms"
  shows "\<exists>k < length (live_cids ms). live_cids ms ! k = e \<and> \<not> ce_in_use e \<and> \<not> ce_retired e"
  using assms find_index_Some
  by (fastforce simp: nxp_migration_get_unused_cid_def live_cids_def pool_inv_def)

lemma pool_inv_rotate:
  assumes i: "pool_inv ms" and e: "nxp_migration_get_unused_cid ms = Some e"
  shows "pool_inv (nxp_migration_use_cid ms (ce_seq_num e))"
    and "\<exists>e' \<in> set (live_cids (nxp_migration_use_cid ms (ce_seq_num e))).
      ce_cid e' = ce_cid e \<and> ce_seq_num e' = ce_seq_num e \<and> ce_in_use e'"
proof -
  let ?live = "live_cids ms" and ?rel = "List.map (\<lambda>e. e\<lparr>ce_in_use := False\<rparr>) (live_cids ms)"
  obtain k where k: "k < length ?live" "?live ! k = e" "\<not> ce_retired e"
    using get_unused_cid_Some [OF e i] by blast
  have "e\<lparr>ce_in_use := False\<rparr> \<in> set ?rel" using k(1,2) nth_mem [OF k(1)] by auto
  then obtain j where j: "find_index (\<lambda>x. ce_seq_num x = ce_seq_num e) ?rel 0 = Some j"
    using find_index_None [of "\<lambda>x. ce_seq_num x = ce_seq_num e" ?rel 0 "e\<lparr>ce_in_use := False\<rparr>"]
    by (cases "find_index (\<lambda>x. ce_seq_num x = ce_seq_num e) ?rel 0") simp_all
  then have "j < length ?live" "ce_seq_num (?live ! j) = ce_seq_num e"
    using find_index_Some [OF j] by auto
  then have jk: "j = k"
    using i k nth_eq_iff_index_eq [of "List.map ce_seq_num ?live" j k] by (auto simp: pool_inv_def cids_ok_def)
  let ?new = "?rel[k := (?live ! k)\<lparr>ce_in_use := True\<rparr>]"
  have len: "length ?live = unat (peer_cid_count ms)" using i by (simp add: pool_inv_def live_cids_def)
  have "peer_cid_pool (nxp_migration_use_cid ms (ce_seq_num e)) = ?new @ drop (unat (peer_cid_count ms)) (peer_cid_pool ms)"
    using j jk k(1)
    by (simp add: nxp_migration_use_cid_def Let_def split_beta release_loop_entries live_cids_def)
  then have new: "live_cids (nxp_migration_use_cid ms (ce_seq_num e)) = ?new"
      "length (peer_cid_pool (nxp_migration_use_cid ms (ce_seq_num e))) = 8"
    using len i by (auto simp: live_cids_def pool_inv_def)
  have "cids_ok ?new" using i k by (intro cids_ok_use) (auto simp: pool_inv_def)
  then show "pool_inv (nxp_migration_use_cid ms (ce_seq_num e))"
    using i new by (simp add: pool_inv_def)
  show "\<exists>e' \<in> set (live_cids (nxp_migration_use_cid ms (ce_seq_num e))).
      ce_cid e' = ce_cid e \<and> ce_seq_num e' = ce_seq_num e \<and> ce_in_use e'"
    unfolding new(1) using k by (intro bexI [of _ "e\<lparr>ce_in_use := True\<rparr>"]) (auto intro: set_update_memI)
qed

lemma generate_loop_count:
  "unat (pending_new_cid_count ms) \<le> 4 \<Longrightarrow>
   unat (pending_new_cid_count (fst (generate_cids_loop rc rt ms b g))) \<le> 4"
proof (induction rc rt ms b g rule: generate_cids_loop.induct)
  case (1 rc rt ms b g)
  then show ?case unfolding generate_cids_loop.simps [of rc rt ms b g]
    by (auto simp: Let_def word_less_nat_alt unat_word_ariths)
qed

lemma pool_inv_step: "pool_inv ms \<Longrightarrow> pool_inv (mig_step ms e)"
proof (cases e)
  case Mig_rotate
  then show "pool_inv ms \<Longrightarrow> pool_inv (mig_step ms e)"
    using pool_inv_rotate(1) by (auto split: option.split)
next
  case (Mig_generate rc rt b)
  then show "pool_inv ms \<Longrightarrow> pool_inv (mig_step ms e)"
    using generate_loop_kept [of rc rt ms b 0] generate_loop_count [of ms rc rt b 0]
    by (simp add: pool_inv_def live_cids_def nxp_migration_generate_cids_def)
next
  case Mig_sent_cid
  then show "pool_inv ms \<Longrightarrow> pool_inv (mig_step ms e)"
    by (auto simp: pool_inv_def live_cids_def unat_sub_if' word_less_nat_alt)
qed (auto simp: pool_inv_new_cid,
     auto simp: pool_inv_def live_cids_def nxp_migration_on_path_challenge_def nxp_migration_on_path_response_def
       nxp_migration_on_peer_addr_change_def nxp_migration_on_retire_connection_id_def
       nxp_migration_check_timeout_def Let_def split: sum.split)

lemma pool_inv_run: "pool_inv (foldl mig_step nxp_migration_init es)"
proof (induction es rule: rev_induct)
  case Nil
  show ?case by (simp add: pool_inv_def nxp_migration_init_def live_cids_def cids_ok_def)
qed (simp add: pool_inv_step)

section \<open>Properties\<close>

text \<open>C20. A peer address is adopted only after it proved that it receives our packets: in every
  history of migration events, the validated current path carries an address for which a
  challenge was drawn and whose exact challenge bytes came back in a PATH_RESPONSE later; a
  pending challenge always belongs to the migration in progress.
\<close>

theorem nxp_migration_path_validated:
  "let ms = foldl mig_step nxp_migration_init es in
     (path_validated (current_path ms) \<longrightarrow>
        (\<exists>us vs ws d now. es = us @ Mig_addr (Inr d) (path_addr (current_path ms)) now # vs @ Mig_response d # ws)) \<and>
     path_challenge_pending (new_path ms) = migration_in_progress ms"
  using path_history_run [of es] answeredE [of es] unfolding path_history_def Let_def by blast

theorem nxp_migration_path_validated_witness:
  "let es = [Mig_addr (Inr [1, 2, 3, 4, 5, 6, 7, 8]) \<lparr>addr_raw = [2, 0, 1, 187, 10, 0, 0, 1]\<rparr> 5,
             Mig_sent_challenge, Mig_response [0, 2, 3, 4, 5, 6, 7, 8], Mig_response [1, 2, 3, 4, 5, 6, 7, 8]];
       ms = foldl mig_step nxp_migration_init es in
   path_validated (current_path ms) \<and>
   (\<exists>us vs ws d now. es = us @ Mig_addr (Inr d) (path_addr (current_path ms)) now # vs @ Mig_response d # ws)"
proof -
  let ?es = "[Mig_addr (Inr [1, 2, 3, 4, 5, 6, 7, 8]) \<lparr>addr_raw = [2, 0, 1, 187, 10, 0, 0, 1]\<rparr> 5,
             Mig_sent_challenge, Mig_response [0, 2, 3, 4, 5, 6, 7, 8], Mig_response [1, 2, 3, 4, 5, 6, 7, 8]]"
  have "path_validated (current_path (foldl mig_step nxp_migration_init ?es))"
    by (simp add: nxp_migration_init_def nxp_migration_on_peer_addr_change_def nxp_migration_on_path_response_def
        zero_path_def Let_def)
  with nxp_migration_path_validated [of ?es] show ?thesis unfolding Let_def by blast
qed

text \<open>C36. The pool of peer connection IDs stays well formed in every history: at most eight entries,
  no sequence number twice, at most one entry in use and never a retired one; at most four own
  IDs are pending; and rotating to an unused ID puts exactly that ID in use.
\<close>

theorem nxp_migration_cid_pool:
  "let ms = foldl mig_step nxp_migration_init es; live = live_cids ms in
     length live = unat (peer_cid_count ms) \<and> unat (peer_cid_count ms) \<le> 8 \<and>
     unat (pending_new_cid_count ms) \<le> 4 \<and> distinct (List.map ce_seq_num live) \<and>
     (\<forall>e \<in> set live. ce_in_use e \<longrightarrow> \<not> ce_retired e) \<and>
     (\<forall>i < length live. \<forall>j < length live. ce_in_use (live ! i) \<and> ce_in_use (live ! j) \<longrightarrow> i = j) \<and>
     (\<forall>e. nxp_migration_get_unused_cid ms = Some e \<longrightarrow>
        e \<in> set live \<and> \<not> ce_retired e \<and>
        (\<exists>e' \<in> set (live_cids (nxp_migration_use_cid ms (ce_seq_num e))).
           ce_cid e' = ce_cid e \<and> ce_seq_num e' = ce_seq_num e \<and> ce_in_use e'))"
proof -
  define ms where "ms = foldl mig_step nxp_migration_init es"
  have i: "pool_inv ms" unfolding ms_def by (rule pool_inv_run)
  have "length (live_cids ms) = unat (peer_cid_count ms)" using i by (simp add: pool_inv_def live_cids_def)
  moreover have "e \<in> set (live_cids ms) \<and> \<not> ce_retired e" if "nxp_migration_get_unused_cid ms = Some e" for e
    using get_unused_cid_Some [OF that i] by (auto simp: in_set_conv_nth)
  ultimately show ?thesis
    unfolding ms_def [symmetric] Let_def using i pool_inv_rotate(2) [OF i] unfolding pool_inv_def cids_ok_def
    by blast
qed

theorem nxp_migration_cid_pool_witness:
  "let ms = foldl mig_step nxp_migration_init
       [Mig_new_cid \<lparr>cid_data = [1, 1]\<rparr> 1 0 (replicate 16 7), Mig_rotate,
        Mig_new_cid \<lparr>cid_data = [2, 2]\<rparr> 2 0 (replicate 16 9), Mig_rotate] in
   distinct (List.map ce_seq_num (live_cids ms)) \<and> List.map ce_seq_num (live_cids ms) = [1, 2] \<and>
   List.map ce_in_use (live_cids ms) = [False, True] \<and> retire_seq ms = 1"
proof -
  let ?es = "[Mig_new_cid \<lparr>cid_data = [1, 1]\<rparr> 1 0 (replicate 16 7), Mig_rotate,
        Mig_new_cid \<lparr>cid_data = [2, 2]\<rparr> 2 0 (replicate 16 9), Mig_rotate]"
  have "List.map ce_seq_num (live_cids (foldl mig_step nxp_migration_init ?es)) = [1, 2]"
    "List.map ce_in_use (live_cids (foldl mig_step nxp_migration_init ?es)) = [False, True]"
    "retire_seq (foldl mig_step nxp_migration_init ?es) = 1"
    by code_simp+
  then show ?thesis using nxp_migration_cid_pool [of ?es] unfolding Let_def by blast
qed

end
