(* ===== verification/Nxp_Crypto.thy ===== *)
theory Nxp_Crypto
  imports Nxp_Packet
begin

text \<open>
  The cryptographic layer: \<^verbatim>\<open>src/crypto/aead.c\<close>, \<^verbatim>\<open>hkdf.c\<close>, \<^verbatim>\<open>handshake_crypto.c\<close> and
  \<^verbatim>\<open>header_protection.c\<close>. The primitives of OpenSSL these files call are the fields of a
  record that every definition takes as its first argument; what the proofs need of them
  (the documented behaviour of HMAC, AEAD ciphers and X25519) are named hypotheses. The theory
  shows that HKDF-Expand is the function of RFC 5869, that nonces are never reused for two
  packet numbers and that header protection is undone exactly.
\<close>

section \<open>Primitives and keys\<close>

abbreviation (input) NXP_AEAD_TAG_LEN :: nat where "NXP_AEAD_TAG_LEN \<equiv> 16"
abbreviation (input) NXP_AEAD_IV_LEN :: nat where "NXP_AEAD_IV_LEN \<equiv> 12"
abbreviation (input) NXP_HASH_LEN :: nat where "NXP_HASH_LEN \<equiv> 32"
abbreviation (input) NXP_X25519_KEY_LEN :: nat where "NXP_X25519_KEY_LEN \<equiv> 32"

text \<open>The enumeration, with the values a cast from a received byte can produce beside it.\<close>

datatype nxp_aead_algo = NXP_AEAD_AES_256_GCM | NXP_AEAD_CHACHA20_POLY1305 | AEAD_other u8

definition aead_algo_of :: "u8 \<Rightarrow> nxp_aead_algo" where
  "aead_algo_of b =
     (if b = 0 then NXP_AEAD_AES_256_GCM else if b = 1 then NXP_AEAD_CHACHA20_POLY1305 else AEAD_other b)"

fun aead_algo_byte :: "nxp_aead_algo \<Rightarrow> u8" where
  "aead_algo_byte NXP_AEAD_AES_256_GCM = 0"
| "aead_algo_byte NXP_AEAD_CHACHA20_POLY1305 = 1"
| "aead_algo_byte (AEAD_other b) = b"

text \<open>OpenSSL: HMAC-SHA256 on a key and the concatenation of the updates, SHA-256, X25519, AEAD
  sealing (ciphertext and tag) and opening, AES-256-ECB on one block and ChaCha20.\<close>

record openssl =
  ossl_hmac_sha256 :: "bytes \<Rightarrow> bytes \<Rightarrow> bytes option"
  ossl_sha256 :: "bytes \<Rightarrow> bytes option"
  ossl_x25519 :: "bytes \<Rightarrow> bytes \<Rightarrow> bytes option"
  ossl_seal :: "nxp_aead_algo \<Rightarrow> bytes \<Rightarrow> bytes \<Rightarrow> bytes \<Rightarrow> bytes \<Rightarrow> (bytes \<times> bytes) option"
  ossl_open :: "nxp_aead_algo \<Rightarrow> bytes \<Rightarrow> bytes \<Rightarrow> bytes \<Rightarrow> bytes \<Rightarrow> bytes \<Rightarrow> bytes option"
  ossl_aes_ecb :: "bytes \<Rightarrow> bytes \<Rightarrow> bytes option"
  ossl_chacha20 :: "bytes \<Rightarrow> bytes \<Rightarrow> bytes \<Rightarrow> bytes option"

record nxp_crypto_keys =
  ck_key :: bytes
  ck_iv :: bytes
  ck_hp_key :: bytes
  ck_key_len :: u8

record nxp_crypto_state =
  cs_send :: nxp_crypto_keys
  cs_recv :: nxp_crypto_keys
  cs_algo :: nxp_aead_algo
  cs_available :: bool

definition zero_crypto_keys :: nxp_crypto_keys where
  "zero_crypto_keys = \<lparr>ck_key = replicate 32 0, ck_iv = replicate 12 0, ck_hp_key = replicate 32 0, ck_key_len = 0\<rparr>"

definition zero_crypto_state :: nxp_crypto_state where
  "zero_crypto_state = \<lparr>cs_send = zero_crypto_keys, cs_recv = zero_crypto_keys,
     cs_algo = NXP_AEAD_AES_256_GCM, cs_available = False\<rparr>"

definition nxp_aead_key_len :: "nxp_aead_algo \<Rightarrow> u8" where
  "nxp_aead_key_len algo = 32"

section \<open>AEAD\<close>

definition get_cipher :: "nxp_aead_algo \<Rightarrow> bool" where
  "get_cipher algo = (case algo of AEAD_other b \<Rightarrow> False | _ \<Rightarrow> True)"

definition nxp_aead_encrypt ::
    "openssl \<Rightarrow> nxp_aead_algo \<Rightarrow> bytes \<Rightarrow> bytes \<Rightarrow> bytes \<Rightarrow> bytes \<Rightarrow> bytes option" where
  "nxp_aead_encrypt ssl algo key nonce aad plaintext =
     (if \<not> get_cipher algo then None
      else do { (ct, tag) \<leftarrow> ossl_seal ssl algo key nonce aad plaintext; Some (ct @ tag) })"

definition nxp_aead_decrypt ::
    "openssl \<Rightarrow> nxp_aead_algo \<Rightarrow> bytes \<Rightarrow> bytes \<Rightarrow> bytes \<Rightarrow> bytes \<Rightarrow> bytes option" where
  "nxp_aead_decrypt ssl algo key nonce aad ciphertext =
     (if length ciphertext < NXP_AEAD_TAG_LEN then None
      else if \<not> get_cipher algo then None
      else
        let payload_len = length ciphertext - NXP_AEAD_TAG_LEN in
        ossl_open ssl algo key nonce aad (take payload_len ciphertext) (drop payload_len ciphertext))"

section \<open>HKDF\<close>

definition hmac_sha256 :: "openssl \<Rightarrow> bytes \<Rightarrow> bytes \<Rightarrow> bytes option" where
  "hmac_sha256 ssl key data = do {
     out \<leftarrow> ossl_hmac_sha256 ssl key data;
     if length out = NXP_HASH_LEN then Some out else None }"

definition hmac_sha256_multi :: "openssl \<Rightarrow> bytes \<Rightarrow> bytes list \<Rightarrow> bytes option" where
  "hmac_sha256_multi ssl key parts = do {
     out \<leftarrow> ossl_hmac_sha256 ssl key (concat parts);
     if length out = NXP_HASH_LEN then Some out else None }"

definition nxp_hkdf_extract :: "openssl \<Rightarrow> bytes \<Rightarrow> bytes \<Rightarrow> bytes option" where
  "nxp_hkdf_extract ssl salt ikm =
     (let salt = (if salt = [] then replicate NXP_HASH_LEN 0 else salt) in hmac_sha256 ssl salt ikm)"

function hkdf_expand_loop ::
    "openssl \<Rightarrow> bytes \<Rightarrow> bytes \<Rightarrow> nat \<Rightarrow> bytes \<Rightarrow> u8 \<Rightarrow> bytes \<Rightarrow> bytes option" where
  "hkdf_expand_loop ssl prk info okm_len t counter okm =
     (if length okm < okm_len then do {
        t \<leftarrow> hmac_sha256_multi ssl prk [t, info, [counter]];
        let copy_len = okm_len - length okm;
            copy_len = (if copy_len > NXP_HASH_LEN then NXP_HASH_LEN else copy_len) in
        hkdf_expand_loop ssl prk info okm_len t (counter + 1) (okm @ take copy_len t) }
      else Some okm)"
  by pat_completeness auto

termination
  by (relation "measure (\<lambda>(ssl, prk, info, n, t, c, okm). n - length okm)")
     (auto simp: hmac_sha256_multi_def bind_Some_iff split: if_splits)

declare hkdf_expand_loop.simps [simp del]

definition nxp_hkdf_expand :: "openssl \<Rightarrow> bytes \<Rightarrow> bytes \<Rightarrow> nat \<Rightarrow> bytes option" where
  "nxp_hkdf_expand ssl prk info okm_len =
     (if okm_len > 255 * NXP_HASH_LEN then None else hkdf_expand_loop ssl prk info okm_len [] 1 [])"

definition label_bytes :: "string \<Rightarrow> bytes" where
  "label_bytes s = List.map of_char s"

definition hkdf_label :: "string \<Rightarrow> bytes \<Rightarrow> nat \<Rightarrow> bytes" where
  "hkdf_label label context out_len =
     [of_nat (out_len div 256), of_nat (out_len mod 256)] @
     [of_nat (5 + length label)] @ label_bytes ''nxp1 '' @ label_bytes label @
     [of_nat (length context)] @ context"

text \<open>The label is built in an array of 512 bytes; a label and a context that overrun it have no
  result.\<close>

definition nxp_hkdf_expand_label ::
    "openssl \<Rightarrow> bytes \<Rightarrow> string \<Rightarrow> bytes \<Rightarrow> nat \<Rightarrow> bytes option" where
  "nxp_hkdf_expand_label ssl secret label context out_len =
     (if 5 + length label > 255 \<or> length context > 255 \<or> out_len > 65535 then None
      else
        let info = hkdf_label label context out_len in
        if length info > 512 then None
        else nxp_hkdf_expand ssl secret info out_len)"

definition nxp_crypto_hash :: "openssl \<Rightarrow> bytes \<Rightarrow> bytes option" where
  "nxp_crypto_hash ssl data = do {
     out \<leftarrow> ossl_sha256 ssl data; if length out = NXP_HASH_LEN then Some out else None }"

section \<open>Key exchange and key derivation\<close>

definition NXP_INITIAL_SALT :: bytes where
  "NXP_INITIAL_SALT =
     [0x4e, 0x58, 0x50, 0x31, 0x2d, 0x69, 0x6e, 0x69, 0x74, 0x69,
      0x61, 0x6c, 0x2d, 0x73, 0x61, 0x6c, 0x74, 0x2d, 0x76, 0x31]"

definition nxp_x25519_shared_secret :: "openssl \<Rightarrow> bytes \<Rightarrow> bytes \<Rightarrow> bytes option" where
  "nxp_x25519_shared_secret ssl private_key peer_public = do {
     s \<leftarrow> ossl_x25519 ssl private_key peer_public;
     if length s = NXP_X25519_KEY_LEN then Some s else None }"

function nonce_loop :: "nat \<Rightarrow> u64 \<Rightarrow> bytes \<Rightarrow> bytes" where
  "nonce_loop i pkt_num nonce =
     (if i < 8 then
        nonce_loop (i + 1) pkt_num
          (nonce[NXP_AEAD_IV_LEN - 1 - i := (nonce ! (NXP_AEAD_IV_LEN - 1 - i)) XOR ucast (drop_bit (8 * i) pkt_num)])
      else nonce)"
  by pat_completeness auto

termination
  by (relation "measure (\<lambda>(i, pn, nonce). 8 - i)") auto

definition nxp_crypto_make_nonce :: "bytes \<Rightarrow> u64 \<Rightarrow> bytes" where
  "nxp_crypto_make_nonce iv pkt_num = nonce_loop 0 pkt_num iv"

declare nonce_loop.simps [simp del]

text \<open>The output structure is filled field by field; the flag is the C result.\<close>

definition nxp_crypto_derive_traffic_keys ::
    "openssl \<Rightarrow> bytes \<Rightarrow> nxp_aead_algo \<Rightarrow> nxp_crypto_keys \<Rightarrow> nxp_crypto_keys \<times> bool" where
  "nxp_crypto_derive_traffic_keys ssl secret algo out =
     (let klen = nxp_aead_key_len algo in
      case nxp_hkdf_expand_label ssl secret ''key'' [] (unat klen) of
        None \<Rightarrow> (out, False)
      | Some k \<Rightarrow>
          let out = out\<lparr>ck_key := k\<rparr> in
          case nxp_hkdf_expand_label ssl secret ''iv'' [] NXP_AEAD_IV_LEN of
            None \<Rightarrow> (out, False)
          | Some iv \<Rightarrow>
              let out = out\<lparr>ck_iv := iv\<rparr> in
              case nxp_hkdf_expand_label ssl secret ''hp'' [] (unat klen) of
                None \<Rightarrow> (out, False)
              | Some hp \<Rightarrow> (out\<lparr>ck_hp_key := hp, ck_key_len := klen\<rparr>, True))"

definition nxp_crypto_derive_initial_keys ::
    "openssl \<Rightarrow> nxp_conn_id \<Rightarrow> nxp_crypto_state \<Rightarrow> nxp_crypto_state \<times> bool" where
  "nxp_crypto_derive_initial_keys ssl dcid state =
     (case nxp_hkdf_extract ssl NXP_INITIAL_SALT (cid_data dcid) of
        None \<Rightarrow> (state, False)
      | Some initial_secret \<Rightarrow>
        case nxp_hkdf_expand_label ssl initial_secret ''client in'' [] NXP_HASH_LEN of
          None \<Rightarrow> (state, False)
        | Some client_secret \<Rightarrow>
          case nxp_hkdf_expand_label ssl initial_secret ''server in'' [] NXP_HASH_LEN of
            None \<Rightarrow> (state, False)
          | Some server_secret \<Rightarrow>
            let state = state\<lparr>cs_algo := NXP_AEAD_AES_256_GCM\<rparr>;
                (k, ok) = nxp_crypto_derive_traffic_keys ssl client_secret (cs_algo state) (cs_send state);
                state = state\<lparr>cs_send := k\<rparr> in
            if \<not> ok then (state, False)
            else
              let (k, ok) = nxp_crypto_derive_traffic_keys ssl server_secret (cs_algo state) (cs_recv state);
                  state = state\<lparr>cs_recv := k\<rparr> in
              if \<not> ok then (state, False)
              else (state\<lparr>cs_available := True\<rparr>, True))"

section \<open>Header protection\<close>

abbreviation (input) NXP_HP_SAMPLE_LEN :: nat where "NXP_HP_SAMPLE_LEN \<equiv> 16"
abbreviation (input) NXP_HP_MASK_LEN :: nat where "NXP_HP_MASK_LEN \<equiv> 5"

definition generate_hp_mask :: "openssl \<Rightarrow> nxp_aead_algo \<Rightarrow> bytes \<Rightarrow> bytes \<Rightarrow> bytes option" where
  "generate_hp_mask ssl algo hp_key sample =
     (case algo of
        NXP_AEAD_AES_256_GCM \<Rightarrow> do { block \<leftarrow> ossl_aes_ecb ssl hp_key sample; Some (take NXP_HP_MASK_LEN block) }
      | NXP_AEAD_CHACHA20_POLY1305 \<Rightarrow> ossl_chacha20 ssl hp_key sample (replicate NXP_HP_MASK_LEN 0)
      | AEAD_other b \<Rightarrow> None)"

text \<open>XOR a few bytes into the packet from position \<open>off\<close>.\<close>

definition xor_at :: "bytes \<Rightarrow> nat \<Rightarrow> bytes \<Rightarrow> bytes" where
  "xor_at packet off m =
     take off packet @ map2 (\<lambda>x y. x XOR y) (take (length m) (drop off packet)) m @ drop (off + length m) packet"

definition mask_first :: "bytes \<Rightarrow> bytes \<Rightarrow> bytes" where
  "mask_first packet m =
     (if (packet ! 0) AND NXP_PKT_FORM_BIT \<noteq> 0
      then packet[0 := (packet ! 0) XOR ((m ! 0) AND 0x0F)]
      else packet[0 := (packet ! 0) XOR ((m ! 0) AND 0x1F)])"

definition nxp_hp_protect ::
    "openssl \<Rightarrow> nxp_aead_algo \<Rightarrow> bytes \<Rightarrow> bytes \<Rightarrow> nat \<Rightarrow> nat \<Rightarrow> bytes \<times> bool" where
  "nxp_hp_protect ssl algo hp_key packet pn_offset pn_len =
     (let sample_offset = pn_offset + 4 in
      if sample_offset + NXP_HP_SAMPLE_LEN > length packet then (packet, False)
      else
        case generate_hp_mask ssl algo hp_key (take NXP_HP_SAMPLE_LEN (drop sample_offset packet)) of
          None \<Rightarrow> (packet, False)
        | Some m \<Rightarrow>
            let packet = mask_first packet m in
            (xor_at packet pn_offset (take pn_len (drop 1 m)), True))"

text \<open>The length of the packet number, 0 on failure.\<close>

definition nxp_hp_unprotect ::
    "openssl \<Rightarrow> nxp_aead_algo \<Rightarrow> bytes \<Rightarrow> bytes \<Rightarrow> nat \<Rightarrow> bytes \<times> nat" where
  "nxp_hp_unprotect ssl algo hp_key packet pn_offset =
     (let sample_offset = pn_offset + 4 in
      if sample_offset + NXP_HP_SAMPLE_LEN > length packet then (packet, 0)
      else
        case generate_hp_mask ssl algo hp_key (take NXP_HP_SAMPLE_LEN (drop sample_offset packet)) of
          None \<Rightarrow> (packet, 0)
        | Some m \<Rightarrow>
            let packet = mask_first packet m;
                pn_len = unat ((packet ! 0) AND 0x03) + 1 in
            (xor_at packet pn_offset (take pn_len (drop 1 m)), pn_len))"

section \<open>Nonces\<close>

lemma length_nonce_loop [simp]: "length (nonce_loop i pn nonce) = length nonce"
proof (induction i pn nonce rule: nonce_loop.induct)
  case (1 i pn nonce)
  then show ?case unfolding nonce_loop.simps [of i pn nonce] by simp
qed

lemma nonce_loop_nth:
  assumes "length nonce = 12" "j < 12" "i \<le> 8"
  shows "nonce_loop i pn nonce ! j =
    (if 4 \<le> j \<and> j + i < 12 then (nonce ! j) XOR ucast (drop_bit (8 * (11 - j)) pn) else nonce ! j)"
  using assms
proof (induction i pn nonce rule: nonce_loop.induct)
  case (1 i pn nonce)
  show ?case
  proof (cases "i < 8")
    case True
    have "nonce_loop i pn nonce ! j =
        nonce_loop (i + 1) pn (nonce[11 - i := (nonce ! (11 - i)) XOR ucast (drop_bit (8 * i) pn)]) ! j"
      using True by (subst nonce_loop.simps) simp
    moreover have "j = 11 - i \<Longrightarrow> 11 - j = i" "j \<noteq> 11 - i \<Longrightarrow> (j + (i + 1) < 12) = (j + i < 12)"
      using True "1.prems" by auto
    ultimately show ?thesis
      using "1.IH" True "1.prems" by (cases "j = 11 - i") auto
  next
    case False
    then show ?thesis using "1.prems" by (subst nonce_loop.simps) auto
  qed
qed

lemma u64_eq_bytes:
  assumes "\<And>k. k < 8 \<Longrightarrow> (ucast (drop_bit (8 * k) x) :: u8) = ucast (drop_bit (8 * k) y)"
  shows "(x :: u64) = y"
proof (rule bit_word_eqI)
  fix n
  assume "n < LENGTH(64)"
  then have k: "n div 8 < 8" by simp
  have "bit (ucast (drop_bit (8 * (n div 8)) x) :: u8) (n mod 8) = bit (ucast (drop_bit (8 * (n div 8)) y) :: u8) (n mod 8)"
    using assms [OF k] by simp
  then show "bit x n = bit y n" by (simp add: bit_simps)
qed

lemma nonce_inj:
  assumes "length iv = 12" "nxp_crypto_make_nonce iv x = nxp_crypto_make_nonce iv y"
  shows "x = y"
proof (rule u64_eq_bytes)
  fix k :: nat
  assume k: "k < 8"
  let ?j = "11 - k"
  have j: "?j < 12" "4 \<le> ?j" "11 - ?j = k" using k by auto
  have "(iv ! ?j) XOR ucast (drop_bit (8 * k) x) = (iv ! ?j) XOR ucast (drop_bit (8 * k) y)"
    using arg_cong [OF assms(2), of "\<lambda>n. n ! ?j"] nonce_loop_nth [OF assms(1) j(1), of 0] j
    by (simp only: nxp_crypto_make_nonce_def) simp
  then have "(iv ! ?j) XOR ((iv ! ?j) XOR ucast (drop_bit (8 * k) x)) = (iv ! ?j) XOR ((iv ! ?j) XOR ucast (drop_bit (8 * k) y))"
    by simp
  then show "(ucast (drop_bit (8 * k) x) :: u8) = ucast (drop_bit (8 * k) y)"
    unfolding xor.assoc [symmetric] by simp
qed

section \<open>HKDF is RFC 5869\<close>

text \<open>What is required of OpenSSL's HMAC: it succeeds and returns the 32 bytes of the function
  \<open>H\<close>.\<close>

definition hmac_is :: "openssl \<Rightarrow> (bytes \<Rightarrow> bytes \<Rightarrow> bytes) \<Rightarrow> bool" where
  "hmac_is ssl H = (\<forall>k d. ossl_hmac_sha256 ssl k d = Some (H k d) \<and> length (H k d) = 32)"

text \<open>T(0) is empty, T(i) = HMAC(PRK, T(i-1) | info | i), and the output is the first \<open>L\<close> bytes
  of T(1) | T(2) | ... | T(N) for N the least with 32 * N at least L.\<close>

fun rfc_T :: "(bytes \<Rightarrow> bytes \<Rightarrow> bytes) \<Rightarrow> bytes \<Rightarrow> bytes \<Rightarrow> nat \<Rightarrow> bytes" where
  "rfc_T H prk info 0 = []"
| "rfc_T H prk info (Suc i) = H prk (rfc_T H prk info i @ info @ [of_nat (Suc i)])"

definition rfc_expand :: "(bytes \<Rightarrow> bytes \<Rightarrow> bytes) \<Rightarrow> bytes \<Rightarrow> bytes \<Rightarrow> nat \<Rightarrow> bytes" where
  "rfc_expand H prk info len = take len (concat (List.map (rfc_T H prk info) [1 ..< Suc ((len + 31) div 32)]))"

lemma hmac_multi_is:
  "hmac_is ssl H \<Longrightarrow> hmac_sha256_multi ssl k parts = Some (H k (concat parts))"
  by (simp add: hmac_is_def hmac_sha256_multi_def)

lemma hmac_one_is: "hmac_is ssl H \<Longrightarrow> hmac_sha256 ssl k d = Some (H k d)"
  by (simp add: hmac_is_def hmac_sha256_def)

lemma length_rfc_T: "hmac_is ssl H \<Longrightarrow> length (rfc_T H prk info (Suc i)) = 32"
  by (simp add: hmac_is_def)

lemma hkdf_expand_loop_done: "len \<le> length okm \<Longrightarrow> hkdf_expand_loop ssl prk info len t c okm = Some okm"
  by (subst hkdf_expand_loop.simps) simp

lemma hkdf_expand_loop_spec:
  assumes h: "hmac_is ssl H" and okm: "length okm = 32 * i"
  shows "hkdf_expand_loop ssl prk info len (rfc_T H prk info i) (of_nat (Suc i)) okm =
    Some (okm @ take (len - 32 * i) (concat (List.map (rfc_T H prk info) [Suc i ..< Suc ((len + 31) div 32)])))"
  using okm
proof (induction "len - 32 * i" arbitrary: i okm rule: less_induct)
  case less
  let ?T = "rfc_T H prk info" and ?n = "(len + 31) div 32"
  show ?case
  proof (cases "32 * i < len")
    case True
    then have n: "[Suc i ..< Suc ?n] = Suc i # [Suc (Suc i) ..< Suc ?n]"
      by (intro upt_conv_Cons) simp
    have l: "length (?T (Suc i)) = 32" by (rule length_rfc_T [OF h])
    have step: "hkdf_expand_loop ssl prk info len (?T i) (of_nat (Suc i)) okm =
        hkdf_expand_loop ssl prk info len (?T (Suc i)) (of_nat (Suc (Suc i))) (okm @ take (len - 32 * i) (?T (Suc i)))"
      using True less.prems l
      by (subst hkdf_expand_loop.simps) (simp add: hmac_multi_is [OF h] Let_def add.commute)
    show ?thesis
    proof (cases "len - 32 * i \<le> 32")
      case True
      then have "?n = Suc i" using \<open>32 * i < len\<close> by simp
      moreover have "len \<le> length (okm @ take (len - 32 * i) (?T (Suc i)))" using l True less.prems by simp
      ultimately show ?thesis
        using step hkdf_expand_loop_done by simp
    next
      case False
      have e: "len - 32 * Suc i = len - 32 * i - 32" by simp
      have t: "take (len - 32 * i) (?T (Suc i)) = ?T (Suc i)" using l False by simp
      have c: "take (len - 32 * i) (concat (List.map ?T [Suc i ..< Suc ?n])) =
          ?T (Suc i) @ take (len - 32 * i - 32) (concat (List.map ?T [Suc (Suc i) ..< Suc ?n]))"
        unfolding n using l False by (simp del: rfc_T.simps upt_Suc)
      have "hkdf_expand_loop ssl prk info len (?T (Suc i)) (of_nat (Suc (Suc i))) (okm @ ?T (Suc i)) =
          Some ((okm @ ?T (Suc i)) @ take (len - 32 * Suc i) (concat (List.map ?T [Suc (Suc i) ..< Suc ?n])))"
        using less.prems l False by (intro less.hyps) (simp_all add: length_rfc_T [OF h])
      then show ?thesis
        unfolding step t c e by (simp del: rfc_T.simps upt_Suc of_nat_Suc)
    qed
  next
    case False
    then show ?thesis using less.prems by (subst hkdf_expand_loop.simps) simp
  qed
qed

section \<open>Header protection is undone exactly\<close>

lemma length_xor_at [simp]: "off + length m \<le> length p \<Longrightarrow> length (xor_at p off m) = length p"
  by (simp add: xor_at_def)

lemma nth_xor_at:
  "off + length m \<le> length p \<Longrightarrow> j < length p \<Longrightarrow>
   xor_at p off m ! j = (if off \<le> j \<and> j < off + length m then (p ! j) XOR (m ! (j - off)) else p ! j)"
  by (auto simp: xor_at_def nth_append min_def)

lemma xor_at_twice: "off + length m \<le> length p \<Longrightarrow> xor_at (xor_at p off m) off m = p"
  by (rule nth_equalityI) (auto simp: nth_xor_at xor.assoc)

lemma length_mask_first [simp]: "length (mask_first p m) = length p"
  by (simp add: mask_first_def)

lemma nth_mask_first: "0 < j \<Longrightarrow> mask_first p m ! j = p ! j"
  by (simp add: mask_first_def)

lemma form_bit_masked:
  "((x XOR (y AND 0x0F)) AND 0x80 = 0) = ((x :: u8) AND 0x80 = 0)"
  "((x XOR (y AND 0x1F)) AND 0x80 = 0) = (x AND 0x80 = 0)"
proof -
  have "(y AND 0x0F) AND 0x80 = 0" "(y AND 0x1F) AND 0x80 = 0"
    by (simp_all add: and.assoc)
  then have "(x XOR (y AND 0x0F)) AND 0x80 = x AND 0x80" "(x XOR (y AND 0x1F)) AND 0x80 = x AND 0x80"
    by (simp_all add: bit.conj_xor_distrib2)
  then show "((x XOR (y AND 0x0F)) AND 0x80 = 0) = (x AND 0x80 = 0)"
    "((x XOR (y AND 0x1F)) AND 0x80 = 0) = (x AND 0x80 = 0)" by simp_all
qed

lemma mask_first_twice: "p \<noteq> [] \<Longrightarrow> mask_first (mask_first p m) m = p"
  by (auto simp: mask_first_def form_bit_masked xor.assoc)

text \<open>What header protection needs of OpenSSL: a block cipher returns a block and a stream cipher as
  many bytes as it is given.\<close>

definition mask_is :: "openssl \<Rightarrow> bool" where
  "mask_is ssl =
     ((\<forall>k b c. length b = 16 \<longrightarrow> ossl_aes_ecb ssl k b = Some c \<longrightarrow> length c = 16) \<and>
      (\<forall>k iv d c. ossl_chacha20 ssl k iv d = Some c \<longrightarrow> length c = length d))"

lemma mask_length:
  "mask_is ssl \<Longrightarrow> length sample = 16 \<Longrightarrow> generate_hp_mask ssl algo key sample = Some m \<Longrightarrow> length m = 5"
  by (cases algo) (auto simp: generate_hp_mask_def mask_is_def bind_Some_iff)

lemma mask_first_xor_at:
  assumes "0 < off" "off + length m' \<le> length p"
  shows "mask_first (xor_at p off m') m = xor_at (mask_first p m) off m'"
proof -
  have "xor_at p off m' ! 0 = p ! 0" using assms by (subst nth_xor_at) auto
  moreover have "0 < length p" "0 < length (xor_at p off m')" using assms by auto
  ultimately have h: "mask_first (xor_at p off m') m ! 0 = mask_first p m ! 0"
    by (auto simp: mask_first_def)
  show ?thesis
  proof (rule nth_equalityI)
    fix j
    assume "j < length (mask_first (xor_at p off m') m)"
    then show "mask_first (xor_at p off m') m ! j = xor_at (mask_first p m) off m' ! j"
      using assms h by (cases "j = 0") (auto simp: nth_xor_at nth_mask_first)
  qed (use assms in simp)
qed

lemma sample_kept:
  assumes "0 < off" "length m' \<le> 4" "off + 20 \<le> length p"
  shows "take 16 (drop (off + 4) (xor_at (mask_first p m) off m')) = take 16 (drop (off + 4) p)"
  by (rule nth_equalityI) (use assms in \<open>auto simp: nth_xor_at nth_mask_first\<close>)

lemma hp_roundtrip:
  assumes ssl: "mask_is ssl" and off: "0 < off" and n: "n = unat ((p ! 0) AND 0x03) + 1"
    and pr: "nxp_hp_protect ssl algo key p off n = (p', True)"
  shows "nxp_hp_unprotect ssl algo key p' off = (p, n)" and "length p' = length p"
proof -
  let ?s = "take 16 (drop (off + 4) p)"
  obtain m where m: "generate_hp_mask ssl algo key ?s = Some m" and len: "off + 20 \<le> length p"
      and p': "p' = xor_at (mask_first p m) off (take n (drop 1 m))"
    using pr by (auto simp: nxp_hp_protect_def Let_def split: if_splits option.splits)
  have "(p ! 0) AND 0x03 = take_bit 2 (p ! 0)" by (simp add: take_bit_eq_mask mask_eq_exp_minus_1)
  then have "unat ((p ! 0) AND 0x03) < 4"
    using take_bit_nat_less_exp [of 2 "unat (p ! 0)"] by (simp add: unsigned_take_bit_eq)
  then have n4: "n \<le> 4" using n by simp
  have m5: "length m = 5" using mask_length [OF ssl _ m] len by simp
  let ?m' = "take n (drop 1 m)"
  have l: "length ?m' = n" "off + length ?m' \<le> length p" using m5 n4 len by auto
  show lp: "length p' = length p" using p' l by simp
  have samp: "take 16 (drop (off + 4) p') = ?s"
    unfolding p' using off l(1) n4 len by (intro sample_kept) auto
  have "p \<noteq> []" using len by auto
  then have "mask_first p' m = xor_at p off ?m'"
    unfolding p' using mask_first_xor_at [of off ?m' "mask_first p m" m] off l mask_first_twice by simp
  moreover have "xor_at p off ?m' ! 0 = p ! 0" using off l len by (subst nth_xor_at) auto
  ultimately show "nxp_hp_unprotect ssl algo key p' off = (p, n)"
    unfolding nxp_hp_unprotect_def Let_def lp samp m using len n xor_at_twice [OF l(2)] by simp
qed

section \<open>AEAD\<close>

text \<open>What is required of OpenSSL's AEAD: sealing succeeds, adds a tag of 16 bytes to a ciphertext
  of the length of the plaintext, and opening with the same key, nonce and associated data
  returns the plaintext.\<close>

definition aead_is :: "openssl \<Rightarrow> bool" where
  "aead_is ssl =
     (\<forall>algo k n a pt. get_cipher algo \<longrightarrow>
        (\<exists>ct tag. ossl_seal ssl algo k n a pt = Some (ct, tag) \<and> length ct = length pt \<and> length tag = 16 \<and>
           ossl_open ssl algo k n a ct tag = Some pt))"

lemma aead_roundtrip:
  assumes "aead_is ssl" "get_cipher algo"
  shows "\<exists>ct. nxp_aead_encrypt ssl algo k n a pt = Some ct \<and> length ct = length pt + 16 \<and>
    nxp_aead_decrypt ssl algo k n a ct = Some pt"
proof -
  obtain ct tag where "ossl_seal ssl algo k n a pt = Some (ct, tag)" "length ct = length pt" "length tag = 16"
      "ossl_open ssl algo k n a ct tag = Some pt"
    using assms unfolding aead_is_def by blast
  then show ?thesis
    using assms(2) by (simp add: nxp_aead_encrypt_def nxp_aead_decrypt_def Let_def)
qed

text \<open>A toy instance of the primitives: they satisfy the hypotheses above and can be evaluated.\<close>

definition toy_ssl :: openssl where
  "toy_ssl =
     \<lparr>ossl_hmac_sha256 = (\<lambda>k d. Some (replicate 32 (of_nat (length k + length d)))),
      ossl_sha256 = (\<lambda>d. Some (replicate 32 (of_nat (length d)))),
      ossl_x25519 = (\<lambda>a b. Some (map2 (\<lambda>x y. x XOR y) a b)),
      ossl_seal = (\<lambda>algo k n a pt. Some (pt, replicate 16 (of_nat (length a)))),
      ossl_open = (\<lambda>algo k n a ct tag. if tag = replicate 16 (of_nat (length a)) then Some ct else None),
      ossl_aes_ecb = (\<lambda>k b. Some (rev b)),
      ossl_chacha20 = (\<lambda>k iv d. Some (List.map (\<lambda>x. x XOR 0xA5) d))\<rparr>"

lemma toy_ssl_ok:
  "hmac_is toy_ssl (\<lambda>k d. replicate 32 (of_nat (length k + length d)))" "mask_is toy_ssl" "aead_is toy_ssl"
  by (simp_all add: toy_ssl_def hmac_is_def mask_is_def aead_is_def)

section \<open>Properties\<close>

text \<open>C34. HKDF-Expand computes the function of RFC 5869: for every requested length up to 255 hash
  blocks it returns the first \<open>len\<close> bytes of T(1) | T(2) | ... with
  T(i) = HMAC(PRK, T(i-1) | info | i), and it refuses longer requests.
\<close>

theorem nxp_hkdf_expand_rfc5869:
  assumes "hmac_is ssl H"
  shows "nxp_hkdf_expand ssl prk info len =
    (if len \<le> 255 * 32 then Some (rfc_expand H prk info len) else None)"
  using hkdf_expand_loop_spec [OF assms, of "[]" 0 prk info len]
  by (simp add: nxp_hkdf_expand_def rfc_expand_def del: upt_Suc)

theorem nxp_hkdf_expand_rfc5869_witness:
  "nxp_hkdf_expand toy_ssl [1, 2, 3] [9, 9] 40 = Some (replicate 32 6 @ replicate 8 38)"
  using nxp_hkdf_expand_rfc5869 [OF toy_ssl_ok(1), of "[1, 2, 3]" "[9, 9]" 40]
  by (simp add: rfc_expand_def upt_rec)

text \<open>C22. Nonces are unique: with one initialization vector, two packet numbers give the same AEAD
  nonce only if they are equal, and a nonce always has twelve bytes.
\<close>

theorem nxp_crypto_nonce_unique:
  assumes "length iv = 12"
  shows "length (nxp_crypto_make_nonce iv x) = 12 \<and>
    (nxp_crypto_make_nonce iv x = nxp_crypto_make_nonce iv y) = (x = y)"
  using nonce_inj [OF assms] assms by (auto simp: nxp_crypto_make_nonce_def)

theorem nxp_crypto_nonce_unique_witness:
  "nxp_crypto_make_nonce (replicate 12 7) 1 \<noteq> nxp_crypto_make_nonce (replicate 12 7) 256"
  using nxp_crypto_nonce_unique [of "replicate 12 7" 1 256] by simp

text \<open>C21. Header protection is undone exactly: whatever packet the sender protects (with the packet
  number length its first byte announces), the receiver, who knows only where the packet number
  starts, recovers that length and the original packet, byte for byte.
\<close>

theorem nxp_hp_roundtrip:
  assumes "mask_is ssl" and "0 < pn_offset" and "pn_len = unat ((packet ! 0) AND 0x03) + 1"
    and "nxp_hp_protect ssl algo hp_key packet pn_offset pn_len = (packet', True)"
  shows "nxp_hp_unprotect ssl algo hp_key packet' pn_offset = (packet, pn_len)"
  using hp_roundtrip(1) [OF assms] .

theorem nxp_hp_roundtrip_witness:
  "let packet = [0x41, 7, 1, 2] @ replicate 20 9;
       packet' = fst (nxp_hp_protect toy_ssl NXP_AEAD_CHACHA20_POLY1305 [] packet 2 2) in
   packet' \<noteq> packet \<and> nxp_hp_unprotect toy_ssl NXP_AEAD_CHACHA20_POLY1305 [] packet' 2 = (packet, 2)"
proof -
  let ?p = "[0x41, 7, 1, 2] @ replicate 20 9 :: bytes"
  let ?r = "nxp_hp_protect toy_ssl NXP_AEAD_CHACHA20_POLY1305 [] ?p 2 2"
  have "snd ?r" "fst ?r \<noteq> ?p" by code_simp+
  then have "?r = (fst ?r, True)" by (simp add: prod_eq_iff)
  with nxp_hp_roundtrip [OF toy_ssl_ok(2) _ _ this] \<open>fst ?r \<noteq> ?p\<close> show ?thesis by (simp add: Let_def)
qed

end
