(* ===== verification/Nxp_Token.thy ===== *)
theory Nxp_Token
  imports Nxp_Crypto
begin

text \<open>
  The server's stateless credentials: session tickets with their replay register
  (\<^verbatim>\<open>src/crypto/session_ticket.c\<close>), retry tokens (\<^verbatim>\<open>src/crypto/retry_token.c\<close>) and proof of
  work (\<^verbatim>\<open>src/crypto/proof_of_work.c\<close>). The bytes of \<^verbatim>\<open>nxp_random_bytes\<close> are arguments. The
  theory shows what a ticket or a token proves when the server accepts it and that proof-of-work
  solutions are found and verified.
\<close>

section \<open>Session tickets\<close>

abbreviation (input) NXP_TICKET_VERSION :: u8 where "NXP_TICKET_VERSION \<equiv> 1"
abbreviation (input) NXP_TICKET_MAX_PLAINTEXT :: nat where "NXP_TICKET_MAX_PLAINTEXT \<equiv> 512"
abbreviation (input) NXP_TICKET_DEFAULT_LIFETIME :: u32 where "NXP_TICKET_DEFAULT_LIFETIME \<equiv> 3600"
abbreviation (input) NXP_STRIKE_REGISTER_SIZE :: nat where "NXP_STRIKE_REGISTER_SIZE \<equiv> 1024"

text \<open>Decryption into a plaintext array of \<open>cap\<close> bytes. OpenSSL writes the plaintext before the tag
  is checked, and a failure wipes as many bytes as the ciphertext with its tag has; \<^term>\<open>None\<close> is
  a write past the array.\<close>

definition aead_decrypt_into ::
    "openssl \<Rightarrow> nxp_aead_algo \<Rightarrow> bytes \<Rightarrow> bytes \<Rightarrow> bytes \<Rightarrow> nat \<Rightarrow> bytes option option" where
  "aead_decrypt_into ssl algo key nonce ct cap =
     (if length ct < NXP_AEAD_TAG_LEN \<or> \<not> get_cipher algo then Some None
      else if length ct - NXP_AEAD_TAG_LEN > cap then None
      else case nxp_aead_decrypt ssl algo key nonce [] ct of
        None \<Rightarrow> if length ct > cap then None else Some None
      | Some pt \<Rightarrow> Some (Some pt))"

record nxp_strike_entry =
  se_ticket_hash :: u64
  se_timestamp :: u64
  se_occupied :: bool

record nxp_strike_register =
  strike_entries :: "nxp_strike_entry list"
  strike_count :: u32

definition nxp_strike_register_create :: nxp_strike_register where
  "nxp_strike_register_create =
     \<lparr>strike_entries = replicate NXP_STRIKE_REGISTER_SIZE
        \<lparr>se_ticket_hash = 0, se_timestamp = 0, se_occupied = False\<rparr>, strike_count = 0\<rparr>"

definition hash_ticket :: "bytes \<Rightarrow> u64" where
  "hash_ticket nonce = foldl (\<lambda>h b. (h XOR ucast b) * 0x00000100000001B3) 0x517cc1b727220a95 nonce"

definition strike_idx :: "bytes \<Rightarrow> nat" where
  "strike_idx nonce = unat (hash_ticket nonce) mod NXP_STRIKE_REGISTER_SIZE"

definition nxp_strike_register_check_and_add ::
    "nxp_strike_register \<Rightarrow> bytes \<Rightarrow> u64 \<Rightarrow> nxp_strike_register \<times> bool" where
  "nxp_strike_register_check_and_add reg ticket_nonce now_us =
     (let h = hash_ticket ticket_nonce;
          idx = strike_idx ticket_nonce in
      if se_occupied (strike_entries reg ! idx) \<and> se_ticket_hash (strike_entries reg ! idx) = h
      then (reg, False)
      else
        (reg\<lparr>strike_entries := (strike_entries reg)[idx :=
               \<lparr>se_ticket_hash = h, se_timestamp = now_us, se_occupied = True\<rparr>],
             strike_count := (if strike_count reg < of_nat NXP_STRIKE_REGISTER_SIZE
                              then strike_count reg + 1 else strike_count reg)\<rparr>, True))"

definition ticket_plain :: "u64 \<Rightarrow> nxp_aead_algo \<Rightarrow> bytes \<Rightarrow> bytes option \<Rightarrow> nat \<Rightarrow> bytes" where
  "ticket_plain now_us algo resumption_secret transport_params tp_len =
     [NXP_TICKET_VERSION] @ write_pkt_num now_us 8 @ nxp_write_u32_be NXP_TICKET_DEFAULT_LIFETIME @
     [aead_algo_byte algo] @ resumption_secret @
     [of_nat (tp_len div 256), of_nat (tp_len mod 256)] @
     (case transport_params of None \<Rightarrow> [] | Some tp \<Rightarrow> take tp_len tp)"

text \<open>With a null pointer for the parameters the announced length is written all the same.\<close>

definition nxp_session_ticket_create ::
    "openssl \<Rightarrow> nxp_error_code + bytes \<Rightarrow> bytes \<Rightarrow> bytes \<Rightarrow> nxp_aead_algo \<Rightarrow> bytes option \<Rightarrow> nat \<Rightarrow> u64 \<Rightarrow>
     nat \<Rightarrow> nxp_error_code + bytes" where
  "nxp_session_ticket_create ssl rnd server_key resumption_secret algo transport_params tp_len now_us
       ticket_cap =
     (if tp_len > 255 then Inl NXP_ERR_INVALID_ARGUMENT
      else
        let pt = ticket_plain now_us algo resumption_secret transport_params tp_len in
        if length pt > NXP_TICKET_MAX_PLAINTEXT then Inl NXP_ERR_BUFFER_TOO_SMALL
        else if ticket_cap < 12 + length pt + NXP_AEAD_TAG_LEN then Inl NXP_ERR_BUFFER_TOO_SMALL
        else case rnd of
          Inl e \<Rightarrow> Inl e
        | Inr nonce \<Rightarrow>
            (case nxp_aead_encrypt ssl NXP_AEAD_AES_256_GCM server_key nonce [] pt of
               None \<Rightarrow> Inl NXP_ERR_CRYPTO_FAIL
             | Some ct \<Rightarrow> Inr (nonce @ ct)))"

record ticket_contents =
  tk_secret :: bytes
  tk_algo :: nxp_aead_algo
  tk_tp_len :: nat
  tk_tp :: "bytes option"

definition parse_ticket :: "bytes \<Rightarrow> u64 \<Rightarrow> nat \<Rightarrow> nxp_error_code + ticket_contents" where
  "parse_ticket pt now_us tp_cap =
     (if length pt < 1 + 8 + 4 + 1 + NXP_HASH_LEN + 2 then Inl NXP_ERR_TOKEN_INVALID
      else if pt ! 0 \<noteq> NXP_TICKET_VERSION then Inl NXP_ERR_TOKEN_INVALID
      else
        let creation_time = read_pkt_num (take 8 (drop 1 pt));
            lifetime = nxp_read_u32_be (drop 9 pt);
            max_age = ucast lifetime * 1000000 in
        if now_us > creation_time + max_age then Inl NXP_ERR_TOKEN_INVALID
        else
          let algo = aead_algo_of (pt ! 13);
              secret = take NXP_HASH_LEN (drop 14 pt);
              tp_len = unat (pt ! 46) * 256 + unat (pt ! 47) in
          if tp_len > 0 \<and> 48 + tp_len > length pt then Inl NXP_ERR_TOKEN_INVALID
          else Inr \<lparr>tk_secret = secret, tk_algo = algo, tk_tp_len = tp_len,
                 tk_tp = (if tp_cap \<ge> tp_len then Some (take tp_len (drop 48 pt)) else None)\<rparr>)"

definition nxp_session_ticket_validate ::
    "openssl \<Rightarrow> bytes \<Rightarrow> bytes \<Rightarrow> u64 \<Rightarrow> nat \<Rightarrow> (nxp_error_code + ticket_contents) option" where
  "nxp_session_ticket_validate ssl server_key ticket now_us tp_cap =
     (if length ticket < 12 + 1 + 8 + 4 + 1 + NXP_HASH_LEN + 2 + NXP_AEAD_TAG_LEN
      then Some (Inl NXP_ERR_TOKEN_INVALID)
      else do {
        r \<leftarrow> aead_decrypt_into ssl NXP_AEAD_AES_256_GCM server_key (take 12 ticket) (drop 12 ticket)
               NXP_TICKET_MAX_PLAINTEXT;
        Some (case r of None \<Rightarrow> Inl NXP_ERR_TOKEN_INVALID | Some pt \<Rightarrow> parse_ticket pt now_us tp_cap) })"

definition nxp_crypto_derive_zero_rtt_keys ::
    "openssl \<Rightarrow> bytes \<Rightarrow> nxp_aead_algo \<Rightarrow> nxp_crypto_state \<times> bool" where
  "nxp_crypto_derive_zero_rtt_keys ssl resumption_secret algo =
     (let state = zero_crypto_state in
      case nxp_hkdf_extract ssl NXP_INITIAL_SALT resumption_secret of
        None \<Rightarrow> (state, False)
      | Some early_secret \<Rightarrow>
        case nxp_hkdf_expand_label ssl early_secret ''c e traffic'' [] NXP_HASH_LEN of
          None \<Rightarrow> (state, False)
        | Some client_early_secret \<Rightarrow>
          let state = state\<lparr>cs_algo := algo\<rparr>;
              (k, ok) = nxp_crypto_derive_traffic_keys ssl client_early_secret algo (cs_send state);
              state = state\<lparr>cs_send := k\<rparr> in
          if \<not> ok then (state, False)
          else (state\<lparr>cs_recv := cs_send state, cs_available := True\<rparr>, True))"

definition nxp_crypto_derive_resumption_secret :: "openssl \<Rightarrow> bytes \<Rightarrow> bytes \<Rightarrow> bytes option" where
  "nxp_crypto_derive_resumption_secret ssl master_secret transcript = do {
     transcript_hash \<leftarrow> nxp_crypto_hash ssl transcript;
     nxp_hkdf_expand_label ssl master_secret ''resumption'' transcript_hash NXP_HASH_LEN }"

section \<open>Retry tokens\<close>

abbreviation (input) NXP_RETRY_TOKEN_VERSION :: u8 where "NXP_RETRY_TOKEN_VERSION \<equiv> 1"
abbreviation (input) NXP_RETRY_TOKEN_MAX_AGE_US :: u64 where "NXP_RETRY_TOKEN_MAX_AGE_US \<equiv> 10000000"

definition retry_plain :: "nxp_addr \<Rightarrow> nxp_conn_id \<Rightarrow> u64 \<Rightarrow> bytes" where
  "retry_plain client_addr original_dcid now_us =
     [NXP_RETRY_TOKEN_VERSION] @ write_pkt_num now_us 8 @ addr_raw client_addr @
     [of_nat (length (cid_data original_dcid))] @ cid_data original_dcid"

definition nxp_retry_token_create ::
    "openssl \<Rightarrow> nxp_error_code + bytes \<Rightarrow> bytes \<Rightarrow> nxp_addr \<Rightarrow> nxp_conn_id \<Rightarrow> u64 \<Rightarrow> nat \<Rightarrow> nxp_error_code + bytes" where
  "nxp_retry_token_create ssl rnd server_key client_addr original_dcid now_us token_cap =
     (let pt = retry_plain client_addr original_dcid now_us in
      if token_cap < 12 + length pt + NXP_AEAD_TAG_LEN then Inl NXP_ERR_BUFFER_TOO_SMALL
      else case rnd of
        Inl e \<Rightarrow> Inl e
      | Inr nonce \<Rightarrow>
          (case nxp_aead_encrypt ssl NXP_AEAD_AES_256_GCM server_key nonce [] pt of
             None \<Rightarrow> Inl NXP_ERR_CRYPTO_FAIL
           | Some ct \<Rightarrow> Inr (nonce @ ct)))"

definition check_retry :: "nxp_addr \<Rightarrow> nxp_conn_id \<Rightarrow> bytes \<Rightarrow> u64 \<Rightarrow> nxp_error_code" where
  "check_retry client_addr original_dcid pt now_us =
     (if length pt < 1 + 8 + 28 + 1 then NXP_ERR_TOKEN_INVALID
      else if pt ! 0 \<noteq> NXP_RETRY_TOKEN_VERSION then NXP_ERR_TOKEN_INVALID
      else if now_us > read_pkt_num (take 8 (drop 1 pt)) + NXP_RETRY_TOKEN_MAX_AGE_US then NXP_ERR_TOKEN_INVALID
      else if take 28 (drop 9 pt) \<noteq> take 28 (addr_raw client_addr) then NXP_ERR_TOKEN_INVALID
      else
        let dcid_len = unat (pt ! 37) in
        if dcid_len \<noteq> length (cid_data original_dcid) then NXP_ERR_TOKEN_INVALID
        else if dcid_len > 0 \<and> 38 + dcid_len > length pt then NXP_ERR_TOKEN_INVALID
        else if dcid_len > 0 \<and> take dcid_len (drop 38 pt) \<noteq> cid_data original_dcid then NXP_ERR_TOKEN_INVALID
        else NXP_OK)"

definition nxp_retry_token_validate ::
    "openssl \<Rightarrow> bytes \<Rightarrow> nxp_addr \<Rightarrow> nxp_conn_id \<Rightarrow> bytes \<Rightarrow> u64 \<Rightarrow> nxp_error_code option" where
  "nxp_retry_token_validate ssl server_key client_addr original_dcid tok now_us =
     (if length tok < 12 + 1 + 8 + 28 + 1 + NXP_AEAD_TAG_LEN then Some NXP_ERR_TOKEN_INVALID
      else do {
        r \<leftarrow> aead_decrypt_into ssl NXP_AEAD_AES_256_GCM server_key (take 12 tok) (drop 12 tok) 128;
        Some (case r of None \<Rightarrow> NXP_ERR_TOKEN_INVALID
              | Some pt \<Rightarrow> check_retry client_addr original_dcid pt now_us) })"

section \<open>Proof of work\<close>

abbreviation (input) NXP_POW_MAX_DIFFICULTY :: u8 where "NXP_POW_MAX_DIFFICULTY \<equiv> 32"
abbreviation (input) NXP_POW_HASH_LEN :: nat where "NXP_POW_HASH_LEN \<equiv> 32"

record nxp_pow_challenge =
  pow_challenge :: bytes
  pow_difficulty :: u8
  pow_timestamp_us :: u64
  pow_expiry_us :: u64

record nxp_pow_solution =
  sol_challenge :: bytes
  sol_nonce :: bytes

definition nxp_pow_check_hash :: "bytes \<Rightarrow> u8 \<Rightarrow> bool" where
  "nxp_pow_check_hash hash difficulty =
     (if difficulty = 0 then True
      else if difficulty > NXP_POW_MAX_DIFFICULTY then False
      else
        let full_bytes = unat (difficulty div 8);
            remaining_bits = unat (difficulty mod 8) in
        if \<exists>i \<in> set [0 ..< full_bytes]. hash ! i \<noteq> 0 then False
        else if remaining_bits > 0 \<and> full_bytes < NXP_POW_HASH_LEN \<and>
                (hash ! full_bytes) AND push_bit (8 - remaining_bits) 0xFF \<noteq> 0 then False
        else True)"

definition nxp_pow_generate_challenge ::
    "nxp_error_code + bytes \<Rightarrow> u8 \<Rightarrow> u64 \<Rightarrow> u64 \<Rightarrow> nxp_error_code + nxp_pow_challenge" where
  "nxp_pow_generate_challenge rnd difficulty now_us validity_us =
     (if difficulty > NXP_POW_MAX_DIFFICULTY then Inl NXP_ERR_INVALID_ARGUMENT
      else case rnd of
        Inl e \<Rightarrow> Inl e
      | Inr c \<Rightarrow> Inr \<lparr>pow_challenge = c, pow_difficulty = difficulty, pow_timestamp_us = now_us,
                    pow_expiry_us = now_us + validity_us\<rparr>)"

definition le64 :: "u64 \<Rightarrow> bytes" where
  "le64 x = List.map (\<lambda>i. ucast (drop_bit (8 * i) x)) [0 ..< 8]"

partial_function (option) pow_solve_loop ::
    "openssl \<Rightarrow> nxp_pow_challenge \<Rightarrow> u64 \<Rightarrow> u64 \<Rightarrow> u64 \<Rightarrow> (nxp_error_code + nxp_pow_solution) option" where
  "pow_solve_loop ssl challenge max_iterations nonce iterations =
     (case nxp_crypto_hash ssl (pow_challenge challenge @ le64 nonce) of
        None \<Rightarrow> Some (Inl NXP_ERR_CRYPTO_FAIL)
      | Some hash \<Rightarrow>
          if nxp_pow_check_hash hash (pow_difficulty challenge)
          then Some (Inr \<lparr>sol_challenge = pow_challenge challenge, sol_nonce = le64 nonce\<rparr>)
          else if max_iterations > 0 \<and> iterations + 1 \<ge> max_iterations then Some (Inl NXP_ERR_WOULD_BLOCK)
          else pow_solve_loop ssl challenge max_iterations (nonce + 1) (iterations + 1))"

definition nxp_pow_solve ::
    "openssl \<Rightarrow> nxp_pow_challenge \<Rightarrow> u64 \<Rightarrow> (nxp_error_code + nxp_pow_solution) option" where
  "nxp_pow_solve ssl challenge max_iterations = pow_solve_loop ssl challenge max_iterations 0 0"

definition nxp_pow_verify :: "openssl \<Rightarrow> nxp_pow_challenge \<Rightarrow> nxp_pow_solution \<Rightarrow> u64 \<Rightarrow> nxp_error_code" where
  "nxp_pow_verify ssl challenge solution now_us =
     (if pow_challenge challenge \<noteq> sol_challenge solution then NXP_ERR_INVALID_ARGUMENT
      else if now_us > pow_expiry_us challenge then NXP_ERR_TOKEN_INVALID
      else case nxp_crypto_hash ssl (sol_challenge solution @ sol_nonce solution) of
        None \<Rightarrow> NXP_ERR_CRYPTO_FAIL
      | Some hash \<Rightarrow> if \<not> nxp_pow_check_hash hash (pow_difficulty challenge) then NXP_ERR_CRYPTO_FAIL else NXP_OK)"

section \<open>Facts\<close>

lemma read_write_8 [simp]: "read_pkt_num (write_pkt_num x 8) = x"
  by (simp add: read_write_pkt_num take_bit_word_eq_self)

lemma aead_algo_byte_of [simp]: "get_cipher algo \<Longrightarrow> aead_algo_of (aead_algo_byte algo) = algo"
  by (cases algo) (auto simp: aead_algo_of_def get_cipher_def)

lemma aead_decrypt_into_ok:
  assumes "nxp_aead_decrypt ssl algo k n [] ct = Some pt" "get_cipher algo" "length ct = length pt + 16" "length pt \<le> cap"
  shows "aead_decrypt_into ssl algo k n ct cap = Some (Some pt)"
  using assms by (simp add: aead_decrypt_into_def)

text \<open>Nothing is written past the array when the ciphertext fits it.\<close>

lemma aead_decrypt_into_safe: "length ct \<le> cap \<Longrightarrow> aead_decrypt_into ssl algo k n ct cap \<noteq> None"
  by (auto simp: aead_decrypt_into_def split: option.split)

lemma sealed_opens:
  assumes "aead_is ssl" "length nonce = 12" "length pt \<le> cap"
  shows "\<exists>ct. nxp_aead_encrypt ssl NXP_AEAD_AES_256_GCM key nonce [] pt = Some ct \<and> length ct = length pt + 16 \<and>
    aead_decrypt_into ssl NXP_AEAD_AES_256_GCM key (take 12 (nonce @ ct)) (drop 12 (nonce @ ct)) cap = Some (Some pt)"
proof -
  have c: "get_cipher NXP_AEAD_AES_256_GCM" by (simp add: get_cipher_def)
  obtain ct where "nxp_aead_encrypt ssl NXP_AEAD_AES_256_GCM key nonce [] pt = Some ct" "length ct = length pt + 16"
      "nxp_aead_decrypt ssl NXP_AEAD_AES_256_GCM key nonce [] ct = Some pt"
    using aead_roundtrip [OF assms(1) c] by blast
  then show ?thesis using aead_decrypt_into_ok [OF _ c] assms(2,3) by auto
qed

lemma list8_conv: "length xs = 8 \<Longrightarrow> \<exists>a b c d e f g h. xs = [a, b, c, d, e, f, g, h]"
  by (auto simp: numeral_eq_Suc length_Suc_conv)

lemma ticket_plain_parts:
  fixes t algo secret tp
  assumes "length secret = 32"
  defines "pt \<equiv> ticket_plain t algo secret (Some tp) (length tp)"
  shows "length pt = 48 + length tp" "pt ! 0 = 1" "take 8 (drop 1 pt) = write_pkt_num t 8"
    "nxp_read_u32_be (drop 9 pt) = 3600" "pt ! 13 = aead_algo_byte algo" "take 32 (drop 14 pt) = secret"
    "pt ! 46 = of_nat (length tp div 256)" "pt ! 47 = of_nat (length tp mod 256)" "drop 48 pt = tp"
proof -
  obtain a b c d e f g h where w: "write_pkt_num t 8 = [a, b, c, d, e, f, g, h]"
    using list8_conv [OF length_write_pkt_num [of t 8]] by blast
  obtain l1 l2 l3 l4 where l: "nxp_write_u32_be 3600 = [l1, l2, l3, l4]" by (simp add: nxp_write_u32_be_def)
  have r: "nxp_read_u32_be ([l1, l2, l3, l4] @ rest) = 3600" for rest
    using read_write_u32 [of 3600 rest] l by simp
  show "length pt = 48 + length tp" "pt ! 0 = 1" "take 8 (drop 1 pt) = write_pkt_num t 8"
      "pt ! 13 = aead_algo_byte algo" "take 32 (drop 14 pt) = secret" "drop 48 pt = tp"
      "pt ! 46 = of_nat (length tp div 256)" "pt ! 47 = of_nat (length tp mod 256)"
    using assms(1) by (simp_all add: pt_def ticket_plain_def w l nth_append)
  show "nxp_read_u32_be (drop 9 pt) = 3600"
    using r [of "aead_algo_byte algo # secret @ [of_nat (length tp div 256), of_nat (length tp mod 256)] @ tp"]
    by (simp add: pt_def ticket_plain_def w l)
qed

lemma parse_ticket_plain:
  assumes "length secret = 32" "length tp \<le> 255" "get_cipher algo"
  shows "parse_ticket (ticket_plain t algo secret (Some tp) (length tp)) now cap =
    (if now > t + 3600000000 then Inl NXP_ERR_TOKEN_INVALID
     else Inr \<lparr>tk_secret = secret, tk_algo = algo, tk_tp_len = length tp,
            tk_tp = (if cap \<ge> length tp then Some tp else None)\<rparr>)"
proof -
  have "unat (of_nat (length tp div 256) :: u8) * 256 + unat (of_nat (length tp mod 256) :: u8) = length tp"
    using assms(2) by (simp add: unat_of_nat)
  then show ?thesis
    using assms(3) unfolding parse_ticket_def Let_def ticket_plain_parts [OF assms(1)] by (simp add: unat_of_nat)
qed

lemma retry_plain_parts:
  fixes a d t
  assumes "length (addr_raw a) = 28"
  defines "pt \<equiv> retry_plain a d t"
  shows "length pt = 38 + length (cid_data d)" "pt ! 0 = 1" "take 8 (drop 1 pt) = write_pkt_num t 8"
    "take 28 (drop 9 pt) = addr_raw a" "pt ! 37 = of_nat (length (cid_data d))" "drop 38 pt = cid_data d"
proof -
  obtain x1 x2 x3 x4 x5 x6 x7 x8 where w: "write_pkt_num t 8 = [x1, x2, x3, x4, x5, x6, x7, x8]"
    using list8_conv [OF length_write_pkt_num [of t 8]] by blast
  show "length pt = 38 + length (cid_data d)" "pt ! 0 = 1" "take 8 (drop 1 pt) = write_pkt_num t 8"
    "take 28 (drop 9 pt) = addr_raw a" "pt ! 37 = of_nat (length (cid_data d))" "drop 38 pt = cid_data d"
    using assms(1) by (simp_all add: pt_def retry_plain_def w nth_append)
qed

lemma check_retry_plain:
  assumes "length (addr_raw a) = 28" "length (addr_raw a') = 28" "length (cid_data d) \<le> 20"
  shows "check_retry a' d' (retry_plain a d t) now =
    (if now \<le> t + 10000000 \<and> a' = a \<and> d' = d then NXP_OK else NXP_ERR_TOKEN_INVALID)"
proof -
  have l: "unat (of_nat (length (cid_data d)) :: u8) = length (cid_data d)"
    using assms(3) by (simp add: unat_of_nat)
  have a: "(addr_raw a = addr_raw a') = (a' = a)" and d: "(cid_data d = cid_data d') = (d' = d)"
    by (cases a, cases a', auto)
  have "addr_raw a' \<noteq> addr_raw a" if "a' \<noteq> a" using a that by metis
  moreover have "take (length (cid_data d)) (cid_data d) \<noteq> cid_data d'" if "d' \<noteq> d" using d that by simp
  ultimately show ?thesis
    unfolding check_retry_def Let_def retry_plain_parts [OF assms(1)] l
    using assms(1-3) by (cases "a' = a"; cases "d' = d") (auto simp: not_le)
qed

section \<open>The replay register\<close>

lemma strike_same:
  assumes "length (strike_entries reg) = 1024"
  shows "\<not> snd (nxp_strike_register_check_and_add (fst (nxp_strike_register_check_and_add reg n t)) n t')"
proof -
  have "strike_idx n < 1024" by (simp add: strike_idx_def)
  then show ?thesis using assms by (auto simp: nxp_strike_register_check_and_add_def Let_def)
qed

definition struck :: "bytes \<Rightarrow> nxp_strike_register \<Rightarrow> bool" where
  "struck n reg =
     (length (strike_entries reg) = 1024 \<and> se_occupied (strike_entries reg ! strike_idx n) \<and>
      se_ticket_hash (strike_entries reg ! strike_idx n) = hash_ticket n)"

lemma struck_add:
  assumes "length (strike_entries reg) = 1024"
  shows "struck n (fst (nxp_strike_register_check_and_add reg n t))"
  using assms by (auto simp: struck_def nxp_strike_register_check_and_add_def Let_def strike_idx_def)

lemma struck_other:
  assumes "struck n reg" "strike_idx m = strike_idx n \<longrightarrow> hash_ticket m = hash_ticket n"
  shows "struck n (fst (nxp_strike_register_check_and_add reg m t))"
  using assms by (auto simp: struck_def nxp_strike_register_check_and_add_def Let_def nth_list_update strike_idx_def)

lemma struck_rejects: "struck n reg \<Longrightarrow> \<not> snd (nxp_strike_register_check_and_add reg n t)"
  by (auto simp: struck_def nxp_strike_register_check_and_add_def Let_def)

section \<open>Proof of work\<close>

lemma byte_zero_iff: "(x :: u8) = 0 \<longleftrightarrow> (\<forall>m < 8. \<not> bit x m)"
  by (auto intro!: bit_word_eqI)

lemma byte_mask_iff:
  assumes "r \<le> 8"
  shows "((x :: u8) AND push_bit (8 - r) 0xFF = 0) \<longleftrightarrow> (\<forall>m < r. \<not> bit x (7 - m))"
proof -
  have f: "bit (0xFF :: u8) m \<longleftrightarrow> m < 8" for m
    using bit_mask_iff [of 8 m, where ?'a = "8 word"] by (simp add: mask_eq_exp_minus_1)
  have "((x AND push_bit (8 - r) 0xFF) = 0) \<longleftrightarrow> (\<forall>m < 8. 8 - r \<le> m \<longrightarrow> \<not> bit x m)"
    unfolding byte_zero_iff bit_and_iff bit_push_bit_iff f using assms by auto
  also have "\<dots> \<longleftrightarrow> (\<forall>m < r. \<not> bit x (7 - m))"
  proof (intro iffI allI impI)
    fix m
    assume "\<forall>m < 8. 8 - r \<le> m \<longrightarrow> \<not> bit x m" "m < r"
    then show "\<not> bit x (7 - m)" using assms by simp
  next
    fix m
    assume a: "\<forall>m < r. \<not> bit x (7 - m)" and "m < 8" "8 - r \<le> m"
    then have "7 - m < r" "7 - (7 - m) = m" using assms by auto
    then show "\<not> bit x m" using a by metis
  qed
  finally show ?thesis .
qed

text \<open>The first \<open>d\<close> bits of the hash, most significant first, are zero.\<close>

definition leading_zeros :: "bytes \<Rightarrow> nat \<Rightarrow> bool" where
  "leading_zeros hash d = (\<forall>k < d. \<not> bit (hash ! (k div 8)) (7 - k mod 8))"

lemma leading_zeros_split:
  "leading_zeros hash d \<longleftrightarrow>
     (\<forall>i < d div 8. hash ! i = 0) \<and> (\<forall>m < d mod 8. \<not> bit (hash ! (d div 8)) (7 - m))"
proof (intro iffI conjI allI impI)
  fix i
  assume z: "leading_zeros hash d" and "i < d div 8"
  then have i: "8 * i + 7 < d" by presburger
  show "hash ! i = 0"
    unfolding byte_zero_iff
  proof (intro allI impI)
    fix m :: nat
    assume "m < 8"
    define t where "t = 7 - m"
    have t: "t < 8" "7 - t = m" using \<open>m < 8\<close> by (auto simp: t_def)
    have "8 * i + t < d" using i t(1) by linarith
    then have "\<not> bit (hash ! ((8 * i + t) div 8)) (7 - (8 * i + t) mod 8)"
      using z unfolding leading_zeros_def by blast
    then show "\<not> bit (hash ! i) m" using t by simp
  qed
next
  fix m
  assume z: "leading_zeros hash d" and m: "m < d mod 8"
  then have "8 * (d div 8) + m < d" "m < 8" by presburger+
  then have "\<not> bit (hash ! ((8 * (d div 8) + m) div 8)) (7 - (8 * (d div 8) + m) mod 8)"
    using z unfolding leading_zeros_def by blast
  moreover have "(8 * (d div 8) + m) div 8 = d div 8" "(8 * (d div 8) + m) mod 8 = m"
    using \<open>m < 8\<close> by (simp_all only: div_mult_self4 [of 8] mod_mult_self4 [of 8] div_less mod_less)
  ultimately show "\<not> bit (hash ! (d div 8)) (7 - m)" by simp
next
  assume a: "(\<forall>i < d div 8. hash ! i = 0) \<and> (\<forall>m < d mod 8. \<not> bit (hash ! (d div 8)) (7 - m))"
  show "leading_zeros hash d"
    unfolding leading_zeros_def
  proof (intro allI impI)
    fix k
    assume "k < d"
    have "k div 8 \<le> d div 8" using \<open>k < d\<close> by (intro div_le_mono) simp
    moreover have "k mod 8 < d mod 8" if "k div 8 = d div 8"
      using that \<open>k < d\<close> div_mult_mod_eq [of k 8] div_mult_mod_eq [of d 8] by linarith
    ultimately have "k div 8 < d div 8 \<or> (k div 8 = d div 8 \<and> k mod 8 < d mod 8)" by linarith
    then show "\<not> bit (hash ! (k div 8)) (7 - k mod 8)" using a by auto
  qed
qed

lemma pow_check_hash_iff:
  "nxp_pow_check_hash hash d \<longleftrightarrow> unat d \<le> 32 \<and> leading_zeros hash (unat d)"
proof -
  have dm: "unat (d div 8) = unat d div 8" "unat (d mod 8) = unat d mod 8"
    by (simp_all add: unat_div unat_mod)
  have le: "(32 < d) = (32 < unat d)" by (simp add: word_less_nat_alt)
  have "(\<forall>m < unat d mod 8. \<not> bit (hash ! (unat d div 8)) (7 - m)) \<longleftrightarrow>
      (hash ! (unat d div 8)) AND push_bit (8 - unat d mod 8) 0xFF = 0"
    by (rule byte_mask_iff [symmetric]) (simp add: less_imp_le)
  then show ?thesis
    unfolding nxp_pow_check_hash_def Let_def dm le leading_zeros_split
    by (cases "d = 0") auto
qed

definition pow_found :: "openssl \<Rightarrow> nxp_pow_challenge \<Rightarrow> nxp_pow_solution \<Rightarrow> bool" where
  "pow_found ssl c sol =
     (sol_challenge sol = pow_challenge c \<and>
      (\<exists>h. nxp_crypto_hash ssl (sol_challenge sol @ sol_nonce sol) = Some h \<and> nxp_pow_check_hash h (pow_difficulty c)))"

lemma pow_solve_loop_result:
  "pow_solve_loop ssl c mx n k = Some r \<Longrightarrow> (case r of Inl e \<Rightarrow> True | Inr sol \<Rightarrow> pow_found ssl c sol)"
  by (erule pow_solve_loop.raw_induct [rotated])
     (fastforce simp: pow_found_def split: option.splits if_splits)

lemma pow_solve_loop_found: "pow_solve_loop ssl c mx n k = Some (Inr sol) \<Longrightarrow> pow_found ssl c sol"
  using pow_solve_loop_result by fastforce

lemma pow_solve_loop_ends:
  "unat k < unat mx \<Longrightarrow> \<exists>r. pow_solve_loop ssl c mx n k = Some r"
proof (induction "unat mx - unat k" arbitrary: n k rule: less_induct)
  case less
  have k1: "unat (k + 1) = unat k + 1"
    using unat_add_nowrap [of k 1] le_less_trans [OF _ unat_less_2p64 [of mx], of "unat k + 1"] less.prems by simp
  have mx: "0 < mx" using less.prems by (auto simp: word_less_nat_alt)
  show ?case
  proof (cases "mx \<le> k + 1")
    case True
    then show ?thesis using mx by (subst pow_solve_loop.simps) (auto split: option.splits)
  next
    case False
    then have "unat (k + 1) < unat mx" by (simp add: word_le_nat_alt not_le)
    then obtain r where "pow_solve_loop ssl c mx (n + 1) (k + 1) = Some r"
      using less.hyps [of "k + 1" "n + 1"] less.prems k1 diff_less_mono2 [of "unat k" "unat (k + 1)" "unat mx"]
      by (metis add.commute less_add_same_cancel2 zero_less_one)
    then show ?thesis using False by (subst pow_solve_loop.simps) (auto split: option.splits)
  qed
qed

lemma pow_verify_iff:
  "nxp_pow_verify ssl c sol now = NXP_OK \<longleftrightarrow> pow_found ssl c sol \<and> now \<le> pow_expiry_us c"
  by (auto simp: nxp_pow_verify_def pow_found_def not_less split: option.splits)

section \<open>Properties\<close>

text \<open>C24. A session ticket is worth exactly what was put into it: a ticket created at time \<open>t\<close> is
  decrypted by the server that made it without overrunning its buffer, gives back the resumption
  secret, the cipher and the transport parameters until one hour after \<open>t\<close>, and is refused
  afterwards.
\<close>

theorem nxp_session_ticket_roundtrip:
  assumes "aead_is ssl" "length nonce = 12" "length secret = 32" "get_cipher algo" "length tp \<le> 255"
    and "76 + length tp \<le> cap"
  shows "\<exists>ticket. nxp_session_ticket_create ssl (Inr nonce) key secret algo (Some tp) (length tp) t cap = Inr ticket \<and>
    length ticket = 76 + length tp \<and>
    nxp_session_ticket_validate ssl key ticket now 255 =
      Some (if now > t + 3600 * 1000000 then Inl NXP_ERR_TOKEN_INVALID
            else Inr \<lparr>tk_secret = secret, tk_algo = algo, tk_tp_len = length tp, tk_tp = Some tp\<rparr>)"
proof -
  let ?pt = "ticket_plain t algo secret (Some tp) (length tp)"
  have l: "length ?pt = 48 + length tp" by (rule ticket_plain_parts(1) [OF assms(3)])
  obtain ct where ct: "nxp_aead_encrypt ssl NXP_AEAD_AES_256_GCM key nonce [] ?pt = Some ct"
      "length ct = length ?pt + 16"
      "aead_decrypt_into ssl NXP_AEAD_AES_256_GCM key (take 12 (nonce @ ct)) (drop 12 (nonce @ ct)) 512 = Some (Some ?pt)"
    using sealed_opens [OF assms(1,2), of ?pt 512 key] l assms(5) by auto
  have "nxp_session_ticket_create ssl (Inr nonce) key secret algo (Some tp) (length tp) t cap = Inr (nonce @ ct)"
    using ct(1) l assms(5,6) by (simp add: nxp_session_ticket_create_def Let_def)
  moreover have "nxp_session_ticket_validate ssl key (nonce @ ct) now 255 = Some (parse_ticket ?pt now 255)"
    unfolding nxp_session_ticket_validate_def ct(3) using ct(2) l assms(2) by simp
  ultimately show ?thesis
    using parse_ticket_plain [OF assms(3,5,4), of t now 255] ct(2) l assms(2,5) by simp
qed

theorem nxp_session_ticket_roundtrip_witness:
  "\<exists>ticket. nxp_session_ticket_create toy_ssl (Inr (replicate 12 5)) [] (replicate 32 3) NXP_AEAD_CHACHA20_POLY1305
       (Some [9]) 1 1000 256 = Inr ticket \<and> length ticket = 77 \<and>
     nxp_session_ticket_validate toy_ssl [] ticket 2000 255 =
       Some (Inr \<lparr>tk_secret = replicate 32 3, tk_algo = NXP_AEAD_CHACHA20_POLY1305, tk_tp_len = 1, tk_tp = Some [9]\<rparr>)"
  using nxp_session_ticket_roundtrip [OF toy_ssl_ok(3), of "replicate 12 5" "replicate 32 3"
      NXP_AEAD_CHACHA20_POLY1305 "[9]" 256 "[]" 1000 2000]
  by (simp add: get_cipher_def)

text \<open>C23. A retry token proves exactly one address: the server that made it accepts it if and only if
  it comes back from the same address, with the same original connection ID, within ten seconds.
\<close>

theorem nxp_retry_token_exact:
  assumes "aead_is ssl" "length nonce = 12" "length (addr_raw a) = 28" "length (addr_raw a') = 28"
    and "length (cid_data d) \<le> 20" "66 + length (cid_data d) \<le> cap"
  shows "\<exists>tok. nxp_retry_token_create ssl (Inr nonce) key a d t cap = Inr tok \<and>
    nxp_retry_token_validate ssl key a' d' tok now =
      Some (if now \<le> t + 10 * 1000000 \<and> a' = a \<and> d' = d then NXP_OK else NXP_ERR_TOKEN_INVALID)"
proof -
  let ?pt = "retry_plain a d t"
  have l: "length ?pt = 38 + length (cid_data d)" by (rule retry_plain_parts(1) [OF assms(3)])
  obtain ct where ct: "nxp_aead_encrypt ssl NXP_AEAD_AES_256_GCM key nonce [] ?pt = Some ct"
      "length ct = length ?pt + 16"
      "aead_decrypt_into ssl NXP_AEAD_AES_256_GCM key (take 12 (nonce @ ct)) (drop 12 (nonce @ ct)) 128 = Some (Some ?pt)"
    using sealed_opens [OF assms(1,2), of ?pt 128 key] l assms(5) by auto
  have "nxp_retry_token_create ssl (Inr nonce) key a d t cap = Inr (nonce @ ct)"
    using ct(1) l assms(6) by (simp add: nxp_retry_token_create_def Let_def)
  moreover have "nxp_retry_token_validate ssl key a' d' (nonce @ ct) now = Some (check_retry a' d' ?pt now)"
    unfolding nxp_retry_token_validate_def ct(3) using ct(2) l assms(2) by simp
  ultimately show ?thesis
    using check_retry_plain [OF assms(3,4,5), of d' t now] by simp
qed

theorem nxp_retry_token_exact_witness:
  "\<exists>tok. nxp_retry_token_create toy_ssl (Inr (replicate 12 5)) [] \<lparr>addr_raw = replicate 28 1\<rparr> \<lparr>cid_data = [7]\<rparr> 50 128 = Inr tok \<and>
     nxp_retry_token_validate toy_ssl [] \<lparr>addr_raw = replicate 28 2\<rparr> \<lparr>cid_data = [7]\<rparr> tok 60 = Some NXP_ERR_TOKEN_INVALID"
proof -
  have "\<lparr>addr_raw = replicate 28 2\<rparr> \<noteq> \<lparr>addr_raw = replicate 28 (1 :: u8)\<rparr>" by simp
  then show ?thesis
    using nxp_retry_token_exact [OF toy_ssl_ok(3), of "replicate 12 5" "\<lparr>addr_raw = replicate 28 1\<rparr>"
        "\<lparr>addr_raw = replicate 28 2\<rparr>" "\<lparr>cid_data = [7]\<rparr>" 128 "[]" 50 "\<lparr>cid_data = [7]\<rparr>" 60]
    by simp
qed

text \<open>C35. A replayed ticket is caught as long as its slot of the register survives: after a nonce was
  presented, it is refused whenever it comes back, provided no other nonce presented in between
  hashes differently into the same slot.
\<close>

theorem nxp_strike_register_replay:
  assumes "length (strike_entries reg) = 1024"
    and "\<forall>m \<in> set ms. strike_idx m = strike_idx n \<longrightarrow> hash_ticket m = hash_ticket n"
  shows "\<not> snd (nxp_strike_register_check_and_add
     (foldl (\<lambda>r m. fst (nxp_strike_register_check_and_add r m t)) (fst (nxp_strike_register_check_and_add reg n t)) ms) n t')"
proof -
  have "struck n (foldl (\<lambda>r m. fst (nxp_strike_register_check_and_add r m t)) r ms)" if "struck n r" for r
    using that assms(2) by (induction ms arbitrary: r) (auto simp: struck_other)
  then show ?thesis using struck_rejects struck_add [OF assms(1)] by blast
qed

theorem nxp_strike_register_replay_witness:
  "strike_idx [1] \<noteq> strike_idx [2] \<and>
   \<not> snd (nxp_strike_register_check_and_add
     (fst (nxp_strike_register_check_and_add (fst (nxp_strike_register_check_and_add nxp_strike_register_create [1] 5)) [2] 5)) [1] 9)"
proof -
  have "strike_idx [1] \<noteq> strike_idx [2]" by (simp add: strike_idx_def hash_ticket_def)
  then show ?thesis
    using nxp_strike_register_replay [of nxp_strike_register_create "[[2]]" "[1]" 5 9]
    by (simp add: nxp_strike_register_create_def)
qed

text \<open>Proof of work is sound and its search ends: every solution the solver returns is accepted
  by the verifier until the challenge expires; the verifier accepts only solutions of its own
  challenge whose hash starts with the demanded number of zero bits; and with a bound on the
  iterations the solver always returns.
\<close>

theorem nxp_pow_sound:
  "(nxp_pow_solve ssl c mx = Some (Inr sol) \<longrightarrow>
      nxp_pow_verify ssl c sol now = (if now \<le> pow_expiry_us c then NXP_OK else NXP_ERR_TOKEN_INVALID)) \<and>
   (nxp_pow_verify ssl c s now = NXP_OK \<longrightarrow>
      sol_challenge s = pow_challenge c \<and> now \<le> pow_expiry_us c \<and>
      (\<exists>h. nxp_crypto_hash ssl (pow_challenge c @ sol_nonce s) = Some h \<and> leading_zeros h (unat (pow_difficulty c)))) \<and>
   (0 < mx \<longrightarrow> (\<exists>r. nxp_pow_solve ssl c mx = Some r))"
proof (intro conjI impI)
  assume "nxp_pow_solve ssl c mx = Some (Inr sol)"
  then have "pow_found ssl c sol" unfolding nxp_pow_solve_def by (rule pow_solve_loop_found)
  then show "nxp_pow_verify ssl c sol now = (if now \<le> pow_expiry_us c then NXP_OK else NXP_ERR_TOKEN_INVALID)"
    using pow_verify_iff [of ssl c sol now] by (auto simp: nxp_pow_verify_def pow_found_def not_less)
next
  assume "nxp_pow_verify ssl c s now = NXP_OK"
  then have "pow_found ssl c s" "now \<le> pow_expiry_us c" using pow_verify_iff by blast+
  then show "sol_challenge s = pow_challenge c" "now \<le> pow_expiry_us c"
    "\<exists>h. nxp_crypto_hash ssl (pow_challenge c @ sol_nonce s) = Some h \<and> leading_zeros h (unat (pow_difficulty c))"
    by (auto simp: pow_found_def pow_check_hash_iff)
next
  assume "0 < mx"
  then show "\<exists>r. nxp_pow_solve ssl c mx = Some r"
    unfolding nxp_pow_solve_def by (intro pow_solve_loop_ends) (simp add: word_less_nat_alt)
qed

theorem nxp_pow_sound_witness:
  "let c = \<lparr>pow_challenge = replicate 16 0, pow_difficulty = 3, pow_timestamp_us = 0, pow_expiry_us = 100\<rparr>;
       sol = \<lparr>sol_challenge = replicate 16 0, sol_nonce = replicate 8 0\<rparr> in
   nxp_pow_solve toy_ssl c 5 = Some (Inr sol) \<and> nxp_pow_verify toy_ssl c sol 100 = NXP_OK"
proof -
  let ?c = "\<lparr>pow_challenge = replicate 16 0, pow_difficulty = 3, pow_timestamp_us = 0, pow_expiry_us = 100\<rparr>"
  let ?s = "\<lparr>sol_challenge = replicate 16 0, sol_nonce = replicate 8 0\<rparr>"
  have "nxp_pow_check_hash (replicate 32 24) 3" "le64 0 = replicate 8 0" by code_simp+
  then have "nxp_pow_solve toy_ssl ?c 5 = Some (Inr ?s)"
    unfolding nxp_pow_solve_def by (subst pow_solve_loop.simps) (simp add: nxp_crypto_hash_def toy_ssl_def)
  then show ?thesis using nxp_pow_sound [of toy_ssl ?c 5 ?s 100] by (simp add: Let_def)
qed

end
