(* ===== verification/Nxp_Handshake.thy ===== *)
theory Nxp_Handshake
  imports Nxp_Token
begin

text \<open>
  The handshake state machine of \<^verbatim>\<open>src/core/handshake.c\<close>: transport parameters, the two hello
  messages, the key schedule and the processing of CRYPTO data. Byte arrays with a length field
  are the list of their used bytes; key pairs come from OpenSSL and are arguments. The theory
  shows the round trip of the transport parameters and that an honest client and an honest
  server end with matching keys.
\<close>

section \<open>Transport parameters\<close>

abbreviation (input) NXP_HS_BUF_SIZE :: nat where "NXP_HS_BUF_SIZE \<equiv> 512"
abbreviation (input) NXP_HS_CLIENT_HELLO :: u8 where "NXP_HS_CLIENT_HELLO \<equiv> 1"
abbreviation (input) NXP_HS_SERVER_HELLO :: u8 where "NXP_HS_SERVER_HELLO \<equiv> 2"

abbreviation (input) NXP_TP_INITIAL_MAX_DATA :: u8 where "NXP_TP_INITIAL_MAX_DATA \<equiv> 0x01"
abbreviation (input) NXP_TP_INITIAL_MAX_STREAM_DATA :: u8 where "NXP_TP_INITIAL_MAX_STREAM_DATA \<equiv> 0x02"
abbreviation (input) NXP_TP_MAX_STREAMS_BIDI :: u8 where "NXP_TP_MAX_STREAMS_BIDI \<equiv> 0x03"
abbreviation (input) NXP_TP_MAX_STREAMS_UNI :: u8 where "NXP_TP_MAX_STREAMS_UNI \<equiv> 0x04"
abbreviation (input) NXP_TP_IDLE_TIMEOUT :: u8 where "NXP_TP_IDLE_TIMEOUT \<equiv> 0x05"
abbreviation (input) NXP_TP_MAX_EARLY_DATA :: u8 where "NXP_TP_MAX_EARLY_DATA \<equiv> 0x06"
abbreviation (input) NXP_TP_ACTIVE_CID_LIMIT :: u8 where "NXP_TP_ACTIVE_CID_LIMIT \<equiv> 0x0A"

record nxp_transport_params =
  tp_initial_max_data :: u64
  tp_initial_max_stream_data :: u64
  tp_max_streams_bidi :: u32
  tp_max_streams_uni :: u32
  tp_idle_timeout_us :: u64
  tp_max_early_data :: u64
  tp_active_cid_limit :: u32

definition zero_transport_params :: nxp_transport_params where
  "zero_transport_params = \<lparr>tp_initial_max_data = 0, tp_initial_max_stream_data = 0,
     tp_max_streams_bidi = 0, tp_max_streams_uni = 0, tp_idle_timeout_us = 0, tp_max_early_data = 0,
     tp_active_cid_limit = 0\<rparr>"

definition encode_tp_varint :: "nat \<Rightarrow> u8 \<Rightarrow> u64 \<Rightarrow> bytes option" where
  "encode_tp_varint cap param_id value = do {
     val \<leftarrow> nxp_varint_encode value 8;
     if 1 + 1 + length val > cap then None
     else Some ([param_id, of_nat (length val)] @ val) }"

text \<open>Encode one parameter after those already in the buffer.\<close>

definition tp_append :: "nat \<Rightarrow> u8 \<Rightarrow> u64 \<Rightarrow> bytes \<Rightarrow> bytes option" where
  "tp_append cap param_id value buf = do {
     n \<leftarrow> encode_tp_varint (cap - length buf) param_id value; Some (buf @ n) }"

definition encode_transport_params :: "nxp_transport_params \<Rightarrow> nat \<Rightarrow> bytes option" where
  "encode_transport_params tp cap = do {
     buf \<leftarrow> tp_append cap NXP_TP_INITIAL_MAX_DATA (tp_initial_max_data tp) [];
     buf \<leftarrow> tp_append cap NXP_TP_INITIAL_MAX_STREAM_DATA (tp_initial_max_stream_data tp) buf;
     buf \<leftarrow> tp_append cap NXP_TP_MAX_STREAMS_BIDI (ucast (tp_max_streams_bidi tp)) buf;
     buf \<leftarrow> tp_append cap NXP_TP_MAX_STREAMS_UNI (ucast (tp_max_streams_uni tp)) buf;
     buf \<leftarrow> tp_append cap NXP_TP_IDLE_TIMEOUT (tp_idle_timeout_us tp div 1000) buf;
     buf \<leftarrow> (if tp_max_early_data tp > 0
             then tp_append cap NXP_TP_MAX_EARLY_DATA (tp_max_early_data tp) buf else Some buf);
     (if tp_active_cid_limit tp > 0
      then tp_append cap NXP_TP_ACTIVE_CID_LIMIT (ucast (tp_active_cid_limit tp)) buf else Some buf) }"

definition set_transport_param :: "u8 \<Rightarrow> u64 \<Rightarrow> nxp_transport_params \<Rightarrow> nxp_transport_params" where
  "set_transport_param param_id val tp =
     (if param_id = NXP_TP_INITIAL_MAX_DATA then tp\<lparr>tp_initial_max_data := val\<rparr>
      else if param_id = NXP_TP_INITIAL_MAX_STREAM_DATA then tp\<lparr>tp_initial_max_stream_data := val\<rparr>
      else if param_id = NXP_TP_MAX_STREAMS_BIDI then tp\<lparr>tp_max_streams_bidi := ucast val\<rparr>
      else if param_id = NXP_TP_MAX_STREAMS_UNI then tp\<lparr>tp_max_streams_uni := ucast val\<rparr>
      else if param_id = NXP_TP_IDLE_TIMEOUT then tp\<lparr>tp_idle_timeout_us := val * 1000\<rparr>
      else if param_id = NXP_TP_MAX_EARLY_DATA then tp\<lparr>tp_max_early_data := val\<rparr>
      else if param_id = NXP_TP_ACTIVE_CID_LIMIT then tp\<lparr>tp_active_cid_limit := ucast val\<rparr>
      else tp)"

function decode_tp_loop :: "bytes \<Rightarrow> nxp_transport_params \<Rightarrow> nxp_transport_params \<times> bool" where
  "decode_tp_loop buf tp =
     (if buf = [] then (tp, True)
      else if length buf < 2 then (tp, False)
      else
        let param_id = buf ! 0; param_len = unat (buf ! 1) in
        if 2 + param_len > length buf then (tp, False)
        else case nxp_varint_decode (take param_len (drop 2 buf)) of
          None \<Rightarrow> (tp, False)
        | Some (consumed, val) \<Rightarrow>
            decode_tp_loop (drop (2 + param_len) buf) (set_transport_param param_id val tp))"
  by pat_completeness auto

termination
  by (relation "measure (\<lambda>(buf, tp). length buf)") auto

declare decode_tp_loop.simps [simp del]

definition decode_transport_params :: "bytes \<Rightarrow> nxp_transport_params \<times> bool" where
  "decode_transport_params buf = decode_tp_loop buf zero_transport_params"

section \<open>The handshake context\<close>

datatype nxp_hs_state =
    NXP_HS_IDLE
  | NXP_HS_WAIT_SERVER_HELLO
  | NXP_HS_WAIT_CLIENT_HELLO
  | NXP_HS_WAIT_HANDSHAKE_DONE
  | NXP_HS_ZERO_RTT_SENT
  | NXP_HS_COMPLETE

record nxp_handshake =
  hs_state :: nxp_hs_state
  hs_is_server :: bool
  hs_local_privkey :: bytes
  hs_local_pubkey :: bytes
  hs_peer_pubkey :: bytes
  hs_has_peer_pubkey :: bool
  hs_shared_secret :: bytes
  hs_selected_algo :: nxp_aead_algo
  hs_transcript :: bytes
  hs_initial_keys :: nxp_crypto_state
  hs_handshake_keys :: nxp_crypto_state
  hs_app_keys :: nxp_crypto_state
  hs_initial_pn :: u64
  hs_handshake_pn :: u64
  hs_send_buf :: bytes
  hs_send_offset :: nat
  hs_send_level :: nxp_crypto_level
  hs_send_handshake_done :: bool
  hs_peer_params :: nxp_transport_params
  hs_has_peer_params :: bool
  hs_local_params :: nxp_transport_params
  hs_start_time :: u64
  hs_resumption_secret :: bytes
  hs_has_resumption_secret :: bool
  hs_master_secret :: bytes
  hs_has_master_secret :: bool
  hs_zero_rtt_keys :: nxp_crypto_state
  hs_zero_rtt_attempted :: bool
  hs_zero_rtt_accepted :: bool
  hs_zero_rtt_rejected :: bool
  hs_max_early_data :: u64
  hs_session_ticket :: bytes
  hs_has_session_ticket :: bool
  hs_send_new_token :: bool
  hs_new_token_buf :: bytes

definition encode_client_hello :: "nxp_handshake \<Rightarrow> nat \<Rightarrow> bytes" where
  "encode_client_hello hs cap =
     (if cap < 36 then []
      else
        let msg = [NXP_HS_CLIENT_HELLO] @ hs_local_pubkey hs @
              [2, aead_algo_byte NXP_AEAD_AES_256_GCM, aead_algo_byte NXP_AEAD_CHACHA20_POLY1305] in
        msg @ (case encode_transport_params (hs_local_params hs) (cap - length msg) of
                 None \<Rightarrow> [] | Some tp \<Rightarrow> tp))"

definition encode_server_hello :: "nxp_handshake \<Rightarrow> nat \<Rightarrow> bytes" where
  "encode_server_hello hs cap =
     (if cap < 35 then []
      else
        let msg = [NXP_HS_SERVER_HELLO] @ hs_local_pubkey hs @ [aead_algo_byte (hs_selected_algo hs)] in
        msg @ (case encode_transport_params (hs_local_params hs) (cap - length msg) of
                 None \<Rightarrow> [] | Some tp \<Rightarrow> tp))"

section \<open>Key schedule\<close>

text \<open>The two blocks that fill a key pair from the client's and the server's secret, for the
  handshake keys and for the application keys.\<close>

definition derive_key_pair ::
    "openssl \<Rightarrow> bool \<Rightarrow> bytes \<Rightarrow> bytes \<Rightarrow> nxp_aead_algo \<Rightarrow> nxp_crypto_state \<Rightarrow> nxp_crypto_state \<times> bool" where
  "derive_key_pair ssl is_server client_secret server_secret algo keys =
     (let keys = keys\<lparr>cs_algo := algo\<rparr>;
          (k, ok) = nxp_crypto_derive_traffic_keys ssl (if is_server then server_secret else client_secret)
                      algo (cs_send keys);
          keys = keys\<lparr>cs_send := k\<rparr> in
      if \<not> ok then (keys, False)
      else
        let (k, ok) = nxp_crypto_derive_traffic_keys ssl (if is_server then client_secret else server_secret)
                        algo (cs_recv keys);
            keys = keys\<lparr>cs_recv := k\<rparr> in
        if \<not> ok then (keys, False) else (keys\<lparr>cs_available := True\<rparr>, True))"

definition derive_app_keys :: "openssl \<Rightarrow> bytes \<Rightarrow> bytes \<Rightarrow> nxp_handshake \<Rightarrow> nxp_handshake \<times> bool" where
  "derive_app_keys ssl handshake_secret transcript_hash hs =
     (case nxp_hkdf_expand_label ssl handshake_secret ''derived'' [] NXP_HASH_LEN of
        None \<Rightarrow> (hs, False)
      | Some derived \<Rightarrow>
      case nxp_hkdf_extract ssl derived (replicate NXP_HASH_LEN 0) of
        None \<Rightarrow> (hs, False)
      | Some master_secret \<Rightarrow>
      case nxp_hkdf_expand_label ssl master_secret ''c ap traffic'' transcript_hash NXP_HASH_LEN of
        None \<Rightarrow> (hs, False)
      | Some client_app_secret \<Rightarrow>
      case nxp_hkdf_expand_label ssl master_secret ''s ap traffic'' transcript_hash NXP_HASH_LEN of
        None \<Rightarrow> (hs, False)
      | Some server_app_secret \<Rightarrow>
        let (keys, ok) = derive_key_pair ssl (hs_is_server hs) client_app_secret server_app_secret
                           (hs_selected_algo hs) (hs_app_keys hs);
            hs = hs\<lparr>hs_app_keys := keys\<rparr> in
        if \<not> ok then (hs, False)
        else
          let hs = hs\<lparr>hs_master_secret := master_secret, hs_has_master_secret := True\<rparr> in
          (case nxp_crypto_derive_resumption_secret ssl master_secret (hs_transcript hs) of
             None \<Rightarrow> (hs, True)
           | Some r \<Rightarrow> (hs\<lparr>hs_resumption_secret := r, hs_has_resumption_secret := True\<rparr>, True)))"

definition derive_handshake_and_app_keys :: "openssl \<Rightarrow> nxp_handshake \<Rightarrow> nxp_handshake \<times> bool" where
  "derive_handshake_and_app_keys ssl hs =
     (case nxp_crypto_hash ssl (hs_transcript hs) of
        None \<Rightarrow> (hs, False)
      | Some transcript_hash \<Rightarrow>
      case nxp_hkdf_extract ssl (replicate NXP_HASH_LEN 0) (hs_shared_secret hs) of
        None \<Rightarrow> (hs, False)
      | Some handshake_secret \<Rightarrow>
      case nxp_hkdf_expand_label ssl handshake_secret ''c hs traffic'' transcript_hash NXP_HASH_LEN of
        None \<Rightarrow> (hs, False)
      | Some client_hs_secret \<Rightarrow>
      case nxp_hkdf_expand_label ssl handshake_secret ''s hs traffic'' transcript_hash NXP_HASH_LEN of
        None \<Rightarrow> (hs, False)
      | Some server_hs_secret \<Rightarrow>
        let (keys, ok) = derive_key_pair ssl (hs_is_server hs) client_hs_secret server_hs_secret
                           (hs_selected_algo hs) (hs_handshake_keys hs);
            hs = hs\<lparr>hs_handshake_keys := keys\<rparr> in
        if \<not> ok then (hs, False) else derive_app_keys ssl handshake_secret transcript_hash hs)"

section \<open>Operations\<close>

text \<open>\<open>keypair\<close> is the public and the private key \<^verbatim>\<open>nxp_x25519_keygen\<close> draws, if it succeeds.\<close>

definition nxp_handshake_create :: "bool \<Rightarrow> (bytes \<times> bytes) option \<Rightarrow> bool \<Rightarrow> nxp_handshake option" where
  "nxp_handshake_create alloc keypair is_server =
     (if \<not> alloc then None
      else do {
        (pub, priv) \<leftarrow> keypair;
        Some \<lparr>hs_state = NXP_HS_IDLE, hs_is_server = is_server, hs_local_privkey = priv, hs_local_pubkey = pub,
          hs_peer_pubkey = replicate 32 0, hs_has_peer_pubkey = False, hs_shared_secret = replicate 32 0,
          hs_selected_algo = NXP_AEAD_AES_256_GCM, hs_transcript = [], hs_initial_keys = zero_crypto_state,
          hs_handshake_keys = zero_crypto_state, hs_app_keys = zero_crypto_state, hs_initial_pn = 0,
          hs_handshake_pn = 0, hs_send_buf = [], hs_send_offset = 0, hs_send_level = NXP_CRYPTO_INITIAL,
          hs_send_handshake_done = False, hs_peer_params = zero_transport_params, hs_has_peer_params = False,
          hs_local_params = zero_transport_params, hs_start_time = 0, hs_resumption_secret = replicate 32 0,
          hs_has_resumption_secret = False, hs_master_secret = replicate 32 0, hs_has_master_secret = False,
          hs_zero_rtt_keys = zero_crypto_state, hs_zero_rtt_attempted = False, hs_zero_rtt_accepted = False,
          hs_zero_rtt_rejected = False, hs_max_early_data = 0, hs_session_ticket = [],
          hs_has_session_ticket = False, hs_send_new_token = False, hs_new_token_buf = []\<rparr> })"

definition nxp_handshake_set_local_params :: "nxp_handshake \<Rightarrow> nxp_transport_params \<Rightarrow> nxp_handshake" where
  "nxp_handshake_set_local_params hs params = hs\<lparr>hs_local_params := params\<rparr>"

text \<open>Encode a ClientHello, queue it and start the transcript with it.\<close>

definition queue_client_hello :: "nxp_hs_state \<Rightarrow> nxp_handshake \<Rightarrow> nxp_handshake \<times> nxp_error_code" where
  "queue_client_hello next_state hs =
     (let msg = encode_client_hello hs NXP_HS_BUF_SIZE;
          hs = hs\<lparr>hs_send_buf := msg\<rparr> in
      if msg = [] then (hs, NXP_ERR_INTERNAL)
      else
        (hs\<lparr>hs_send_offset := 0, hs_send_level := NXP_CRYPTO_INITIAL, hs_transcript := msg,
            hs_state := next_state\<rparr>, NXP_OK))"

definition nxp_handshake_start_client ::
    "openssl \<Rightarrow> nxp_handshake \<Rightarrow> nxp_conn_id \<Rightarrow> nxp_handshake \<times> nxp_error_code" where
  "nxp_handshake_start_client ssl hs server_dcid =
     (if hs_state hs \<noteq> NXP_HS_IDLE \<or> hs_is_server hs then (hs, NXP_ERR_INVALID_ARGUMENT)
      else
        let (k, ok) = nxp_crypto_derive_initial_keys ssl server_dcid (hs_initial_keys hs);
            hs = hs\<lparr>hs_initial_keys := k\<rparr> in
        if \<not> ok then (hs, NXP_ERR_CRYPTO_FAIL)
        else queue_client_hello NXP_HS_WAIT_SERVER_HELLO hs)"

definition nxp_handshake_start_server ::
    "openssl \<Rightarrow> nxp_handshake \<Rightarrow> nxp_conn_id \<Rightarrow> nxp_handshake \<times> nxp_error_code" where
  "nxp_handshake_start_server ssl hs local_scid =
     (if hs_state hs \<noteq> NXP_HS_IDLE \<or> \<not> hs_is_server hs then (hs, NXP_ERR_INVALID_ARGUMENT)
      else
        let (k, ok) = nxp_crypto_derive_initial_keys ssl local_scid (hs_initial_keys hs);
            hs = hs\<lparr>hs_initial_keys := k\<rparr> in
        if \<not> ok then (hs, NXP_ERR_CRYPTO_FAIL)
        else
          (hs\<lparr>hs_initial_keys := k\<lparr>cs_send := cs_recv k, cs_recv := cs_send k\<rparr>,
              hs_state := NXP_HS_WAIT_CLIENT_HELLO\<rparr>, NXP_OK))"

text \<open>Optional transport parameters at the end of a hello; a failure leaves what was decoded so far
  in place.\<close>

definition recv_params :: "bytes \<Rightarrow> nxp_handshake \<Rightarrow> nxp_handshake \<times> bool" where
  "recv_params data hs =
     (if data \<noteq> [] then
        let (tp, ok) = decode_transport_params data;
            hs = hs\<lparr>hs_peer_params := tp\<rparr> in
        if \<not> ok then (hs, False) else (hs\<lparr>hs_has_peer_params := True\<rparr>, True)
      else (hs, True))"

definition process_client_hello :: "openssl \<Rightarrow> nxp_handshake \<Rightarrow> bytes \<Rightarrow> nxp_handshake \<times> nxp_error_code" where
  "process_client_hello ssl hs data =
     (if length data < 36 then (hs, NXP_ERR_HANDSHAKE_FAIL)
      else if data ! 0 \<noteq> NXP_HS_CLIENT_HELLO then (hs, NXP_ERR_HANDSHAKE_FAIL)
      else
        let hs = hs\<lparr>hs_peer_pubkey := take NXP_X25519_KEY_LEN (drop 1 data), hs_has_peer_pubkey := True\<rparr>;
            num_ciphers = unat (data ! 33) in
        if 34 + num_ciphers > length data then (hs, NXP_ERR_HANDSHAKE_FAIL)
        else case find (\<lambda>c. c = aead_algo_byte NXP_AEAD_AES_256_GCM \<or> c = aead_algo_byte NXP_AEAD_CHACHA20_POLY1305)
                    (take num_ciphers (drop 34 data)) of
          None \<Rightarrow> (hs, NXP_ERR_HANDSHAKE_FAIL)
        | Some cipher_id \<Rightarrow>
            let hs = hs\<lparr>hs_selected_algo := aead_algo_of cipher_id\<rparr>;
                (hs, ok) = recv_params (drop (34 + num_ciphers) data) hs in
            if \<not> ok then (hs, NXP_ERR_HANDSHAKE_FAIL)
            else if length (hs_transcript hs) + length data > NXP_HS_BUF_SIZE * 2 then (hs, NXP_ERR_INTERNAL)
            else
              let hs = hs\<lparr>hs_transcript := hs_transcript hs @ data\<rparr> in
              case nxp_x25519_shared_secret ssl (hs_local_privkey hs) (hs_peer_pubkey hs) of
                None \<Rightarrow> (hs, NXP_ERR_CRYPTO_FAIL)
              | Some secret \<Rightarrow>
                  let hs = hs\<lparr>hs_shared_secret := secret\<rparr>;
                      msg = encode_server_hello hs NXP_HS_BUF_SIZE;
                      hs = hs\<lparr>hs_send_buf := msg\<rparr> in
                  if msg = [] then (hs, NXP_ERR_INTERNAL)
                  else
                    let hs = hs\<lparr>hs_send_offset := 0, hs_send_level := NXP_CRYPTO_INITIAL\<rparr> in
                    if length (hs_transcript hs) + length msg > NXP_HS_BUF_SIZE * 2 then (hs, NXP_ERR_INTERNAL)
                    else
                      let hs = hs\<lparr>hs_transcript := hs_transcript hs @ msg\<rparr>;
                          (hs, ok) = derive_handshake_and_app_keys ssl hs in
                      if \<not> ok then (hs, NXP_ERR_CRYPTO_FAIL)
                      else (hs\<lparr>hs_send_handshake_done := True, hs_state := NXP_HS_COMPLETE\<rparr>, NXP_OK))"

definition process_server_hello :: "openssl \<Rightarrow> nxp_handshake \<Rightarrow> bytes \<Rightarrow> nxp_handshake \<times> nxp_error_code" where
  "process_server_hello ssl hs data =
     (if length data < 35 then (hs, NXP_ERR_HANDSHAKE_FAIL)
      else if data ! 0 \<noteq> NXP_HS_SERVER_HELLO then (hs, NXP_ERR_HANDSHAKE_FAIL)
      else
        let hs = hs\<lparr>hs_peer_pubkey := take NXP_X25519_KEY_LEN (drop 1 data), hs_has_peer_pubkey := True,
                   hs_selected_algo := aead_algo_of (data ! 33)\<rparr>;
            (hs, ok) = recv_params (drop 34 data) hs in
        if \<not> ok then (hs, NXP_ERR_HANDSHAKE_FAIL)
        else if length (hs_transcript hs) + length data > NXP_HS_BUF_SIZE * 2 then (hs, NXP_ERR_INTERNAL)
        else
          let hs = hs\<lparr>hs_transcript := hs_transcript hs @ data\<rparr> in
          case nxp_x25519_shared_secret ssl (hs_local_privkey hs) (hs_peer_pubkey hs) of
            None \<Rightarrow> (hs, NXP_ERR_CRYPTO_FAIL)
          | Some secret \<Rightarrow>
              let (hs, ok) = derive_handshake_and_app_keys ssl (hs\<lparr>hs_shared_secret := secret\<rparr>) in
              if \<not> ok then (hs, NXP_ERR_CRYPTO_FAIL)
              else (hs\<lparr>hs_state := NXP_HS_WAIT_HANDSHAKE_DONE\<rparr>, NXP_OK))"

definition nxp_handshake_recv_crypto ::
    "openssl \<Rightarrow> nxp_handshake \<Rightarrow> nxp_crypto_level \<Rightarrow> bytes \<Rightarrow> nxp_handshake \<times> nxp_error_code" where
  "nxp_handshake_recv_crypto ssl hs level data =
     (case hs_state hs of
        NXP_HS_WAIT_CLIENT_HELLO \<Rightarrow>
          if level \<noteq> NXP_CRYPTO_INITIAL then (hs, NXP_ERR_HANDSHAKE_FAIL) else process_client_hello ssl hs data
      | NXP_HS_WAIT_SERVER_HELLO \<Rightarrow>
          if level \<noteq> NXP_CRYPTO_INITIAL then (hs, NXP_ERR_HANDSHAKE_FAIL) else process_server_hello ssl hs data
      | NXP_HS_ZERO_RTT_SENT \<Rightarrow>
          if level \<noteq> NXP_CRYPTO_INITIAL then (hs, NXP_ERR_HANDSHAKE_FAIL) else process_server_hello ssl hs data
      | _ \<Rightarrow> (hs, NXP_ERR_HANDSHAKE_FAIL))"

definition nxp_handshake_on_handshake_done :: "nxp_handshake \<Rightarrow> nxp_handshake \<times> nxp_error_code" where
  "nxp_handshake_on_handshake_done hs =
     (if hs_state hs \<noteq> NXP_HS_WAIT_HANDSHAKE_DONE then (hs, NXP_ERR_HANDSHAKE_FAIL)
      else (hs\<lparr>hs_state := NXP_HS_COMPLETE\<rparr>, NXP_OK))"

definition nxp_handshake_is_complete :: "nxp_handshake \<Rightarrow> bool" where
  "nxp_handshake_is_complete hs = (hs_state hs = NXP_HS_COMPLETE)"

definition nxp_handshake_has_data :: "nxp_handshake \<Rightarrow> bool" where
  "nxp_handshake_has_data hs = (hs_send_offset hs < length (hs_send_buf hs) \<or> hs_send_handshake_done hs)"

definition nxp_handshake_send_level :: "nxp_handshake \<Rightarrow> nxp_crypto_level" where
  "nxp_handshake_send_level hs =
     (if hs_send_offset hs < length (hs_send_buf hs) then hs_send_level hs else NXP_CRYPTO_APPLICATION)"

text \<open>The state, the offset and the bytes copied (none for a result of 0).\<close>

definition nxp_handshake_fill_crypto :: "nxp_handshake \<Rightarrow> nat \<Rightarrow> nxp_handshake \<times> u64 \<times> bytes" where
  "nxp_handshake_fill_crypto hs max_len =
     (let remaining = length (hs_send_buf hs) - hs_send_offset hs in
      if remaining = 0 then (hs, 0, [])
      else
        let to_copy = (if remaining > max_len then max_len else remaining) in
        (hs\<lparr>hs_send_offset := hs_send_offset hs + to_copy\<rparr>, of_nat (hs_send_offset hs),
         take to_copy (drop (hs_send_offset hs) (hs_send_buf hs))))"

definition nxp_handshake_start_client_0rtt ::
    "openssl \<Rightarrow> nxp_handshake \<Rightarrow> nxp_conn_id \<Rightarrow> bytes \<Rightarrow> bytes \<Rightarrow> (nxp_handshake \<times> nxp_error_code) option" where
  "nxp_handshake_start_client_0rtt ssl hs server_dcid ticket server_key =
     (if hs_state hs \<noteq> NXP_HS_IDLE \<or> hs_is_server hs then Some (hs, NXP_ERR_INVALID_ARGUMENT)
      else do {
        r \<leftarrow> nxp_session_ticket_validate ssl server_key ticket 0 256;
        Some (case r of
          Inl e \<Rightarrow> (hs, e)
        | Inr tk \<Rightarrow>
            let (k, ok) = nxp_crypto_derive_initial_keys ssl server_dcid (hs_initial_keys hs);
                hs = hs\<lparr>hs_initial_keys := k\<rparr> in
            if \<not> ok then (hs, NXP_ERR_CRYPTO_FAIL)
            else
              let (zk, ok) = nxp_crypto_derive_zero_rtt_keys ssl (tk_secret tk) (tk_algo tk);
                  hs = hs\<lparr>hs_zero_rtt_keys := zk\<rparr> in
              if \<not> ok then (hs, NXP_ERR_CRYPTO_FAIL)
              else
                let hs = hs\<lparr>hs_selected_algo := tk_algo tk, hs_zero_rtt_attempted := True\<rparr>;
                    hs = (if length ticket \<le> 256
                          then hs\<lparr>hs_session_ticket := ticket, hs_has_session_ticket := True\<rparr> else hs) in
                queue_client_hello NXP_HS_ZERO_RTT_SENT hs) })"

section \<open>Round trip of the transport parameters\<close>

lemma encode_tp_varint_eq:
  assumes "v \<le> NXP_VARINT_MAX" "10 \<le> cap"
  shows "encode_tp_varint cap i v = Some ([i, of_nat (nxp_varint_len v)] @ varint_bytes v)"
  using assms varint_len_le [of v] by (simp add: encode_tp_varint_def varint_encode_eq length_varint_bytes)

lemma decode_tp_step:
  assumes "v \<le> NXP_VARINT_MAX"
  shows "decode_tp_loop ([i, of_nat (nxp_varint_len v)] @ varint_bytes v @ rest) tp =
    decode_tp_loop rest (set_transport_param i v tp)"
proof -
  have l: "unat (of_nat (nxp_varint_len v) :: u8) = nxp_varint_len v"
    using varint_len_le [of v] by (simp add: unat_of_nat)
  have "nxp_varint_decode (varint_bytes v) = Some (length (varint_bytes v), v)"
    using varint.dec_enc [OF assms, of "[]"] by simp
  then show ?thesis
    by (subst decode_tp_loop.simps) (simp add: Let_def l length_varint_bytes)
qed

definition tp_item :: "u8 \<Rightarrow> u64 \<Rightarrow> bytes" where
  "tp_item i v = [i, of_nat (nxp_varint_len v)] @ varint_bytes v"

definition tp_ok :: "nxp_transport_params \<Rightarrow> bool" where
  "tp_ok tp = (tp_initial_max_data tp \<le> NXP_VARINT_MAX \<and> tp_initial_max_stream_data tp \<le> NXP_VARINT_MAX \<and>
     tp_max_early_data tp \<le> NXP_VARINT_MAX)"

definition tp_bytes :: "nxp_transport_params \<Rightarrow> bytes" where
  "tp_bytes tp =
     tp_item 1 (tp_initial_max_data tp) @ tp_item 2 (tp_initial_max_stream_data tp) @
     tp_item 3 (ucast (tp_max_streams_bidi tp)) @ tp_item 4 (ucast (tp_max_streams_uni tp)) @
     tp_item 5 (tp_idle_timeout_us tp div 1000) @
     (if tp_max_early_data tp > 0 then tp_item 6 (tp_max_early_data tp) else []) @
     (if tp_active_cid_limit tp > 0 then tp_item 10 (ucast (tp_active_cid_limit tp)) else [])"

lemma length_tp_item: "length (tp_item i v) \<le> 10"
  using varint_len_le [of v] by (simp add: tp_item_def length_varint_bytes)

lemma tp_append_eq:
  assumes "v \<le> NXP_VARINT_MAX" "length buf + 10 \<le> cap"
  shows "tp_append cap i v buf = Some (buf @ tp_item i v)"
  using assms encode_tp_varint_eq [OF assms(1), of "cap - length buf" i] by (simp add: tp_append_def tp_item_def)

lemma ucast32_le_max: "(ucast (x :: u32) :: u64) \<le> NXP_VARINT_MAX"
  using less_trans [OF unat_less_2p32 [of x], of 4611686018427387904]
  by (simp add: word_le_nat_alt NXP_VARINT_MAX_def)

lemma ucast_u64_u32 [simp]: "(ucast (ucast (x :: u32) :: u64) :: u32) = x"
  by (rule bit_word_eqI) (auto simp: bit_simps)

lemma idle_le_max: "(x :: u64) div 1000 \<le> NXP_VARINT_MAX"
proof -
  have "unat x \<le> 18446744073709551615"
    using le_less_trans [OF order.refl unat_less_2p64 [of x]] by linarith
  then have "unat x div 1000 \<le> 18446744073709551615 div 1000" by (rule div_le_mono)
  then show ?thesis by (simp add: word_le_nat_alt NXP_VARINT_MAX_def unat_div)
qed

lemma encode_transport_params_eq:
  assumes "tp_ok tp" "70 \<le> cap"
  shows "encode_transport_params tp cap = Some (tp_bytes tp)"
proof -
  note l = length_tp_item
  define b1 where "b1 = tp_item 1 (tp_initial_max_data tp)"
  define b2 where "b2 = b1 @ tp_item 2 (tp_initial_max_stream_data tp)"
  define b3 where "b3 = b2 @ tp_item 3 (ucast (tp_max_streams_bidi tp))"
  define b4 where "b4 = b3 @ tp_item 4 (ucast (tp_max_streams_uni tp))"
  define b5 where "b5 = b4 @ tp_item 5 (tp_idle_timeout_us tp div 1000)"
  have len: "length b1 \<le> 10" "length b2 \<le> 20" "length b3 \<le> 30" "length b4 \<le> 40" "length b5 \<le> 50"
    using l [of 1 "tp_initial_max_data tp"] l [of 2 "tp_initial_max_stream_data tp"]
      l [of 3 "ucast (tp_max_streams_bidi tp)"] l [of 4 "ucast (tp_max_streams_uni tp)"]
      l [of 5 "tp_idle_timeout_us tp div 1000"]
    by (simp_all add: b1_def b2_def b3_def b4_def b5_def)
  have e: "tp_append cap 1 (tp_initial_max_data tp) [] = Some b1"
      "tp_append cap 2 (tp_initial_max_stream_data tp) b1 = Some b2"
      "tp_append cap 3 (ucast (tp_max_streams_bidi tp)) b2 = Some b3"
      "tp_append cap 4 (ucast (tp_max_streams_uni tp)) b3 = Some b4"
      "tp_append cap 5 (tp_idle_timeout_us tp div 1000) b4 = Some b5"
    using assms len
    by (simp_all add: tp_append_eq tp_ok_def ucast32_le_max idle_le_max b1_def b2_def b3_def b4_def b5_def)
  have "tp_append cap 6 (tp_max_early_data tp) b5 = Some (b5 @ tp_item 6 (tp_max_early_data tp))"
    using assms len by (simp add: tp_append_eq tp_ok_def)
  moreover have "tp_append cap 10 (ucast (tp_active_cid_limit tp)) b = Some (b @ tp_item 10 (ucast (tp_active_cid_limit tp)))"
    if "length b \<le> 60" for b
    using assms that by (simp add: tp_append_eq ucast32_le_max)
  ultimately show ?thesis
    using e len l [of 6 "tp_max_early_data tp"]
    by (simp add: encode_transport_params_def tp_bytes_def b5_def b4_def b3_def b2_def b1_def)
qed

lemma decode_tp_item:
  "v \<le> NXP_VARINT_MAX \<Longrightarrow> decode_tp_loop (tp_item i v @ rest) tp = decode_tp_loop rest (set_transport_param i v tp)"
  using decode_tp_step by (simp add: tp_item_def)

lemma decode_tp_Nil [simp]: "decode_tp_loop [] tp = (tp, True)"
  by (subst decode_tp_loop.simps) simp

lemma decode_tp_bytes:
  assumes "tp_ok tp"
  shows "decode_transport_params (tp_bytes tp) =
    (tp\<lparr>tp_idle_timeout_us := tp_idle_timeout_us tp div 1000 * 1000\<rparr>, True)"
proof -
  have last: "decode_tp_loop (tp_item i v) t = (set_transport_param i v t, True)" if "v \<le> NXP_VARINT_MAX" for i v t
    using decode_tp_item [OF that, of i "[]" t] by simp
  have "tp_max_early_data tp \<le> NXP_VARINT_MAX" "tp_initial_max_data tp \<le> NXP_VARINT_MAX"
      "tp_initial_max_stream_data tp \<le> NXP_VARINT_MAX"
    using assms by (auto simp: tp_ok_def)
  then show ?thesis
    by (cases tp)
       (simp add: decode_transport_params_def tp_bytes_def decode_tp_item last ucast32_le_max idle_le_max
         set_transport_param_def zero_transport_params_def word_neq_0_conv [symmetric])
qed

section \<open>Key agreement\<close>

text \<open>What is required of OpenSSL's SHA-256: it succeeds and returns 32 bytes.\<close>

definition sha_is :: "openssl \<Rightarrow> bool" where
  "sha_is ssl = (\<forall>d. \<exists>h. ossl_sha256 ssl d = Some h \<and> length h = 32)"

lemma hkdf_extract_total: "hmac_is ssl H \<Longrightarrow> \<exists>k. nxp_hkdf_extract ssl salt ikm = Some k"
  by (simp add: nxp_hkdf_extract_def hmac_one_is Let_def)

lemma hkdf_expand_total:
  assumes "hmac_is ssl H" "n \<le> 8160"
  shows "\<exists>k. nxp_hkdf_expand ssl prk info n = Some k"
  using assms(2) hkdf_expand_loop_spec [OF assms(1), of "[]" 0 prk info n]
  by (simp add: nxp_hkdf_expand_def del: upt_Suc)

lemma hkdf_expand_label_total:
  assumes "hmac_is ssl H" "length label \<le> 20" "length context \<le> 32" "n \<le> 32"
  shows "\<exists>k. nxp_hkdf_expand_label ssl secret label context n = Some k"
proof -
  have "length (hkdf_label label context n) \<le> 512" using assms by (simp add: hkdf_label_def label_bytes_def)
  then have "nxp_hkdf_expand_label ssl secret label context n = nxp_hkdf_expand ssl secret (hkdf_label label context n) n"
    unfolding nxp_hkdf_expand_label_def Let_def using assms(2-4) by simp
  moreover have "n \<le> 8160" using assms(4) by simp
  ultimately show ?thesis using hkdf_expand_total [OF assms(1)] by metis
qed

lemma crypto_hash_total: "sha_is ssl \<Longrightarrow> \<exists>h. nxp_crypto_hash ssl d = Some h \<and> length h = 32"
proof -
  assume "sha_is ssl"
  then obtain h where "ossl_sha256 ssl d = Some h" "length h = 32" unfolding sha_is_def by blast
  then show ?thesis by (simp add: nxp_crypto_hash_def)
qed

text \<open>The keys of a traffic secret do not depend on what the output held before.\<close>

definition traffic_keys :: "openssl \<Rightarrow> bytes \<Rightarrow> nxp_aead_algo \<Rightarrow> nxp_crypto_keys" where
  "traffic_keys ssl secret algo = fst (nxp_crypto_derive_traffic_keys ssl secret algo zero_crypto_keys)"

lemma derive_traffic_keys_eq:
  assumes "hmac_is ssl H"
  shows "nxp_crypto_derive_traffic_keys ssl secret algo out = (traffic_keys ssl secret algo, True)"
proof -
  obtain k iv hp where
      "nxp_hkdf_expand_label ssl secret ''key'' [] 32 = Some k"
      "nxp_hkdf_expand_label ssl secret ''iv'' [] 12 = Some iv"
      "nxp_hkdf_expand_label ssl secret ''hp'' [] 32 = Some hp"
    using hkdf_expand_label_total [OF assms, of "''key''" "[]" 32 secret]
      hkdf_expand_label_total [OF assms, of "''iv''" "[]" 12 secret]
      hkdf_expand_label_total [OF assms, of "''hp''" "[]" 32 secret] by auto
  then show ?thesis
    by (simp add: traffic_keys_def nxp_crypto_derive_traffic_keys_def nxp_aead_key_len_def Let_def zero_crypto_keys_def)
qed

definition key_pair :: "openssl \<Rightarrow> bool \<Rightarrow> bytes \<Rightarrow> bytes \<Rightarrow> nxp_aead_algo \<Rightarrow> nxp_crypto_state" where
  "key_pair ssl is_server c s algo =
     \<lparr>cs_send = traffic_keys ssl (if is_server then s else c) algo,
      cs_recv = traffic_keys ssl (if is_server then c else s) algo, cs_algo = algo, cs_available = True\<rparr>"

lemma derive_key_pair_eq:
  "hmac_is ssl H \<Longrightarrow> derive_key_pair ssl b c s algo keys = (key_pair ssl b c s algo, True)"
  by (simp add: derive_key_pair_def key_pair_def derive_traffic_keys_eq Let_def)

lemma derive_initial_keys_eq:
  assumes "hmac_is ssl H"
  shows "\<exists>c s. \<forall>st. nxp_crypto_derive_initial_keys ssl cid st = (key_pair ssl False c s NXP_AEAD_AES_256_GCM, True)"
proof -
  obtain i where i: "nxp_hkdf_extract ssl NXP_INITIAL_SALT (cid_data cid) = Some i"
    using hkdf_extract_total [OF assms] by blast
  obtain c s where "nxp_hkdf_expand_label ssl i ''client in'' [] 32 = Some c"
      "nxp_hkdf_expand_label ssl i ''server in'' [] 32 = Some s"
    using hkdf_expand_label_total [OF assms, of "''client in''" "[]" 32 i]
      hkdf_expand_label_total [OF assms, of "''server in''" "[]" 32 i] by auto
  then have "nxp_crypto_derive_initial_keys ssl cid st = (key_pair ssl False c s NXP_AEAD_AES_256_GCM, True)" for st
    using i by (simp add: nxp_crypto_derive_initial_keys_def derive_traffic_keys_eq [OF assms] key_pair_def Let_def)
  then show ?thesis by blast
qed

text \<open>The key schedule as a function of the transcript, the shared secret, the cipher and the role;
  nothing else of the context changes.\<close>

definition schedule_kept :: "nxp_handshake \<Rightarrow> nxp_handshake \<Rightarrow> bool" where
  "schedule_kept hs hs' =
     (hs_initial_keys hs' = hs_initial_keys hs \<and> hs_peer_params hs' = hs_peer_params hs \<and>
      hs_has_peer_params hs' = hs_has_peer_params hs \<and> hs_send_buf hs' = hs_send_buf hs \<and>
      hs_send_offset hs' = hs_send_offset hs \<and> hs_selected_algo hs' = hs_selected_algo hs \<and>
      hs_transcript hs' = hs_transcript hs \<and> hs_send_handshake_done hs' = hs_send_handshake_done hs)"

lemma key_schedule:
  assumes h: "hmac_is ssl H" and sha: "sha_is ssl"
  shows "\<exists>ch sh ca sa. \<forall>hs. hs_transcript hs = t \<longrightarrow> hs_shared_secret hs = z \<longrightarrow>
    (\<exists>hs'. derive_handshake_and_app_keys ssl hs = (hs', True) \<and> schedule_kept hs hs' \<and>
       hs_handshake_keys hs' = key_pair ssl (hs_is_server hs) ch sh (hs_selected_algo hs) \<and>
       hs_app_keys hs' = key_pair ssl (hs_is_server hs) ca sa (hs_selected_algo hs))"
proof -
  note lab = hkdf_expand_label_total [OF h]
  obtain th where th: "nxp_crypto_hash ssl t = Some th" "length th = 32" using crypto_hash_total [OF sha] by blast
  obtain hsec where hsec: "nxp_hkdf_extract ssl (replicate 32 0) z = Some hsec" using hkdf_extract_total [OF h] by blast
  obtain ch sh d where hss: "nxp_hkdf_expand_label ssl hsec ''c hs traffic'' th 32 = Some ch"
      "nxp_hkdf_expand_label ssl hsec ''s hs traffic'' th 32 = Some sh"
      "nxp_hkdf_expand_label ssl hsec ''derived'' [] 32 = Some d"
    using lab [of "''c hs traffic''" th 32 hsec] lab [of "''s hs traffic''" th 32 hsec]
      lab [of "''derived''" "[]" 32 hsec] th(2) by auto
  obtain ms where ms: "nxp_hkdf_extract ssl d (replicate 32 0) = Some ms" using hkdf_extract_total [OF h] by blast
  obtain ca sa where app: "nxp_hkdf_expand_label ssl ms ''c ap traffic'' th 32 = Some ca"
      "nxp_hkdf_expand_label ssl ms ''s ap traffic'' th 32 = Some sa"
    using lab [of "''c ap traffic''" th 32 ms] lab [of "''s ap traffic''" th 32 ms] th(2) by auto
  obtain rs where rs: "nxp_crypto_derive_resumption_secret ssl ms t = Some rs"
    using th lab [of "''resumption''" th 32 ms] by (auto simp: nxp_crypto_derive_resumption_secret_def)
  have "\<exists>hs'. derive_handshake_and_app_keys ssl hs = (hs', True) \<and> schedule_kept hs hs' \<and>
       hs_handshake_keys hs' = key_pair ssl (hs_is_server hs) ch sh (hs_selected_algo hs) \<and>
       hs_app_keys hs' = key_pair ssl (hs_is_server hs) ca sa (hs_selected_algo hs)"
    if "hs_transcript hs = t" "hs_shared_secret hs = z" for hs
    using that th(1) hsec hss ms app rs
    by (simp add: derive_handshake_and_app_keys_def derive_app_keys_def derive_key_pair_eq [OF h] Let_def
        schedule_kept_def)
  then show ?thesis by blast
qed

definition client_hello_msg :: "bytes \<Rightarrow> nxp_transport_params \<Rightarrow> bytes" where
  "client_hello_msg pub tp = 1 # pub @ [2, 0, 1] @ tp_bytes tp"

definition server_hello_msg :: "bytes \<Rightarrow> nxp_aead_algo \<Rightarrow> nxp_transport_params \<Rightarrow> bytes" where
  "server_hello_msg pub algo tp = 2 # pub @ [aead_algo_byte algo] @ tp_bytes tp"

lemma tp_bytes_length: "tp_bytes tp \<noteq> []" "length (tp_bytes tp) \<le> 70"
  using length_tp_item [of 1 "tp_initial_max_data tp"] length_tp_item [of 2 "tp_initial_max_stream_data tp"]
    length_tp_item [of 3 "ucast (tp_max_streams_bidi tp)"] length_tp_item [of 4 "ucast (tp_max_streams_uni tp)"]
    length_tp_item [of 5 "tp_idle_timeout_us tp div 1000"] length_tp_item [of 6 "tp_max_early_data tp"]
    length_tp_item [of 10 "ucast (tp_active_cid_limit tp)"]
  by (auto simp: tp_bytes_def tp_item_def)

lemma client_hello_eq:
  "length (hs_local_pubkey hs) = 32 \<Longrightarrow> tp_ok (hs_local_params hs) \<Longrightarrow>
   encode_client_hello hs 512 = client_hello_msg (hs_local_pubkey hs) (hs_local_params hs)"
  by (simp add: encode_client_hello_def client_hello_msg_def encode_transport_params_eq Let_def)

lemma server_hello_eq:
  "length (hs_local_pubkey hs) = 32 \<Longrightarrow> tp_ok (hs_local_params hs) \<Longrightarrow>
   encode_server_hello hs 512 = server_hello_msg (hs_local_pubkey hs) (hs_selected_algo hs) (hs_local_params hs)"
  by (simp add: encode_server_hello_def server_hello_msg_def encode_transport_params_eq Let_def)

abbreviation ms_rounded :: "nxp_transport_params \<Rightarrow> nxp_transport_params" where
  "ms_rounded tp \<equiv> tp\<lparr>tp_idle_timeout_us := tp_idle_timeout_us tp div 1000 * 1000\<rparr>"

lemma recv_params_eq:
  "tp_ok tp \<Longrightarrow> recv_params (tp_bytes tp) hs = (hs\<lparr>hs_peer_params := ms_rounded tp, hs_has_peer_params := True\<rparr>, True)"
  using tp_bytes_length(1) [of tp] by (simp add: recv_params_def decode_tp_bytes Let_def)

text \<open>A hello is what the peer's own fields say; the server appends both hellos to its transcript and
  the client the server's to its own.\<close>

lemma server_accepts:
  assumes d: "derive_handshake_and_app_keys ssl
      (hs\<lparr>hs_peer_pubkey := pub, hs_has_peer_pubkey := True, hs_selected_algo := NXP_AEAD_AES_256_GCM,
          hs_peer_params := ms_rounded tp, hs_has_peer_params := True, hs_shared_secret := z, hs_send_buf := msg,
          hs_send_offset := 0, hs_send_level := NXP_CRYPTO_INITIAL,
          hs_transcript := client_hello_msg pub tp @ msg\<rparr>) = (hs', True)"
    and msg: "msg = server_hello_msg (hs_local_pubkey hs) NXP_AEAD_AES_256_GCM (hs_local_params hs)"
    and pub: "length pub = 32" and tp: "tp_ok tp"
    and own: "length (hs_local_pubkey hs) = 32" "tp_ok (hs_local_params hs)" "hs_transcript hs = []"
    and z: "ossl_x25519 ssl (hs_local_privkey hs) pub = Some z" "length z = 32"
  shows "process_client_hello ssl hs (client_hello_msg pub tp) =
    (hs'\<lparr>hs_send_handshake_done := True, hs_state := NXP_HS_COMPLETE\<rparr>, NXP_OK)"
proof -
  let ?m = "client_hello_msg pub tp"
  have len: "length ?m = 36 + length (tp_bytes tp)" "length msg = 34 + length (tp_bytes (hs_local_params hs))"
    using pub own(1) by (simp_all add: client_hello_msg_def msg server_hello_msg_def)
  have p: "?m ! 0 = 1" "take 32 (drop 1 ?m) = pub" "?m ! 33 = 2" "take 2 (drop 34 ?m) = [0, 1]"
      "drop 36 ?m = tp_bytes tp" "msg \<noteq> []"
    using pub by (simp_all add: client_hello_msg_def nth_append msg server_hello_msg_def)
  have "nxp_x25519_shared_secret ssl (hs_local_privkey hs) pub = Some z"
    using z by (simp add: nxp_x25519_shared_secret_def)
  then show ?thesis
    unfolding process_client_hello_def Let_def p
    using d len tp_bytes_length(2) [of tp] tp_bytes_length(2) [of "hs_local_params hs"] own tp p(4-6) msg [symmetric]
    by (simp add: recv_params_eq server_hello_eq aead_algo_of_def)
qed

lemma client_accepts:
  assumes d: "derive_handshake_and_app_keys ssl
      (hs\<lparr>hs_peer_pubkey := pub, hs_has_peer_pubkey := True, hs_selected_algo := NXP_AEAD_AES_256_GCM,
          hs_peer_params := ms_rounded tp, hs_has_peer_params := True,
          hs_transcript := hs_transcript hs @ server_hello_msg pub NXP_AEAD_AES_256_GCM tp,
          hs_shared_secret := z\<rparr>) = (hs', True)"
    and pub: "length pub = 32" and tp: "tp_ok tp" and own: "length (hs_transcript hs) \<le> 500"
    and z: "ossl_x25519 ssl (hs_local_privkey hs) pub = Some z" "length z = 32"
  shows "process_server_hello ssl hs (server_hello_msg pub NXP_AEAD_AES_256_GCM tp) =
    (hs'\<lparr>hs_state := NXP_HS_WAIT_HANDSHAKE_DONE\<rparr>, NXP_OK)"
proof -
  let ?m = "server_hello_msg pub NXP_AEAD_AES_256_GCM tp"
  have len: "length ?m = 34 + length (tp_bytes tp)" "1 \<le> length (tp_bytes tp)"
    using pub tp_bytes_length(1) [of tp] by (auto simp: server_hello_msg_def Suc_le_eq)
  have p: "?m ! 0 = 2" "take 32 (drop 1 ?m) = pub" "?m ! 33 = 0" "drop 34 ?m = tp_bytes tp"
    using pub by (simp_all add: nth_append server_hello_msg_def)
  have "nxp_x25519_shared_secret ssl (hs_local_privkey hs) pub = Some z"
    using z by (simp add: nxp_x25519_shared_secret_def)
  then show ?thesis
    unfolding process_server_hello_def Let_def p
    using d len(1) tp_bytes_length [of tp] own tp by (simp add: recv_params_eq aead_algo_of_def)
qed

text \<open>The two sides of an honest exchange, and the matching of a pair of key states.\<close>

definition fresh_handshake :: "bool \<Rightarrow> bytes \<Rightarrow> bytes \<Rightarrow> nxp_transport_params \<Rightarrow> nxp_handshake" where
  "fresh_handshake is_server pub priv tp =
     nxp_handshake_set_local_params (the (nxp_handshake_create True (Some (pub, priv)) is_server)) tp"

definition keys_match :: "nxp_crypto_state \<Rightarrow> nxp_crypto_state \<Rightarrow> bool" where
  "keys_match a b =
     (cs_available a \<and> cs_available b \<and> cs_algo a = cs_algo b \<and> cs_send a = cs_recv b \<and> cs_recv a = cs_send b)"

lemma key_pair_match: "keys_match (key_pair ssl False c s algo) (key_pair ssl True c s algo)"
  by (simp add: keys_match_def key_pair_def)

lemma client_started:
  assumes h: "hmac_is ssl H" and p: "length pub = 32" "tp_ok tp"
    and ik: "\<forall>st. nxp_crypto_derive_initial_keys ssl cid st = (key_pair ssl False ic isc NXP_AEAD_AES_256_GCM, True)"
  shows "nxp_handshake_start_client ssl (fresh_handshake False pub priv tp) cid =
    ((fresh_handshake False pub priv tp)\<lparr>hs_initial_keys := key_pair ssl False ic isc NXP_AEAD_AES_256_GCM,
       hs_send_buf := client_hello_msg pub tp, hs_send_offset := 0, hs_send_level := NXP_CRYPTO_INITIAL,
       hs_transcript := client_hello_msg pub tp, hs_state := NXP_HS_WAIT_SERVER_HELLO\<rparr>, NXP_OK)"
  using ik p
  by (simp add: nxp_handshake_start_client_def fresh_handshake_def nxp_handshake_create_def queue_client_hello_def
      nxp_handshake_set_local_params_def Let_def client_hello_eq) (simp add: client_hello_msg_def)

lemma server_started:
  assumes ik: "\<forall>st. nxp_crypto_derive_initial_keys ssl cid st = (key_pair ssl False ic isc NXP_AEAD_AES_256_GCM, True)"
  shows "nxp_handshake_start_server ssl (fresh_handshake True pub priv tp) cid =
    ((fresh_handshake True pub priv tp)\<lparr>hs_initial_keys := key_pair ssl True ic isc NXP_AEAD_AES_256_GCM,
       hs_state := NXP_HS_WAIT_CLIENT_HELLO\<rparr>, NXP_OK)"
  using ik
  by (simp add: nxp_handshake_start_server_def fresh_handshake_def nxp_handshake_create_def
      nxp_handshake_set_local_params_def Let_def key_pair_def)

section \<open>Properties\<close>

text \<open>C39. Transport parameters survive the wire: whatever limits an endpoint announces (those a
  variable-length integer can carry), 70 bytes of room are enough, and the peer decodes exactly
  them, with the idle timeout rounded down to a whole number of milliseconds.
\<close>

theorem nxp_transport_params_roundtrip:
  assumes "tp_ok tp" and "70 \<le> cap"
  shows "\<exists>buf. encode_transport_params tp cap = Some buf \<and> length buf \<le> 70 \<and>
    decode_transport_params buf = (tp\<lparr>tp_idle_timeout_us := tp_idle_timeout_us tp div 1000 * 1000\<rparr>, True)"
  using encode_transport_params_eq [OF assms] decode_tp_bytes [OF assms(1)] tp_bytes_length(2) by blast

theorem nxp_transport_params_roundtrip_witness:
  "\<exists>buf. encode_transport_params \<lparr>tp_initial_max_data = 1048576, tp_initial_max_stream_data = 262144,
       tp_max_streams_bidi = 100, tp_max_streams_uni = 3, tp_idle_timeout_us = 30000999, tp_max_early_data = 0,
       tp_active_cid_limit = 4\<rparr> 128 = Some buf \<and>
     decode_transport_params buf = (\<lparr>tp_initial_max_data = 1048576, tp_initial_max_stream_data = 262144,
       tp_max_streams_bidi = 100, tp_max_streams_uni = 3, tp_idle_timeout_us = 30000000, tp_max_early_data = 0,
       tp_active_cid_limit = 4\<rparr>, True)"
  using nxp_transport_params_roundtrip [of "\<lparr>tp_initial_max_data = 1048576, tp_initial_max_stream_data = 262144,
       tp_max_streams_bidi = 100, tp_max_streams_uni = 3, tp_idle_timeout_us = 30000999, tp_max_early_data = 0,
       tp_active_cid_limit = 4\<rparr>" 128]
  by (auto simp: tp_ok_def NXP_VARINT_MAX_def)

text \<open>C5. An honest handshake agrees: when the client's hello reaches the server and the server's
  hello the client, both sides accept, end in the same cipher with matching initial, handshake
  and application keys (what one sends with, the other receives with), and each holds the
  limits the other announced; the client completes on HANDSHAKE_DONE, the server already has.
\<close>

theorem nxp_handshake_agreement:
  assumes h: "hmac_is ssl H" and sha: "sha_is ssl"
    and dh: "ossl_x25519 ssl cpriv spub = Some z" "ossl_x25519 ssl spriv cpub = Some z" "length z = 32"
    and keys: "length cpub = 32" "length spub = 32" and tps: "tp_ok ctp" "tp_ok stp"
  shows "let (c1, r1) = nxp_handshake_start_client ssl (fresh_handshake False cpub cpriv ctp) cid;
       (s1, r2) = nxp_handshake_start_server ssl (fresh_handshake True spub spriv stp) cid;
       (s2, r3) = nxp_handshake_recv_crypto ssl s1 NXP_CRYPTO_INITIAL (hs_send_buf c1);
       (c2, r4) = nxp_handshake_recv_crypto ssl c1 NXP_CRYPTO_INITIAL (hs_send_buf s2);
       (c3, r5) = nxp_handshake_on_handshake_done c2 in
     r1 = NXP_OK \<and> r2 = NXP_OK \<and> r3 = NXP_OK \<and> r4 = NXP_OK \<and> r5 = NXP_OK \<and>
     keys_match (hs_initial_keys c3) (hs_initial_keys s2) \<and>
     keys_match (hs_handshake_keys c3) (hs_handshake_keys s2) \<and>
     keys_match (hs_app_keys c3) (hs_app_keys s2) \<and> hs_transcript c3 = hs_transcript s2 \<and>
     nxp_handshake_is_complete c3 \<and> nxp_handshake_is_complete s2 \<and> hs_send_handshake_done s2 \<and>
     hs_has_peer_params c3 \<and> hs_peer_params c3 = ms_rounded stp \<and>
     hs_has_peer_params s2 \<and> hs_peer_params s2 = ms_rounded ctp"
proof -
  let ?aes = NXP_AEAD_AES_256_GCM
  let ?ch = "client_hello_msg cpub ctp" and ?sh = "server_hello_msg spub ?aes stp"
  obtain ic isc where ik: "\<forall>st. nxp_crypto_derive_initial_keys ssl cid st = (key_pair ssl False ic isc ?aes, True)"
    using derive_initial_keys_eq [OF h] by blast
  let ?c1 = "(fresh_handshake False cpub cpriv ctp)\<lparr>hs_initial_keys := key_pair ssl False ic isc ?aes,
       hs_send_buf := ?ch, hs_send_offset := 0, hs_send_level := NXP_CRYPTO_INITIAL,
       hs_transcript := ?ch, hs_state := NXP_HS_WAIT_SERVER_HELLO\<rparr>"
  let ?s1 = "(fresh_handshake True spub spriv stp)\<lparr>hs_initial_keys := key_pair ssl True ic isc ?aes,
       hs_state := NXP_HS_WAIT_CLIENT_HELLO\<rparr>"
  have fresh: "hs_local_pubkey (fresh_handshake b p q t) = p" "hs_local_privkey (fresh_handshake b p q t) = q"
      "hs_local_params (fresh_handshake b p q t) = t" "hs_transcript (fresh_handshake b p q t) = []"
      "hs_is_server (fresh_handshake b p q t) = b" for b p q t
    by (simp_all add: fresh_handshake_def nxp_handshake_create_def nxp_handshake_set_local_params_def)
  obtain kc ks ac as where sched: "\<forall>hs. hs_transcript hs = ?ch @ ?sh \<longrightarrow> hs_shared_secret hs = z \<longrightarrow>
    (\<exists>hs'. derive_handshake_and_app_keys ssl hs = (hs', True) \<and> schedule_kept hs hs' \<and>
       hs_handshake_keys hs' = key_pair ssl (hs_is_server hs) kc ks (hs_selected_algo hs) \<and>
       hs_app_keys hs' = key_pair ssl (hs_is_server hs) ac as (hs_selected_algo hs))"
    using key_schedule [OF h sha, of "?ch @ ?sh" z] by blast
  let ?s = "?s1\<lparr>hs_peer_pubkey := cpub, hs_has_peer_pubkey := True, hs_selected_algo := ?aes,
          hs_peer_params := ms_rounded ctp, hs_has_peer_params := True, hs_shared_secret := z, hs_send_buf := ?sh,
          hs_send_offset := 0, hs_send_level := NXP_CRYPTO_INITIAL, hs_transcript := ?ch @ ?sh\<rparr>"
  let ?c = "?c1\<lparr>hs_peer_pubkey := spub, hs_has_peer_pubkey := True, hs_selected_algo := ?aes,
          hs_peer_params := ms_rounded stp, hs_has_peer_params := True,
          hs_transcript := hs_transcript ?c1 @ ?sh, hs_shared_secret := z\<rparr>"
  obtain s' where s': "derive_handshake_and_app_keys ssl ?s = (s', True)" "schedule_kept ?s s'"
      "hs_handshake_keys s' = key_pair ssl True kc ks ?aes" "hs_app_keys s' = key_pair ssl True ac as ?aes"
    using sched [rule_format, of ?s] fresh by auto
  obtain c' where c': "derive_handshake_and_app_keys ssl ?c = (c', True)" "schedule_kept ?c c'"
      "hs_handshake_keys c' = key_pair ssl False kc ks ?aes" "hs_app_keys c' = key_pair ssl False ac as ?aes"
    using sched [rule_format, of ?c] fresh by auto
  have r3: "process_client_hello ssl ?s1 ?ch = (s'\<lparr>hs_send_handshake_done := True, hs_state := NXP_HS_COMPLETE\<rparr>, NXP_OK)"
    by (rule server_accepts [OF s'(1)]) (use keys tps dh fresh in auto)
  have r4: "process_server_hello ssl ?c1 ?sh = (c'\<lparr>hs_state := NXP_HS_WAIT_HANDSHAKE_DONE\<rparr>, NXP_OK)"
    by (rule client_accepts [OF c'(1)])
       (use keys tps dh fresh tp_bytes_length(2) [of ctp] in \<open>auto simp: client_hello_msg_def\<close>)
  have sent: "hs_send_buf s' = ?sh" using s'(2) by (simp add: schedule_kept_def)
  show ?thesis
    unfolding client_started [OF h keys(1) tps(1) ik] server_started [OF ik]
    using s' c' key_pair_match
    by (simp add: Let_def nxp_handshake_recv_crypto_def r3 r4 sent nxp_handshake_on_handshake_done_def
        nxp_handshake_is_complete_def schedule_kept_def)
qed

theorem nxp_handshake_agreement_witness:
  "let tp = \<lparr>tp_initial_max_data = 1048576, tp_initial_max_stream_data = 262144, tp_max_streams_bidi = 100,
       tp_max_streams_uni = 3, tp_idle_timeout_us = 30000000, tp_max_early_data = 0, tp_active_cid_limit = 4\<rparr>;
     (c1, r1) = nxp_handshake_start_client toy_ssl (fresh_handshake False (replicate 32 1) (replicate 32 1) tp) \<lparr>cid_data = [7]\<rparr>;
     (s1, r2) = nxp_handshake_start_server toy_ssl (fresh_handshake True (replicate 32 2) (replicate 32 2) tp) \<lparr>cid_data = [7]\<rparr>;
     (s2, r3) = nxp_handshake_recv_crypto toy_ssl s1 NXP_CRYPTO_INITIAL (hs_send_buf c1);
     (c2, r4) = nxp_handshake_recv_crypto toy_ssl c1 NXP_CRYPTO_INITIAL (hs_send_buf s2) in
   r4 = NXP_OK \<and> keys_match (hs_app_keys c2) (hs_app_keys s2)"
proof -
  let ?tp = "\<lparr>tp_initial_max_data = 1048576, tp_initial_max_stream_data = 262144, tp_max_streams_bidi = 100,
       tp_max_streams_uni = 3, tp_idle_timeout_us = 30000000, tp_max_early_data = 0, tp_active_cid_limit = 4\<rparr>"
  have "sha_is toy_ssl" by (simp add: sha_is_def toy_ssl_def)
  moreover have "ossl_x25519 toy_ssl (replicate 32 1) (replicate 32 2) = Some (replicate 32 3)"
      "ossl_x25519 toy_ssl (replicate 32 2) (replicate 32 1) = Some (replicate 32 3)"
    by (simp_all add: toy_ssl_def zip_replicate)
  moreover have "tp_ok ?tp" by (simp add: tp_ok_def NXP_VARINT_MAX_def)
  ultimately show ?thesis
    using nxp_handshake_agreement [OF toy_ssl_ok(1), of "replicate 32 1" "replicate 32 2" "replicate 32 3" "replicate 32 2"
        "replicate 32 1" ?tp ?tp "\<lparr>cid_data = [7]\<rparr>"]
    by (auto simp: Let_def split_beta nxp_handshake_on_handshake_done_def split: if_splits)
qed

end
