(* ===== verification/Nxp_Conn.thy ===== *)
theory Nxp_Conn
  imports Nxp_Handshake Nxp_Migration Nxp_Heartbeat Nxp_Sched Nxp_HashMap Nxp_Ack
begin

text \<open>
  The connection engine of \<^verbatim>\<open>src/core/connection.c\<close>, first part: the connection structure, its
  state machine, creation, the reaction to acknowledged and lost packets, the operations of the
  application on streams and the timers. A pointer to a stream is an address of \<open>stream_mem\<close>;
  new streams get the next free address. Calls of application callbacks are recorded, in order,
  in \<open>cn_calls\<close>. \<^term>\<open>None\<close> is undefined behaviour (a dangling pointer, an access outside an
  array). The theory shows what these operations keep of a well-formed connection.
\<close>

section \<open>Structures\<close>

abbreviation (input) NXP_PACKET_BUF_SIZE :: nat where "NXP_PACKET_BUF_SIZE \<equiv> 1536"
abbreviation (input) NXP_MAX_STREAMS_DEFAULT :: u32 where "NXP_MAX_STREAMS_DEFAULT \<equiv> 256"
abbreviation (input) NXP_VERSION_CURRENT :: u32 where "NXP_VERSION_CURRENT \<equiv> 0x4E585001"
abbreviation (input) NXP_MAX_STREAM_FRAMES_PER_PKT :: nat where "NXP_MAX_STREAM_FRAMES_PER_PKT \<equiv> 8"
abbreviation (input) NXP_DEFAULT_MAX_DATA :: u64 where "NXP_DEFAULT_MAX_DATA \<equiv> 1048576"
abbreviation (input) NXP_DEFAULT_MAX_STREAM_DATA :: u64 where "NXP_DEFAULT_MAX_STREAM_DATA \<equiv> 262144"
abbreviation (input) NXP_DEFAULT_IDLE_TIMEOUT :: u64 where "NXP_DEFAULT_IDLE_TIMEOUT \<equiv> 30000000"

record nxp_conn_stats =
  stat_bytes_sent :: u64
  stat_bytes_recv :: u64
  stat_packets_sent :: u64
  stat_packets_recv :: u64
  stat_packets_lost :: u64
  stat_rtt_min_us :: u64
  stat_rtt_smoothed_us :: u64
  stat_rtt_var_us :: u64
  stat_cwnd :: u64
  stat_bytes_in_flight :: u64
  stat_streams_opened :: u64
  stat_handshake_time_us :: u64

definition zero_stats :: nxp_conn_stats where
  "zero_stats = \<lparr>stat_bytes_sent = 0, stat_bytes_recv = 0, stat_packets_sent = 0, stat_packets_recv = 0,
     stat_packets_lost = 0, stat_rtt_min_us = 0, stat_rtt_smoothed_us = 0, stat_rtt_var_us = 0,
     stat_cwnd = 0, stat_bytes_in_flight = 0, stat_streams_opened = 0, stat_handshake_time_us = 0\<rparr>"

record nxp_conn_config =
  cfg_scid :: nxp_conn_id
  cfg_peer_dcid_len :: u8
  cfg_peer_addr :: nxp_addr
  cfg_idle_timeout_us :: u64
  cfg_initial_max_data :: u64
  cfg_initial_max_stream_data :: u64
  cfg_max_streams_bidi :: u32
  cfg_max_streams_uni :: u32

datatype app_call = On_writable u64 | On_new_stream u64

record nxp_conn = stream_pool +
  cn_scid :: nxp_conn_id
  cn_dcid :: nxp_conn_id
  cn_state :: nxp_conn_state
  cn_is_server :: bool
  cn_peer_addr :: nxp_addr
  cn_next_pkt_num :: u64
  cn_ack :: nxp_ack_state
  cn_crypto :: nxp_crypto_state
  cn_handshake :: "nxp_handshake option"
  cn_zero_rtt_crypto :: nxp_crypto_state
  cn_zero_rtt_pn :: u64
  cn_migration :: nxp_migration_state
  cn_cc :: "nxp_bbr option"
  cn_pacer :: nxp_pacer
  cn_delivery_rate :: nxp_delivery_rate
  cn_heartbeat :: nxp_heartbeat
  cn_auto_reconnect :: bool
  cn_saved_ticket :: bytes
  cn_reconnect_attempts :: u32
  cn_max_reconnect_attempts :: u32
  cn_streams :: "stream_ptr nxp_hash_map"
  cn_next_bidi_id :: u64
  cn_next_uni_id :: u64
  cn_local_max_streams_bidi :: u32
  cn_local_max_streams_uni :: u32
  cn_peer_max_streams_bidi :: u32
  cn_peer_max_streams_uni :: u32
  cn_open_bidi_count :: u32
  cn_open_uni_count :: u32
  cn_conn_flow :: nxp_flow_ctrl
  cn_initial_max_stream_data :: u64
  cn_idle_timeout_us :: u64
  cn_last_activity_us :: u64
  cn_send_ping :: bool
  cn_send_conn_close :: bool
  cn_close_error_code :: u64
  cn_on_new_stream :: bool
  cn_stats :: nxp_conn_stats
  cn_next_ptr :: stream_ptr
  cn_calls :: "app_call list"

section \<open>State machine\<close>

fun is_valid_conn_state_transition :: "nxp_conn_state \<Rightarrow> nxp_conn_state \<Rightarrow> bool" where
  "is_valid_conn_state_transition from to =
     (if to = NXP_CONN_CLOSED then True
      else case from of
        NXP_CONN_IDLE \<Rightarrow> to = NXP_CONN_HANDSHAKE_INITIAL \<or> to = NXP_CONN_ESTABLISHED
      | NXP_CONN_HANDSHAKE_INITIAL \<Rightarrow> to = NXP_CONN_HANDSHAKE_IN_PROGRESS \<or> to = NXP_CONN_ESTABLISHED \<or>
          to = NXP_CONN_HANDSHAKE_INITIAL
      | NXP_CONN_HANDSHAKE_IN_PROGRESS \<Rightarrow> to = NXP_CONN_ESTABLISHED
      | NXP_CONN_ESTABLISHED \<Rightarrow> to = NXP_CONN_CLOSING \<or> to = NXP_CONN_DRAINING \<or> to = NXP_CONN_ESTABLISHED
      | NXP_CONN_CLOSING \<Rightarrow> to = NXP_CONN_DRAINING \<or> to = NXP_CONN_CLOSED
      | NXP_CONN_DRAINING \<Rightarrow> to = NXP_CONN_CLOSED
      | NXP_CONN_CLOSED \<Rightarrow> False)"

definition set_conn_state :: "nxp_conn \<Rightarrow> nxp_conn_state \<Rightarrow> nxp_conn" where
  "set_conn_state c new_state =
     (if \<not> is_valid_conn_state_transition (cn_state c) new_state then c
      else c\<lparr>cn_state := new_state\<rparr>)"

section \<open>Acknowledged and lost packets\<close>

text \<open>The loops over the stream frames of a packet. The state of the loss detector, which the
  callbacks read through the connection, is their first argument.\<close>

fun acked_frames :: "nxp_stream_frame_record list \<Rightarrow> nxp_conn \<Rightarrow> nxp_conn option" where
  "acked_frames [] c = Some c"
| "acked_frames (r # rs) c = do {
     v \<leftarrow> nxp_hash_map_get (cn_streams c) (fr_stream_id r);
     (case v of
        None \<Rightarrow> acked_frames rs c
      | Some p \<Rightarrow> do {
          c \<leftarrow> upd_stream p (\<lambda>s. nxp_stream_on_ack s (fr_offset r) (fr_len r) (fr_fin r)) c;
          s \<leftarrow> stream_mem c p;
          if st_blocked s \<and> st_on_writable s then do {
            c \<leftarrow> upd_stream p (st_blocked_update (\<lambda>_. False)) c;
            acked_frames rs (c\<lparr>cn_calls := cn_calls c @ [On_writable (fr_stream_id r)]\<rparr>) }
          else acked_frames rs c }) }"

definition cc_acked :: "nxp_ack_state \<Rightarrow> nxp_sent_pkt \<Rightarrow> nxp_conn \<Rightarrow> nxp_conn" where
  "cc_acked ack pkt c =
     (case cn_cc c of
        None \<Rightarrow> c
      | Some bbr \<Rightarrow>
          let now_us = sp_sent_time pkt + latest_rtt ack;
              dr = nxp_dr_on_packet_acked (cn_delivery_rate c) (sp_dr_state pkt) (sp_sent_bytes pkt) now_us;
              info = \<lparr>ai_pkt_num = sp_pkt_num pkt, ai_acked_bytes = sp_sent_bytes pkt,
                      ai_sent_time = sp_sent_time pkt, ai_now_us = now_us, ai_rtt_us = latest_rtt ack,
                      ai_min_rtt_us = min_rtt ack, ai_bytes_in_flight = bytes_in_flight ack,
                      ai_delivery_rate_bps = rate_sample_bps dr, ai_round_count = dr_round_count dr,
                      ai_is_app_limited = rate_is_app_limited dr, ai_round_start = dr_round_start dr\<rparr>;
              bbr = bbr_on_ack bbr info in
          c\<lparr>cn_delivery_rate := dr, cn_cc := Some bbr,
            cn_pacer := nxp_pacer_set_rate (cn_pacer c) (bbr_get_pacing_rate bbr)\<rparr>)"

definition on_packet_acked :: "nxp_conn option pkt_cb" where
  "on_packet_acked ack pkt ctx = do {
     c \<leftarrow> ctx;
     let c = c\<lparr>cn_stats := (cn_stats c)\<lparr>stat_packets_sent := stat_packets_sent (cn_stats c) + 1\<rparr>\<rparr> in do {
     c \<leftarrow> acked_frames (sp_frames pkt) c;
     Some (cc_acked ack pkt c) } }"

fun lost_frames :: "nxp_stream_frame_record list \<Rightarrow> nxp_conn \<Rightarrow> nxp_conn option" where
  "lost_frames [] c = Some c"
| "lost_frames (r # rs) c = do {
     v \<leftarrow> nxp_hash_map_get (cn_streams c) (fr_stream_id r);
     (case v of
        None \<Rightarrow> lost_frames rs c
      | Some p \<Rightarrow> do {
          c \<leftarrow> upd_stream p (\<lambda>s. nxp_stream_on_loss s (fr_offset r) (fr_len r) (fr_fin r)) c;
          c \<leftarrow> nxp_sched_add c p;
          lost_frames rs c }) }"

definition cc_lost :: "nxp_ack_state \<Rightarrow> nxp_sent_pkt \<Rightarrow> nxp_conn \<Rightarrow> nxp_conn" where
  "cc_lost ack pkt c =
     (case cn_cc c of
        None \<Rightarrow> c
      | Some bbr \<Rightarrow>
          c\<lparr>cn_cc := Some (bbr_on_loss bbr \<lparr>li_lost_bytes = sp_sent_bytes pkt, li_now_us = sp_sent_time pkt,
                                         li_bytes_in_flight = bytes_in_flight ack\<rparr>)\<rparr>)"

definition on_packet_lost :: "nxp_conn option pkt_cb" where
  "on_packet_lost ack pkt ctx = do {
     c \<leftarrow> ctx;
     let c = c\<lparr>cn_stats := (cn_stats c)\<lparr>stat_packets_lost := stat_packets_lost (cn_stats c) + 1\<rparr>\<rparr> in do {
     c \<leftarrow> lost_frames (sp_frames pkt) c;
     Some (cc_lost ack pkt c) } }"

section \<open>Stream identifiers\<close>

fun stream_type_num :: "nxp_stream_type \<Rightarrow> u64" where
  "stream_type_num NXP_STREAM_RELIABLE = 0"
| "stream_type_num NXP_STREAM_FAST = 1"
| "stream_type_num NXP_STREAM_MEDIA = 2"
| "stream_type_num NXP_STREAM_FILE = 3"

definition make_stream_id :: "u64 \<Rightarrow> nxp_stream_type \<Rightarrow> bool \<Rightarrow> bool \<Rightarrow> u64" where
  "make_stream_id seq type unidirectional is_server =
     (let sid = push_bit 4 seq;
          sid = sid OR push_bit 2 (stream_type_num type AND 0x3);
          sid = (if unidirectional then sid OR 0x2 else sid) in
      if is_server then sid OR 0x1 else sid)"

definition stream_id_is_local :: "u64 \<Rightarrow> bool \<Rightarrow> bool" where
  "stream_id_is_local stream_id is_server = ((stream_id AND 0x1 \<noteq> 0) = is_server)"

section \<open>Create\<close>

text \<open>The outcomes of the allocations are arguments: the connection, the table of sent packets,
  the two of the hash map and the state of the congestion controller.\<close>

definition nxp_conn_create ::
    "bool \<Rightarrow> bool \<Rightarrow> bool \<Rightarrow> bool \<Rightarrow> bool \<Rightarrow> nxp_conn_config \<Rightarrow> bool \<Rightarrow> nxp_conn option" where
  "nxp_conn_create alloc_conn alloc_sent alloc_map alloc_entries alloc_cc config is_server =
     (if \<not> alloc_conn then None
      else do {
        streams \<leftarrow> nxp_hash_map_create alloc_map alloc_entries 64;
        let local_max = (if cfg_initial_max_data config = 0 then NXP_DEFAULT_MAX_DATA
                         else cfg_initial_max_data config) in
        Some \<lparr>stream_mem = (\<lambda>_. None), sched_head = None, cn_scid = cfg_scid config,
          cn_dcid = \<lparr>cid_data = []\<rparr>, cn_state = NXP_CONN_IDLE, cn_is_server = is_server,
          cn_peer_addr = cfg_peer_addr config, cn_next_pkt_num = 0, cn_ack = nxp_ack_init alloc_sent,
          cn_crypto = zero_crypto_state, cn_handshake = None, cn_zero_rtt_crypto = zero_crypto_state,
          cn_zero_rtt_pn = 0, cn_migration = nxp_migration_init, cn_cc = bbr_create alloc_cc,
          cn_pacer = nxp_pacer_init, cn_delivery_rate = nxp_dr_init, cn_heartbeat = nxp_heartbeat_init 0,
          cn_auto_reconnect = False, cn_saved_ticket = [], cn_reconnect_attempts = 0,
          cn_max_reconnect_attempts = 3, cn_streams = streams, cn_next_bidi_id = 0, cn_next_uni_id = 0,
          cn_local_max_streams_bidi = cfg_max_streams_bidi config,
          cn_local_max_streams_uni = cfg_max_streams_uni config,
          cn_peer_max_streams_bidi = (if cfg_max_streams_bidi config \<noteq> 0 then cfg_max_streams_bidi config
                                      else NXP_MAX_STREAMS_DEFAULT),
          cn_peer_max_streams_uni = (if cfg_max_streams_uni config \<noteq> 0 then cfg_max_streams_uni config
                                     else NXP_MAX_STREAMS_DEFAULT),
          cn_open_bidi_count = 0, cn_open_uni_count = 0, cn_conn_flow = nxp_flow_init local_max local_max,
          cn_initial_max_stream_data = (if cfg_initial_max_stream_data config = 0
                                        then NXP_DEFAULT_MAX_STREAM_DATA
                                        else cfg_initial_max_stream_data config),
          cn_idle_timeout_us = (if cfg_idle_timeout_us config = 0 then NXP_DEFAULT_IDLE_TIMEOUT
                                else cfg_idle_timeout_us config),
          cn_last_activity_us = 0, cn_send_ping = False, cn_send_conn_close = False,
          cn_close_error_code = 0, cn_on_new_stream = False, cn_stats = zero_stats, cn_next_ptr = 0,
          cn_calls = []\<rparr> })"

text \<open>The streams of the table are freed one by one, in the order of its slots; freeing a stream twice
  is \<^term>\<open>None\<close>. The result is the store of the streams that remain allocated; the other parts of
  the connection are released without looking at them.\<close>

definition destroy_stream_cb ::
    "u64 \<Rightarrow> stream_ptr option \<Rightarrow> (stream_ptr \<rightharpoonup> nxp_stream_s) option \<Rightarrow>
     bool \<times> (stream_ptr \<rightharpoonup> nxp_stream_s) option" where
  "destroy_stream_cb key value heap =
     (True, do {
        mem \<leftarrow> heap;
        (case value of
           None \<Rightarrow> Some mem
         | Some p \<Rightarrow> (case mem p of None \<Rightarrow> None | Some s \<Rightarrow> Some (mem(p := None)))) })"

definition nxp_conn_destroy :: "nxp_conn \<Rightarrow> (stream_ptr \<rightharpoonup> nxp_stream_s) option" where
  "nxp_conn_destroy c = nxp_hash_map_foreach (cn_streams c) destroy_stream_cb (Some (stream_mem c))"

definition nxp_conn_set_established :: "nxp_conn \<Rightarrow> nxp_conn_id \<Rightarrow> nxp_conn" where
  "nxp_conn_set_established c dcid = set_conn_state (c\<lparr>cn_dcid := dcid\<rparr>) NXP_CONN_ESTABLISHED"

section \<open>Streams\<close>

text \<open>The outcomes of the allocations for a new stream: its structure, its two buffers and the
  growth of the hash map.\<close>

record stream_alloc =
  al_stream :: bool
  al_send :: bool
  al_recv :: bool
  al_grow :: bool

text \<open>A new stream in the store and in the hash map, at the next free address.\<close>

definition add_stream ::
    "stream_alloc \<Rightarrow> u64 \<Rightarrow> nxp_stream_type \<Rightarrow> nxp_conn \<Rightarrow> (nxp_conn \<times> stream_ptr option) option" where
  "add_stream al sid type c =
     (case nxp_stream_create (al_stream al) (al_send al) (al_recv al) sid type
             (cn_initial_max_stream_data c) (cn_initial_max_stream_data c) of
        None \<Rightarrow> Some (c, None)
      | Some s \<Rightarrow>
          let p = cn_next_ptr c;
              c = c\<lparr>stream_mem := (stream_mem c)(p \<mapsto> s), cn_next_ptr := p + 1\<rparr> in do {
          (m, _) \<leftarrow> nxp_hash_map_put (al_grow al) (cn_streams c) sid (Some p);
          Some (c\<lparr>cn_streams := m\<rparr>, Some p) })"

definition nxp_conn_open_stream ::
    "stream_alloc \<Rightarrow> nxp_conn \<Rightarrow> nxp_stream_type \<Rightarrow> bool \<Rightarrow> (nxp_conn \<times> (nxp_error_code + u64)) option" where
  "nxp_conn_open_stream al c type unidirectional =
     (if unidirectional \<and> cn_open_uni_count c \<ge> cn_peer_max_streams_uni c
      then Some (c, Inl NXP_ERR_STREAM_LIMIT)
      else if \<not> unidirectional \<and> cn_open_bidi_count c \<ge> cn_peer_max_streams_bidi c
      then Some (c, Inl NXP_ERR_STREAM_LIMIT)
      else
        let seq = (if unidirectional then cn_next_uni_id c else cn_next_bidi_id c);
            sid = make_stream_id seq type unidirectional (cn_is_server c) in do {
        (c, r) \<leftarrow> add_stream al sid type c;
        (case r of
           None \<Rightarrow> Some (c, Inl NXP_ERR_OUT_OF_MEMORY)
         | Some p \<Rightarrow>
             let c = (if unidirectional
                      then c\<lparr>cn_next_uni_id := cn_next_uni_id c + 1,
                             cn_open_uni_count := cn_open_uni_count c + 1\<rparr>
                      else c\<lparr>cn_next_bidi_id := cn_next_bidi_id c + 1,
                             cn_open_bidi_count := cn_open_bidi_count c + 1\<rparr>);
                 c = c\<lparr>cn_stats := (cn_stats c)\<lparr>stat_streams_opened := stat_streams_opened (cn_stats c) + 1\<rparr>\<rparr> in
             Some (c, Inr sid)) })"

definition nxp_conn_stream_send ::
    "nxp_conn \<Rightarrow> u64 \<Rightarrow> bytes \<Rightarrow> bool \<Rightarrow> (nxp_conn \<times> nat option) option" where
  "nxp_conn_stream_send c stream_id data fin =
     (if cn_state c \<noteq> NXP_CONN_ESTABLISHED then Some (c, None)
      else do {
        v \<leftarrow> nxp_hash_map_get (cn_streams c) stream_id;
        (case v of
           None \<Rightarrow> Some (c, None)
         | Some p \<Rightarrow> do {
             s \<leftarrow> stream_mem c p;
             (s, written) \<leftarrow> nxp_stream_write s data fin;
             c \<leftarrow> upd_stream p (\<lambda>_. s) c;
             c \<leftarrow> (case written of Some n \<Rightarrow> if n > 0 then nxp_sched_add c p else Some c | None \<Rightarrow> Some c);
             Some (c, written) }) })"

definition nxp_conn_stream_recv ::
    "nxp_conn \<Rightarrow> u64 \<Rightarrow> nat \<Rightarrow> (nxp_conn \<times> bytes option \<times> bool) option" where
  "nxp_conn_stream_recv c stream_id buf_len = do {
     v \<leftarrow> nxp_hash_map_get (cn_streams c) stream_id;
     (case v of
        None \<Rightarrow> Some (c, None, False)
      | Some p \<Rightarrow> do {
          s \<leftarrow> stream_mem c p;
          (s, buf, fin) \<leftarrow> nxp_stream_read s buf_len;
          c \<leftarrow> upd_stream p (\<lambda>_. s) c;
          Some (c, Some buf, fin) }) }"

definition nxp_conn_get_state :: "nxp_conn \<Rightarrow> nxp_conn_state" where
  "nxp_conn_get_state c = cn_state c"

definition nxp_conn_initiate_close :: "nxp_conn \<Rightarrow> u64 \<Rightarrow> nxp_conn \<times> nxp_error_code" where
  "nxp_conn_initiate_close c error_code =
     (if cn_state c = NXP_CONN_CLOSED \<or> cn_state c = NXP_CONN_DRAINING then (c, NXP_ERR_CONNECTION_CLOSED)
      else (c\<lparr>cn_send_conn_close := True, cn_close_error_code := error_code\<rparr>, NXP_OK))"

definition nxp_conn_set_stream_rate :: "nxp_conn \<Rightarrow> u64 \<Rightarrow> u64 \<Rightarrow> (nxp_conn \<times> nxp_error_code) option" where
  "nxp_conn_set_stream_rate c stream_id rate_bps = do {
     v \<leftarrow> nxp_hash_map_get (cn_streams c) stream_id;
     (case v of
        None \<Rightarrow> Some (c, NXP_ERR_STREAM_CLOSED)
      | Some p \<Rightarrow> do {
          c \<leftarrow> upd_stream p (st_rate_limit_update (\<lambda>r. nxp_stream_rate_set r rate_bps)) c;
          Some (c, NXP_OK) }) }"

definition nxp_conn_set_on_writable :: "nxp_conn \<Rightarrow> u64 \<Rightarrow> bool \<Rightarrow> (nxp_conn \<times> nxp_error_code) option" where
  "nxp_conn_set_on_writable c stream_id cb = do {
     v \<leftarrow> nxp_hash_map_get (cn_streams c) stream_id;
     (case v of
        None \<Rightarrow> Some (c, NXP_ERR_STREAM_CLOSED)
      | Some p \<Rightarrow> do {
          c \<leftarrow> upd_stream p (st_on_writable_update (\<lambda>_. cb)) c;
          Some (c, NXP_OK) }) }"

section \<open>Handshake start and settings\<close>

text \<open>\<open>keys\<close> is the key pair OpenSSL generates, if it does.\<close>

definition nxp_conn_start_handshake ::
    "openssl \<Rightarrow> bool \<Rightarrow> (bytes \<times> bytes) option \<Rightarrow> nxp_conn \<Rightarrow> nxp_conn_id \<Rightarrow> nxp_conn \<times> nxp_error_code" where
  "nxp_conn_start_handshake ssl alloc keys c peer_cid =
     (if cn_state c \<noteq> NXP_CONN_IDLE then (c, NXP_ERR_INVALID_ARGUMENT)
      else case nxp_handshake_create alloc keys (cn_is_server c) of
        None \<Rightarrow> (c, NXP_ERR_OUT_OF_MEMORY)
      | Some hs \<Rightarrow>
          let tp = zero_transport_params\<lparr>tp_initial_max_data := local_max_data (cn_conn_flow c),
                     tp_initial_max_stream_data := cn_initial_max_stream_data c,
                     tp_max_streams_bidi := cn_local_max_streams_bidi c,
                     tp_max_streams_uni := cn_local_max_streams_uni c,
                     tp_idle_timeout_us := cn_idle_timeout_us c\<rparr>;
              hs = nxp_handshake_set_local_params hs tp;
              c = (if cn_is_server c then c else c\<lparr>cn_dcid := peer_cid\<rparr>);
              (hs, r) = (if cn_is_server c then nxp_handshake_start_server ssl hs peer_cid
                         else nxp_handshake_start_client ssl hs peer_cid);
              c = set_conn_state c NXP_CONN_HANDSHAKE_INITIAL in
          if r \<noteq> NXP_OK then (set_conn_state c NXP_CONN_IDLE, r)
          else (c\<lparr>cn_handshake := Some hs\<rparr>, NXP_OK))"

definition nxp_conn_set_heartbeat :: "nxp_conn \<Rightarrow> u64 \<Rightarrow> nxp_conn" where
  "nxp_conn_set_heartbeat c interval_us = c\<lparr>cn_heartbeat := nxp_heartbeat_init interval_us\<rparr>"

definition nxp_conn_set_auto_reconnect :: "nxp_conn \<Rightarrow> bool \<Rightarrow> u32 \<Rightarrow> nxp_conn" where
  "nxp_conn_set_auto_reconnect c enable max_attempts =
     c\<lparr>cn_auto_reconnect := enable, cn_max_reconnect_attempts := max_attempts\<rparr>"

section \<open>Timers\<close>

text \<open>\<^term>\<open>None\<close>: the shift of the probe timeout by 64 or more.\<close>

definition nxp_conn_timeout :: "nxp_conn \<Rightarrow> u64 \<Rightarrow> u64 option" where
  "nxp_conn_timeout c now_us =
     (if cn_state c = NXP_CONN_CLOSED then Some UINT64_MAX
      else do {
        loss_t \<leftarrow> nxp_ack_loss_timeout (cn_ack c);
        let timeout = (if loss_t < UINT64_MAX then loss_t else UINT64_MAX);
            idle_deadline = cn_last_activity_us c + cn_idle_timeout_us c;
            timeout = (if cn_last_activity_us c > 0 \<and> idle_deadline < timeout then idle_deadline else timeout);
            timeout = (if ack_needed (cn_ack c) \<and> ack_delay_timer (cn_ack c) < timeout
                       then ack_delay_timer (cn_ack c) else timeout);
            pacing_delay = nxp_pacer_next_send_time (cn_pacer c) 1200;
            pace_deadline = now_us + pacing_delay;
            timeout = (if pc_enabled (cn_pacer c) \<and> pacing_delay > 0 \<and> pace_deadline < timeout
                       then pace_deadline else timeout);
            hb_t = nxp_heartbeat_next_timeout (cn_heartbeat c) in
        Some (if hb_t < timeout then hb_t else timeout) })"

text \<open>The loss timer of \<^verbatim>\<open>nxp_conn_on_timeout\<close>.\<close>

definition fire_loss_timer :: "nxp_conn \<Rightarrow> u64 \<Rightarrow> nxp_conn option" where
  "fire_loss_timer c now_us = do {
     loss_t \<leftarrow> nxp_ack_loss_timeout (cn_ack c);
     if loss_t \<noteq> UINT64_MAX \<and> now_us \<ge> loss_t then
       let (ack, r) = nxp_ack_on_loss_timeout (cn_ack c) now_us (Some on_packet_lost) (Some c) in do {
       c \<leftarrow> r;
       let c = c\<lparr>cn_ack := ack\<rparr> in
       Some (if pto_count (cn_ack c) > 0 then c\<lparr>cn_send_ping := True\<rparr> else c) }
     else Some c }"

definition nxp_conn_on_timeout :: "nxp_conn \<Rightarrow> u64 \<Rightarrow> nxp_conn option" where
  "nxp_conn_on_timeout c now_us =
     (if cn_last_activity_us c > 0 \<and> now_us \<ge> cn_last_activity_us c + cn_idle_timeout_us c
      then Some (set_conn_state c NXP_CONN_CLOSED)
      else do {
        c \<leftarrow> fire_loss_timer c now_us;
        let c = c\<lparr>cn_heartbeat := nxp_heartbeat_check (cn_heartbeat c) now_us\<rparr> in
        Some (if nxp_heartbeat_is_dead (cn_heartbeat c) then set_conn_state c NXP_CONN_CLOSED else c) })"

end
