(* ===== verification/Nxp_Conn_Inv.thy ===== *)
theory Nxp_Conn_Inv
  imports Nxp_Conn
begin

text \<open>
  Well-formed connections: what the operations on streams keep of a stream, the invariant of a
  connection that ties its scheduler, its hash map, its store of streams and its table of sent
  packets together, and that the callbacks of the loss detector, the timers, the creation of
  connections and of streams keep it.
\<close>

section \<open>What the stream operations keep\<close>

definition stream_ok :: "nxp_stream_s \<Rightarrow> bool" where
  "stream_ok s \<longleftrightarrow>
     length (snd_data (st_send s)) = 65536 \<and> snd_cap (st_send s) = 65536 \<and>
     length (rcv_data (st_recv s)) = 65536 \<and> rcv_cap (st_recv s) = 65536"

text \<open>The identity of a stream and its links stay, and so do its buffers' sizes.\<close>

definition keeps :: "nxp_stream_s \<Rightarrow> nxp_stream_s \<Rightarrow> bool" where
  "keeps s s' \<longleftrightarrow> (stream_ok s \<longrightarrow> stream_ok s') \<and> st_id s' = st_id s \<and> scheduled s' = scheduled s \<and>
     sched_next s' = sched_next s \<and> sched_prev s' = sched_prev s"

lemma keeps_refl [simp]: "keeps s s"
  by (simp add: keeps_def)

lemma keeps_trans: "keeps a b \<Longrightarrow> keeps b c \<Longrightarrow> keeps a c"
  by (auto simp: keeps_def)

lemma keeps_set_state [simp]: "keeps s (set_stream_state t x) = keeps s t"
  by (simp add: set_stream_state_def keeps_def stream_ok_def)

lemma keeps_on_ack [simp]: "keeps s (nxp_stream_on_ack s off len fin)"
  unfolding nxp_stream_on_ack_def Let_def by (auto simp: keeps_def stream_ok_def set_stream_state_def)

lemma keeps_on_loss [simp]: "keeps s (nxp_stream_on_loss s off len fin)"
  unfolding nxp_stream_on_loss_def Let_def by (auto simp: keeps_def stream_ok_def)

lemma keeps_updates [simp]:
  "keeps s (s\<lparr>st_blocked := b\<rparr>)" "keeps s (s\<lparr>st_on_writable := b\<rparr>)" "keeps s (s\<lparr>st_flow := f\<rparr>)"
  by (simp_all add: keeps_def stream_ok_def)

lemma keeps_rate [simp]:
  "keeps s (s\<lparr>st_rate_limit := r\<rparr>)"
  by (simp add: keeps_def stream_ok_def)

lemma circ_write_len:
  "length data = n \<Longrightarrow> pos < n \<Longrightarrow> length src \<le> n \<Longrightarrow> \<exists>d. circ_write data pos src = Some d \<and> length d = n"
  using circ_write_at [of pos data src] by auto

lemma create_ok:
  assumes "nxp_stream_create a b c sid type ms mr = Some s"
  shows "stream_ok s" "st_id s = sid" "\<not> scheduled s" "sched_next s = None" "sched_prev s = None"
    "\<not> sr_enabled (st_rate_limit s)"
  using assms by (auto simp: nxp_stream_create_def stream_ok_def nxp_stream_rate_init_def split: if_splits)

lemma write_total:
  assumes "stream_ok s"
  shows "\<exists>s' r. nxp_stream_write s data fin = Some (s', r) \<and> keeps s s'"
proof -
  let ?sb = "st_send s"
  define av where "av = (let buffered = write_offset ?sb - acked_offset ?sb;
            avail = (if snd_cap ?sb > buffered then snd_cap ?sb - buffered else 0);
            fc_avail = (if peer_max_data (st_flow s) > write_offset ?sb
                        then peer_max_data (st_flow s) - write_offset ?sb else 0) in
            if avail > fc_avail then fc_avail else avail)"
  have "av \<le> 65536"
    using assms by (auto simp: av_def Let_def stream_ok_def word_le_nat_alt word_less_nat_alt unat_sub)
  then have av: "unat av \<le> 65536" by (simp add: word_le_nat_alt)
  have w: "\<exists>d. circ_write (snd_data ?sb) (unat (write_offset ?sb mod snd_cap ?sb)) (take n data) = Some d \<and>
      length d = 65536" if "n \<le> unat av" for n
    by (rule circ_write_len) (use assms that av in \<open>auto simp: stream_ok_def unat_mod min.coboundedI2\<close>)
  define t where "t = (if length data < unat av then length data else unat av)"
  have t: "t \<le> unat av" by (simp add: t_def)
  have "nxp_stream_write s data fin =
     (if st_state s = NXP_STREAM_HALF_CLOSED_LOCAL \<or> st_state s = NXP_STREAM_CLOSED \<or>
         st_state s = NXP_STREAM_RESET then Some (s, None)
      else if snd_fin ?sb then Some (s, None)
      else do {
          sb \<leftarrow> (if t > 0 then do {
              d \<leftarrow> circ_write (snd_data ?sb) (unat (write_offset ?sb mod snd_cap ?sb)) (take t data);
              Some (?sb\<lparr>snd_data := d, write_offset := write_offset ?sb + of_nat t\<rparr>) }
            else Some ?sb);
          let sb = (if fin then sb\<lparr>snd_fin := True\<rparr> else sb) in
          Some (s\<lparr>st_send := sb\<rparr>, Some t) })"
    unfolding nxp_stream_write_def t_def av_def Let_def by (rule refl)
  then show ?thesis using w [OF t] assms by (auto simp: keeps_def stream_ok_def Let_def)
qed

text \<open>A read that asks for more than the buffer holds is safe only while no more than a bufferful
  is unread.\<close>

definition read_ok :: "nxp_stream_s \<Rightarrow> nat \<Rightarrow> bool" where
  "read_ok s n \<longleftrightarrow> n \<le> 65536 \<or> recv_offset (st_recv s) - read_offset (st_recv s) \<le> 65536"

lemma read_total:
  assumes "stream_ok s" "read_ok s n"
  shows "\<exists>s' bs fin. nxp_stream_read s n = Some (s', bs, fin) \<and> keeps s s' \<and> length bs \<le> n"
proof -
  let ?rc = "st_recv s"
  have ne: "rcv_data ?rc \<noteq> []" using assms(1) by (auto simp: stream_ok_def)
  have m: "unat (read_offset ?rc mod rcv_cap ?rc) = unat (read_offset ?rc) mod length (rcv_data ?rc)"
    using assms(1) by (simp add: stream_ok_def unat_mod)
  have "circ_read (rcv_data ?rc) (unat (read_offset ?rc mod rcv_cap ?rc)) k =
      Some (ring_slice (rcv_data ?rc) (unat (read_offset ?rc)) k)" if "k \<le> 65536" for k
    unfolding m using circ_read_ring [OF ne] that assms by (simp add: stream_ok_def)
  then show ?thesis
    using assms by (auto simp: nxp_stream_read_def Let_def keeps_def stream_ok_def read_ok_def word_le_nat_alt split: if_splits)
qed

lemma fill_total:
  assumes "stream_ok s"
  shows "\<exists>s' r. nxp_stream_fill_frame s m = Some (s', r) \<and> keeps s s' \<and> st_rate_limit s' = st_rate_limit s \<and>
    (case r of None \<Rightarrow> \<not> stream_has_data s \<and> s' = s
     | Some f \<Rightarrow> unat (sf_length f) \<le> m \<and> data_ok (sf_length f) (sf_data f) \<and> sf_has_length f \<and>
         sf_stream_id f = st_id s \<and> st_flow s' = st_flow s)"
proof -
  let ?sb = "st_send s"
  let ?pos = "unat (sent_offset ?sb mod snd_cap ?sb)"
  have pos: "?pos < 65536" "unat (snd_cap ?sb) = 65536" "length (snd_data ?sb) = 65536"
    using assms by (auto simp: stream_ok_def unat_mod)
  define n where "n = (let data_len = min (unat (nxp_stream_unsent s)) m; first = unat (snd_cap ?sb) - ?pos in
      if data_len > 0 \<and> \<not> data_len \<le> first then first else data_len)"
  have n: "n \<le> m" "n \<le> 65536 - ?pos" using pos by (auto simp: n_def Let_def)
  then have rd: "mem_read (snd_data ?sb) ?pos n = Some (take n (drop ?pos (snd_data ?sb)))"
    using pos by (simp add: mem_read_def)
  have len: "unat (of_nat n :: u64) = n" "(of_nat n :: u64) = 0 \<longleftrightarrow> n = 0"
    using n(2) by (auto simp: unat_eq_0 [symmetric] simp del: unat_eq_0)
  show ?thesis
  proof (cases "stream_has_data s")
    case False
    then show ?thesis by (auto simp: nxp_stream_fill_frame_def stream_has_data_def)
  next
    case True
    define d where "d = (if n > 0 then Some (take n (drop ?pos (snd_data ?sb))) else None)"
    define fin where "fin = (snd_fin ?sb \<and> \<not> fin_sent ?sb \<and> sent_offset ?sb + of_nat n = write_offset ?sb)"
    have "nxp_stream_fill_frame s m = (if \<not> stream_has_data s then Some (s, None) else do {
          data \<leftarrow> (if n > 0 then map_option Some (mem_read (snd_data ?sb) ?pos n) else Some None);
          let fin = (snd_fin ?sb \<and> \<not> fin_sent ?sb \<and> sent_offset ?sb + of_nat n = write_offset ?sb);
              out = \<lparr>sf_stream_id = st_id s, sf_offset = sent_offset ?sb, sf_length = of_nat n,
                     sf_has_offset = (sent_offset ?sb > 0), sf_has_length = True, sf_fin = fin, sf_data = data\<rparr>;
              sb = (if fin then ?sb\<lparr>fin_sent := True\<rparr> else ?sb);
              sb = sb\<lparr>sent_offset := sent_offset sb + of_nat n\<rparr> in
          Some (s\<lparr>st_send := sb\<rparr>, Some out) })"
      unfolding nxp_stream_fill_frame_def n_def Let_def stream_has_data_def not_not by (rule refl)
    also have "\<dots> =
      Some (s\<lparr>st_send := (if fin then ?sb\<lparr>fin_sent := True\<rparr> else ?sb)\<lparr>sent_offset := sent_offset ?sb + of_nat n\<rparr>\<rparr>,
        Some \<lparr>sf_stream_id = st_id s, sf_offset = sent_offset ?sb, sf_length = of_nat n,
              sf_has_offset = (sent_offset ?sb > 0), sf_has_length = True, sf_fin = fin, sf_data = d\<rparr>)"
      using True rd by (simp add: Let_def d_def fin_def)
    finally have "nxp_stream_fill_frame s m =
      Some (s\<lparr>st_send := (if fin then ?sb\<lparr>fin_sent := True\<rparr> else ?sb)\<lparr>sent_offset := sent_offset ?sb + of_nat n\<rparr>\<rparr>,
        Some \<lparr>sf_stream_id = st_id s, sf_offset = sent_offset ?sb, sf_length = of_nat n,
              sf_has_offset = (sent_offset ?sb > 0), sf_has_length = True, sf_fin = fin, sf_data = d\<rparr>)" .
    moreover have "length (take n (drop ?pos (snd_data ?sb))) = n" using n(2) pos by simp
    ultimately show ?thesis
      using assms n(1) len by (auto simp: keeps_def stream_ok_def data_ok_def d_def)
  qed
qed

lemma on_recv_total:
  assumes "stream_ok s" "frame_ok (Stream f)" "unat (sf_length f) \<le> 65536"
  shows "\<exists>s' e. nxp_stream_on_recv s f = Some (s', e) \<and> keeps s s'"
proof -
  let ?rc = "st_recv s"
  define off where "off = (if sf_has_offset f then sf_offset f else 0)"
  have off: "unat off \<le> 2 ^ 60" using assms(2) by (auto simp: off_def word_le_nat_alt)
  have e: "unat (off + sf_length f) = unat off + unat (sf_length f)"
    by (rule unat_add_nowrap) (use off assms(3) in simp)
  have "\<exists>rc'. recv_copy ?rc off (sf_length f) d = Some rc' \<and> length (rcv_data rc') = 65536 \<and> rcv_cap rc' = 65536"
    if d: "length d = unat (sf_length f)" for d
  proof (cases "off + sf_length f > read_offset ?rc")
    case True
    define skip where "skip = (if off < read_offset ?rc then unat (read_offset ?rc - off) else 0)"
    have skip: "skip \<le> unat (sf_length f)"
      using True e by (auto simp: skip_def word_less_nat_alt unat_sub word_le_nat_alt)
    let ?src = "take (unat (sf_length f) - skip) (drop skip d)"
    let ?at = "unat ((if off < read_offset ?rc then read_offset ?rc else off) mod rcv_cap ?rc)"
    have src: "mem_read d skip (unat (sf_length f) - skip) = Some ?src" using skip d by (simp add: mem_read_def)
    have "?at < 65536" using assms(1) by (simp add: stream_ok_def unat_mod)
    moreover have "length ?src \<le> 65536" by (rule order.trans [OF _ assms(3)]) simp
    ultimately obtain D where "circ_write (rcv_data ?rc) ?at ?src = Some D" "length D = 65536"
      using circ_write_len [of "rcv_data ?rc" 65536 ?at ?src] assms(1) by (auto simp: stream_ok_def)
    with src show ?thesis
      using True assms(1) by (auto simp: recv_copy_def Let_def skip_def [symmetric] stream_ok_def)
  next
    case False
    then show ?thesis using assms(1) by (simp add: recv_copy_def Let_def stream_ok_def)
  qed
  moreover have "\<forall>d. sf_data f = Some d \<longrightarrow> length d = unat (sf_length f)"
    using assms(2) by (auto simp: data_ok_def)
  ultimately show ?thesis
    using assms(1) unfolding nxp_stream_on_recv_def Let_def off_def [symmetric]
    by (fastforce simp: keeps_def stream_ok_def set_stream_state_def split: option.splits)
qed

section \<open>Well-formed connections\<close>

definition ack_mem_ok :: "nxp_ack_state \<Rightarrow> bool" where
  "ack_mem_ok ack \<longleftrightarrow> \<not> sent_null ack \<and> 0 < sent_cap ack \<and> length (sent ack) \<le> unat (sent_cap ack)"

text \<open>The scheduler's list is a ring of the store, the hash map maps identifiers to the streams
  that carry them, every stream has its buffers, the table of sent packets exists and no more
  data was sent than the peer allows.\<close>

definition conn_inv :: "nxp_conn \<Rightarrow> bool" where
  "conn_inv c \<longleftrightarrow>
     (\<exists>q. sched_repr c q) \<and> hm_inv (cn_streams c) \<and>
     (\<forall>k v. hm_abs (cn_streams c) k = Some v \<longrightarrow>
        (\<exists>p s. v = Some p \<and> stream_mem c p = Some s \<and> st_id s = k)) \<and>
     (\<forall>p s. stream_mem c p = Some s \<longrightarrow> p < cn_next_ptr c \<and> stream_ok s) \<and>
     data_sent (cn_conn_flow c) \<le> peer_max_data (cn_conn_flow c) \<and> ack_mem_ok (cn_ack c)"

lemma sched_repr_cong:
  "sched_head c' = sched_head c \<Longrightarrow> stream_mem c' = stream_mem c \<Longrightarrow> sched_repr c' q = sched_repr c q"
  by (simp add: sched_repr_def)

lemma conn_inv_cong:
  assumes "sched_head c' = sched_head c" "stream_mem c' = stream_mem c" "cn_streams c' = cn_streams c"
    "cn_next_ptr c' = cn_next_ptr c" "cn_conn_flow c' = cn_conn_flow c" "cn_ack c' = cn_ack c"
  shows "conn_inv c' = conn_inv c"
  using assms sched_repr_cong [OF assms(1,2)] by (simp add: conn_inv_def)

lemma conn_inv_simps [simp]:
  "conn_inv (c\<lparr>cn_scid := x1\<rparr>) = conn_inv c" "conn_inv (c\<lparr>cn_dcid := x1\<rparr>) = conn_inv c"
  "conn_inv (c\<lparr>cn_state := x2\<rparr>) = conn_inv c" "conn_inv (c\<lparr>cn_peer_addr := x3\<rparr>) = conn_inv c"
  "conn_inv (c\<lparr>cn_next_pkt_num := x4\<rparr>) = conn_inv c" "conn_inv (c\<lparr>cn_crypto := x5\<rparr>) = conn_inv c"
  "conn_inv (c\<lparr>cn_handshake := x6\<rparr>) = conn_inv c" "conn_inv (c\<lparr>cn_migration := x7\<rparr>) = conn_inv c"
  "conn_inv (c\<lparr>cn_cc := x8\<rparr>) = conn_inv c" "conn_inv (c\<lparr>cn_pacer := x9\<rparr>) = conn_inv c"
  "conn_inv (c\<lparr>cn_delivery_rate := x10\<rparr>) = conn_inv c" "conn_inv (c\<lparr>cn_heartbeat := x11\<rparr>) = conn_inv c"
  "conn_inv (c\<lparr>cn_auto_reconnect := x12\<rparr>) = conn_inv c"
  "conn_inv (c\<lparr>cn_max_reconnect_attempts := x13\<rparr>) = conn_inv c"
  "conn_inv (c\<lparr>cn_next_bidi_id := x14\<rparr>) = conn_inv c" "conn_inv (c\<lparr>cn_next_uni_id := x14\<rparr>) = conn_inv c"
  "conn_inv (c\<lparr>cn_peer_max_streams_bidi := x15\<rparr>) = conn_inv c"
  "conn_inv (c\<lparr>cn_peer_max_streams_uni := x15\<rparr>) = conn_inv c"
  "conn_inv (c\<lparr>cn_open_bidi_count := x15\<rparr>) = conn_inv c" "conn_inv (c\<lparr>cn_open_uni_count := x15\<rparr>) = conn_inv c"
  "conn_inv (c\<lparr>cn_last_activity_us := x16\<rparr>) = conn_inv c" "conn_inv (c\<lparr>cn_send_ping := x17\<rparr>) = conn_inv c"
  "conn_inv (c\<lparr>cn_send_conn_close := x17\<rparr>) = conn_inv c" "conn_inv (c\<lparr>cn_close_error_code := x16\<rparr>) = conn_inv c"
  "conn_inv (c\<lparr>cn_stats := x18\<rparr>) = conn_inv c" "conn_inv (c\<lparr>cn_calls := x19\<rparr>) = conn_inv c"
  by (rule conn_inv_cong; simp)+

lemma conn_inv_set_state [simp]: "conn_inv (set_conn_state c s) = conn_inv c"
  by (simp add: set_conn_state_def)

lemma conn_inv_ack: "conn_inv c \<Longrightarrow> ack_mem_ok ack \<Longrightarrow> conn_inv (c\<lparr>cn_ack := ack\<rparr>)"
  using sched_repr_cong [of "c\<lparr>cn_ack := ack\<rparr>" c] by (simp add: conn_inv_def)

lemma conn_inv_flow:
  "conn_inv c \<Longrightarrow> data_sent fc \<le> peer_max_data fc \<Longrightarrow> conn_inv (c\<lparr>cn_conn_flow := fc\<rparr>)"
  using sched_repr_cong [of "c\<lparr>cn_conn_flow := fc\<rparr>" c] by (simp add: conn_inv_def)

lemma conn_inv_peer_max: "conn_inv c \<Longrightarrow> conn_inv (c\<lparr>cn_conn_flow := nxp_flow_set_peer_max (cn_conn_flow c) m\<rparr>)"
  by (rule conn_inv_flow) (auto simp: conn_inv_def nxp_flow_set_peer_max_def)

lemma conn_inv_entry:
  assumes "conn_inv c" "hm_abs (cn_streams c) k = Some v"
  obtains p s where "v = Some p" "stream_mem c p = Some s" "st_id s = k" "stream_ok s"
proof -
  have "\<exists>p s. v = Some p \<and> stream_mem c p = Some s \<and> st_id s = k" using assms unfolding conn_inv_def by blast
  then show ?thesis using that assms(1) unfolding conn_inv_def by blast
qed

lemma conn_lookup:
  assumes "conn_inv c"
  obtains (absent) "nxp_hash_map_get (cn_streams c) k = Some None" "hm_abs (cn_streams c) k = None"
  | (found) p s where "nxp_hash_map_get (cn_streams c) k = Some (Some p)" "hm_abs (cn_streams c) k = Some (Some p)"
      "stream_mem c p = Some s" "st_id s = k" "stream_ok s"
proof (cases "hm_abs (cn_streams c) k")
  case None
  then show ?thesis using absent get_spec [of "cn_streams c" k] assms by (simp add: conn_inv_def deref_def)
next
  case (Some v)
  then obtain p s where "v = Some p" "stream_mem c p = Some s" "st_id s = k" "stream_ok s"
    using conn_inv_entry [OF assms] by blast
  then show ?thesis using found [of p s] get_spec [of "cn_streams c" k] Some assms by (simp add: conn_inv_def deref_def)
qed

lemma sched_repr_upd:
  assumes "sched_repr c q" "stream_mem c p = Some s" "scheduled s' = scheduled s" "sched_next s' = sched_next s"
    "sched_prev s' = sched_prev s"
  shows "sched_repr (c\<lparr>stream_mem := (stream_mem c)(p \<mapsto> s')\<rparr>) q"
proof -
  have "(\<lambda>x. ((stream_mem c)(p \<mapsto> s')) x \<bind> sched_next) = links_next c"
    "(\<lambda>x. ((stream_mem c)(p \<mapsto> s')) x \<bind> sched_prev) = links_prev c"
    using assms(2,4,5) by (auto simp: fun_eq_iff)
  then show ?thesis using assms(1,2,3) by (auto simp: sched_repr_def)
qed

lemma conn_inv_store:
  assumes inv: "conn_inv c" and repr: "sched_repr c' q"
    and same: "cn_streams c' = cn_streams c" "cn_next_ptr c' = cn_next_ptr c" "cn_conn_flow c' = cn_conn_flow c"
      "cn_ack c' = cn_ack c"
    and fwd: "\<And>p s. stream_mem c p = Some s \<Longrightarrow> \<exists>s'. stream_mem c' p = Some s' \<and> st_id s' = st_id s"
    and bwd: "\<And>p s'. stream_mem c' p = Some s' \<Longrightarrow>
      \<exists>s. stream_mem c p = Some s \<and> (stream_ok s \<longrightarrow> stream_ok s')"
  shows "conn_inv c'"
  unfolding conn_inv_def
proof (intro conjI allI impI)
  fix k v assume "hm_abs (cn_streams c') k = Some v"
  then have h: "hm_abs (cn_streams c) k = Some v" by (simp only: same)
  obtain p s where p: "v = Some p" "stream_mem c p = Some s" "st_id s = k" by (rule conn_inv_entry [OF inv h])
  show "\<exists>p s. v = Some p \<and> stream_mem c' p = Some s \<and> st_id s = k" using fwd [OF p(2)] p(1,3) by auto
next
  fix p s' assume "stream_mem c' p = Some s'"
  then obtain s where "stream_mem c p = Some s" "stream_ok s \<longrightarrow> stream_ok s'" using bwd by blast
  then show "p < cn_next_ptr c'" "stream_ok s'" using inv unfolding conn_inv_def same by blast+
qed (use inv repr in \<open>auto simp only: conn_inv_def same\<close>)

lemma upd_stream_inv:
  assumes "conn_inv c" "stream_mem c p = Some s" "keeps s (f s)"
  shows "upd_stream p f c = Some (c\<lparr>stream_mem := (stream_mem c)(p \<mapsto> f s)\<rparr>)"
    and "conn_inv (c\<lparr>stream_mem := (stream_mem c)(p \<mapsto> f s)\<rparr>)"
proof -
  show "upd_stream p f c = Some (c\<lparr>stream_mem := (stream_mem c)(p \<mapsto> f s)\<rparr>)"
    using assms(2) by (simp add: upd_stream_def)
  obtain q where "sched_repr c q" using assms(1) by (auto simp only: conn_inv_def)
  then have "sched_repr (c\<lparr>stream_mem := (stream_mem c)(p \<mapsto> f s)\<rparr>) q"
    using assms(2,3) by (intro sched_repr_upd) (auto simp: keeps_def)
  then show "conn_inv (c\<lparr>stream_mem := (stream_mem c)(p \<mapsto> f s)\<rparr>)"
    by (rule conn_inv_store [OF assms(1)]) (use assms(2,3) in \<open>auto simp: keeps_def split: if_splits\<close>)
qed

lemma unlinked_eqD:
  assumes "unlinked s = unlinked t"
  shows "st_id s = st_id t" "stream_ok s = stream_ok t" "st_rate_limit s = st_rate_limit t" "st_send s = st_send t"
  using arg_cong [OF assms, of st_id] arg_cong [OF assms, of stream_ok] arg_cong [OF assms, of st_rate_limit]
    arg_cong [OF assms, of st_send]
  by (simp_all add: unlinked_def stream_ok_def)

lemma pool_data_eqD:
  assumes "pool_data c' = pool_data c" "stream_mem c p = Some s"
  shows "\<exists>s'. stream_mem c' p = Some s' \<and> unlinked s' = unlinked s"
  using fun_cong [OF assms(1), of p] assms(2) by (auto simp: pool_data_def)

lemma conn_inv_pool:
  assumes "conn_inv c" "pool_only c c'" "pool_data c' = pool_data c" "sched_repr c' q"
  shows "conn_inv c'"
proof -
  obtain h m where c': "c' = c\<lparr>sched_head := h, stream_mem := m\<rparr>" using assms(2) by (rule pool_onlyE)
  show ?thesis
  proof (rule conn_inv_store [OF assms(1,4)])
    show "\<exists>s'. stream_mem c' p = Some s' \<and> st_id s' = st_id s" if "stream_mem c p = Some s" for p s
      using pool_data_eqD [OF assms(3) that] unlinked_eqD(1) by blast
    show "\<exists>s. stream_mem c p = Some s \<and> (stream_ok s \<longrightarrow> stream_ok s')" if "stream_mem c' p = Some s'" for p s'
      using pool_data_eqD [OF assms(3) [symmetric] that] unlinked_eqD(2) by blast
  qed (simp_all add: c')
qed

lemma conn_sched_add:
  assumes "conn_inv c" "stream_mem c p = Some s"
  shows "\<exists>c'. nxp_sched_add c p = Some c' \<and> pool_only c c' \<and> pool_data c' = pool_data c \<and> conn_inv c'"
proof -
  obtain q where "sched_repr c q" using assms(1) by (auto simp: conn_inv_def)
  then show ?thesis using sched_add_spec [of c q p] assms conn_inv_pool by blast
qed

section \<open>How a connection evolves\<close>

text \<open>The connection stays well-formed, its state moves along the transitions the code allows,
  at most \<open>n\<close> streams are created and the connection keeps its own identifier.\<close>

definition conn_path :: "nxp_conn_state \<Rightarrow> nxp_conn_state \<Rightarrow> bool" where
  "conn_path = is_valid_conn_state_transition\<^sup>*\<^sup>*"

definition evolves :: "nat \<Rightarrow> nxp_conn \<Rightarrow> nxp_conn \<Rightarrow> bool" where
  "evolves n c c' \<longleftrightarrow> conn_inv c' \<and> conn_path (cn_state c) (cn_state c') \<and> cn_next_ptr c' \<le> cn_next_ptr c + n \<and>
     cn_scid c' = cn_scid c"

lemma conn_path_refl [simp]: "conn_path s s"
  by (simp add: conn_path_def)

lemma conn_path_set [simp]: "conn_path (cn_state c) (cn_state (set_conn_state c s))"
  unfolding conn_path_def by (auto simp: set_conn_state_def intro: r_into_rtranclp simp del: is_valid_conn_state_transition.simps)

lemma conn_path_closed: "conn_path NXP_CONN_CLOSED s \<Longrightarrow> s = NXP_CONN_CLOSED"
  unfolding conn_path_def by (induction rule: rtranclp_induct) (auto split: if_splits)

lemma set_conn_state_ptr [simp]:
  "cn_next_ptr (set_conn_state c s) = cn_next_ptr c" "stream_mem (set_conn_state c s) = stream_mem c"
  "cn_streams (set_conn_state c s) = cn_streams c" "cn_handshake (set_conn_state c s) = cn_handshake c"
  "cn_crypto (set_conn_state c s) = cn_crypto c" "cn_conn_flow (set_conn_state c s) = cn_conn_flow c"
  "cn_ack (set_conn_state c s) = cn_ack c" "cn_is_server (set_conn_state c s) = cn_is_server c"
  "cn_dcid (set_conn_state c s) = cn_dcid c" "cn_next_pkt_num (set_conn_state c s) = cn_next_pkt_num c"
  "cn_scid (set_conn_state c s) = cn_scid c"
  by (simp_all add: set_conn_state_def)

lemma evolves_refl: "conn_inv c \<Longrightarrow> evolves n c c"
  by (simp add: evolves_def)

lemma evolves_trans: "evolves m a b \<Longrightarrow> evolves n b c \<Longrightarrow> evolves (m + n) a c"
  unfolding evolves_def conn_path_def by (auto intro: rtranclp_trans)

lemma evolves_trans0: "evolves 0 a b \<Longrightarrow> evolves n b c \<Longrightarrow> evolves n a c" "evolves n a b \<Longrightarrow> evolves 0 b c \<Longrightarrow> evolves n a c"
  using evolves_trans [of 0 a b n c] evolves_trans [of n a b 0 c] by simp_all

lemma evolves_mono: "evolves m a b \<Longrightarrow> m \<le> n \<Longrightarrow> evolves n a b"
  by (auto simp: evolves_def)

lemma evolves_inv: "evolves n a b \<Longrightarrow> conn_inv b"
  by (simp add: evolves_def)

lemma evolves_fields [simp]:
  "evolves n c (c'\<lparr>cn_stats := x1\<rparr>) = evolves n c c'" "evolves n c (c'\<lparr>cn_calls := x2\<rparr>) = evolves n c c'"
  "evolves n c (c'\<lparr>cn_cc := x3\<rparr>) = evolves n c c'" "evolves n c (c'\<lparr>cn_pacer := x4\<rparr>) = evolves n c c'"
  "evolves n c (c'\<lparr>cn_delivery_rate := x5\<rparr>) = evolves n c c'" "evolves n c (c'\<lparr>cn_handshake := x6\<rparr>) = evolves n c c'"
  "evolves n c (c'\<lparr>cn_crypto := x7\<rparr>) = evolves n c c'" "evolves n c (c'\<lparr>cn_migration := x8\<rparr>) = evolves n c c'"
  "evolves n c (c'\<lparr>cn_heartbeat := x9\<rparr>) = evolves n c c'" "evolves n c (c'\<lparr>cn_dcid := x10\<rparr>) = evolves n c c'"
  "evolves n c (c'\<lparr>cn_peer_addr := x11\<rparr>) = evolves n c c'"
  "evolves n c (c'\<lparr>cn_peer_max_streams_bidi := x12\<rparr>) = evolves n c c'"
  "evolves n c (c'\<lparr>cn_peer_max_streams_uni := x12\<rparr>) = evolves n c c'"
  "evolves n c (c'\<lparr>cn_last_activity_us := x13\<rparr>) = evolves n c c'"
  "evolves n c (c'\<lparr>cn_send_ping := x14\<rparr>) = evolves n c c'"
  "evolves n c (c'\<lparr>cn_send_conn_close := x14\<rparr>) = evolves n c c'"
  "evolves n c (c'\<lparr>cn_close_error_code := x13\<rparr>) = evolves n c c'"
  "evolves n c (c'\<lparr>cn_next_pkt_num := x13\<rparr>) = evolves n c c'"
  "evolves n c (c'\<lparr>cn_next_bidi_id := x13\<rparr>) = evolves n c c'"
  "evolves n c (c'\<lparr>cn_next_uni_id := x13\<rparr>) = evolves n c c'"
  "evolves n c (c'\<lparr>cn_open_bidi_count := x12\<rparr>) = evolves n c c'"
  "evolves n c (c'\<lparr>cn_open_uni_count := x12\<rparr>) = evolves n c c'"
  by (simp_all add: evolves_def)

lemma evolves_set_state: "evolves n c c' \<Longrightarrow> evolves n c (set_conn_state c' s)"
  using evolves_trans0(2) [of n c c' "set_conn_state c' s"] by (simp add: evolves_def)

lemma evolves_ack: "evolves n c c' \<Longrightarrow> ack_mem_ok ack \<Longrightarrow> evolves n c (c'\<lparr>cn_ack := ack\<rparr>)"
  by (simp add: evolves_def conn_inv_ack)

lemma evolves_peer_max:
  "evolves n c c' \<Longrightarrow> evolves n c (c'\<lparr>cn_conn_flow := nxp_flow_set_peer_max (cn_conn_flow c') m\<rparr>)"
  by (simp add: evolves_def conn_inv_peer_max)

lemma evolves_upd:
  assumes "conn_inv c" "stream_mem c p = Some s" "keeps s (f s)"
  shows "evolves 0 c (c\<lparr>stream_mem := (stream_mem c)(p \<mapsto> f s)\<rparr>)"
  using upd_stream_inv(2) [where f = f, OF assms] assms(2,3) by (auto simp: evolves_def keeps_def)

lemma evolves_pool:
  assumes "pool_only c c'" "pool_data c' = pool_data c" "conn_inv c'"
  shows "evolves n c c'"
  using assms(1,3) by (auto simp: evolves_def elim!: pool_onlyE)

lemma acked_frames_total: "conn_inv c \<Longrightarrow> \<exists>c'. acked_frames rs c = Some c' \<and> evolves 0 c c'"
proof (induction rs arbitrary: c)
  case Nil
  then show ?case by (simp add: evolves_refl)
next
  case (Cons r rs)
  from \<open>conn_inv c\<close> show ?case
  proof (cases rule: conn_lookup [where k = "fr_stream_id r"])
    case absent
    then show ?thesis using Cons by simp
  next
    case (found p s)
    let ?s = "nxp_stream_on_ack s (fr_offset r) (fr_len r) (fr_fin r)"
    let ?c = "c\<lparr>stream_mem := (stream_mem c)(p \<mapsto> ?s)\<rparr>"
    have c1: "evolves 0 c ?c"
      using evolves_upd [OF Cons.prems found(3), where f = "\<lambda>s. nxp_stream_on_ack s (fr_offset r) (fr_len r) (fr_fin r)"]
      by simp
    have u1: "upd_stream p (\<lambda>s. nxp_stream_on_ack s (fr_offset r) (fr_len r) (fr_fin r)) c = Some ?c"
      by (simp add: upd_stream_def found)
    show ?thesis
    proof (cases "st_blocked ?s \<and> st_on_writable ?s")
      case False
      then show ?thesis using found u1 Cons.IH [OF evolves_inv [OF c1]] evolves_trans0(1) [OF c1] by auto
    next
      case True
      let ?d = "?c\<lparr>stream_mem := (stream_mem ?c)(p \<mapsto> ?s\<lparr>st_blocked := False\<rparr>)\<rparr>"
      let ?e = "?d\<lparr>cn_calls := cn_calls ?d @ [On_writable (fr_stream_id r)]\<rparr>"
      have "evolves 0 ?c ?d"
        using evolves_upd [OF evolves_inv [OF c1], of p ?s "st_blocked_update (\<lambda>_. False)"] by simp
      then have e: "evolves 0 c ?e" using evolves_trans0(1) [OF c1] by (simp del: fun_upd_apply)
      have "upd_stream p (st_blocked_update (\<lambda>_. False)) ?c = Some ?d" by (simp add: upd_stream_def)
      then have "acked_frames (r # rs) c = acked_frames rs ?e" using True found u1 by simp
      then show ?thesis using Cons.IH [OF evolves_inv [OF e]] evolves_trans0(1) [OF e] by auto
    qed
  qed
qed

lemma lost_frames_total: "conn_inv c \<Longrightarrow> \<exists>c'. lost_frames rs c = Some c' \<and> evolves 0 c c'"
proof (induction rs arbitrary: c)
  case Nil
  then show ?case by (simp add: evolves_refl)
next
  case (Cons r rs)
  from \<open>conn_inv c\<close> show ?case
  proof (cases rule: conn_lookup [where k = "fr_stream_id r"])
    case absent
    then show ?thesis using Cons by simp
  next
    case (found p s)
    let ?s = "nxp_stream_on_loss s (fr_offset r) (fr_len r) (fr_fin r)"
    let ?c = "c\<lparr>stream_mem := (stream_mem c)(p \<mapsto> ?s)\<rparr>"
    have c1: "evolves 0 c ?c"
      using evolves_upd [OF Cons.prems found(3), where f = "\<lambda>s. nxp_stream_on_loss s (fr_offset r) (fr_len r) (fr_fin r)"]
      by simp
    obtain d where d: "nxp_sched_add ?c p = Some d" "pool_only ?c d" "pool_data d = pool_data ?c" "conn_inv d"
      using conn_sched_add [OF evolves_inv [OF c1], of p ?s] by auto
    have e: "evolves 0 c d" using evolves_trans0(1) [OF c1 evolves_pool [OF d(2-4)]] .
    have "lost_frames (r # rs) c = lost_frames rs d" using found d(1) by (simp add: upd_stream_def)
    then show ?thesis using Cons.IH [OF d(4)] evolves_trans0(1) [OF e] by auto
  qed
qed

lemma cc_acked_evolves [simp]: "evolves n c (cc_acked ack pkt c') = evolves n c c'"
  unfolding cc_acked_def Let_def by (cases "cn_cc c'") simp_all

lemma cc_lost_evolves [simp]: "evolves n c (cc_lost ack pkt c') = evolves n c c'"
  unfolding cc_lost_def by (cases "cn_cc c'") simp_all

text \<open>What the callbacks keep of their context: a connection that evolved from \<open>c\<close>.\<close>

definition good_ctx :: "nxp_conn \<Rightarrow> nxp_conn option \<Rightarrow> bool" where
  "good_ctx c ctx \<longleftrightarrow> (\<exists>c'. ctx = Some c' \<and> evolves 0 c c')"

lemma good_acked: "good_ctx c ctx \<Longrightarrow> good_ctx c (on_packet_acked ack pkt ctx)"
proof -
  assume "good_ctx c ctx"
  then obtain d where d: "ctx = Some d" "evolves 0 c d" by (auto simp: good_ctx_def)
  let ?d = "d\<lparr>cn_stats := (cn_stats d)\<lparr>stat_packets_sent := stat_packets_sent (cn_stats d) + 1\<rparr>\<rparr>"
  have "conn_inv ?d" using evolves_inv [OF d(2)] by simp
  then obtain e where "acked_frames (sp_frames pkt) ?d = Some e" "evolves 0 ?d e" using acked_frames_total by blast
  moreover have "evolves 0 c e" using evolves_trans0(1) [of c ?d 0 e] calculation(2) d(2) by simp
  ultimately show ?thesis using d(1) by (simp add: good_ctx_def on_packet_acked_def)
qed

lemma good_lost: "good_ctx c ctx \<Longrightarrow> good_ctx c (on_packet_lost ack pkt ctx)"
proof -
  assume "good_ctx c ctx"
  then obtain d where d: "ctx = Some d" "evolves 0 c d" by (auto simp: good_ctx_def)
  let ?d = "d\<lparr>cn_stats := (cn_stats d)\<lparr>stat_packets_lost := stat_packets_lost (cn_stats d) + 1\<rparr>\<rparr>"
  have "conn_inv ?d" using evolves_inv [OF d(2)] by simp
  then obtain e where "lost_frames (sp_frames pkt) ?d = Some e" "evolves 0 ?d e" using lost_frames_total by blast
  moreover have "evolves 0 c e" using evolves_trans0(1) [of c ?d 0 e] calculation(2) d(2) by simp
  ultimately show ?thesis using d(1) by (simp add: good_ctx_def on_packet_lost_def)
qed

text \<open>The loops of the loss detector: an invariant of the context under the callbacks, and the
  table of sent packets, which only shrinks.\<close>

definition cb_keeps :: "('c \<Rightarrow> bool) \<Rightarrow> 'c pkt_cb \<Rightarrow> bool" where
  "cb_keeps P cb \<longleftrightarrow> (\<forall>ack pkt ctx. P ctx \<longrightarrow> P (cb ack pkt ctx))"

lemma good_keeps: "cb_keeps (good_ctx c) on_packet_acked" "cb_keeps (good_ctx c) on_packet_lost"
  by (simp_all add: cb_keeps_def good_acked good_lost)

lemma detect_loop_keeps:
  assumes "cb_keeps P cb"
  shows "detect_loop delay now la (Some cb) ps ack ctx = (kept, ack', ctx') \<Longrightarrow> P ctx \<Longrightarrow>
    P ctx' \<and> length kept \<le> length ps \<and> sent_cap ack' = sent_cap ack \<and> sent_null ack' = sent_null ack"
proof (induction ps arbitrary: ack ctx kept)
  case (Cons p ps)
  let ?q = "p\<lparr>sp_declared_lost := True\<rparr>"
  let ?l = "remove_in_flight ?q ack"
  let ?m = "ack\<lparr>loss_time := min (loss_time ack) (sp_sent_time p + delay)\<rparr>"
  consider "sp_declared_lost p" | "\<not> sp_declared_lost p" "sp_pkt_num p > la"
    | "\<not> sp_declared_lost p" "\<not> sp_pkt_num p > la" "is_lost delay now la p"
    | "\<not> sp_declared_lost p" "\<not> sp_pkt_num p > la" "\<not> is_lost delay now la p" by blast
  then show ?case
  proof cases
    case 1
    then show ?thesis using Cons.prems Cons.IH [of ack ctx kept] by simp
  next
    case 2
    then obtain k where "detect_loop delay now la (Some cb) ps ack ctx = (k, ack', ctx')" "kept = p # k"
      using Cons.prems(1) by (auto split: prod.splits)
    then show ?thesis using Cons.prems(2) Cons.IH [of ack ctx k] by simp
  next
    case 3
    have "P (cb ?l ?q ctx)" using assms Cons.prems(2) by (simp add: cb_keeps_def)
    then show ?thesis using 3 Cons.prems Cons.IH [of ?l "cb ?l ?q ctx" kept] by (simp add: Let_def)
  next
    case 4
    then obtain k where "detect_loop delay now la (Some cb) ps ?m ctx = (k, ack', ctx')" "kept = p # k"
      using Cons.prems(1) by (auto simp: Let_def split: prod.splits)
    then show ?thesis using Cons.prems(2) Cons.IH [of ?m ctx k] by simp
  qed
qed simp

lemma ack_loop_keeps:
  assumes "cb_keeps P cb"
  shows "ack_loop f now (Some cb) ps rtt ack ctx = (kept, rtt', ack', ctx') \<Longrightarrow> P ctx \<Longrightarrow>
    P ctx' \<and> length kept \<le> length ps \<and> sent_cap ack' = sent_cap ack \<and> sent_null ack' = sent_null ack"
proof (induction ps arbitrary: ack ctx kept rtt)
  case (Cons p ps)
  show ?case
  proof (cases "pkt_acked f (sp_pkt_num p)")
    case True
    let ?l = "remove_in_flight p ack"
    have "P (cb ?l p ctx)" using assms Cons.prems(2) by (simp add: cb_keeps_def)
    moreover obtain r where "ack_loop f now (Some cb) ps r ?l (cb ?l p ctx) = (kept, rtt', ack', ctx')"
      using True Cons.prems(1) by (simp add: Let_def)
    ultimately show ?thesis using Cons.IH [of r ?l "cb ?l p ctx" kept] by simp
  next
    case False
    then obtain k where "ack_loop f now (Some cb) ps rtt ack ctx = (k, rtt', ack', ctx')" "kept = p # k"
      using Cons.prems(1) by (auto split: prod.splits)
    then show ?thesis using Cons.prems(2) Cons.IH [of rtt ack ctx k] by simp
  qed
qed simp

lemma detect_lost_keeps:
  assumes "cb_keeps P cb" "P ctx" "ack_mem_ok ack"
    "detect_lost_packets ack now la (Some cb) ctx = (ack', ctx')"
  shows "P ctx' \<and> ack_mem_ok ack'"
proof -
  obtain kept a d where l: "detect_loop (loss_delay (ack\<lparr>loss_time := UINT64_MAX\<rparr>)) now la (Some cb)
      (sent (ack\<lparr>loss_time := UINT64_MAX\<rparr>)) (ack\<lparr>loss_time := UINT64_MAX\<rparr>) ctx = (kept, a, d)"
    by (metis prod.exhaust)
  have "ack' = a\<lparr>sent := kept\<rparr>" "ctx' = d" using assms(4) l by (simp_all add: detect_lost_packets_def Let_def)
  then show ?thesis using detect_loop_keeps [OF assms(1) l assms(2)] assms(3)
    by (auto simp: ack_mem_ok_def)
qed

lemma on_ack_recv_keeps:
  assumes "cb_keeps P cb1" "cb_keeps P cb2"
    "P ctx" "ack_mem_ok ack" "nxp_ack_on_ack_recv ack f now (Some cb1) (Some cb2) ctx = (ack', ctx')"
  shows "P ctx' \<and> ack_mem_ok ack'"
proof -
  obtain kept rtt a d where l: "ack_loop f now (Some cb1) (sent ack) None ack ctx = (kept, rtt, a, d)"
    by (metis prod.exhaust)
  define b where "b = (case rtt of Some sample \<Rightarrow> update_rtt (a\<lparr>sent := kept\<rparr>) sample (ack_delay f)
    | None \<Rightarrow> a\<lparr>sent := kept\<rparr>)\<lparr>pto_count := 0\<rparr>"
  note k = ack_loop_keeps [OF assms(1) l assms(3)]
  have "sent_cap b = sent_cap a" "sent_null b = sent_null a" "sent b = kept"
    by (cases rtt; simp add: b_def)+
  then have "ack_mem_ok b" using k assms(4) unfolding ack_mem_ok_def by (metis le_trans)
  moreover have "detect_lost_packets b now (largest_acked f) (Some cb2) d = (ack', ctx')"
    using assms(5) unfolding nxp_ack_on_ack_recv_def Let_def b_def l by simp
  ultimately show ?thesis using detect_lost_keeps [OF assms(2) conjunct1 [OF k]] by simp
qed

lemma on_loss_timeout_keeps:
  assumes "cb_keeps P cb" "P ctx" "ack_mem_ok ack"
    "nxp_ack_on_loss_timeout ack now (Some cb) ctx = (ack', ctx')"
  shows "P ctx' \<and> ack_mem_ok ack'"
proof (cases "loss_time ack \<noteq> UINT64_MAX \<and> now \<ge> loss_time ack")
  case True
  show ?thesis
    by (rule detect_lost_keeps [OF assms(1-3)])
      (use assms(4) True in \<open>simp add: nxp_ack_on_loss_timeout_def Let_def\<close>)
next
  case False
  then have "ack' = ack\<lparr>pto_count := pto_count ack + 1\<rparr>" "ctx' = ctx"
    using assms(4) unfolding nxp_ack_on_loss_timeout_def by auto
  then show ?thesis using assms(2,3) by (simp add: ack_mem_ok_def)
qed

lemma fire_loss_timer_total:
  assumes "conn_inv c" "unat (pto_count (cn_ack c)) < 64"
  shows "\<exists>c'. fire_loss_timer c now = Some c' \<and> evolves 0 c c'"
proof -
  have "\<exists>t. nxp_ack_loss_timeout (cn_ack c) = Some t"
    using assms(2) by (simp add: nxp_ack_loss_timeout_def)
  then obtain t where t: "nxp_ack_loss_timeout (cn_ack c) = Some t" ..
  obtain ack r where a: "nxp_ack_on_loss_timeout (cn_ack c) now (Some on_packet_lost) (Some c) = (ack, r)"
    by (metis prod.exhaust)
  have "good_ctx c (Some c)" using evolves_refl [OF assms(1)] by (simp add: good_ctx_def)
  moreover have "ack_mem_ok (cn_ack c)" using assms(1) by (simp add: conn_inv_def)
  ultimately have "good_ctx c r" "ack_mem_ok ack" using on_loss_timeout_keeps [OF good_keeps(2) _ _ a] by blast+
  then obtain d where d: "r = Some d" "evolves 0 c (d\<lparr>cn_ack := ack\<rparr>)"
    using evolves_ack by (auto simp: good_ctx_def)
  show ?thesis
  proof (cases "t \<noteq> UINT64_MAX \<and> t \<le> now")
    case True
    then show ?thesis using d by (simp add: fire_loss_timer_def t a Let_def)
  next
    case False
    then show ?thesis using evolves_refl [OF assms(1)] by (auto simp: fire_loss_timer_def t)
  qed
qed

lemma on_timeout_total:
  assumes "conn_inv c" "unat (pto_count (cn_ack c)) < 64"
  shows "\<exists>c'. nxp_conn_on_timeout c now = Some c' \<and> evolves 0 c c'"
proof -
  obtain d where d: "fire_loss_timer c now = Some d" "evolves 0 c d" using fire_loss_timer_total [OF assms] by blast
  have "evolves 0 c (set_conn_state c NXP_CONN_CLOSED)" by (rule evolves_set_state [OF evolves_refl [OF assms(1)]])
  moreover have "evolves 0 c (set_conn_state (d\<lparr>cn_heartbeat := x\<rparr>) NXP_CONN_CLOSED)" for x
    using d(2) by (intro evolves_set_state) simp
  ultimately show ?thesis using d by (simp add: nxp_conn_on_timeout_def Let_def)
qed

section \<open>New streams\<close>

lemma put_any:
  assumes "hm_inv m" "card (dom (hm_abs m)) < 2 ^ 23"
  obtains m' r where "nxp_hash_map_put a m k v = Some (m', r)" "hm_inv m'"
    "hm_abs m' = hm_abs m \<or> hm_abs m' = (hm_abs m)(k \<mapsto> v)" "a \<longrightarrow> hm_abs m' = (hm_abs m)(k \<mapsto> v)"
proof -
  obtain m' where m': "nxp_hash_map_put True m k v = Some (m', deref (hm_abs m k))" "hm_inv m'"
    "hm_abs m' = (hm_abs m)(k \<mapsto> v)" using put_spec [OF assms] by blast
  consider "a" | "\<not> a" "hm_count m * 100 \<ge> hm_capacity m * 75" | "\<not> a" "\<not> hm_count m * 100 \<ge> hm_capacity m * 75"
    by blast
  then show ?thesis
  proof cases
    case 1
    then show ?thesis using m' that by auto
  next
    case 2
    then have "nxp_hash_map_put a m k v = Some (m, None)" by (simp add: nxp_hash_map_put_def hash_map_resize_def)
    then show ?thesis using 2(1) assms(1) that by auto
  next
    case 3
    then have "nxp_hash_map_put a m k v = nxp_hash_map_put True m k v" by (simp add: nxp_hash_map_put_def)
    then show ?thesis using m' that by auto
  qed
qed

lemma conn_inv_mem: "conn_inv c \<Longrightarrow> stream_mem c p = Some s \<Longrightarrow> p < cn_next_ptr c \<and> stream_ok s"
  unfolding conn_inv_def by blast

lemma conn_streams_card:
  assumes "conn_inv c"
  shows "card (dom (hm_abs (cn_streams c))) \<le> cn_next_ptr c"
proof -
  let ?f = "\<lambda>k. the (the (hm_abs (cn_streams c) k))"
  have f: "\<exists>s. stream_mem c (?f k) = Some s \<and> st_id s = k" if h: "k \<in> dom (hm_abs (cn_streams c))" for k
  proof -
    obtain v where v: "hm_abs (cn_streams c) k = Some v" using h by blast
    show ?thesis by (rule conn_inv_entry [OF assms v]) (use v in auto)
  qed
  have "inj_on ?f (dom (hm_abs (cn_streams c)))" using f by (intro inj_onI) (metis option.sel)
  moreover have "?f ` dom (hm_abs (cn_streams c)) \<subseteq> {..<cn_next_ptr c}"
    using f conn_inv_mem [OF assms] by blast
  ultimately show ?thesis using card_inj_on_le [of ?f _ "{..<cn_next_ptr c}"] by simp
qed

lemma sched_repr_fresh:
  assumes "sched_repr c q" "stream_mem c p = None" "\<not> scheduled s" "sched_next s = None" "sched_prev s = None"
    "stream_mem c' = (stream_mem c)(p \<mapsto> s)" "sched_head c' = sched_head c"
  shows "sched_repr c' q"
proof -
  have "links_next c' = links_next c" "links_prev c' = links_prev c"
    using assms(2,4-6) by (auto simp: fun_eq_iff)
  then show ?thesis using assms by (auto simp: sched_repr_def)
qed

lemma add_stream_total:
  assumes inv: "conn_inv c" and limit: "cn_next_ptr c < 2 ^ 23"
  shows "\<exists>c' r. add_stream al sid type c = Some (c', r) \<and> evolves 1 c c' \<and>
    (case r of None \<Rightarrow> c' = c
     | Some p \<Rightarrow> p = cn_next_ptr c \<and> (\<exists>s. stream_mem c' = (stream_mem c)(p \<mapsto> s) \<and> stream_ok s \<and> st_id s = sid \<and>
           nxp_stream_create True True True sid type (cn_initial_max_stream_data c) (cn_initial_max_stream_data c) = Some s) \<and>
         (hm_abs (cn_streams c') = hm_abs (cn_streams c) \<or> hm_abs (cn_streams c') = (hm_abs (cn_streams c))(sid \<mapsto> Some p)) \<and>
         (al_grow al \<longrightarrow> hm_abs (cn_streams c') = (hm_abs (cn_streams c))(sid \<mapsto> Some p)) \<and>
         (\<exists>m. c' = c\<lparr>stream_mem := stream_mem c', cn_next_ptr := p + 1, cn_streams := m\<rparr>))"
proof (cases "nxp_stream_create (al_stream al) (al_send al) (al_recv al) sid type
             (cn_initial_max_stream_data c) (cn_initial_max_stream_data c)")
  case None
  then show ?thesis using evolves_refl [OF inv] by (simp add: add_stream_def)
next
  case (Some s)
  note s = create_ok [OF Some]
  let ?p = "cn_next_ptr c"
  let ?c = "c\<lparr>stream_mem := (stream_mem c)(?p \<mapsto> s), cn_next_ptr := ?p + 1\<rparr>"
  have hm: "hm_inv (cn_streams c)" using inv by (simp add: conn_inv_def)
  obtain m r where m: "nxp_hash_map_put (al_grow al) (cn_streams c) sid (Some ?p) = Some (m, r)" "hm_inv m"
      "hm_abs m = hm_abs (cn_streams c) \<or> hm_abs m = (hm_abs (cn_streams c))(sid \<mapsto> Some ?p)"
      "al_grow al \<longrightarrow> hm_abs m = (hm_abs (cn_streams c))(sid \<mapsto> Some ?p)"
    by (rule put_any [OF hm le_less_trans [OF conn_streams_card [OF inv] limit],
          where a = "al_grow al" and k = sid and v = "Some ?p"]) blast
  let ?d = "?c\<lparr>cn_streams := m\<rparr>"
  have mem: "p < ?p" if "stream_mem c p = Some t" for p t using conn_inv_mem [OF inv that] by simp
  have none: "stream_mem c ?p = None" using mem [of ?p] by (cases "stream_mem c ?p") auto
  obtain q where "sched_repr c q" using inv by (auto simp only: conn_inv_def)
  then have "sched_repr ?d q" by (rule sched_repr_fresh [OF _ none s(3-5)]) simp_all
  moreover have "\<exists>p t. v = Some p \<and> ((stream_mem c)(?p \<mapsto> s)) p = Some t \<and> st_id t = k"
    if h: "hm_abs m k = Some v" for k v
  proof (cases "hm_abs (cn_streams c) k = Some v")
    case True
    obtain p t where "v = Some p" "stream_mem c p = Some t" "st_id t = k" by (rule conn_inv_entry [OF inv True])
    then show ?thesis using none by (intro exI [of _ p] exI [of _ t]) auto
  next
    case False
    then have "k = sid" "v = Some ?p" using m(3) h by (auto split: if_splits)
    then show ?thesis using s(2) by simp
  qed
  moreover have "p < ?p + 1 \<and> stream_ok t" if "((stream_mem c)(?p \<mapsto> s)) p = Some t" for p t
    using that s(1) conn_inv_mem [OF inv, of p t] by (auto split: if_splits)
  ultimately have "conn_inv ?d" using inv m(2) unfolding conn_inv_def by (simp del: fun_upd_apply) blast
  then have "evolves 1 c ?d" by (simp add: evolves_def)
  moreover have "add_stream al sid type c = Some (?d, Some ?p)" using m(1) Some by (simp add: add_stream_def Let_def)
  moreover have "nxp_stream_create True True True sid type (cn_initial_max_stream_data c) (cn_initial_max_stream_data c) = Some s"
    using Some by (auto simp: nxp_stream_create_def split: if_splits)
  ultimately show ?thesis using m(3,4) s(1,2)
    by (intro exI [of _ ?d] exI [of _ "Some ?p"]) (simp del: fun_upd_apply, blast)
qed

section \<open>Creation and the application's operations\<close>

lemma create_inv:
  assumes "nxp_conn_create True True True True alloc_cc cfg is_server = Some c"
  shows "conn_inv c" "cn_state c = NXP_CONN_IDLE" "cn_next_ptr c = 0"
proof -
  obtain m where m: "nxp_hash_map_create True True 64 = Some m" "cn_streams c = m"
    using assms by (auto simp: nxp_conn_create_def Let_def bind_Some_iff)
  show "cn_state c = NXP_CONN_IDLE" "cn_next_ptr c = 0"
    using assms by (auto simp: nxp_conn_create_def Let_def bind_Some_iff)
  have "stream_mem c = Map.empty" "sched_head c = None" "cn_ack c = nxp_ack_init True"
      "data_sent (cn_conn_flow c) = 0"
    using assms by (auto simp: nxp_conn_create_def Let_def bind_Some_iff nxp_flow_init_def)
  moreover have "sched_repr c []" using calculation by (simp add: sched_repr_def ring_def)
  ultimately show "conn_inv c" using create_spec [OF m(1)] m(2)
    by (auto simp: conn_inv_def ack_mem_ok_def nxp_ack_init_def)
qed

end
