(* ===== verification/Nxp_Conn_Recv.thy ===== *)
theory Nxp_Conn_Recv
  imports Nxp_Conn_Inv
begin

text \<open>
  The receiving half of the connection engine (\<^verbatim>\<open>src/core/connection.c\<close>): the handlers of the
  frame types, the loop over the frames of a packet, handshake packets and 1-RTT packets. The
  outcomes of the allocations are a function of the identifier of the stream they are for: one
  datagram creates a stream at most once. The theory shows that no datagram makes the code read
  or write outside its memory.
\<close>

section \<open>Frame handlers\<close>

definition apply_peer_params :: "nxp_transport_params \<Rightarrow> nxp_conn \<Rightarrow> nxp_conn" where
  "apply_peer_params tp c =
     (let c = (if tp_initial_max_data tp > 0
               then c\<lparr>cn_conn_flow := nxp_flow_set_peer_max (cn_conn_flow c) (tp_initial_max_data tp)\<rparr> else c);
          c = (if tp_max_streams_bidi tp > 0 then c\<lparr>cn_peer_max_streams_bidi := tp_max_streams_bidi tp\<rparr> else c) in
      if tp_max_streams_uni tp > 0 then c\<lparr>cn_peer_max_streams_uni := tp_max_streams_uni tp\<rparr> else c)"

definition recv_ack :: "nxp_frame_ack \<Rightarrow> u64 \<Rightarrow> nxp_conn \<Rightarrow> nxp_conn option" where
  "recv_ack f now_us c =
     (let (ack, r) = nxp_ack_on_ack_recv (cn_ack c) f now_us (Some on_packet_acked) (Some on_packet_lost) (Some c) in do {
      c \<leftarrow> r;
      let c = c\<lparr>cn_ack := ack\<rparr>;
          st = (cn_stats c)\<lparr>stat_rtt_smoothed_us := smoothed_rtt ack, stat_rtt_var_us := rtt_var ack\<rparr>;
          st = (if min_rtt ack \<noteq> UINT64_MAX then st\<lparr>stat_rtt_min_us := min_rtt ack\<rparr> else st) in
      Some (c\<lparr>cn_stats := st\<lparr>stat_bytes_in_flight := bytes_in_flight ack\<rparr>\<rparr>) })"

definition recv_stream ::
    "(u64 \<Rightarrow> stream_alloc) \<Rightarrow> nxp_frame_stream \<Rightarrow> nxp_conn \<Rightarrow> (nxp_conn \<times> nxp_error_code) option" where
  "recv_stream al f c = do {
     v \<leftarrow> nxp_hash_map_get (cn_streams c) (sf_stream_id f);
     (c, r) \<leftarrow> (case v of
         Some p \<Rightarrow> Some (c, Inr p)
       | None \<Rightarrow>
           if stream_id_is_local (sf_stream_id f) (cn_is_server c) then Some (c, Inl NXP_ERR_INVALID_FRAME)
           else do {
             (c, r) \<leftarrow> add_stream (al (sf_stream_id f)) (sf_stream_id f) NXP_STREAM_RELIABLE c;
             (case r of
                None \<Rightarrow> Some (c, Inl NXP_ERR_OUT_OF_MEMORY)
              | Some p \<Rightarrow>
                  let c = c\<lparr>cn_stats := (cn_stats c)\<lparr>stat_streams_opened := stat_streams_opened (cn_stats c) + 1\<rparr>\<rparr>;
                      c = (if cn_on_new_stream c
                           then c\<lparr>cn_calls := cn_calls c @ [On_new_stream (sf_stream_id f)]\<rparr> else c) in
                  Some (c, Inr p)) });
     (case r of
        Inl e \<Rightarrow> Some (c, e)
      | Inr p \<Rightarrow> do {
          s \<leftarrow> stream_mem c p;
          (s, e) \<leftarrow> nxp_stream_on_recv s f;
          c \<leftarrow> upd_stream p (\<lambda>_. s) c;
          Some (c, e) }) }"

definition recv_max_stream_data :: "nxp_frame_max_stream_data \<Rightarrow> nxp_conn \<Rightarrow> nxp_conn option" where
  "recv_max_stream_data f c = do {
     v \<leftarrow> nxp_hash_map_get (cn_streams c) (msd_stream_id f);
     (case v of
        None \<Rightarrow> Some c
      | Some p \<Rightarrow> do {
          c \<leftarrow> upd_stream p (st_flow_update (\<lambda>fc. nxp_flow_set_peer_max fc (msd_max_stream_data f))) c;
          s \<leftarrow> stream_mem c p;
          if nxp_stream_unsent s > 0 then nxp_sched_add c p else Some c }) }"

definition recv_handshake_done :: "nxp_conn \<Rightarrow> nxp_conn" where
  "recv_handshake_done c =
     (case cn_handshake c of
        None \<Rightarrow> c
      | Some hs \<Rightarrow>
          let (hs, r) = nxp_handshake_on_handshake_done hs; c = c\<lparr>cn_handshake := Some hs\<rparr> in
          if r = NXP_OK then
            let c = set_conn_state c NXP_CONN_ESTABLISHED in
            if hs_has_peer_params hs then apply_peer_params (hs_peer_params hs) c else c
          else c)"

definition recv_path_response :: "bytes \<Rightarrow> nxp_conn \<Rightarrow> nxp_conn" where
  "recv_path_response data c =
     (let (ms, ok) = nxp_migration_on_path_response (cn_migration c) data; c = c\<lparr>cn_migration := ms\<rparr> in
      if ok then
        let c = c\<lparr>cn_peer_addr := path_addr (current_path ms)\<rparr> in
        case nxp_migration_get_unused_cid ms of
          None \<Rightarrow> c
        | Some e \<Rightarrow> c\<lparr>cn_dcid := ce_cid e, cn_migration := nxp_migration_use_cid ms (ce_seq_num e)\<rparr>
      else c)"

definition recv_new_token :: "nxp_frame_new_token \<Rightarrow> nxp_conn \<Rightarrow> nxp_conn" where
  "recv_new_token f c =
     (case cn_handshake c of
        None \<Rightarrow> c
      | Some hs \<Rightarrow>
          if \<not> cn_is_server c \<and> unat (token_len f) \<le> 256 then
            c\<lparr>cn_handshake := Some (hs\<lparr>hs_session_ticket := (case token f of Some t \<Rightarrow> t | None \<Rightarrow> []),
                                      hs_has_session_ticket := True\<rparr>)\<rparr>
          else c)"

definition process_frame ::
    "(u64 \<Rightarrow> stream_alloc) \<Rightarrow> u64 \<Rightarrow> nxp_frame \<Rightarrow> nxp_conn \<Rightarrow> (nxp_conn \<times> nxp_error_code) option" where
  "process_frame al now_us frame c =
     (case frame of
        Ack f \<Rightarrow> map_option (\<lambda>c. (c, NXP_OK)) (recv_ack f now_us c)
      | Stream f \<Rightarrow> recv_stream al f c
      | Max_data m \<Rightarrow> Some (c\<lparr>cn_conn_flow := nxp_flow_set_peer_max (cn_conn_flow c) m\<rparr>, NXP_OK)
      | Max_stream_data f \<Rightarrow> map_option (\<lambda>c. (c, NXP_OK)) (recv_max_stream_data f c)
      | Max_streams f \<Rightarrow>
          Some (if ms_is_bidi f then c\<lparr>cn_peer_max_streams_bidi := ucast (ms_max_streams f)\<rparr>
                else c\<lparr>cn_peer_max_streams_uni := ucast (ms_max_streams f)\<rparr>, NXP_OK)
      | Connection_close f \<Rightarrow> Some (set_conn_state c NXP_CONN_DRAINING, NXP_OK)
      | Handshake_done \<Rightarrow> Some (recv_handshake_done c, NXP_OK)
      | Path_challenge d \<Rightarrow>
          Some (c\<lparr>cn_migration := nxp_migration_on_path_challenge (cn_migration c) d\<rparr>, NXP_OK)
      | Path_response d \<Rightarrow> Some (recv_path_response d c, NXP_OK)
      | New_connection_id f \<Rightarrow>
          Some (c\<lparr>cn_migration := fst (nxp_migration_on_new_connection_id (cn_migration c) (nc_cid f) (nc_seq_num f)
                  (nc_retire_prior_to f) (nc_stateless_reset_token f))\<rparr>, NXP_OK)
      | Retire_connection_id n \<Rightarrow>
          Some (c\<lparr>cn_migration := fst (nxp_migration_on_retire_connection_id (cn_migration c) n)\<rparr>, NXP_OK)
      | New_token f \<Rightarrow> Some (recv_new_token f c, NXP_OK)
      | Heartbeat t \<Rightarrow>
          Some (c\<lparr>cn_heartbeat := nxp_heartbeat_on_recv (cn_heartbeat c) t now_us\<rparr>, NXP_OK)
      | _ \<Rightarrow> Some (c, NXP_OK))"

lemma frame_decode_consumes:
  assumes "nxp_frame_decode buf = Some (n, f)"
  shows "0 < n"
proof -
  have "buf \<noteq> []" using assms by (auto simp: nxp_frame_decode_def)
  consider "buf ! 0 = 0" "decode_padding buf = Some (n, f)"
    | "decode_stream buf = Some (n, f)"
    | pos t where "get_varint buf 0 = Some (pos, t)" "decode_typed t buf pos = Some (n, f)"
    using assms by (auto simp: nxp_frame_decode_def bind_Some_iff split: if_splits)
  then show ?thesis
  proof cases
    case 1
    then show ?thesis using \<open>buf \<noteq> []\<close> by (cases buf) (auto simp: decode_padding_def Let_def)
  next
    case 2
    then show ?thesis
      by (auto simp: decode_stream_def Let_def bind_Some_iff dest!: get_varint_bound get_data_bound split: if_splits)
  next
    case 3
    then show ?thesis using get_varint_bound inside_typed [of pos buf t]
      by (fastforce simp: stays_inside_def)
  qed
qed

text \<open>The loop over the frames; a payload of at most \<open>2 ^ 64\<close> bytes, as every C buffer.\<close>

function process_frames ::
    "(u64 \<Rightarrow> stream_alloc) \<Rightarrow> u64 \<Rightarrow> bytes \<Rightarrow> nxp_conn \<Rightarrow> (nxp_conn \<times> nxp_error_code) option" where
  "process_frames al now_us payload c =
     (if payload = [] then Some (c, NXP_OK)
      else case nxp_frame_decode payload of
        None \<Rightarrow> Some (c, NXP_ERR_INVALID_FRAME)
      | Some (consumed, frame) \<Rightarrow> do {
          (c, r) \<leftarrow> process_frame al now_us frame c;
          if r \<noteq> NXP_OK then Some (c, r) else process_frames al now_us (drop consumed payload) c })"
  by auto
termination
  by (relation "measure (\<lambda>(al, now_us, payload, c). length payload)") (auto dest: frame_decode_consumes)

declare process_frames.simps [simp del]

section \<open>Handshake packets\<close>

text \<open>A CRYPTO frame. The handshake is not null: its pointer was tested on entry.\<close>

definition recv_crypto_frame ::
    "openssl \<Rightarrow> nxp_crypto_level \<Rightarrow> nxp_frame_crypto \<Rightarrow> nxp_conn \<Rightarrow> (nxp_conn \<times> nxp_error_code) option" where
  "recv_crypto_frame ssl level f c = do {
     hs \<leftarrow> cn_handshake c;
     let (hs, r) = nxp_handshake_recv_crypto ssl hs level (case cf_data f of Some d \<Rightarrow> d | None \<Rightarrow> []);
         c = c\<lparr>cn_handshake := Some hs\<rparr> in
     if r \<noteq> NXP_OK then Some (c, r)
     else
       let c = (if cs_available (hs_app_keys hs) \<and> \<not> cs_available (cn_crypto c)
                then c\<lparr>cn_crypto := hs_app_keys hs\<rparr> else c) in
       if nxp_handshake_is_complete hs then
         let c = set_conn_state c NXP_CONN_ESTABLISHED in
         Some (if hs_has_peer_params hs then apply_peer_params (hs_peer_params hs) c else c, NXP_OK)
       else Some (c, NXP_OK) }"

definition recv_done_frame :: "nxp_conn \<Rightarrow> (nxp_conn \<times> nxp_error_code) option" where
  "recv_done_frame c = do {
     hs \<leftarrow> cn_handshake c;
     let (hs, r) = nxp_handshake_on_handshake_done hs;
         c = c\<lparr>cn_handshake := Some hs\<rparr> in
     if r \<noteq> NXP_OK then Some (c, r)
     else
       let c = set_conn_state (c\<lparr>cn_crypto := hs_app_keys hs\<rparr>) NXP_CONN_ESTABLISHED in
       Some (if hs_has_peer_params hs then apply_peer_params (hs_peer_params hs) c else c, NXP_OK) }"

function process_handshake_frames ::
    "openssl \<Rightarrow> nxp_crypto_level \<Rightarrow> bytes \<Rightarrow> nxp_conn \<Rightarrow> (nxp_conn \<times> nxp_error_code) option" where
  "process_handshake_frames ssl level payload c =
     (if payload = [] then Some (c, NXP_OK)
      else case nxp_frame_decode payload of
        None \<Rightarrow> Some (c, NXP_ERR_INVALID_FRAME)
      | Some (consumed, frame) \<Rightarrow> do {
          (c, r) \<leftarrow> (case frame of
              Crypto f \<Rightarrow> recv_crypto_frame ssl level f c
            | Handshake_done \<Rightarrow> recv_done_frame c
            | _ \<Rightarrow> Some (c, NXP_OK));
          if r \<noteq> NXP_OK then Some (c, r)
          else process_handshake_frames ssl level (drop consumed payload) c })"
  by auto
termination
  by (relation "measure (\<lambda>(ssl, level, payload, c). length payload)") (auto dest: frame_decode_consumes)

declare process_handshake_frames.simps [simp del]

text \<open>Header protection and decryption of a long-header packet: the plaintext, or nothing.\<close>

definition open_long_packet :: "openssl \<Rightarrow> nxp_crypto_state \<Rightarrow> bytes \<Rightarrow> nat \<Rightarrow> bytes option" where
  "open_long_packet ssl keys pkt_buf pn_offset =
     (if \<not> cs_available keys then None
      else
        let (pkt_buf, pn_len) = nxp_hp_unprotect ssl (cs_algo keys) (ck_hp_key (cs_recv keys)) pkt_buf pn_offset in
        if pn_len = 0 then None
        else
          let trunc_pn = read_pkt_num (take pn_len (drop pn_offset pkt_buf));
              full_pn = nxp_pkt_decode_pkt_num 0 trunc_pn pn_len;
              hdr_len = pn_offset + pn_len;
              nonce = nxp_crypto_make_nonce (ck_iv (cs_recv keys)) full_pn in
          nxp_aead_decrypt ssl (cs_algo keys) (ck_key (cs_recv keys)) nonce (take hdr_len pkt_buf)
            (drop hdr_len pkt_buf))"

definition recv_handshake_packet ::
    "openssl \<Rightarrow> nxp_conn \<Rightarrow> bytes \<Rightarrow> (nxp_conn \<times> nxp_error_code) option" where
  "recv_handshake_packet ssl c data =
     (case cn_handshake c of
        None \<Rightarrow> Some (c, NXP_ERR_INVALID_PACKET)
      | Some hs \<Rightarrow>
          if length data > NXP_PACKET_BUF_SIZE then Some (c, NXP_ERR_INVALID_PACKET)
          else case nxp_pkt_decode_long_header data of
            Inl e \<Rightarrow> Some (c, e)
          | Inr lhdr \<Rightarrow>
              let c = (if cn_is_server c \<and> lh_type lhdr = NXP_PKT_INITIAL \<and> cid_data (cn_dcid c) = []
                       then c\<lparr>cn_dcid := lh_scid lhdr\<rparr> else c);
                  c = (if \<not> cn_is_server c \<and> (lh_type lhdr = NXP_PKT_INITIAL \<or> lh_type lhdr = NXP_PKT_HANDSHAKE)
                       then c\<lparr>cn_dcid := lh_scid lhdr\<rparr> else c) in
              if lh_type lhdr = NXP_PKT_INITIAL \<or> lh_type lhdr = NXP_PKT_HANDSHAKE then
                let (level, keys) = (if lh_type lhdr = NXP_PKT_INITIAL
                                     then (NXP_CRYPTO_INITIAL, hs_initial_keys hs)
                                     else (NXP_CRYPTO_HANDSHAKE, hs_handshake_keys hs)) in
                case open_long_packet ssl keys data (lh_pkt_num_offset lhdr) of
                  None \<Rightarrow> Some (c, NXP_ERR_CRYPTO_FAIL)
                | Some pt \<Rightarrow> process_handshake_frames ssl level pt c
              else Some (c, NXP_ERR_INVALID_PACKET))"

section \<open>1-RTT packets\<close>

definition open_short_payload ::
    "openssl \<Rightarrow> nxp_crypto_state \<Rightarrow> bytes \<Rightarrow> nat \<Rightarrow> u64 \<Rightarrow> bytes option" where
  "open_short_payload ssl keys pkt_buf hdr_len full_pn =
     (if cs_available keys then
        nxp_aead_decrypt ssl (cs_algo keys) (ck_key (cs_recv keys))
          (nxp_crypto_make_nonce (ck_iv (cs_recv keys)) full_pn) (take hdr_len pkt_buf) (drop hdr_len pkt_buf)
      else Some (drop hdr_len pkt_buf))"

definition recv_short_packet ::
    "openssl \<Rightarrow> (u64 \<Rightarrow> stream_alloc) \<Rightarrow> nxp_conn \<Rightarrow> bytes \<Rightarrow> u64 \<Rightarrow> (nxp_conn \<times> nxp_error_code) option" where
  "recv_short_packet ssl al c data now_us =
     (if length data > NXP_PACKET_BUF_SIZE then Some (c, NXP_ERR_INVALID_PACKET)
      else
        let keys = cn_crypto c;
            scid_len = length (cid_data (cn_scid c));
            (pkt_buf, pn_len) = (if cs_available keys
                                 then nxp_hp_unprotect ssl (cs_algo keys) (ck_hp_key (cs_recv keys)) data (1 + scid_len)
                                 else (data, 0)) in
        if cs_available keys \<and> pn_len = 0 then Some (c, NXP_ERR_CRYPTO_FAIL)
        else case nxp_pkt_decode_short_header pkt_buf scid_len of
          Inl e \<Rightarrow> Some (c, NXP_ERR_INVALID_PACKET)
        | Inr shdr \<Rightarrow>
            let full_pn = nxp_pkt_decode_pkt_num (largest_recv_pn (cn_ack c)) (sh_pkt_num shdr) (sh_pkt_num_len shdr);
                c = c\<lparr>cn_ack := nxp_ack_on_pkt_recv (cn_ack c) full_pn now_us True\<rparr> in
            case open_short_payload ssl keys pkt_buf (sh_header_len shdr) full_pn of
              None \<Rightarrow> Some (c, NXP_ERR_CRYPTO_FAIL)
            | Some payload \<Rightarrow> process_frames al now_us payload c)"

definition nxp_conn_recv ::
    "openssl \<Rightarrow> (u64 \<Rightarrow> stream_alloc) \<Rightarrow> nxp_conn \<Rightarrow> bytes \<Rightarrow> u64 \<Rightarrow> (nxp_conn \<times> nxp_error_code) option" where
  "nxp_conn_recv ssl al c data now_us =
     (if data = [] then Some (c, NXP_ERR_INVALID_ARGUMENT)
      else if cn_state c = NXP_CONN_CLOSED \<or> cn_state c = NXP_CONN_DRAINING
      then Some (c, NXP_ERR_CONNECTION_CLOSED)
      else
        let st = cn_stats c;
            c = c\<lparr>cn_last_activity_us := now_us,
                  cn_stats := st\<lparr>stat_bytes_recv := stat_bytes_recv st + of_nat (length data),
                                stat_packets_recv := stat_packets_recv st + 1\<rparr>\<rparr> in
        if nxp_pkt_is_long_header (data ! 0) then recv_handshake_packet ssl c data
        else recv_short_packet ssl al c data now_us)"

section \<open>No datagram breaks a connection\<close>

lemma decode_stream_len:
  assumes "nxp_frame_decode buf = Some (n, Stream f)" "length buf < 2 ^ 64"
  shows "unat (sf_length f) \<le> length buf"
proof -
  have "data_ok (sf_length f) (sf_data f)" using frame_decode_inside [OF assms] by auto
  moreover have "\<exists>pos pos'. get_data buf pos (sf_length f) = Some (pos', sf_data f)"
  proof -
    have "decode_stream buf = Some (n, Stream f) \<or> (\<exists>t pos. decode_typed t buf pos = Some (n, Stream f))"
      using assms(1) by (auto simp: nxp_frame_decode_def bind_Some_iff decode_padding_def Let_def split: if_splits)
    moreover have "decode_typed t buf pos \<noteq> Some (n, Stream f)" for t pos
      by (auto simp: decode_typed_def decode_ack_def decode_reset_stream_def decode_stop_sending_def decode_crypto_def
          decode_new_token_def decode_one_varint_def decode_max_stream_data_def decode_max_streams_def
          decode_stream_data_blocked_def decode_streams_blocked_def decode_new_connection_id_def decode_path_def
          decode_connection_close_def decode_stream_priority_def decode_datagram_def Let_def bind_Some_iff split: if_splits)
    ultimately have "decode_stream buf = Some (n, Stream f)" by blast
    then show ?thesis by (auto simp: decode_stream_def Let_def bind_Some_iff split: if_splits) blast+
  qed
  ultimately show ?thesis by (auto simp: get_data_def data_ok_def split: if_splits option.splits)
qed

lemma recv_ack_total:
  assumes "conn_inv c"
  shows "\<exists>c'. recv_ack f now c = Some c' \<and> evolves 0 c c'"
proof -
  obtain ack r where a: "nxp_ack_on_ack_recv (cn_ack c) f now (Some on_packet_acked) (Some on_packet_lost) (Some c) = (ack, r)"
    by (metis prod.exhaust)
  have "good_ctx c (Some c)" using evolves_refl [OF assms] by (simp add: good_ctx_def)
  moreover have "ack_mem_ok (cn_ack c)" using assms by (simp add: conn_inv_def)
  ultimately have "good_ctx c r" "ack_mem_ok ack" using on_ack_recv_keeps [OF good_keeps _ _ a] by blast+
  then obtain d where d: "r = Some d" "evolves 0 c (d\<lparr>cn_ack := ack\<rparr>)"
    using evolves_ack by (auto simp: good_ctx_def)
  then show ?thesis by (simp add: recv_ack_def a Let_def)
qed

text \<open>Storing what \<^const>\<open>nxp_stream_on_recv\<close> returns.\<close>

lemma store_recv_total:
  assumes "conn_inv c" "stream_mem c p = Some s" "frame_ok (Stream f)" "unat (sf_length f) \<le> 65536"
  shows "\<exists>c' e. (do { s \<leftarrow> stream_mem c p; (s, e) \<leftarrow> nxp_stream_on_recv s f; c \<leftarrow> upd_stream p (\<lambda>_. s) c; Some (c, e) }) =
      Some (c', e) \<and> evolves 0 c c'"
proof -
  have "stream_ok s" using conn_inv_mem [OF assms(1,2)] ..
  then obtain t e where t: "nxp_stream_on_recv s f = Some (t, e)" "keeps s t" using on_recv_total assms(3,4) by blast
  then have "upd_stream p (\<lambda>_. t) c = Some (c\<lparr>stream_mem := (stream_mem c)(p \<mapsto> t)\<rparr>)"
      "evolves 0 c (c\<lparr>stream_mem := (stream_mem c)(p \<mapsto> t)\<rparr>)"
    using upd_stream_inv(1) [where f = "\<lambda>_. t", OF assms(1,2)] evolves_upd [where f = "\<lambda>_. t", OF assms(1,2)] by blast+
  then show ?thesis using t(1) assms(2) by simp
qed

lemma recv_stream_total:
  assumes inv: "conn_inv c" and f: "frame_ok (Stream f)" "unat (sf_length f) \<le> 65536"
    and limit: "cn_next_ptr c < 2 ^ 23"
  shows "\<exists>c' e. recv_stream al f c = Some (c', e) \<and> evolves 1 c c'"
  using inv
proof (cases rule: conn_lookup [where k = "sf_stream_id f"])
  case (found p s)
  then show ?thesis using store_recv_total [OF inv found(3) f] evolves_mono [of 0 c _ 1]
    by (simp add: recv_stream_def) blast
next
  case absent
  show ?thesis
  proof (cases "stream_id_is_local (sf_stream_id f) (cn_is_server c)")
    case True
    then show ?thesis using absent evolves_refl [OF inv] by (simp add: recv_stream_def)
  next
    case False
    obtain d r where d: "add_stream (al (sf_stream_id f)) (sf_stream_id f) NXP_STREAM_RELIABLE c = Some (d, r)"
        "evolves 1 c d" and r: "\<And>p. r = Some p \<Longrightarrow> \<exists>s. stream_mem d p = Some s"
      using add_stream_total [OF inv limit, of "al (sf_stream_id f)" "sf_stream_id f" NXP_STREAM_RELIABLE]
      by fastforce
    show ?thesis
    proof (cases r)
      case None
      then show ?thesis using absent False d by (simp add: recv_stream_def)
    next
      case (Some p)
      define e where "e = (let c = d\<lparr>cn_stats := (cn_stats d)\<lparr>stat_streams_opened := stat_streams_opened (cn_stats d) + 1\<rparr>\<rparr>
        in if cn_on_new_stream c then c\<lparr>cn_calls := cn_calls c @ [On_new_stream (sf_stream_id f)]\<rparr> else c)"
      have e: "evolves 1 c e" "stream_mem e = stream_mem d" using d(2) by (simp_all add: e_def Let_def)
      obtain s where s: "stream_mem e p = Some s" using r [OF Some] e(2) by auto
      have "recv_stream al f c =
          do { s \<leftarrow> stream_mem e p; (s, x) \<leftarrow> nxp_stream_on_recv s f; c \<leftarrow> upd_stream p (\<lambda>_. s) e; Some (c, x) }"
        using absent False d(1) Some by (simp add: recv_stream_def e_def Let_def)
      then show ?thesis using store_recv_total [OF evolves_inv [OF e(1)] s f] evolves_trans0(2) [OF e(1)] by auto
    qed
  qed
qed

lemma recv_max_stream_data_total:
  assumes "conn_inv c"
  shows "\<exists>c'. recv_max_stream_data f c = Some c' \<and> evolves 0 c c'"
  using assms
proof (cases rule: conn_lookup [where k = "msd_stream_id f"])
  case absent
  then show ?thesis using evolves_refl [OF assms] by (simp add: recv_max_stream_data_def)
next
  case (found p s)
  let ?f = "st_flow_update (\<lambda>fc. nxp_flow_set_peer_max fc (msd_max_stream_data f))"
  let ?c = "c\<lparr>stream_mem := (stream_mem c)(p \<mapsto> ?f s)\<rparr>"
  have k: "keeps s (?f s)" by (simp add: keeps_def stream_ok_def)
  note u = upd_stream_inv [where f = ?f, OF assms found(3) k]
  have e: "evolves 0 c ?c" using evolves_upd [where f = ?f, OF assms found(3) k] .
  obtain d where d: "nxp_sched_add ?c p = Some d" "pool_only ?c d" "pool_data d = pool_data ?c" "conn_inv d"
    using conn_sched_add [OF u(2), of p "?f s"] by auto
  have "evolves 0 c d" using evolves_trans0(1) [OF e evolves_pool [OF d(2-4)]] .
  then show ?thesis using found u(1) e d(1) by (simp add: recv_max_stream_data_def del: fun_upd_apply) (simp)
qed

lemma apply_peer_params_evolves: "evolves n c c' \<Longrightarrow> evolves n c (apply_peer_params tp c')"
  using evolves_peer_max [of n c c' "tp_initial_max_data tp"] by (simp add: apply_peer_params_def Let_def)

lemma recv_handshake_done_evolves:
  assumes "conn_inv c"
  shows "evolves 0 c (recv_handshake_done c)"
proof (cases "cn_handshake c")
  case None
  then show ?thesis using evolves_refl [OF assms] by (simp add: recv_handshake_done_def)
next
  case (Some hs)
  obtain h r where h: "nxp_handshake_on_handshake_done hs = (h, r)" by (metis prod.exhaust)
  have "evolves 0 c (c\<lparr>cn_handshake := Some h\<rparr>)" using evolves_refl [OF assms] by simp
  then show ?thesis using Some h
    by (simp add: recv_handshake_done_def Let_def apply_peer_params_evolves evolves_set_state)
qed

lemma recv_path_response_evolves: "conn_inv c \<Longrightarrow> evolves 0 c (recv_path_response d c)"
  using evolves_refl [of c 0]
  by (auto simp: recv_path_response_def Let_def split: prod.splits option.splits)

lemma recv_new_token_evolves: "conn_inv c \<Longrightarrow> evolves 0 c (recv_new_token f c)"
  using evolves_refl [of c 0] by (auto simp: recv_new_token_def split: option.splits)

lemma process_frame_total:
  assumes inv: "conn_inv c" and ok: "frame_ok frame" and limit: "cn_next_ptr c < 2 ^ 23"
    and len: "\<And>f. frame = Stream f \<Longrightarrow> unat (sf_length f) \<le> 65536"
  shows "\<exists>c' e. process_frame al now frame c = Some (c', e) \<and> evolves 1 c c'"
proof -
  have r: "evolves 1 c c" using evolves_refl [OF inv] .
  have up: "evolves 1 c d" if "evolves 0 c d" for d using evolves_mono [OF that] by simp
  show ?thesis
  proof (cases frame)
    case (Ack f)
    then show ?thesis using recv_ack_total [OF inv, of f now] up by (auto simp: process_frame_def)
  next
    case (Stream f)
    then show ?thesis using recv_stream_total [OF inv _ _ limit, of f al] ok len by (simp add: process_frame_def)
  next
    case (Max_stream_data f)
    then show ?thesis using recv_max_stream_data_total [OF inv, of f] up by (auto simp: process_frame_def)
  next
    case (Max_data m)
    then show ?thesis using evolves_peer_max [OF r] by (simp add: process_frame_def)
  next
    case (Connection_close f)
    then show ?thesis using evolves_set_state [OF r] by (simp add: process_frame_def)
  next
    case Handshake_done
    then show ?thesis using up [OF recv_handshake_done_evolves [OF inv]] by (simp add: process_frame_def)
  next
    case (Path_response d)
    then show ?thesis using up [OF recv_path_response_evolves [OF inv]] by (simp add: process_frame_def)
  next
    case (New_token f)
    then show ?thesis using up [OF recv_new_token_evolves [OF inv]] by (simp add: process_frame_def)
  qed (use r in \<open>simp_all add: process_frame_def\<close>)
qed

lemma process_frames_total:
  assumes "conn_inv c" "length payload \<le> 65536" "cn_next_ptr c + length payload \<le> 2 ^ 23"
  shows "\<exists>c' e. process_frames al now payload c = Some (c', e) \<and> evolves (length payload) c c'"
  using assms
proof (induction "length payload" arbitrary: payload c rule: less_induct)
  case less
  consider "payload = []" | "payload \<noteq> []" "nxp_frame_decode payload = None"
    | n f where "payload \<noteq> []" "nxp_frame_decode payload = Some (n, f)" by fastforce
  then show ?case
  proof cases
    case 1
    then show ?thesis using evolves_refl [OF less.prems(1)] by (simp add: process_frames.simps)
  next
    case 2
    then show ?thesis using evolves_refl [OF less.prems(1)] by (simp add: process_frames.simps)
  next
    case (3 n f)
    have lim: "length payload < 2 ^ 64" using less.prems(2) by simp
    note n = frame_decode_inside [OF 3(2) lim]
    have "cn_next_ptr c < 2 ^ 23" using less.prems(3) 3(1) by (cases payload) auto
    moreover have "unat (sf_length g) \<le> 65536" if "f = Stream g" for g
      using decode_stream_len [OF _ lim, of n g] 3(2) that less.prems(2) by simp
    ultimately obtain d e where d: "process_frame al now f c = Some (d, e)" "evolves 1 c d"
      using process_frame_total [OF less.prems(1), of f] n by blast
    have step: "process_frames al now payload c = (if e \<noteq> NXP_OK then Some (d, e) else process_frames al now (drop n payload) d)"
      using 3 d(1) by (simp add: process_frames.simps [of al now payload])
    have "cn_next_ptr d \<le> cn_next_ptr c + 1" using d(2) by (simp add: evolves_def)
    then have "length (drop n payload) < length payload" "length (drop n payload) \<le> 65536"
        "cn_next_ptr d + length (drop n payload) \<le> 2 ^ 23"
      using n less.prems(2,3) by auto
    then obtain d' e' where d': "process_frames al now (drop n payload) d = Some (d', e')"
        "evolves (length (drop n payload)) d d'"
      using less.hyps [of "drop n payload" d] evolves_inv [OF d(2)] by blast
    have le: "1 + length (drop n payload) \<le> length payload" "1 \<le> length payload" using n by auto
    show ?thesis
    proof (cases "e = NXP_OK")
      case True
      then show ?thesis using step d' evolves_mono [OF evolves_trans [OF d(2) d'(2)] le(1)] by simp
    next
      case False
      then show ?thesis using step evolves_mono [OF d(2) le(2)] by simp
    qed
  qed
qed

section \<open>Handshake packets\<close>

lemma recv_crypto_frame_total:
  assumes "conn_inv c" "cn_handshake c \<noteq> None"
  shows "\<exists>c' e. recv_crypto_frame ssl level f c = Some (c', e) \<and> evolves 0 c c' \<and> cn_handshake c' \<noteq> None"
proof -
  obtain hs where hs: "cn_handshake c = Some hs" using assms(2) by blast
  obtain h r where h: "nxp_handshake_recv_crypto ssl hs level (case cf_data f of Some d \<Rightarrow> d | None \<Rightarrow> []) = (h, r)"
    by (metis prod.exhaust)
  define d where "d = (let c = c\<lparr>cn_handshake := Some h\<rparr> in
    if cs_available (hs_app_keys h) \<and> \<not> cs_available (cn_crypto c) then c\<lparr>cn_crypto := hs_app_keys h\<rparr> else c)"
  have d: "evolves 0 c d" "cn_handshake d = Some h" using evolves_refl [OF assms(1)] by (simp_all add: d_def Let_def)
  have c1: "evolves 0 c (c\<lparr>cn_handshake := Some h\<rparr>)" using evolves_refl [OF assms(1)] by simp
  have "recv_crypto_frame ssl level f c =
     (if r \<noteq> NXP_OK then Some (c\<lparr>cn_handshake := Some h\<rparr>, r)
      else if nxp_handshake_is_complete h then
         let c = set_conn_state d NXP_CONN_ESTABLISHED in
         Some (if hs_has_peer_params h then apply_peer_params (hs_peer_params h) c else c, NXP_OK)
       else Some (d, NXP_OK))"
    unfolding recv_crypto_frame_def hs by (simp add: h d_def Let_def)
  moreover have "cn_handshake (apply_peer_params tp x) = cn_handshake x" for tp x
    by (simp add: apply_peer_params_def Let_def)
  ultimately show ?thesis using d c1 by (simp add: Let_def apply_peer_params_evolves evolves_set_state)
qed

lemma recv_done_frame_total:
  assumes "conn_inv c" "cn_handshake c \<noteq> None"
  shows "\<exists>c' e. recv_done_frame c = Some (c', e) \<and> evolves 0 c c' \<and> cn_handshake c' \<noteq> None"
proof -
  obtain hs where hs: "cn_handshake c = Some hs" using assms(2) by blast
  obtain h r where h: "nxp_handshake_on_handshake_done hs = (h, r)" by (metis prod.exhaust)
  have c1: "evolves 0 c (c\<lparr>cn_handshake := Some h, cn_crypto := k\<rparr>)" "evolves 0 c (c\<lparr>cn_handshake := Some h\<rparr>)" for k
    using evolves_refl [OF assms(1)] by simp_all
  moreover have "cn_handshake (apply_peer_params tp x) = cn_handshake x" for tp x
    by (simp add: apply_peer_params_def Let_def)
  ultimately show ?thesis
    by (simp add: recv_done_frame_def hs h Let_def apply_peer_params_evolves evolves_set_state)
qed

lemma process_handshake_frames_total:
  assumes "conn_inv c" "cn_handshake c \<noteq> None" "length payload < 2 ^ 64"
  shows "\<exists>c' e. process_handshake_frames ssl level payload c = Some (c', e) \<and> evolves 0 c c'"
  using assms
proof (induction "length payload" arbitrary: payload c rule: less_induct)
  case less
  consider "payload = []" | "payload \<noteq> []" "nxp_frame_decode payload = None"
    | n f where "payload \<noteq> []" "nxp_frame_decode payload = Some (n, f)" by fastforce
  then show ?case
  proof cases
    case 1
    then show ?thesis using evolves_refl [OF less.prems(1)] by (simp add: process_handshake_frames.simps)
  next
    case 2
    then show ?thesis using evolves_refl [OF less.prems(1)] by (simp add: process_handshake_frames.simps)
  next
    case (3 n f)
    note n = frame_decode_inside [OF 3(2) less.prems(3)]
    obtain d e where d: "(case f of Crypto g \<Rightarrow> recv_crypto_frame ssl level g c
        | Handshake_done \<Rightarrow> recv_done_frame c | _ \<Rightarrow> Some (c, NXP_OK)) = Some (d, e)"
        "evolves 0 c d" "cn_handshake d \<noteq> None"
      using recv_crypto_frame_total [OF less.prems(1,2), of ssl level] recv_done_frame_total [OF less.prems(1,2)]
        evolves_refl [OF less.prems(1)] less.prems(2) by (cases f) fastforce+
    have step: "process_handshake_frames ssl level payload c =
        (if e \<noteq> NXP_OK then Some (d, e) else process_handshake_frames ssl level (drop n payload) d)"
      unfolding process_handshake_frames.simps [of ssl level payload] using 3 d(1) by simp
    have "length (drop n payload) < length payload" "length (drop n payload) < 2 ^ 64" using n less.prems(3) by auto
    then obtain d' e' where "process_handshake_frames ssl level (drop n payload) d = Some (d', e')" "evolves 0 d d'"
      using less.hyps [of "drop n payload" d] evolves_inv [OF d(2)] d(3) by blast
    then show ?thesis using step d(2) evolves_trans0(1) [OF d(2)] by auto
  qed
qed

text \<open>An AEAD plaintext is as long as its ciphertext without the tag.\<close>

definition open_is :: "openssl \<Rightarrow> bool" where
  "open_is ssl \<longleftrightarrow>
     (\<forall>algo k n a ct tag pt. ossl_open ssl algo k n a ct tag = Some pt \<longrightarrow> length pt = length ct)"

lemma aead_decrypt_len: "open_is ssl \<Longrightarrow> nxp_aead_decrypt ssl algo k n a ct = Some pt \<Longrightarrow> length pt \<le> length ct"
  by (auto simp: nxp_aead_decrypt_def open_is_def Let_def split: if_splits)

lemma hp_unprotect_len: "length (fst (nxp_hp_unprotect ssl algo k packet off)) = length packet"
proof (cases "off + 4 + NXP_HP_SAMPLE_LEN > length packet")
  case True
  then show ?thesis by (simp add: nxp_hp_unprotect_def)
next
  case False
  show ?thesis
  proof (cases "generate_hp_mask ssl algo k (take NXP_HP_SAMPLE_LEN (drop (off + 4) packet))")
    case None
    then show ?thesis using False by (simp add: nxp_hp_unprotect_def)
  next
    case (Some m)
    define n where "n = unat ((mask_first packet m ! 0) AND 0x03) + 1"
    have "n \<le> 4" using word_and_le1 [of "mask_first packet m ! 0" "0x03"] by (simp add: n_def word_le_nat_alt)
    then have "off + length (take n (drop 1 m)) \<le> length (mask_first packet m)" using False by simp
    then have "length (xor_at (mask_first packet m) off (take n (drop 1 m))) = length packet"
      using length_xor_at [of off "take n (drop 1 m)" "mask_first packet m"] by simp
    then show ?thesis using False Some by (simp add: nxp_hp_unprotect_def Let_def n_def)
  qed
qed

lemma open_long_len:
  assumes "open_is ssl" "open_long_packet ssl keys pkt off = Some pt"
  shows "length pt \<le> length pkt"
proof -
  obtain buf n where b: "nxp_hp_unprotect ssl (cs_algo keys) (ck_hp_key (cs_recv keys)) pkt off = (buf, n)"
    by (metis prod.exhaust)
  have "length buf = length pkt" using hp_unprotect_len [of ssl "cs_algo keys" "ck_hp_key (cs_recv keys)" pkt off] b by simp
  then show ?thesis using assms b
    by (fastforce simp: open_long_packet_def Let_def dest: aead_decrypt_len split: if_splits)
qed

lemma open_short_len:
  assumes "open_is ssl" "open_short_payload ssl keys buf n pn = Some pt"
  shows "length pt \<le> length buf"
  using assms aead_decrypt_len [OF assms(1)] by (fastforce simp: open_short_payload_def split: if_splits)

lemma recv_handshake_packet_total:
  assumes "conn_inv c" "open_is ssl"
  shows "\<exists>c' e. recv_handshake_packet ssl c data = Some (c', e) \<and> evolves 0 c c'"
proof (cases "cn_handshake c")
  case None
  then show ?thesis using evolves_refl [OF assms(1)] by (simp add: recv_handshake_packet_def)
next
  case (Some hs)
  show ?thesis
  proof (cases "length data > NXP_PACKET_BUF_SIZE")
    case True
    then show ?thesis using Some evolves_refl [OF assms(1)] by (simp add: recv_handshake_packet_def)
  next
    case small: False
    show ?thesis
    proof (cases "nxp_pkt_decode_long_header data")
      case (Inl e)
      then show ?thesis using small Some evolves_refl [OF assms(1)] by (simp add: recv_handshake_packet_def)
    next
      case (Inr h)
      define d where "d = (let c = (if cn_is_server c \<and> lh_type h = NXP_PKT_INITIAL \<and> cid_data (cn_dcid c) = []
              then c\<lparr>cn_dcid := lh_scid h\<rparr> else c) in
           if \<not> cn_is_server c \<and> (lh_type h = NXP_PKT_INITIAL \<or> lh_type h = NXP_PKT_HANDSHAKE)
              then c\<lparr>cn_dcid := lh_scid h\<rparr> else c)"
      have d: "evolves 0 c d" "cn_handshake d = Some hs"
        using evolves_refl [OF assms(1)] Some by (simp_all add: d_def Let_def)
      define k where "k = (if lh_type h = NXP_PKT_INITIAL then (NXP_CRYPTO_INITIAL, hs_initial_keys hs)
          else (NXP_CRYPTO_HANDSHAKE, hs_handshake_keys hs))"
      have eq: "recv_handshake_packet ssl c data =
         (if lh_type h = NXP_PKT_INITIAL \<or> lh_type h = NXP_PKT_HANDSHAKE then
            case open_long_packet ssl (snd k) data (lh_pkt_num_offset h) of
              None \<Rightarrow> Some (d, NXP_ERR_CRYPTO_FAIL)
            | Some pt \<Rightarrow> process_handshake_frames ssl (fst k) pt d
          else Some (d, NXP_ERR_INVALID_PACKET))"
        unfolding recv_handshake_packet_def using Some small Inr by (simp add: d_def k_def Let_def split_beta cong: option.case_cong)
      have "\<exists>c' e. process_handshake_frames ssl (fst k) pt d = Some (c', e) \<and> evolves 0 c c'"
        if "open_long_packet ssl (snd k) data (lh_pkt_num_offset h) = Some pt" for pt
        using process_handshake_frames_total [OF evolves_inv [OF d(1)], of pt ssl "fst k"] d(2) small
          open_long_len [OF assms(2) that] evolves_trans0(1) [OF d(1)] by fastforce
      then show ?thesis unfolding eq using d(1) by (auto split: option.splits)
    qed
  qed
qed

lemma ack_mem_pkt_recv [simp]: "ack_mem_ok (nxp_ack_on_pkt_recv a pn now el) = ack_mem_ok a"
  by (simp add: ack_mem_ok_def)

lemma recv_short_packet_total:
  assumes "conn_inv c" "open_is ssl" "cn_next_ptr c + 1536 \<le> 2 ^ 23"
  shows "\<exists>c' e. recv_short_packet ssl al c data now = Some (c', e) \<and> evolves 1536 c c'"
proof (cases "length data > NXP_PACKET_BUF_SIZE")
  case True
  then show ?thesis using evolves_refl [OF assms(1)] by (simp add: recv_short_packet_def)
next
  case small: False
  let ?k = "cn_crypto c" and ?n = "length (cid_data (cn_scid c))"
  obtain buf pn where b: "(if cs_available ?k then nxp_hp_unprotect ssl (cs_algo ?k) (ck_hp_key (cs_recv ?k)) data (1 + ?n)
      else (data, 0)) = (buf, pn)" by (metis prod.exhaust)
  have len: "length buf = length data"
    using hp_unprotect_len [of ssl "cs_algo ?k" "ck_hp_key (cs_recv ?k)" data "1 + ?n"] b
    by (auto split: if_splits)
  show ?thesis
  proof (cases "nxp_pkt_decode_short_header buf ?n")
    case (Inl e)
    then show ?thesis using small b evolves_refl [OF assms(1)] by (simp add: recv_short_packet_def Let_def)
  next
    case (Inr h)
    define pn' where "pn' = nxp_pkt_decode_pkt_num (largest_recv_pn (cn_ack c)) (sh_pkt_num h) (sh_pkt_num_len h)"
    define d where "d = c\<lparr>cn_ack := nxp_ack_on_pkt_recv (cn_ack c) pn' now True\<rparr>"
    have "ack_mem_ok (cn_ack c)" using assms(1) by (simp add: conn_inv_def)
    then have d: "evolves 0 c d" "cn_next_ptr d = cn_next_ptr c"
      using evolves_ack [OF evolves_refl [OF assms(1)]] by (simp_all add: d_def)
    have eq: "recv_short_packet ssl al c data now =
       (if cs_available ?k \<and> pn = 0 then Some (c, NXP_ERR_CRYPTO_FAIL)
        else case open_short_payload ssl ?k buf (sh_header_len h) pn' of
          None \<Rightarrow> Some (d, NXP_ERR_CRYPTO_FAIL)
        | Some payload \<Rightarrow> process_frames al now payload d)"
      unfolding recv_short_packet_def using small b Inr by (simp add: d_def pn'_def Let_def cong: option.case_cong)
    have p: "\<exists>c' e. process_frames al now pt d = Some (c', e) \<and> evolves 1536 c c'"
      if "open_short_payload ssl ?k buf (sh_header_len h) pn' = Some pt" for pt
    proof -
      have "length pt \<le> 1536" using open_short_len [OF assms(2) that] len small by simp
      then obtain c' e where "process_frames al now pt d = Some (c', e)" "evolves (length pt) d c'"
        using process_frames_total [OF evolves_inv [OF d(1)], of pt al now] assms(3) d(2) by auto
      then show ?thesis using evolves_mono [OF evolves_trans0(1) [OF d(1)] \<open>length pt \<le> 1536\<close>] by blast
    qed
    show ?thesis unfolding eq using p evolves_mono [OF d(1)] evolves_refl [OF assms(1)] by (auto split: option.splits)
  qed
qed

lemma conn_recv_total:
  assumes "conn_inv c" "open_is ssl" "cn_next_ptr c + 1536 \<le> 2 ^ 23"
  shows "\<exists>c' e. nxp_conn_recv ssl al c data now = Some (c', e) \<and> evolves 1536 c c'"
proof -
  define d where "d = c\<lparr>cn_last_activity_us := now,
      cn_stats := (cn_stats c)\<lparr>stat_bytes_recv := stat_bytes_recv (cn_stats c) + of_nat (length data),
                                stat_packets_recv := stat_packets_recv (cn_stats c) + 1\<rparr>\<rparr>"
  have d: "evolves 0 c d" "cn_next_ptr d = cn_next_ptr c" using evolves_refl [OF assms(1)] by (simp_all add: d_def)
  obtain c1 e1 where 1: "recv_handshake_packet ssl d data = Some (c1, e1)" "evolves 0 d c1"
    using recv_handshake_packet_total [OF evolves_inv [OF d(1)] assms(2)] by blast
  obtain c2 e2 where 2: "recv_short_packet ssl al d data now = Some (c2, e2)" "evolves 1536 d c2"
    using recv_short_packet_total [OF evolves_inv [OF d(1)] assms(2)] assms(3) d(2) by metis
  have "evolves 1536 c c1" "evolves 1536 c c2"
    using evolves_mono [OF evolves_trans0(1) [OF d(1) 1(2)]] evolves_trans0(1) [OF d(1) 2(2)] by simp_all
  then show ?thesis using 1(1) 2(1) evolves_refl [OF assms(1), of 1536]
    by (simp add: nxp_conn_recv_def Let_def d_def [symmetric])
qed

end
