(* ===== verification/Nxp_Conn_Send.thy ===== *)
theory Nxp_Conn_Send
  imports Nxp_Conn_Inv
begin

text \<open>
  The sending half of the connection engine (\<^verbatim>\<open>src/core/connection.c\<close>): handshake packets, the
  assembly of the frames of a 1-RTT packet, the loop over the scheduled streams, sealing and the
  records kept of what was sent. A datagram is the list of bytes written to \<^verbatim>\<open>out\<close>; the
  \<^verbatim>\<open>ssize_t\<close> result -1 is \<^term>\<open>None\<close> and 0 the empty datagram. The frame buffer is written
  only at its end and no frame built here has a length without data, so its old contents, given
  to the encoders as zeros, never show.
\<close>

section \<open>Sealing\<close>

text \<open>Encryption behind the header and header protection, whose failure is ignored.\<close>

definition seal_packet :: "openssl \<Rightarrow> nxp_crypto_state \<Rightarrow> u64 \<Rightarrow> nat \<Rightarrow> bytes \<Rightarrow> bytes \<Rightarrow> bytes option" where
  "seal_packet ssl keys pkt_num pn_len hdr frames = do {
     ct \<leftarrow> nxp_aead_encrypt ssl (cs_algo keys) (ck_key (cs_send keys))
            (nxp_crypto_make_nonce (ck_iv (cs_send keys)) pkt_num) hdr frames;
     Some (fst (nxp_hp_protect ssl (cs_algo keys) (ck_hp_key (cs_send keys)) (hdr @ ct)
                  (length hdr - pn_len) pn_len)) }"

section \<open>Handshake packets\<close>

definition send_done_packet ::
    "openssl \<Rightarrow> nxp_handshake \<Rightarrow> nxp_conn \<Rightarrow> nat \<Rightarrow> nxp_conn \<times> bytes option" where
  "send_done_packet ssl hs c max_len =
     (let pn_len = 1;
          hdr_size = 1 + length (cid_data (cn_dcid c)) + pn_len;
          needed = hdr_size + 4 + NXP_AEAD_TAG_LEN in
      if \<not> cs_available (hs_app_keys hs) then (c, Some [])
      else if max_len < needed then (c, Some [])
      else case nxp_frame_encode_handshake_done (replicate 8 0) of
        None \<Rightarrow> (c, Some [])
      | Some frame \<Rightarrow>
          let min_frame_len = 4 - pn_len + 1;
              frame = frame @ replicate (min_frame_len - length frame) 0;
              shdr = \<lparr>sh_dcid = cn_dcid c, sh_spin_bit = False, sh_key_phase = False,
                      sh_pkt_num = cn_next_pkt_num c, sh_pkt_num_len = pn_len, sh_header_len = 0,
                      sh_pkt_num_offset = 0\<rparr> in
          case nxp_pkt_encode_short_header shdr (length (cid_data (cn_dcid c))) max_len of
            None \<Rightarrow> (c, None)
          | Some hdr \<Rightarrow>
              (case seal_packet ssl (hs_app_keys hs) (cn_next_pkt_num c) pn_len hdr frame of
                 None \<Rightarrow> (c, None)
               | Some pkt \<Rightarrow>
                   (c\<lparr>cn_next_pkt_num := cn_next_pkt_num c + 1,
                      cn_handshake := Some (hs\<lparr>hs_send_handshake_done := False\<rparr>)\<rparr>, Some pkt)))"

text \<open>CRYPTO data in an Initial or Handshake packet. \<^term>\<open>None\<close> on the outside: the datagram
  does not fit into \<^verbatim>\<open>out\<close>, which the code does not test.\<close>

definition send_crypto_packet ::
    "openssl \<Rightarrow> nxp_crypto_level \<Rightarrow> nxp_handshake \<Rightarrow> nxp_conn \<Rightarrow> nat \<Rightarrow> (nxp_conn \<times> bytes option) option" where
  "send_crypto_packet ssl level hs c max_len =
     (let initial = (level = NXP_CRYPTO_INITIAL);
          keys = (if initial then hs_initial_keys hs else hs_handshake_keys hs);
          pkt_type = (if initial then NXP_PKT_INITIAL else NXP_PKT_HANDSHAKE);
          pn = (if initial then hs_initial_pn hs else hs_handshake_pn hs) in
      if \<not> cs_available keys then Some (c, Some [])
      else
        let (hs, offset, data) = nxp_handshake_fill_crypto hs 512;
            c = c\<lparr>cn_handshake := Some hs\<rparr> in
        if data = [] then Some (c, Some [])
        else case nxp_frame_encode_crypto
                    \<lparr>cf_offset = offset, cf_length = of_nat (length data), cf_data = Some data\<rparr>
                    (replicate 1024 0) of
          None \<Rightarrow> Some (c, Some [])
        | Some frame \<Rightarrow>
            let pn_len = 1;
                lhdr = \<lparr>lh_type = pkt_type, lh_version = NXP_VERSION_CURRENT, lh_dcid = cn_dcid c,
                        lh_scid = cn_scid c, lh_token = None, lh_token_len = 0,
                        lh_payload_len = of_nat (length frame + NXP_AEAD_TAG_LEN + pn_len), lh_pkt_num = pn,
                        lh_pkt_num_len = pn_len, lh_header_len = 0, lh_pkt_num_offset = 0\<rparr> in
            case nxp_pkt_encode_long_header lhdr max_len of
              None \<Rightarrow> Some (c, Some [])
            | Some hdr \<Rightarrow>
                if length hdr + length frame + NXP_AEAD_TAG_LEN > max_len then None
                else
                  (case seal_packet ssl keys pn pn_len hdr frame of
                     None \<Rightarrow> Some (c, None)
                   | Some pkt \<Rightarrow>
                       let hs = (if initial then hs\<lparr>hs_initial_pn := pn + 1\<rparr> else hs\<lparr>hs_handshake_pn := pn + 1\<rparr>) in
                       Some (c\<lparr>cn_handshake := Some hs\<rparr>, Some pkt)))"

definition send_handshake_packet ::
    "openssl \<Rightarrow> nxp_conn \<Rightarrow> nat \<Rightarrow> (nxp_conn \<times> bytes option) option" where
  "send_handshake_packet ssl c max_len =
     (case cn_handshake c of
        None \<Rightarrow> Some (c, Some [])
      | Some hs \<Rightarrow>
          if \<not> nxp_handshake_has_data hs then Some (c, Some [])
          else
            let level = nxp_handshake_send_level hs in
            if hs_send_handshake_done hs \<and> level = NXP_CRYPTO_APPLICATION
            then Some (send_done_packet ssl hs c max_len)
            else send_crypto_packet ssl level hs c max_len)"

section \<open>Frames of a 1-RTT packet\<close>

text \<open>The connection, the bytes in the frame buffer and \<^verbatim>\<open>has_ack_eliciting\<close>.\<close>

type_synonym frame_state = "nxp_conn \<times> bytes \<times> bool"

text \<open>One encoder call at the end of the frame buffer; \<open>f\<close> is what follows when it wrote.\<close>

definition put_frame ::
    "nat \<Rightarrow> (bytes \<Rightarrow> bytes option) \<Rightarrow> (nxp_conn \<Rightarrow> nxp_conn) \<Rightarrow> frame_state \<Rightarrow> frame_state" where
  "put_frame frame_space enc f st =
     (let (c, fb, el) = st in
      case enc (replicate (frame_space - length fb) 0) of
        None \<Rightarrow> st
      | Some bs \<Rightarrow> (f c, fb @ bs, True))"

definition put_ack :: "nat \<Rightarrow> u64 \<Rightarrow> frame_state \<Rightarrow> frame_state" where
  "put_ack frame_space now_us st =
     (let (c, fb, el) = st in
      if ack_needed (cn_ack c) then
        case nxp_ack_build_frame (cn_ack c) now_us of
          None \<Rightarrow> st
        | Some f \<Rightarrow>
            (case nxp_frame_encode_ack f (replicate (frame_space - length fb) 0) of
               None \<Rightarrow> st
             | Some bs \<Rightarrow> (c\<lparr>cn_ack := (cn_ack c)\<lparr>ack_needed := False\<rparr>\<rparr>, fb @ bs, el))
      else st)"

definition put_close :: "nat \<Rightarrow> frame_state \<Rightarrow> frame_state" where
  "put_close frame_space st =
     (let (c, fb, el) = st in
      if cn_send_conn_close c then
        put_frame frame_space
          (nxp_frame_encode_connection_close
             \<lparr>cc_error_code = cn_close_error_code c, cc_frame_type = 0, cc_reason_len = 0,
              cc_reason = None, cc_is_app = True\<rparr>)
          (\<lambda>c. set_conn_state (c\<lparr>cn_send_conn_close := False\<rparr>) NXP_CONN_CLOSING) st
      else st)"

definition put_ping :: "nat \<Rightarrow> frame_state \<Rightarrow> frame_state" where
  "put_ping frame_space st =
     (let (c, fb, el) = st in
      if cn_send_ping c
      then put_frame frame_space nxp_frame_encode_ping (\<lambda>c. c\<lparr>cn_send_ping := False\<rparr>) st else st)"

definition put_max_data :: "nat \<Rightarrow> frame_state \<Rightarrow> frame_state" where
  "put_max_data frame_space st =
     (let (c, fb, el) = st in
      if nxp_flow_should_update (cn_conn_flow c) then
        let (new_max, fc) = nxp_flow_get_update (cn_conn_flow c) in
        put_frame frame_space (nxp_frame_encode_max_data new_max) (\<lambda>c. c) (c\<lparr>cn_conn_flow := fc\<rparr>, fb, el)
      else st)"

definition put_path_response :: "nat \<Rightarrow> frame_state \<Rightarrow> frame_state" where
  "put_path_response frame_space st =
     (let (c, fb, el) = st in
      if send_path_response (cn_migration c) then
        put_frame frame_space (nxp_frame_encode_path_response (pending_response_data (cn_migration c)))
          (\<lambda>c. c\<lparr>cn_migration := (cn_migration c)\<lparr>send_path_response := False\<rparr>\<rparr>) st
      else st)"

definition put_path_challenge :: "nat \<Rightarrow> frame_state \<Rightarrow> frame_state" where
  "put_path_challenge frame_space st =
     (let (c, fb, el) = st in
      if send_path_challenge (cn_migration c) then
        put_frame frame_space (nxp_frame_encode_path_challenge (path_challenge_data (new_path (cn_migration c))))
          (\<lambda>c. c\<lparr>cn_migration := (cn_migration c)\<lparr>send_path_challenge := False\<rparr>\<rparr>) st
      else st)"

text \<open>The loop over the pending connection IDs, the last one first; \<open>n\<close> is their number.\<close>

fun put_new_cids :: "nat \<Rightarrow> nat \<Rightarrow> frame_state \<Rightarrow> frame_state" where
  "put_new_cids frame_space 0 st = st"
| "put_new_cids frame_space (Suc n) (c, fb, el) =
     (let e = pending_new_cids (cn_migration c) ! n in
      case nxp_frame_encode_new_connection_id
             \<lparr>nc_seq_num = ce_seq_num e, nc_retire_prior_to = 0, nc_cid = ce_cid e,
              nc_stateless_reset_token = ce_stateless_reset_token e\<rparr> (replicate (frame_space - length fb) 0) of
        None \<Rightarrow> (c, fb, el)
      | Some bs \<Rightarrow>
          put_new_cids frame_space n
            (c\<lparr>cn_migration := (cn_migration c)\<lparr>pending_new_cid_count := pending_new_cid_count (cn_migration c) - 1\<rparr>\<rparr>,
             fb @ bs, True))"

definition put_retire_cid :: "nat \<Rightarrow> frame_state \<Rightarrow> frame_state" where
  "put_retire_cid frame_space st =
     (let (c, fb, el) = st in
      if send_retire_cid (cn_migration c) then
        put_frame frame_space (nxp_frame_encode_retire_connection_id (retire_seq (cn_migration c)))
          (\<lambda>c. c\<lparr>cn_migration := (cn_migration c)\<lparr>send_retire_cid := False\<rparr>\<rparr>) st
      else st)"

definition put_echo :: "nat \<Rightarrow> frame_state \<Rightarrow> frame_state" where
  "put_echo frame_space st =
     (let (c, fb, el) = st in
      if hb_send_echo (cn_heartbeat c) then
        put_frame frame_space (nxp_frame_encode_heartbeat (hb_echo_timestamp (cn_heartbeat c)))
          (\<lambda>c. c\<lparr>cn_heartbeat := (cn_heartbeat c)\<lparr>hb_send_echo := False\<rparr>\<rparr>) st
      else st)"

definition put_heartbeat :: "nat \<Rightarrow> frame_state \<Rightarrow> frame_state" where
  "put_heartbeat frame_space st =
     (let (c, fb, el) = st in
      if hb_send_heartbeat (cn_heartbeat c) then
        put_frame frame_space (nxp_frame_encode_heartbeat (hb_pending_timestamp (cn_heartbeat c)))
          (\<lambda>c. c\<lparr>cn_heartbeat := (cn_heartbeat c)\<lparr>hb_send_heartbeat := False\<rparr>\<rparr>) st
      else st)"

definition put_control_frames :: "nat \<Rightarrow> u64 \<Rightarrow> nxp_conn \<Rightarrow> frame_state" where
  "put_control_frames frame_space now_us c =
     (let st = put_ack frame_space now_us (c, [], False);
          st = put_close frame_space st;
          st = put_ping frame_space st;
          st = put_max_data frame_space st;
          st = put_path_response frame_space st;
          st = put_path_challenge frame_space st;
          st = put_new_cids frame_space (unat (pending_new_cid_count (cn_migration (fst st)))) st;
          st = put_retire_cid frame_space st;
          st = put_echo frame_space st in
      put_heartbeat frame_space st)"

section \<open>STREAM frames\<close>

text \<open>The loop state: connection, frame buffer, \<^verbatim>\<open>has_ack_eliciting\<close> and the records of the
  stream frames already in the packet.\<close>

type_synonym stream_state = "nxp_conn \<times> bytes \<times> bool \<times> nxp_stream_frame_record list"

text \<open>How many bytes of the stream may go into the next frame.\<close>

definition stream_room :: "nat \<Rightarrow> nxp_conn \<Rightarrow> bytes \<Rightarrow> nat" where
  "stream_room frame_space c fb =
     (let avail = frame_space - length fb;
          max_data = (if avail > 20 then avail - 20 else 0);
          fc = cn_conn_flow c;
          fc_remain = (if peer_max_data fc > data_sent fc then peer_max_data fc - data_sent fc else 0) in
      if max_data > unat fc_remain then unat fc_remain else max_data)"

text \<open>Filling, encoding and recording one frame of stream \<open>p\<close>; the flag says whether the loop
  goes on.\<close>

definition send_stream_frame ::
    "nat \<Rightarrow> stream_ptr \<Rightarrow> nat \<Rightarrow> stream_state \<Rightarrow> (bool \<times> stream_state) option" where
  "send_stream_frame frame_space p max_data st =
     (let (c, fb, el, recs) = st in do {
      s \<leftarrow> stream_mem c p;
      (s, r) \<leftarrow> nxp_stream_fill_frame s max_data;
      c \<leftarrow> upd_stream p (\<lambda>_. s) c;
      (case r of
         None \<Rightarrow> Some (True, c, fb, el, recs)
       | Some sf \<Rightarrow>
           (case nxp_frame_encode_stream sf (replicate (frame_space - length fb) 0) of
              None \<Rightarrow> do {
                c \<leftarrow> upd_stream p (\<lambda>s. nxp_stream_on_loss s (sf_offset sf) (ucast (sf_length sf)) (sf_fin sf)) c;
                Some (False, c, fb, el, recs) }
            | Some bs \<Rightarrow>
                let c = c\<lparr>cn_conn_flow := nxp_flow_on_send (cn_conn_flow c) (sf_length sf)\<rparr> in do {
                c \<leftarrow> upd_stream p (st_flow_update (\<lambda>fc. nxp_flow_on_send fc (sf_length sf))) c;
                c \<leftarrow> upd_stream p (\<lambda>s. if sr_enabled (st_rate_limit s)
                       then s\<lparr>st_rate_limit := nxp_stream_rate_on_send (st_rate_limit s) (ucast (sf_length sf))\<rparr>
                       else s) c;
                s \<leftarrow> stream_mem c p;
                c \<leftarrow> (if nxp_stream_unsent s > 0 \<or> snd_fin (st_send s) \<and> \<not> fin_sent (st_send s)
                      then nxp_sched_add c p else Some c);
                Some (True, c, fb @ bs, True,
                      recs @ [\<lparr>fr_stream_id = sf_stream_id sf, fr_offset = sf_offset sf,
                               fr_len = ucast (sf_length sf), fr_fin = sf_fin sf\<rparr>]) })) })"

definition stream_step :: "nat \<Rightarrow> u64 \<Rightarrow> stream_state \<Rightarrow> (bool \<times> stream_state) option" where
  "stream_step frame_space now_us st =
     (let (c, fb, el, recs) = st in do {
      (nxt, c) \<leftarrow> nxp_sched_next c;
      (case nxt of
         None \<Rightarrow> Some (False, c, fb, el, recs)
       | Some p \<Rightarrow> do {
           s \<leftarrow> stream_mem c p;
           if nxp_stream_unsent s > 0 \<and> \<not> nxp_flow_can_send (cn_conn_flow c) 1
           then Some (False, c, fb, el, recs)
           else
             let max_data = stream_room frame_space c fb in
             if sr_enabled (st_rate_limit s) then do {
               c \<leftarrow> upd_stream p (st_rate_limit_update (\<lambda>r. nxp_stream_rate_update r now_us)) c;
               s \<leftarrow> stream_mem c p;
               let budget = nxp_stream_rate_budget (st_rate_limit s) in
               if budget = 0 then do {
                 c \<leftarrow> upd_stream p (st_blocked_update (\<lambda>_. True)) c;
                 Some (True, c, fb, el, recs) }
               else send_stream_frame frame_space p (if max_data > unat budget then unat budget else max_data)
                      (c, fb, el, recs) }
             else send_stream_frame frame_space p max_data (c, fb, el, recs) }) })"

text \<open>The loop may not end; it then has no value.\<close>

partial_function (option) stream_loop :: "nat \<Rightarrow> u64 \<Rightarrow> stream_state \<Rightarrow> stream_state option" where
  "stream_loop frame_space now_us st =
     (if length (fst (snd st)) < frame_space \<and>
         length (snd (snd (snd st))) < NXP_MAX_STREAM_FRAMES_PER_PKT then do {
        (go, st) \<leftarrow> stream_step frame_space now_us st;
        if go then stream_loop frame_space now_us st else Some st }
      else Some st)"

declare stream_loop.simps [code]

section \<open>The datagram\<close>

definition has_control_frames :: "nxp_conn \<Rightarrow> bool" where
  "has_control_frames c \<longleftrightarrow>
     ack_needed (cn_ack c) \<or> cn_send_conn_close c \<or> cn_send_ping c \<or>
     nxp_flow_should_update (cn_conn_flow c) \<or> nxp_migration_has_pending (cn_migration c) \<or>
     nxp_heartbeat_has_pending (cn_heartbeat c)"

definition cc_allows :: "nxp_conn \<Rightarrow> bool" where
  "cc_allows c \<longleftrightarrow>
     (case cn_cc c of None \<Rightarrow> True | Some bbr \<Rightarrow> \<not> bytes_in_flight (cn_ack c) \<ge> bbr_get_cwnd bbr)"

text \<open>What \<^verbatim>\<open>nxp_conn_send\<close> records after a datagram of \<open>n\<close> bytes was built; \<open>grow\<close> is the
  outcome of enlarging the table of sent packets.\<close>

definition record_sent ::
    "bool \<Rightarrow> u64 \<Rightarrow> nat \<Rightarrow> bool \<Rightarrow> nxp_stream_frame_record list \<Rightarrow> nxp_conn \<Rightarrow> nxp_conn option" where
  "record_sent grow now_us n el recs c =
     (let (dr, dr_state) = nxp_dr_on_packet_sent (cn_delivery_rate c) (of_nat n) now_us;
          c = c\<lparr>cn_delivery_rate := dr\<rparr>;
          meta = \<lparr>sp_pkt_num = cn_next_pkt_num c, sp_sent_time = now_us, sp_sent_bytes = of_nat n,
                  sp_ack_eliciting = el, sp_in_flight = el, sp_declared_lost = False, sp_frames = recs,
                  sp_dr_state = dr_state\<rparr> in do {
      ack \<leftarrow> nxp_ack_on_pkt_sent grow (cn_ack c) meta;
      let c = c\<lparr>cn_ack := ack\<rparr> in do {
      c \<leftarrow> (case cn_cc c of
              None \<Rightarrow> Some c
            | Some bbr \<Rightarrow>
                let c = c\<lparr>cn_cc := Some (bbr_on_sent bbr (of_nat n) now_us (bytes_in_flight (cn_ack c))),
                          cn_pacer := nxp_pacer_on_send (cn_pacer c) (of_nat n)\<rparr> in do {
                (nxt, c) \<leftarrow> nxp_sched_next c;
                Some (if nxt = None then c\<lparr>cn_delivery_rate := nxp_dr_set_app_limited (cn_delivery_rate c)\<rparr>
                      else c) });
      let st = cn_stats c in
      Some (c\<lparr>cn_stats := st\<lparr>stat_bytes_sent := stat_bytes_sent st + of_nat n\<rparr>,
              cn_next_pkt_num := cn_next_pkt_num c + 1\<rparr>) } })"

definition send_short_packet ::
    "openssl \<Rightarrow> bool \<Rightarrow> nxp_conn \<Rightarrow> nat \<Rightarrow> u64 \<Rightarrow> (nxp_conn \<times> bytes option) option" where
  "send_short_packet ssl grow c max_len now_us =
     (let pn_len = nxp_pkt_num_len (cn_next_pkt_num c) (largest_recv_pn (cn_ack c));
          hdr_size = 1 + length (cid_data (cn_dcid c)) + pn_len;
          tag_size = (if cs_available (cn_crypto c) then NXP_AEAD_TAG_LEN else 0) in
      if max_len < hdr_size + 1 + tag_size then Some (c, Some [])
      else
        let frame_space = max_len - hdr_size - tag_size;
            frame_space = (if frame_space > NXP_PACKET_BUF_SIZE then NXP_PACKET_BUF_SIZE else frame_space);
            (c, fb, el) = put_control_frames frame_space now_us c in do {
        (c, fb, el, recs) \<leftarrow> (if cc_allows c then stream_loop frame_space now_us (c, fb, el, [])
                              else Some (c, fb, el, []));
        if fb = [] then Some (c, Some [])
        else
          let shdr = \<lparr>sh_dcid = cn_dcid c, sh_spin_bit = False, sh_key_phase = False,
                      sh_pkt_num = cn_next_pkt_num c, sh_pkt_num_len = pn_len, sh_header_len = 0,
                      sh_pkt_num_offset = 0\<rparr> in
          case nxp_pkt_encode_short_header shdr (length (cid_data (cn_dcid c))) max_len of
            None \<Rightarrow> Some (c, None)
          | Some hdr \<Rightarrow>
              (case (if cs_available (cn_crypto c) then seal_packet ssl (cn_crypto c) (cn_next_pkt_num c) pn_len hdr fb
                     else Some (hdr @ fb)) of
                 None \<Rightarrow> Some (c, None)
               | Some pkt \<Rightarrow> do {
                   c \<leftarrow> record_sent grow now_us (length pkt) el recs c;
                   Some (c, Some pkt) }) })"

definition nxp_conn_send ::
    "openssl \<Rightarrow> bool \<Rightarrow> nxp_conn \<Rightarrow> nat \<Rightarrow> u64 \<Rightarrow> (nxp_conn \<times> bytes option) option" where
  "nxp_conn_send ssl grow c max_len now_us =
     (if (case cn_handshake c of None \<Rightarrow> False | Some hs \<Rightarrow> nxp_handshake_has_data hs)
      then send_handshake_packet ssl (c\<lparr>cn_last_activity_us := now_us\<rparr>) max_len
      else if cn_state c \<noteq> NXP_CONN_ESTABLISHED \<and> cn_state c \<noteq> NXP_CONN_CLOSING then Some (c, Some [])
      else
        let c = c\<lparr>cn_last_activity_us := now_us, cn_pacer := nxp_pacer_update (cn_pacer c) now_us\<rparr> in
        if \<not> nxp_pacer_can_send (cn_pacer c) 1200 \<and> \<not> has_control_frames c then Some (c, Some [])
        else send_short_packet ssl grow c max_len now_us)"

section \<open>Control frames\<close>

text \<open>The parts of a connection that assembling frames leaves alone.\<close>

definition same_keys :: "nxp_conn \<Rightarrow> nxp_conn \<Rightarrow> bool" where
  "same_keys c c' \<longleftrightarrow> cn_crypto c' = cn_crypto c \<and> cn_dcid c' = cn_dcid c \<and> cn_scid c' = cn_scid c \<and>
     cn_next_pkt_num c' = cn_next_pkt_num c \<and> cn_is_server c' = cn_is_server c \<and> cn_next_ptr c' = cn_next_ptr c \<and>
     cn_streams c' = cn_streams c \<and> sent (cn_ack c') = sent (cn_ack c) \<and> sent_cap (cn_ack c') = sent_cap (cn_ack c)"

lemma same_keys_refl [simp]: "same_keys c c"
  by (simp add: same_keys_def)

lemma same_keys_trans: "same_keys a b \<Longrightarrow> same_keys b c \<Longrightarrow> same_keys a c"
  by (simp add: same_keys_def)

text \<open>A step of the assembly that does not touch the streams.\<close>

definition control_step :: "nxp_conn \<Rightarrow> nxp_conn \<Rightarrow> bool" where
  "control_step c c' \<longleftrightarrow> evolves 0 c c' \<and> same_keys c c' \<and> stream_mem c' = stream_mem c"

lemma control_step_refl: "conn_inv c \<Longrightarrow> control_step c c"
  by (simp add: control_step_def evolves_refl)

lemma control_step_trans: "control_step a b \<Longrightarrow> control_step b c \<Longrightarrow> control_step a c"
  unfolding control_step_def using same_keys_trans evolves_trans0(1) by metis

lemma control_step_inv: "control_step c c' \<Longrightarrow> conn_inv c'"
  by (simp add: control_step_def evolves_def)

definition frames_ok :: "nat \<Rightarrow> nxp_conn \<Rightarrow> frame_state \<Rightarrow> bool" where
  "frames_ok fs c st \<longleftrightarrow> (case st of (c', fb, el) \<Rightarrow> control_step c c' \<and> length fb \<le> fs)"

lemma put_frame_ok:
  assumes st: "frames_ok fs c st" and enc: "\<And>buf bs. enc buf = Some bs \<Longrightarrow> length bs \<le> length buf"
    and f: "\<And>x. conn_inv x \<Longrightarrow> control_step x (f x)"
  shows "frames_ok fs c (put_frame fs enc f st)"
proof -
  obtain c' fb el where s: "st = (c', fb, el)" by (metis prod.exhaust)
  have c': "control_step c c'" "length fb \<le> fs" using st s by (simp_all add: frames_ok_def)
  have "control_step c (f c')" using control_step_trans [OF c'(1) f [OF control_step_inv [OF c'(1)]]] .
  moreover have "length (fb @ bs) \<le> fs" if "enc (replicate (fs - length fb) 0) = Some bs" for bs
    using enc [OF that] c'(2) by simp
  ultimately show ?thesis using c' by (auto simp: frames_ok_def put_frame_def s split: option.splits)
qed

lemmas control_simps = control_step_def same_keys_def evolves_refl

lemma put_ack_ok:
  assumes "frames_ok fs c st"
  shows "frames_ok fs c (put_ack fs now st)"
proof -
  obtain c' fb el where s: "st = (c', fb, el)" by (metis prod.exhaust)
  have c': "control_step c c'" "length fb \<le> fs" using assms s by (simp_all add: frames_ok_def)
  let ?d = "c'\<lparr>cn_ack := (cn_ack c')\<lparr>ack_needed := False\<rparr>\<rparr>"
  have inv: "conn_inv c'" using control_step_inv [OF c'(1)] .
  have "ack_mem_ok ((cn_ack c')\<lparr>ack_needed := False\<rparr>)" using inv by (simp add: conn_inv_def ack_mem_ok_def)
  then have "control_step c' ?d" using evolves_ack [OF evolves_refl [OF inv]] by (simp add: control_simps)
  then have "control_step c ?d" using control_step_trans [OF c'(1)] by blast
  moreover have "length (fb @ bs) \<le> fs" if "nxp_frame_encode_ack f (replicate (fs - length fb) 0) = Some bs" for f bs
    using frame_encode_fits [of "Ack f" "replicate (fs - length fb) 0" bs] that c'(2) by (simp, linarith)
  ultimately show ?thesis using c' by (auto simp: frames_ok_def put_ack_def s split: option.splits)
qed

lemma put_close_ok: "frames_ok fs c st \<Longrightarrow> frames_ok fs c (put_close fs st)"
  unfolding put_close_def Let_def split_beta
  using frame_encode_fits [of "Connection_close f" for f]
  by (auto intro!: put_frame_ok evolves_set_state simp: control_simps)

lemma put_ping_ok: "frames_ok fs c st \<Longrightarrow> frames_ok fs c (put_ping fs st)"
  unfolding put_ping_def Let_def split_beta using frame_encode_fits [of Ping]
  by (auto intro!: put_frame_ok simp: control_simps)

lemma put_max_data_ok:
  assumes "frames_ok fs c st"
  shows "frames_ok fs c (put_max_data fs st)"
proof -
  obtain c' fb el where s: "st = (c', fb, el)" by (metis prod.exhaust)
  have c': "control_step c c'" "length fb \<le> fs" using assms s by (simp_all add: frames_ok_def)
  obtain m fc where u: "nxp_flow_get_update (cn_conn_flow c') = (m, fc)" by (metis prod.exhaust)
  have inv: "conn_inv c'" using control_step_inv [OF c'(1)] .
  have "data_sent fc \<le> peer_max_data fc"
    using u inv by (auto simp: nxp_flow_get_update_def Let_def conn_inv_def)
  then have "control_step c' (c'\<lparr>cn_conn_flow := fc\<rparr>)" using conn_inv_flow [OF inv] by (simp add: control_simps evolves_def)
  then have "frames_ok fs c (c'\<lparr>cn_conn_flow := fc\<rparr>, fb, el)"
    using control_step_trans [OF c'(1)] c'(2) by (simp add: frames_ok_def)
  then have "frames_ok fs c (put_frame fs (nxp_frame_encode_max_data m) (\<lambda>c. c) (c'\<lparr>cn_conn_flow := fc\<rparr>, fb, el))"
    using frame_encode_fits [of "Max_data m"] by (intro put_frame_ok) (auto simp: control_step_refl)
  then show ?thesis using assms u by (simp add: put_max_data_def s)
qed

lemma put_path_response_ok: "frames_ok fs c st \<Longrightarrow> frames_ok fs c (put_path_response fs st)"
  unfolding put_path_response_def Let_def split_beta using frame_encode_fits [of "Path_response d" for d]
  by (auto intro!: put_frame_ok simp: control_simps)

lemma put_path_challenge_ok: "frames_ok fs c st \<Longrightarrow> frames_ok fs c (put_path_challenge fs st)"
  unfolding put_path_challenge_def Let_def split_beta using frame_encode_fits [of "Path_challenge d" for d]
  by (auto intro!: put_frame_ok simp: control_simps)

lemma put_new_cids_ok: "frames_ok fs c st \<Longrightarrow> frames_ok fs c (put_new_cids fs n st)"
proof (induction fs n st rule: put_new_cids.induct)
  case (2 fs n c' fb el)
  let ?f = "let e = pending_new_cids (cn_migration c') ! n in
    \<lparr>nc_seq_num = ce_seq_num e, nc_retire_prior_to = 0, nc_cid = ce_cid e,
     nc_stateless_reset_token = ce_stateless_reset_token e\<rparr>"
  let ?d = "c'\<lparr>cn_migration := (cn_migration c')\<lparr>pending_new_cid_count := pending_new_cid_count (cn_migration c') - 1\<rparr>\<rparr>"
  have c': "control_step c c'" "length fb \<le> fs" using "2.prems" by (simp_all add: frames_ok_def)
  show ?case
  proof (cases "nxp_frame_encode_new_connection_id ?f (replicate (fs - length fb) 0)")
    case None
    then show ?thesis using "2.prems" by (simp add: Let_def)
  next
    case (Some bs)
    have "control_step c' ?d" using control_step_inv [OF c'(1)] by (simp add: control_simps)
    then have "frames_ok fs c (?d, fb @ bs, True)"
      using control_step_trans [OF c'(1)] c'(2) frame_encode_fits [of "New_connection_id ?f"] Some
      by (fastforce simp: frames_ok_def)
    then show ?thesis using "2.IH" [OF _ Some [unfolded Let_def]] Some by (simp add: Let_def)
  qed
qed simp

lemma put_retire_cid_ok: "frames_ok fs c st \<Longrightarrow> frames_ok fs c (put_retire_cid fs st)"
  unfolding put_retire_cid_def Let_def split_beta using frame_encode_fits [of "Retire_connection_id n" for n]
  by (auto intro!: put_frame_ok simp: control_simps)

lemma put_heartbeats_ok:
  "frames_ok fs c st \<Longrightarrow> frames_ok fs c (put_echo fs st)"
  "frames_ok fs c st \<Longrightarrow> frames_ok fs c (put_heartbeat fs st)"
  unfolding put_echo_def put_heartbeat_def Let_def split_beta using frame_encode_fits [of "Heartbeat t" for t]
  by (auto intro!: put_frame_ok simp: control_simps)

lemma put_control_frames_ok:
  assumes "conn_inv c"
  shows "frames_ok fs c (put_control_frames fs now c)"
proof -
  have "frames_ok fs c (c, [], False)" using assms by (simp add: frames_ok_def control_step_refl)
  then show ?thesis unfolding put_control_frames_def Let_def
    by (intro put_heartbeats_ok put_retire_cid_ok put_new_cids_ok put_path_challenge_ok put_path_response_ok
        put_max_data_ok put_ping_ok put_close_ok put_ack_ok)
qed

section \<open>The loop over the scheduled streams\<close>

definition send_step :: "nxp_conn \<Rightarrow> nxp_conn \<Rightarrow> bool" where
  "send_step c c' \<longleftrightarrow> evolves 0 c c' \<and> same_keys c c'"

lemma send_step_refl: "conn_inv c \<Longrightarrow> send_step c c"
  by (simp add: send_step_def evolves_refl)

lemma send_step_trans: "send_step a b \<Longrightarrow> send_step b c \<Longrightarrow> send_step a c"
  unfolding send_step_def using same_keys_trans evolves_trans0(1) by metis

lemma send_step_inv: "send_step c c' \<Longrightarrow> conn_inv c'"
  by (simp add: send_step_def evolves_def)

lemma send_step_control: "control_step c c' \<Longrightarrow> send_step c c'"
  by (simp add: send_step_def control_step_def)

text \<open>What the loop reads of a stream before it fills a frame: the limiter and whether there is
  anything to send.\<close>

definition views :: "nxp_conn \<Rightarrow> stream_ptr \<Rightarrow> (nxp_stream_rate \<times> bool) option" where
  "views c p = map_option (\<lambda>s. (st_rate_limit s, stream_has_data s)) (stream_mem c p)"

lemma views_upd:
  "views (c\<lparr>stream_mem := (stream_mem c)(p \<mapsto> s)\<rparr>) = (views c)(p \<mapsto> (st_rate_limit s, stream_has_data s))"
  by (auto simp: views_def fun_eq_iff)

lemma views_fields [simp]: "views (c\<lparr>cn_conn_flow := fc\<rparr>) = views c"
  by (simp add: views_def fun_eq_iff)

lemma views_pool:
  assumes "pool_data c' = pool_data c"
  shows "views c' = views c"
proof
  fix p
  show "views c' p = views c p"
  proof (cases "stream_mem c p")
    case None
    then show ?thesis using fun_cong [OF assms, of p] by (simp add: views_def pool_data_def)
  next
    case (Some s)
    obtain s' where "stream_mem c' p = Some s'" "unlinked s' = unlinked s" using pool_data_eqD [OF assms Some] by blast
    then show ?thesis using Some unlinked_eqD(3) [of s' s] stream_has_data_unlinked [of s'] stream_has_data_unlinked [of s]
      by (simp add: views_def)
  qed
qed

lemma upd_send_step:
  assumes "conn_inv c" "stream_mem c p = Some s" "keeps s (f s)"
  shows "\<exists>c'. upd_stream p f c = Some c' \<and> send_step c c' \<and> stream_mem c' p = Some (f s) \<and>
    cn_conn_flow c' = cn_conn_flow c \<and> (\<forall>q. sched_repr c q \<longrightarrow> sched_repr c' q) \<and>
    views c' = (views c)(p \<mapsto> (st_rate_limit (f s), stream_has_data (f s)))"
proof -
  let ?c = "c\<lparr>stream_mem := (stream_mem c)(p \<mapsto> f s)\<rparr>"
  have "evolves 0 c ?c" using evolves_upd [where f = f, OF assms] .
  moreover have "sched_repr c q \<Longrightarrow> sched_repr ?c q" for q
    using sched_repr_upd [OF _ assms(2)] assms(3) by (auto simp: keeps_def)
  ultimately show ?thesis using upd_stream_inv(1) [where f = f, OF assms] views_upd
    by (simp add: send_step_def same_keys_def)
qed

lemma pool_send_step:
  assumes "pool_only c c'" "pool_data c' = pool_data c" "conn_inv c'"
  shows "send_step c c'" "cn_conn_flow c' = cn_conn_flow c" "views c' = views c"
proof -
  obtain h m where c': "c' = c\<lparr>sched_head := h, stream_mem := m\<rparr>" using assms(1) by (rule pool_onlyE)
  show "send_step c c'" using evolves_pool [OF assms] c' by (simp add: send_step_def same_keys_def)
  show "cn_conn_flow c' = cn_conn_flow c" by (simp add: c')
  show "views c' = views c" by (rule views_pool [OF assms(2)])
qed

lemma flow_send_step:
  assumes "conn_inv c" "data_sent fc \<le> peer_max_data fc"
  shows "send_step c (c\<lparr>cn_conn_flow := fc\<rparr>)" "sched_repr (c\<lparr>cn_conn_flow := fc\<rparr>) q = sched_repr c q"
  using conn_inv_flow [OF assms] sched_repr_cong [of "c\<lparr>cn_conn_flow := fc\<rparr>" c q]
  by (simp_all add: send_step_def evolves_def same_keys_def)

lemma sched_next_conn:
  assumes "conn_inv c" "sched_repr c q"
  shows "\<exists>c'. nxp_sched_next c = Some (case q of [] \<Rightarrow> None | x # _ \<Rightarrow> Some x, c') \<and> send_step c c' \<and>
    cn_conn_flow c' = cn_conn_flow c \<and> views c' = views c \<and>
    (case q of [] \<Rightarrow> sched_repr c' []
     | x # ys \<Rightarrow> \<exists>s. stream_mem c' x = Some s \<and> sched_repr c' (if stream_has_data s then ys @ [x] else ys))"
proof -
  obtain c' where c': "nxp_sched_next c = Some (case q of [] \<Rightarrow> None | x # _ \<Rightarrow> Some x, c')" "pool_only c c'"
      "pool_data c' = pool_data c"
      "sched_repr c' (case q of [] \<Rightarrow> [] | x # ys \<Rightarrow> if stream_has_data (the (pool_data c x)) then ys @ [x] else ys)"
    using sched_next_spec [OF assms(2)] by blast
  note p = pool_send_step [OF c'(2,3) conn_inv_pool [OF assms(1) c'(2-4)]]
  have "\<exists>s. stream_mem c' x = Some s \<and> sched_repr c' (if stream_has_data s then ys @ [x] else ys)" if q: "q = x # ys" for x ys
  proof -
    obtain t where t: "stream_mem c x = Some t" using assms(2) q by (auto simp: sched_repr_def)
    obtain s where s: "stream_mem c' x = Some s" "unlinked s = unlinked t" using pool_data_eqD [OF c'(3) t] by blast
    have "stream_has_data (the (pool_data c x)) = stream_has_data s"
      using t stream_has_data_unlinked [of s] stream_has_data_unlinked [of t] by (simp add: pool_data_def s(2))
    then show ?thesis using s(1) c'(4) q by simp
  qed
  then show ?thesis using c'(1,4) p by (cases q) auto
qed

lemma room_fits:
  assumes "conn_inv c" "unat n \<le> stream_room fs c fb"
  shows "data_sent (nxp_flow_on_send (cn_conn_flow c) n) \<le> peer_max_data (nxp_flow_on_send (cn_conn_flow c) n)"
proof -
  let ?d = "data_sent (cn_conn_flow c)" and ?m = "peer_max_data (cn_conn_flow c)"
  have le: "?d \<le> ?m" using assms(1) by (simp add: conn_inv_def)
  have "unat n \<le> unat (if ?m > ?d then ?m - ?d else 0)" using assms(2) by (simp add: stream_room_def Let_def split: if_splits)
  then have "unat n \<le> unat ?m - unat ?d"
    using le by (auto simp: unat_sub word_le_nat_alt split: if_splits)
  then have sum: "unat ?d + unat n \<le> unat ?m" using le by (simp add: word_le_nat_alt)
  then have "unat (?d + n) = unat ?d + unat n" using le_less_trans [OF sum unat_less_2p64] by (intro unat_add_nowrap) simp
  then show ?thesis using sum by (simp add: nxp_flow_on_send_def word_le_nat_alt)
qed

lemma encode_stream_len: "nxp_frame_encode_stream f buf = Some bs \<Longrightarrow> sf_has_length f \<Longrightarrow> data_ok (sf_length f) (sf_data f) \<Longrightarrow>
   unat (sf_length f) \<le> length bs"
  by (auto simp: nxp_frame_encode_stream_def Let_def bind_Some_iff put_varint_iff put_data_def data_ok_def word_gt_0
      split: if_splits option.splits)

lemma stream_frame_recorded:
  assumes inv: "conn_inv c" and s: "stream_mem c p = Some s" and t: "nxp_stream_fill_frame s m = Some (t, r)"
    and room: "unat (sf_length f) \<le> stream_room fs c fb" and rate: "st_rate_limit t = st_rate_limit s" and f: "r = Some f"
    and enc: "nxp_frame_encode_stream f (replicate (fs - length fb) 0) = Some bs" and q: "sched_repr c q"
    and c1: "upd_stream p (\<lambda>_. t) c = Some c1" "send_step c c1" "stream_mem c1 p = Some t" "cn_conn_flow c1 = cn_conn_flow c"
      "sched_repr c1 q" "views c1 = (views c)(p \<mapsto> (st_rate_limit t, stream_has_data t))"
  obtains c5 q5 d where "send_stream_frame fs p m (c, fb, el, recs) = Some (True, c5, fb @ bs, True,
      recs @ [\<lparr>fr_stream_id = sf_stream_id f, fr_offset = sf_offset f, fr_len = ucast (sf_length f), fr_fin = sf_fin f\<rparr>])"
    "send_step c c5" "sched_repr c5 q5"
    "views c5 = (views c)(p \<mapsto> (nxp_stream_rate_on_send (st_rate_limit s) (ucast (sf_length f)), d))"
proof -
  let ?g = "st_flow_update (\<lambda>fc. nxp_flow_on_send fc (sf_length f))"
  let ?h = "\<lambda>s. if sr_enabled (st_rate_limit s)
    then s\<lparr>st_rate_limit := nxp_stream_rate_on_send (st_rate_limit s) (ucast (sf_length f))\<rparr> else s"
  let ?c2 = "c1\<lparr>cn_conn_flow := nxp_flow_on_send (cn_conn_flow c1) (sf_length f)\<rparr>"
  have c2: "send_step c1 ?c2" "sched_repr ?c2 q"
    using flow_send_step [OF send_step_inv [OF c1(2)] room_fits [OF inv, of "sf_length f" fs fb]] room c1(4,5) by simp_all
  obtain c3 where c3: "upd_stream p ?g ?c2 = Some c3" "send_step ?c2 c3" "stream_mem c3 p = Some (?g t)" "sched_repr c3 q"
      "views c3 = (views ?c2)(p \<mapsto> (st_rate_limit (?g t), stream_has_data (?g t)))"
    using upd_send_step [where f = ?g, OF send_step_inv [OF c2(1)], of p t] c1(3) c2(2)
    by (auto simp: keeps_def stream_ok_def)
  have h: "keeps x (?h x)" for x by simp
  obtain c4 where c4: "upd_stream p ?h c3 = Some c4" "send_step c3 c4" "stream_mem c4 p = Some (?h (?g t))" "sched_repr c4 q"
      "views c4 = (views c3)(p \<mapsto> (st_rate_limit (?h (?g t)), stream_has_data (?h (?g t))))"
    using upd_send_step [where f = ?h, OF send_step_inv [OF c3(2)] c3(3) h] c3(4) by blast
  note inv4 = send_step_inv [OF c4(2)]
  define again where "again = (let s = ?h (?g t) in nxp_stream_unsent s > 0 \<or> snd_fin (st_send s) \<and> \<not> fin_sent (st_send s))"
  obtain c5 q5 where c5: "(if again then nxp_sched_add c4 p else Some c4) = Some c5" "send_step c4 c5" "sched_repr c5 q5"
      "views c5 = views c4"
  proof (cases again)
    case True
    obtain d where "nxp_sched_add c4 p = Some d" "pool_only c4 d" "pool_data d = pool_data c4" "conn_inv d"
      using conn_sched_add [OF inv4 c4(3)] by blast
    then show ?thesis using that [of d] True pool_send_step(1,3) by (auto simp: conn_inv_def)
  qed (use that [of c4] c4(4) send_step_refl [OF inv4] in auto)
  have "send_stream_frame fs p m (c, fb, el, recs) = Some (True, c5, fb @ bs, True,
      recs @ [\<lparr>fr_stream_id = sf_stream_id f, fr_offset = sf_offset f, fr_len = ucast (sf_length f), fr_fin = sf_fin f\<rparr>])"
    using s t c1(1) f enc c3(1) c4(1,3) c5(1) by (simp add: send_stream_frame_def Let_def again_def)
  moreover have "send_step c c5" using c1(2) c2(1) c3(2) c4(2) c5(2) send_step_trans by blast
  moreover have "st_rate_limit (?h (?g t)) = nxp_stream_rate_on_send (st_rate_limit s) (ucast (sf_length f))"
    using rate by (simp add: nxp_stream_rate_on_send_def)
  ultimately show ?thesis using that c5(3,4) c4(5) c3(5) c1(6) by simp
qed

text \<open>One frame: the loop goes on after a frame was added, or when the stream had nothing to send
  and has left the queue.\<close>

lemma send_stream_frame_ok:
  assumes inv: "conn_inv c" and s: "stream_mem c p = Some s" and len: "length fb \<le> fs" "length recs < 8"
    and m: "m \<le> stream_room fs c fb" and q: "sched_repr c q" and data: "stream_has_data s \<or> p \<notin> set q"
  shows "\<exists>go c' fb' el' recs' q'. send_stream_frame fs p m (c, fb, el, recs) = Some (go, c', fb', el', recs') \<and>
    send_step c c' \<and> sched_repr c' q' \<and> length fb' \<le> fs \<and> length recs' \<le> 8 \<and>
    (go \<longrightarrow> recs' = recs \<and> q' = q \<and> p \<notin> set q \<and> fb' = fb \<and> views c' = views c \<or>
      length recs' = length recs + 1 \<and> stream_has_data s \<and>
      (\<exists>n d. views c' = (views c)(p \<mapsto> (nxp_stream_rate_on_send (st_rate_limit s) n, d)) \<and>
        unat n \<le> m \<and> length fb + unat n \<le> length fb'))"
proof -
  obtain t r where t: "nxp_stream_fill_frame s m = Some (t, r)" "keeps s t" "st_rate_limit t = st_rate_limit s"
      and r: "case r of None \<Rightarrow> \<not> stream_has_data s \<and> t = s
        | Some f \<Rightarrow> unat (sf_length f) \<le> m \<and> data_ok (sf_length f) (sf_data f) \<and> sf_has_length f"
    using fill_total [of s m] conn_inv_mem [OF inv s] by (fastforce split: option.splits)
  obtain c1 where c1: "upd_stream p (\<lambda>_. t) c = Some c1" "send_step c c1" "stream_mem c1 p = Some t"
      "cn_conn_flow c1 = cn_conn_flow c" "sched_repr c1 q" "views c1 = (views c)(p \<mapsto> (st_rate_limit t, stream_has_data t))"
    using upd_send_step [where f = "\<lambda>_. t", OF inv s] t(2) q by blast
  note inv1 = send_step_inv [OF c1(2)]
  show ?thesis
  proof (cases r)
    case None
    then have "send_stream_frame fs p m (c, fb, el, recs) = Some (True, c1, fb, el, recs)"
      using s t(1) c1(1) by (simp add: send_stream_frame_def)
    moreover have "views c1 = views c" using c1(6) None r s by (auto simp: views_def fun_eq_iff)
    ultimately show ?thesis using c1(2,5) len None r data by fastforce
  next
    case (Some f)
    then have fm: "unat (sf_length f) \<le> m" "data_ok (sf_length f) (sf_data f)" "sf_has_length f" using r by simp_all
    have hd: "stream_has_data s" using t(1) Some
      by (auto simp: nxp_stream_fill_frame_def stream_has_data_def Let_def word_gt_0 split: if_splits)
    show ?thesis
    proof (cases "nxp_frame_encode_stream f (replicate (fs - length fb) 0)")
      case None
      obtain c2 where c2: "upd_stream p (\<lambda>s. nxp_stream_on_loss s (sf_offset f) (ucast (sf_length f)) (sf_fin f)) c1 = Some c2"
          "send_step c1 c2" "sched_repr c2 q"
        using upd_send_step [where f = "\<lambda>s. nxp_stream_on_loss s (sf_offset f) (ucast (sf_length f)) (sf_fin f)",
            OF inv1 c1(3)] c1(5) by auto
      have "send_stream_frame fs p m (c, fb, el, recs) = Some (False, c2, fb, el, recs)"
        using s t(1) c1(1) c2(1) Some None by (simp add: send_stream_frame_def)
      then show ?thesis using send_step_trans [OF c1(2) c2(2)] c2(3) len by fastforce
    next
      case (Some bs)
      obtain c5 q5 d where c5: "send_stream_frame fs p m (c, fb, el, recs) = Some (True, c5, fb @ bs, True,
            recs @ [\<lparr>fr_stream_id = sf_stream_id f, fr_offset = sf_offset f, fr_len = ucast (sf_length f), fr_fin = sf_fin f\<rparr>])"
          "send_step c c5" "sched_repr c5 q5"
          "views c5 = (views c)(p \<mapsto> (nxp_stream_rate_on_send (st_rate_limit s) (ucast (sf_length f)), d))"
        by (rule stream_frame_recorded [OF inv s t(1) order_trans [OF fm(1) m] t(3) \<open>r = Some f\<close> Some q c1])
      have "length (fb @ bs) \<le> fs"
        using frame_encode_fits [of "Stream f" "replicate (fs - length fb) 0" bs] Some len(1) by (simp, linarith)
      moreover have "unat (ucast (sf_length f) :: u32) \<le> unat (sf_length f)"
        by (simp add: unsigned_ucast_eq unsigned_take_bit_eq)
      moreover have "unat (sf_length f) \<le> length bs" using encode_stream_len [OF Some fm(3,2)] .
      ultimately show ?thesis using c5 len(2) hd fm(1)
        by (intro exI [of _ True] exI [of _ c5] exI [of _ "fb @ bs"] exI [of _ True] exI [of _ "recs @ _"] exI [of _ q5]) auto
    qed
  qed
qed

subsection \<open>Budgets\<close>

text \<open>Every rate-limited stream that has something to send has a budget of at least \<open>n\<close> bytes at
  time \<open>now\<close>.\<close>

definition funded :: "u64 \<Rightarrow> nat \<Rightarrow> nxp_conn \<Rightarrow> bool" where
  "funded now n c \<longleftrightarrow> (\<forall>p s. stream_mem c p = Some s \<and> sr_enabled (st_rate_limit s) \<and> stream_has_data s \<longrightarrow>
     n \<le> unat (nxp_stream_rate_budget (nxp_stream_rate_update (st_rate_limit s) now)))"

lemma funded_views:
  "funded now n c \<longleftrightarrow> (\<forall>p r. views c p = Some (r, True) \<and> sr_enabled r \<longrightarrow>
     n \<le> unat (nxp_stream_rate_budget (nxp_stream_rate_update r now)))"
  by (fastforce simp: funded_def views_def)

lemma funded_mono: "funded now n c \<Longrightarrow> k \<le> n \<Longrightarrow> funded now k c"
  unfolding funded_def using order_trans by blast

lemma rate_update_twice:
  "nxp_stream_rate_update (nxp_stream_rate_update r now) now = nxp_stream_rate_update r now"
  by (simp add: nxp_stream_rate_update_def Let_def)

lemma rate_update_enabled: "sr_enabled (nxp_stream_rate_update r now) = sr_enabled r"
  by (simp add: nxp_stream_rate_update_def Let_def)

lemma rate_on_send_update:
  assumes "nxp_stream_rate_update r now = r"
  shows "nxp_stream_rate_update (nxp_stream_rate_on_send r n) now = nxp_stream_rate_on_send r n"
proof (cases "sr_enabled r \<and> sr_rate_bps r \<noteq> 0")
  case True
  have "sr_time_initialized r \<and> now \<le> sr_last_update r"
    using arg_cong [OF assms, of sr_last_update] arg_cong [OF assms, of sr_time_initialized] True
    by (auto simp: nxp_stream_rate_update_def Let_def split: if_splits)
  then show ?thesis by (simp add: nxp_stream_rate_update_def nxp_stream_rate_on_send_def Let_def)
qed (auto simp: nxp_stream_rate_update_def nxp_stream_rate_on_send_def Let_def)

lemma rate_on_send_budget:
  assumes "sr_enabled r" "unat n \<le> unat (nxp_stream_rate_budget r)"
  shows "unat (nxp_stream_rate_budget (nxp_stream_rate_on_send r n)) = unat (nxp_stream_rate_budget r) - unat n"
proof -
  have b: "unat (nxp_stream_rate_budget r) = unat (sr_tokens r) div 1000"
    using assms(1) by (simp add: nxp_stream_rate_budget_def unat_div)
  then have "unat n * 1000 \<le> unat (sr_tokens r)" using assms(2) by simp
  moreover have "(unat (sr_tokens r) - unat n * 1000) div 1000 = unat (sr_tokens r) div 1000 - unat n" by simp
  ultimately show ?thesis using assms(1) b
    by (simp add: nxp_stream_rate_on_send_def nxp_stream_rate_budget_def Let_def word_le_nat_alt unat_div unat_sub cost_unat mult.commute)
qed

lemma funded_send:
  assumes f: "funded now k c" and v: "views c p = Some (r, True)" "views c' = (views c)(p \<mapsto> (nxp_stream_rate_on_send r n, d))"
    and r: "nxp_stream_rate_update r now = r" "sr_enabled r \<Longrightarrow> unat n \<le> unat (nxp_stream_rate_budget r)"
  shows "funded now (k - unat n) c'"
  unfolding funded_views
proof (intro allI impI)
  fix x r' assume h: "views c' x = Some (r', True) \<and> sr_enabled r'"
  show "k - unat n \<le> unat (nxp_stream_rate_budget (nxp_stream_rate_update r' now))"
  proof (cases "x = p")
    case True
    then have r': "r' = nxp_stream_rate_on_send r n" "sr_enabled r" using h v(2)
      by (auto simp: nxp_stream_rate_on_send_def Let_def split: if_splits)
    have "k \<le> unat (nxp_stream_rate_budget r)" using f v(1) r(1) r'(2) unfolding funded_views by metis
    then show ?thesis using rate_on_send_budget [OF r'(2) r(2) [OF r'(2)]] rate_on_send_update [OF r(1)] r'(1) by simp
  next
    case False
    then have "k \<le> unat (nxp_stream_rate_budget (nxp_stream_rate_update r' now))"
      using f h v(2) unfolding funded_views by fastforce
    then show ?thesis by simp
  qed
qed

lemma funded_update:
  assumes "funded now n c" "views c p = Some (r, d)" "views c' = (views c)(p \<mapsto> (nxp_stream_rate_update r now, d))"
  shows "funded now n c'"
  using assms unfolding funded_views by (auto simp: rate_update_twice rate_update_enabled)

subsection \<open>Rounds of the loop\<close>

text \<open>A round keeps the connection well-formed; while there is a budget for the rest of the packet
  it adds a frame or takes a stream without data out of the queue.\<close>

definition round_ok :: "nat \<Rightarrow> u64 \<Rightarrow> nat \<Rightarrow> stream_state \<Rightarrow> bool \<times> stream_state \<Rightarrow> bool" where
  "round_ok fs now k st res \<longleftrightarrow> (case (st, res) of ((c, fb, el, recs), (go, c', fb', el', recs')) \<Rightarrow>
     send_step c c' \<and> length fb' \<le> fs \<and> length recs' \<le> 8 \<and>
     (\<exists>q'. sched_repr c' q' \<and>
       (go \<and> length fb < fs \<and> funded now (fs - length fb) c \<longrightarrow> funded now (fs - length fb') c' \<and>
         (length recs' = length recs + 1 \<or> recs' = recs \<and> length q' < k))))"

lemma send_round:
  assumes inv: "conn_inv c" and s: "stream_mem c x = Some s" and len: "length fb \<le> fs" "length recs < 8"
    and m: "m \<le> stream_room fs c fb" and q: "sched_repr c (if stream_has_data s then ys @ [x] else ys)" and x: "x \<notin> set ys"
    and r: "nxp_stream_rate_update (st_rate_limit s) now = st_rate_limit s"
      "sr_enabled (st_rate_limit s) \<Longrightarrow> m \<le> unat (nxp_stream_rate_budget (st_rate_limit s))"
  shows "\<exists>res. send_stream_frame fs x m (c, fb, el, recs) = Some res \<and> round_ok fs now (length ys + 1) (c, fb, el, recs) res"
proof -
  let ?q = "if stream_has_data s then ys @ [x] else ys"
  have "stream_has_data s \<or> x \<notin> set ?q" using x by auto
  then obtain go c' fb' el' recs' q' where
      e: "send_stream_frame fs x m (c, fb, el, recs) = Some (go, c', fb', el', recs')" "send_step c c'" "sched_repr c' q'"
        "length fb' \<le> fs" "length recs' \<le> 8"
      and go: "go \<longrightarrow> recs' = recs \<and> q' = ?q \<and> x \<notin> set ?q \<and> fb' = fb \<and> views c' = views c \<or>
      length recs' = length recs + 1 \<and> stream_has_data s \<and>
      (\<exists>n d. views c' = (views c)(x \<mapsto> (nxp_stream_rate_on_send (st_rate_limit s) n, d)) \<and>
        unat n \<le> m \<and> length fb + unat n \<le> length fb')"
    using send_stream_frame_ok [OF inv s len m q] by blast
  have "funded now (fs - length fb') c' \<and> (length recs' = length recs + 1 \<or> recs' = recs \<and> length q' < length ys + 1)"
    if h: "go" "funded now (fs - length fb) c"
  proof (cases "length recs' = length recs + 1")
    case True
    then obtain n d where n: "stream_has_data s" "views c' = (views c)(x \<mapsto> (nxp_stream_rate_on_send (st_rate_limit s) n, d))"
        "unat n \<le> m" "length fb + unat n \<le> length fb'" using go h(1) by auto
    have "views c x = Some (st_rate_limit s, True)" using s n(1) by (simp add: views_def)
    then have "funded now (fs - length fb - unat n) c'"
      using funded_send [OF h(2) _ n(2) r(1)] order_trans [OF n(3) r(2)] by blast
    then show ?thesis using funded_mono [of now _ c' "fs - length fb'"] n(4) True by simp
  next
    case False
    then have "recs' = recs" "q' = ?q" "x \<notin> set ?q" "fb' = fb" "views c' = views c" using go h(1) by auto
    then show ?thesis using h(2) by (auto simp: funded_views split: if_splits)
  qed
  then show ?thesis using e unfolding round_ok_def by fastforce
qed

text \<open>The refilled limiter: the connection when the loop looks at the budget.\<close>

lemma stream_step_refill:
  assumes inv: "conn_inv c" and q: "sched_repr c (x # ys)"
  obtains c2 s where "send_step c c2" "cn_conn_flow c2 = cn_conn_flow c" "stream_mem c2 x = Some s"
    "sched_repr c2 (if stream_has_data s then ys @ [x] else ys)" "nxp_stream_rate_update (st_rate_limit s) now = st_rate_limit s"
    "\<And>n. funded now n c \<Longrightarrow> funded now n c2"
    "stream_step fs now (c, fb, el, recs) =
      (if nxp_stream_unsent s > 0 \<and> \<not> nxp_flow_can_send (cn_conn_flow c) 1
       then map_option (\<lambda>(_, c1). (False, c1, fb, el, recs)) (nxp_sched_next c)
       else if sr_enabled (st_rate_limit s) \<and> nxp_stream_rate_budget (st_rate_limit s) = 0
       then map_option (\<lambda>c3. (True, c3, fb, el, recs)) (upd_stream x (st_blocked_update (\<lambda>_. True)) c2)
       else send_stream_frame fs x (min (stream_room fs c2 fb)
          (if sr_enabled (st_rate_limit s) then unat (nxp_stream_rate_budget (st_rate_limit s)) else stream_room fs c2 fb))
          (c2, fb, el, recs))"
proof -
  obtain c1 s where c1: "nxp_sched_next c = Some (Some x, c1)" "send_step c c1" "cn_conn_flow c1 = cn_conn_flow c"
      "views c1 = views c" "stream_mem c1 x = Some s" "sched_repr c1 (if stream_has_data s then ys @ [x] else ys)"
    using sched_next_conn [OF inv q] by auto
  note inv1 = send_step_inv [OF c1(2)]
  let ?u = "st_rate_limit_update (\<lambda>r. nxp_stream_rate_update r now)"
  have v: "views c1 x = Some (st_rate_limit s, stream_has_data s)" using c1(5) by (simp add: views_def)
  have d: "stream_has_data (?u s) = stream_has_data s" "nxp_stream_unsent (?u s) = nxp_stream_unsent s"
    by (simp_all add: stream_has_data_def nxp_stream_unsent_def)
  have k: "keeps s (?u s)" by (simp add: keeps_def stream_ok_def)
  show thesis
  proof (cases "sr_enabled (st_rate_limit s)")
    case False
    have "nxp_stream_rate_update (st_rate_limit s) now = st_rate_limit s" using False by (simp add: nxp_stream_rate_update_def)
    moreover have "funded now n c1" if "funded now n c" for n using that c1(4) by (simp add: funded_views)
    ultimately show thesis
      by (intro that [OF c1(2,3,5,6)]) (use c1(1,3,5) False in \<open>auto simp: stream_step_def Let_def\<close>)
  next
    case True
    obtain c2 where c2: "upd_stream x ?u c1 = Some c2" "send_step c1 c2" "stream_mem c2 x = Some (?u s)"
        "cn_conn_flow c2 = cn_conn_flow c1" "sched_repr c2 (if stream_has_data s then ys @ [x] else ys)"
        "views c2 = (views c1)(x \<mapsto> (nxp_stream_rate_update (st_rate_limit s) now, stream_has_data s))"
      using upd_send_step [where f = ?u, OF inv1 c1(5) k] c1(6) d(1) by auto
    have "funded now n c2" if "funded now n c" for n
      using funded_update [OF _ v c2(6)] that c1(4) by (simp add: funded_views)
    moreover have "stream_room fs c1 fb = stream_room fs c2 fb" using c2(4) by (simp add: stream_room_def)
    ultimately show thesis
      by (intro that [OF send_step_trans [OF c1(2) c2(2)] _ c2(3)])
        (use c1(1,3,5) c2 d True in \<open>auto simp: stream_step_def Let_def rate_update_twice rate_update_enabled min_def map_option_case
          split: option.splits\<close>)
  qed
qed

lemma stream_step_ok:
  assumes inv: "conn_inv c" and q: "sched_repr c q" and len: "length fb \<le> fs" "length recs < 8"
  shows "\<exists>res. stream_step fs now (c, fb, el, recs) = Some res \<and> round_ok fs now (length q) (c, fb, el, recs) res"
proof (cases q)
  case Nil
  obtain c1 where c1: "nxp_sched_next c = Some (None, c1)" "send_step c c1" "sched_repr c1 []"
    using sched_next_conn [OF inv q] Nil by auto
  have "stream_step fs now (c, fb, el, recs) = Some (False, c1, fb, el, recs)"
    using c1(1) by (simp add: stream_step_def)
  then show ?thesis using c1(2,3) len by (fastforce simp: round_ok_def)
next
  case (Cons x ys)
  have x: "x \<notin> set ys" using q ring_distinct Cons by (fastforce simp: sched_repr_def)
  obtain c1 q1 where c1: "nxp_sched_next c = Some (Some x, c1)" "send_step c c1" "sched_repr c1 q1"
    using sched_next_conn [OF inv q] Cons by auto
  obtain c2 s where c2: "send_step c c2" "cn_conn_flow c2 = cn_conn_flow c" "stream_mem c2 x = Some s"
      "sched_repr c2 (if stream_has_data s then ys @ [x] else ys)" "nxp_stream_rate_update (st_rate_limit s) now = st_rate_limit s"
      and fund: "\<And>n. funded now n c \<Longrightarrow> funded now n c2"
      and eq: "stream_step fs now (c, fb, el, recs) =
      (if nxp_stream_unsent s > 0 \<and> \<not> nxp_flow_can_send (cn_conn_flow c) 1
       then map_option (\<lambda>(_, c1). (False, c1, fb, el, recs)) (nxp_sched_next c)
       else if sr_enabled (st_rate_limit s) \<and> nxp_stream_rate_budget (st_rate_limit s) = 0
       then map_option (\<lambda>c3. (True, c3, fb, el, recs)) (upd_stream x (st_blocked_update (\<lambda>_. True)) c2)
       else send_stream_frame fs x (min (stream_room fs c2 fb)
          (if sr_enabled (st_rate_limit s) then unat (nxp_stream_rate_budget (st_rate_limit s)) else stream_room fs c2 fb))
          (c2, fb, el, recs))"
    using stream_step_refill [OF inv q [unfolded Cons]] by blast
  consider "nxp_stream_unsent s > 0 \<and> \<not> nxp_flow_can_send (cn_conn_flow c) 1"
    | "\<not> (nxp_stream_unsent s > 0 \<and> \<not> nxp_flow_can_send (cn_conn_flow c) 1)"
      "sr_enabled (st_rate_limit s) \<and> nxp_stream_rate_budget (st_rate_limit s) = 0"
    | "\<not> (nxp_stream_unsent s > 0 \<and> \<not> nxp_flow_can_send (cn_conn_flow c) 1)"
      "\<not> (sr_enabled (st_rate_limit s) \<and> nxp_stream_rate_budget (st_rate_limit s) = 0)" by blast
  then show ?thesis
  proof cases
    case 1
    then show ?thesis using eq c1 len by (fastforce simp: round_ok_def)
  next
    case 2
    let ?b = "st_blocked_update (\<lambda>_. True)"
    obtain c3 where c3: "upd_stream x ?b c2 = Some c3" "send_step c2 c3"
        "sched_repr c3 (if stream_has_data s then ys @ [x] else ys)" "views c3 = (views c2)(x \<mapsto> (st_rate_limit s, stream_has_data (?b s)))"
      using upd_send_step [where f = ?b, OF send_step_inv [OF c2(1)] c2(3)] c2(4) by (auto simp: keeps_def stream_ok_def)
    have "stream_has_data (?b s) = stream_has_data s" by (simp add: stream_has_data_def nxp_stream_unsent_def)
    then have v: "views c3 = views c2" using c3(4) c2(3) by (auto simp: views_def fun_eq_iff)
    have "\<not> stream_has_data s" if "length fb < fs" "funded now (fs - length fb) c"
      using fund [OF that(2)] c2(3,5) 2(2) that(1) unfolding funded_def by fastforce
    then show ?thesis using eq 2 c3(1,3) v send_step_trans [OF c2(1) c3(2)] len fund Cons
      by (auto simp: round_ok_def funded_views split: if_splits)
  next
    case 3
    let ?m = "min (stream_room fs c2 fb)
          (if sr_enabled (st_rate_limit s) then unat (nxp_stream_rate_budget (st_rate_limit s)) else stream_room fs c2 fb)"
    obtain res where res: "send_stream_frame fs x ?m (c2, fb, el, recs) = Some res"
        "round_ok fs now (length ys + 1) (c2, fb, el, recs) res"
      using send_round [OF send_step_inv [OF c2(1)] c2(3) len _ c2(4) x c2(5), of ?m el] by auto
    then have "round_ok fs now (length q) (c, fb, el, recs) res"
      using send_step_trans [OF c2(1)] fund Cons unfolding round_ok_def by (fastforce split: prod.splits)
    then show ?thesis using eq 3 res(1) by auto
  qed
qed

text \<open>A loop that ends leaves a well-formed connection.\<close>

lemma stream_loop_ok:
  "stream_loop fs now (c, fb, el, recs) = Some (c', fb', el', recs') \<Longrightarrow> conn_inv c \<Longrightarrow> length fb \<le> fs \<Longrightarrow> length recs \<le> 8 \<Longrightarrow>
   send_step c c' \<and> length fb' \<le> fs \<and> length recs' \<le> 8"
proof -
  define P where "P = (\<lambda>fs (st :: stream_state) (st' :: stream_state). case (st, st') of
    ((c, fb, el, recs), (c', fb', el', recs')) \<Rightarrow> conn_inv c \<and> length fb \<le> fs \<and> length recs \<le> 8 \<longrightarrow>
      send_step c c' \<and> length fb' \<le> fs \<and> length recs' \<le> 8)"
  have "stream_loop fs now st = Some st' \<Longrightarrow> P fs st st'" for fs now st st'
  proof (erule stream_loop.raw_induct [rotated])
    fix loop fs now st and st' :: stream_state
    assume IH: "\<And>fs now st st'. loop fs now st = Some st' \<Longrightarrow> P fs st st'"
      and body: "(if length (fst (snd st)) < fs \<and> length (snd (snd (snd st))) < 8 then do {
          (go, st) \<leftarrow> stream_step fs now st;
          if go then loop fs now st else Some st }
        else Some st) = Some st'"
    obtain c fb el recs where st: "st = (c, fb, el, recs)" by (metis prod.exhaust)
    show "P fs st st'"
    proof (cases "length fb < fs \<and> length recs < 8 \<and> conn_inv c")
      case False
      then show ?thesis using body send_step_refl by (auto simp: P_def st)
    next
      case True
      obtain q where "sched_repr c q" using True by (auto simp only: conn_inv_def)
      then obtain go c1 fb1 el1 recs1 where s: "stream_step fs now (c, fb, el, recs) = Some (go, c1, fb1, el1, recs1)"
          "round_ok fs now (length q) (c, fb, el, recs) (go, c1, fb1, el1, recs1)"
        using stream_step_ok [of c q fb fs recs now el] True by fastforce
      then have s1: "send_step c c1" "length fb1 \<le> fs" "length recs1 \<le> 8" by (simp_all add: round_ok_def)
      have e: "(if go then loop fs now (c1, fb1, el1, recs1) else Some (c1, fb1, el1, recs1)) = Some st'"
        using body True s(1) by (simp add: st)
      show ?thesis
      proof (cases go)
        case False
        then show ?thesis using e s1 by (auto simp: P_def st)
      next
        case True
        then have "P fs (c1, fb1, el1, recs1) st'" using e IH by simp
        then show ?thesis using s1 send_step_inv [OF s1(1)] send_step_trans [OF s1(1)] by (auto simp: P_def st)
      qed
    qed
  qed
  then show "stream_loop fs now (c, fb, el, recs) = Some (c', fb', el', recs') \<Longrightarrow> conn_inv c \<Longrightarrow> length fb \<le> fs \<Longrightarrow>
      length recs \<le> 8 \<Longrightarrow> ?thesis" unfolding P_def by fastforce
qed

text \<open>The loop ends while every limited stream has a budget for the rest of the packet: a round adds
  a frame to the packet or takes a stream without data out of the queue.\<close>

lemma stream_loop_total:
  assumes "conn_inv c" "funded now (fs - length fb) c" "sched_repr c q" "length fb \<le> fs" "length recs \<le> 8"
  shows "stream_loop fs now (c, fb, el, recs) \<noteq> None"
  using assms
proof (induction "(8 - length recs, length q)" arbitrary: c fb el recs q
    rule: wf_induct_rule [OF wf_lex_prod [OF wf_less_than wf_less_than]])
  case 1
  show ?case
  proof (cases "length fb < fs \<and> length recs < 8")
    case False
    then show ?thesis by (subst stream_loop.simps) auto
  next
    case True
    obtain go c1 fb1 el1 recs1 where s: "stream_step fs now (c, fb, el, recs) = Some (go, c1, fb1, el1, recs1)"
        "round_ok fs now (length q) (c, fb, el, recs) (go, c1, fb1, el1, recs1)"
      using stream_step_ok [OF "1.prems"(1,3,4), of recs now el] True by fastforce
    then obtain q1 where s1: "send_step c c1" "length fb1 \<le> fs" "length recs1 \<le> 8" "sched_repr c1 q1"
        and go: "go \<Longrightarrow> funded now (fs - length fb1) c1 \<and> (length recs1 = length recs + 1 \<or> recs1 = recs \<and> length q1 < length q)"
      using True "1.prems"(2) by (auto simp: round_ok_def)
    have eq: "stream_loop fs now (c, fb, el, recs) =
        (if go then stream_loop fs now (c1, fb1, el1, recs1) else Some (c1, fb1, el1, recs1))"
      using True s(1) by (subst stream_loop.simps) simp
    have "((8 - length recs1, length q1), 8 - length recs, length q) \<in> less_than <*lex*> less_than" if g: go
      using go [OF g] True by auto
    then show ?thesis using eq "1.hyps" [of recs1 q1 c1 fb1 el1] send_step_inv [OF s1(1)] s1(2-4) go by (cases go) simp_all
  qed
qed

section \<open>The datagram\<close>

lemma on_pkt_sent_total:
  assumes "ack_mem_ok ack" "unat (sent_cap ack) < 2 ^ 31"
  shows "\<exists>ack'. nxp_ack_on_pkt_sent grow ack pkt = Some ack' \<and> ack_mem_ok ack'"
proof -
  have cap: "unat (sent_cap ack * 2) = unat (sent_cap ack) * 2" using assms(2) by (simp add: unat_word_ariths)
  have pos: "0 < unat (sent_cap ack)" using assms(1) by (simp add: ack_mem_ok_def word_gt_0 unat_gt_0)
  then have "0 < sent_cap ack * 2" by (simp add: word_less_nat_alt cap)
  then show ?thesis using assms(1) cap pos
    by (auto simp: nxp_ack_on_pkt_sent_def Let_def ack_mem_ok_def)
qed

lemma record_sent_total:
  assumes inv: "conn_inv c" and cap: "unat (sent_cap (cn_ack c)) < 2 ^ 31"
  shows "\<exists>c'. record_sent grow now n el recs c = Some c' \<and> evolves 0 c c' \<and> cn_next_pkt_num c' = cn_next_pkt_num c + 1"
proof -
  obtain dr ds where dr: "nxp_dr_on_packet_sent (cn_delivery_rate c) (of_nat n) now = (dr, ds)" by (metis prod.exhaust)
  define meta where "meta = \<lparr>sp_pkt_num = cn_next_pkt_num c, sp_sent_time = now, sp_sent_bytes = of_nat n,
                  sp_ack_eliciting = el, sp_in_flight = el, sp_declared_lost = False, sp_frames = recs,
                  sp_dr_state = ds\<rparr>"
  have "ack_mem_ok (cn_ack c)" using inv by (simp add: conn_inv_def)
  then obtain a where a: "nxp_ack_on_pkt_sent grow (cn_ack c) meta = Some a" "ack_mem_ok a"
    using on_pkt_sent_total cap by blast
  let ?c = "c\<lparr>cn_delivery_rate := dr, cn_ack := a\<rparr>"
  have c1: "evolves 0 c ?c" using evolves_ack [OF _ a(2), of 0 c "c\<lparr>cn_delivery_rate := dr\<rparr>"] evolves_refl [OF inv] by simp
  have "\<exists>d. (case cn_cc ?c of None \<Rightarrow> Some ?c
      | Some bbr \<Rightarrow>
          let c = ?c\<lparr>cn_cc := Some (bbr_on_sent bbr (of_nat n) now (bytes_in_flight (cn_ack ?c))),
                    cn_pacer := nxp_pacer_on_send (cn_pacer ?c) (of_nat n)\<rparr> in do {
          (nxt, c) \<leftarrow> nxp_sched_next c;
          Some (if nxt = None then c\<lparr>cn_delivery_rate := nxp_dr_set_app_limited (cn_delivery_rate c)\<rparr> else c) }) = Some d \<and>
      evolves 0 c d \<and> cn_next_pkt_num d = cn_next_pkt_num c"
  proof (cases "cn_cc ?c")
    case None
    then show ?thesis using c1 by simp
  next
    case (Some bbr)
    let ?d = "?c\<lparr>cn_cc := Some (bbr_on_sent bbr (of_nat n) now (bytes_in_flight (cn_ack ?c))),
                    cn_pacer := nxp_pacer_on_send (cn_pacer ?c) (of_nat n)\<rparr>"
    have d: "evolves 0 c ?d" using c1 by simp
    obtain q where q: "sched_repr ?d q" using evolves_inv [OF d] by (auto simp only: conn_inv_def)
    obtain nxt e where e: "nxp_sched_next ?d = Some (nxt, e)" "send_step ?d e"
      using sched_next_conn [OF evolves_inv [OF d] q] by blast
    have "evolves 0 c e" "cn_next_pkt_num e = cn_next_pkt_num c"
      using e(2) evolves_trans0(1) [OF d] by (auto simp: send_step_def same_keys_def)
    then show ?thesis using Some e(1) by (simp add: Let_def)
  qed
  then show ?thesis using a(1) dr by (auto simp: record_sent_def Let_def meta_def)
qed

lemma hp_protect_len:
  assumes "n \<le> 4"
  shows "length (fst (nxp_hp_protect ssl algo k packet off n)) = length packet"
proof -
  have "length (xor_at (mask_first packet m) off (take n (drop 1 m))) = length packet"
    if "\<not> off + 4 + NXP_HP_SAMPLE_LEN > length packet" for m
    using length_xor_at [of off "take n (drop 1 m)" "mask_first packet m"] that assms by simp
  then show ?thesis by (simp add: nxp_hp_protect_def Let_def split: option.splits)
qed

lemma seal_packet_len:
  assumes "aead_is ssl" "seal_packet ssl keys pn n hdr fb = Some pkt" "n \<le> 4"
  shows "length pkt = length hdr + length fb + 16"
proof -
  obtain ct where ct: "nxp_aead_encrypt ssl (cs_algo keys) (ck_key (cs_send keys))
      (nxp_crypto_make_nonce (ck_iv (cs_send keys)) pn) hdr fb = Some ct"
      "pkt = fst (nxp_hp_protect ssl (cs_algo keys) (ck_hp_key (cs_send keys)) (hdr @ ct) (length hdr - n) n)"
    using assms(2) by (auto simp: seal_packet_def bind_Some_iff)
  have "get_cipher (cs_algo keys)" using ct(1) by (auto simp: nxp_aead_encrypt_def split: if_splits)
  then have "length ct = length fb + 16" using aead_roundtrip [OF assms(1), where pt = fb] ct(1) by (metis option.inject)
  then show ?thesis using ct(2) hp_protect_len [OF assms(3)] by simp
qed

lemma short_header_len:
  "nxp_pkt_encode_short_header h d len = Some bs \<Longrightarrow>
   length bs = 1 + d + sh_pkt_num_len h \<and> length bs \<le> len \<and> 1 \<le> sh_pkt_num_len h \<and> sh_pkt_num_len h \<le> 4"
  by (auto simp: nxp_pkt_encode_short_header_def Let_def split: if_splits)

lemma long_header_len:
  assumes "nxp_pkt_encode_long_header h len = Some bs" "lh_token h = None" "lh_token_len h = 0"
  shows "length bs \<le> 70 \<and> 1 \<le> lh_pkt_num_len h \<and> lh_pkt_num_len h \<le> 4"
proof -
  have "nxp_varint_len 0 \<le> 8" "nxp_varint_len (lh_payload_len h) \<le> 8" by (rule varint_len_le)+
  then show ?thesis using assms
    by (auto simp: nxp_pkt_encode_long_header_def Let_def bind_Some_iff length_varint_bytes nxp_write_u32_be_def
        NXP_MAX_CID_LEN_def split: if_splits)
qed

text \<open>A call that returns leaves a well-formed connection and a datagram that fits.\<close>

definition sends :: "nxp_conn \<Rightarrow> nat \<Rightarrow> (nxp_conn \<times> bytes option) option \<Rightarrow> bool" where
  "sends c max_len x \<longleftrightarrow> (\<forall>c' r. x = Some (c', r) \<longrightarrow>
     evolves 0 c c' \<and> (\<forall>pkt. r = Some pkt \<longrightarrow> length pkt \<le> max_len))"

lemma sends_trans: "evolves 0 a b \<Longrightarrow> sends b n x \<Longrightarrow> sends a n x"
  unfolding sends_def using evolves_trans0(1) by blast

lemma send_crypto_packet_total:
  assumes inv: "conn_inv c" and ssl: "aead_is ssl"
  shows "sends c max_len (send_crypto_packet ssl level hs c max_len) \<and>
    (1200 \<le> max_len \<longrightarrow> send_crypto_packet ssl level hs c max_len \<noteq> None)"
proof -
  have e: "evolves 0 c (c\<lparr>cn_handshake := h\<rparr>)" "evolves 0 c c" for h using evolves_refl [OF inv] by simp_all
  define keys where "keys = (if level = NXP_CRYPTO_INITIAL then hs_initial_keys hs else hs_handshake_keys hs)"
  define pn where "pn = (if level = NXP_CRYPTO_INITIAL then hs_initial_pn hs else hs_handshake_pn hs)"
  obtain h off data where h: "nxp_handshake_fill_crypto hs 512 = (h, off, data)" by (metis prod.exhaust)
  let ?enc = "nxp_frame_encode_crypto \<lparr>cf_offset = off, cf_length = of_nat (length data), cf_data = Some data\<rparr> (replicate 1024 0)"
  show ?thesis
  proof (cases "\<not> cs_available keys \<or> data = [] \<or> ?enc = None")
    case True
    then have "\<exists>d. send_crypto_packet ssl level hs c max_len = Some (d, Some []) \<and> evolves 0 c d"
      using e h unfolding send_crypto_packet_def Let_def keys_def [symmetric] by fastforce
    then show ?thesis by (auto simp: sends_def)
  next
    case False
    then obtain frame where f: "?enc = Some frame" and a: "cs_available keys" "data \<noteq> []" by blast
    have fl: "length frame \<le> 1024"
      using frame_encode_fits [of "Crypto \<lparr>cf_offset = off, cf_length = of_nat (length data), cf_data = Some data\<rparr>"] f by fastforce
    define lh where "lh = \<lparr>lh_type = (if level = NXP_CRYPTO_INITIAL then NXP_PKT_INITIAL else NXP_PKT_HANDSHAKE),
       lh_version = NXP_VERSION_CURRENT, lh_dcid = cn_dcid c,
       lh_scid = cn_scid c, lh_token = None, lh_token_len = 0,
       lh_payload_len = of_nat (length frame + NXP_AEAD_TAG_LEN + 1), lh_pkt_num = pn,
       lh_pkt_num_len = 1, lh_header_len = 0, lh_pkt_num_offset = 0\<rparr>"
    let ?c = "c\<lparr>cn_handshake := Some h\<rparr>"
    have eq: "send_crypto_packet ssl level hs c max_len =
        (case nxp_pkt_encode_long_header lh max_len of
              None \<Rightarrow> Some (?c, Some [])
            | Some hdr \<Rightarrow>
                if length hdr + length frame + NXP_AEAD_TAG_LEN > max_len then None
                else
                  (case seal_packet ssl keys pn 1 hdr frame of
                     None \<Rightarrow> Some (?c, None)
                   | Some pkt \<Rightarrow>
                       let hs = (if level = NXP_CRYPTO_INITIAL then h\<lparr>hs_initial_pn := pn + 1\<rparr> else h\<lparr>hs_handshake_pn := pn + 1\<rparr>) in
                       Some (?c\<lparr>cn_handshake := Some hs\<rparr>, Some pkt)))"
      unfolding send_crypto_packet_def Let_def keys_def [symmetric] pn_def [symmetric] h prod.case
      using a f by (simp add: lh_def)
    show ?thesis
    proof (cases "nxp_pkt_encode_long_header lh max_len")
      case None
      then show ?thesis unfolding eq sends_def using e by simp
    next
      case (Some hdr)
      then have hl: "length hdr \<le> 70" using long_header_len [of lh max_len hdr] by (simp add: lh_def)
      then have "\<not> length hdr + length frame + NXP_AEAD_TAG_LEN > max_len" if "1200 \<le> max_len" using fl that by simp
      moreover have "length pkt \<le> max_len"
        if "seal_packet ssl keys pn 1 hdr frame = Some pkt" "\<not> length hdr + length frame + NXP_AEAD_TAG_LEN > max_len" for pkt
        using seal_packet_len [OF ssl that(1)] that(2) by simp
      ultimately show ?thesis unfolding eq sends_def using Some e
        by (cases "seal_packet ssl keys pn 1 hdr frame") (simp_all add: Let_def)
    qed
  qed
qed

lemma send_handshake_packet_total:
  assumes inv: "conn_inv c" and ssl: "aead_is ssl"
  shows "sends c max_len (send_handshake_packet ssl c max_len) \<and>
    (1200 \<le> max_len \<longrightarrow> send_handshake_packet ssl c max_len \<noteq> None)"
proof (cases "cn_handshake c")
  case None
  then show ?thesis using evolves_refl [OF inv] by (simp add: send_handshake_packet_def sends_def)
next
  case (Some hs)
  have d: "evolves 0 c (fst (send_done_packet ssl hs c max_len)) \<and>
      (\<forall>pkt. snd (send_done_packet ssl hs c max_len) = Some pkt \<longrightarrow> length pkt \<le> max_len)"
  proof -
    have fl: "length f \<le> 8" if "nxp_frame_encode_handshake_done (replicate 8 0) = Some f" for f
      using frame_encode_fits [of Handshake_done] that by fastforce
    have "nxp_frame_encode_handshake_done (replicate 8 0) = Some [0x1e]" by code_simp
    then show ?thesis
      using evolves_refl [OF inv, of 0]
      by (auto simp: send_done_packet_def Let_def split: option.splits
          dest!: short_header_len seal_packet_len [OF ssl])
  qed
  then show ?thesis using send_crypto_packet_total [OF assms] Some evolves_refl [OF inv, of 0]
    by (cases "send_done_packet ssl hs c max_len") (simp add: send_handshake_packet_def sends_def Let_def)
qed

text \<open>What a 1-RTT packet carries: the connection and the frames after assembly, before sealing.\<close>

definition frame_space_of :: "nxp_conn \<Rightarrow> nat \<Rightarrow> nat" where
  "frame_space_of c max_len =
     min NXP_PACKET_BUF_SIZE (max_len - (1 + length (cid_data (cn_dcid c)) +
       nxp_pkt_num_len (cn_next_pkt_num c) (largest_recv_pn (cn_ack c))) -
       (if cs_available (cn_crypto c) then NXP_AEAD_TAG_LEN else 0))"

definition assemble :: "nxp_conn \<Rightarrow> nat \<Rightarrow> u64 \<Rightarrow> stream_state option" where
  "assemble c max_len now_us =
     (let (c', fb, el) = put_control_frames (frame_space_of c max_len) now_us c in
      if cc_allows c' then stream_loop (frame_space_of c max_len) now_us (c', fb, el, []) else Some (c', fb, el, []))"

lemma pkt_num_len_range: "1 \<le> nxp_pkt_num_len pn la" "nxp_pkt_num_len pn la \<le> 4"
  by (simp_all add: nxp_pkt_num_len_def Let_def)

lemma assemble_ok:
  assumes inv: "conn_inv c" and a: "assemble c max_len now = Some (c', fb, el, recs)"
  shows "send_step c c'" "length fb \<le> frame_space_of c max_len"
proof -
  let ?fs = "frame_space_of c max_len"
  obtain c1 fb1 el1 where p: "put_control_frames ?fs now c = (c1, fb1, el1)" by (metis prod.exhaust)
  have c1: "control_step c c1" "length fb1 \<le> ?fs"
    using put_control_frames_ok [OF inv, of ?fs now] p by (simp_all add: frames_ok_def)
  note s = send_step_control [OF c1(1)]
  have "send_step c1 c' \<and> length fb \<le> ?fs"
  proof (cases "cc_allows c1")
    case True
    then show ?thesis using a p stream_loop_ok [of ?fs now c1 fb1 el1 "[]" c' fb el recs] send_step_inv [OF s] c1(2)
      by (simp add: assemble_def)
  next
    case False
    then show ?thesis using a p send_step_refl [OF send_step_inv [OF s]] c1(2) by (simp add: assemble_def)
  qed
  then show "send_step c c'" "length fb \<le> ?fs" using send_step_trans [OF s] by blast+
qed

lemma assemble_total:
  assumes "conn_inv c" "funded now (frame_space_of c max_len) c"
  shows "assemble c max_len now \<noteq> None"
proof -
  let ?fs = "frame_space_of c max_len"
  obtain c1 fb el where p: "put_control_frames ?fs now c = (c1, fb, el)" by (metis prod.exhaust)
  have c1: "control_step c c1" "length fb \<le> ?fs"
    using put_control_frames_ok [OF assms(1), of ?fs now] p by (simp_all add: frames_ok_def)
  have "funded now (?fs - length fb) c1"
    by (rule funded_mono [of now ?fs]) (use assms(2) c1(1) in \<open>simp_all add: control_step_def funded_def\<close>)
  moreover obtain q where "sched_repr c1 q" using control_step_inv [OF c1(1)] by (auto simp only: conn_inv_def)
  ultimately show ?thesis using stream_loop_total [OF control_step_inv [OF c1(1)] _ _ c1(2), of now q "[]" el] p
    by (simp add: assemble_def)
qed

lemma send_short_packet_eq:
  assumes "1 + length (cid_data (cn_dcid c)) + nxp_pkt_num_len (cn_next_pkt_num c) (largest_recv_pn (cn_ack c)) + 1 +
    (if cs_available (cn_crypto c) then NXP_AEAD_TAG_LEN else 0) \<le> max_len"
  shows "send_short_packet ssl grow c max_len now =
     (let pn_len = nxp_pkt_num_len (cn_next_pkt_num c) (largest_recv_pn (cn_ack c)) in do {
        (c, fb, el, recs) \<leftarrow> assemble c max_len now;
        if fb = [] then Some (c, Some [])
        else
          let shdr = \<lparr>sh_dcid = cn_dcid c, sh_spin_bit = False, sh_key_phase = False,
                      sh_pkt_num = cn_next_pkt_num c, sh_pkt_num_len = pn_len, sh_header_len = 0,
                      sh_pkt_num_offset = 0\<rparr> in
          case nxp_pkt_encode_short_header shdr (length (cid_data (cn_dcid c))) max_len of
            None \<Rightarrow> Some (c, None)
          | Some hdr \<Rightarrow>
              (case (if cs_available (cn_crypto c) then seal_packet ssl (cn_crypto c) (cn_next_pkt_num c) pn_len hdr fb
                     else Some (hdr @ fb)) of
                 None \<Rightarrow> Some (c, None)
               | Some pkt \<Rightarrow> do {
                   c \<leftarrow> record_sent grow now (length pkt) el recs c;
                   Some (c, Some pkt) }) })"
proof -
  let ?m = "max_len - (1 + length (cid_data (cn_dcid c)) +
       nxp_pkt_num_len (cn_next_pkt_num c) (largest_recv_pn (cn_ack c))) -
       (if cs_available (cn_crypto c) then NXP_AEAD_TAG_LEN else 0)"
  have fs: "frame_space_of c max_len = (if ?m > NXP_PACKET_BUF_SIZE then NXP_PACKET_BUF_SIZE else ?m)"
    by (simp add: frame_space_of_def min_def)
  have "\<not> max_len < 1 + length (cid_data (cn_dcid c)) + nxp_pkt_num_len (cn_next_pkt_num c) (largest_recv_pn (cn_ack c)) + 1 +
    (if cs_available (cn_crypto c) then NXP_AEAD_TAG_LEN else 0)" using assms by simp
  then show ?thesis
    unfolding send_short_packet_def assemble_def Let_def fs by (simp add: split_beta)
qed

lemma send_short_packet_total:
  assumes inv: "conn_inv c" and ssl: "aead_is ssl" and cap: "unat (sent_cap (cn_ack c)) < 2 ^ 31"
    and a: "assemble c max_len now = Some (c1, fb, el, recs)"
  shows "\<exists>c' r. send_short_packet ssl grow c max_len now = Some (c', r) \<and> evolves 0 c c' \<and>
    (\<forall>pkt. r = Some pkt \<longrightarrow> length pkt \<le> max_len)"
proof -
  let ?k = "nxp_pkt_num_len (cn_next_pkt_num c) (largest_recv_pn (cn_ack c))"
  let ?t = "if cs_available (cn_crypto c) then NXP_AEAD_TAG_LEN else 0"
  note ok = assemble_ok [OF inv a]
  have c1: "evolves 0 c c1" "cn_dcid c1 = cn_dcid c" "cn_crypto c1 = cn_crypto c" "cn_next_pkt_num c1 = cn_next_pkt_num c"
      "unat (sent_cap (cn_ack c1)) < 2 ^ 31"
    using ok(1) cap by (auto simp: send_step_def same_keys_def)
  show ?thesis
  proof (cases "1 + length (cid_data (cn_dcid c)) + ?k + 1 + ?t \<le> max_len")
    case False
    then show ?thesis using evolves_refl [OF inv] by (simp add: send_short_packet_def Let_def)
  next
    case True
    define h where "h = \<lparr>sh_dcid = cn_dcid c, sh_spin_bit = False, sh_key_phase = False,
                      sh_pkt_num = cn_next_pkt_num c, sh_pkt_num_len = ?k, sh_header_len = 0,
                      sh_pkt_num_offset = 0\<rparr>"
    have eq: "send_short_packet ssl grow c max_len now =
       (if fb = [] then Some (c1, Some [])
        else case nxp_pkt_encode_short_header h (length (cid_data (cn_dcid c))) max_len of
            None \<Rightarrow> Some (c1, None)
          | Some hdr \<Rightarrow>
              (case (if cs_available (cn_crypto c) then seal_packet ssl (cn_crypto c) (cn_next_pkt_num c) ?k hdr fb
                     else Some (hdr @ fb)) of
                 None \<Rightarrow> Some (c1, None)
               | Some pkt \<Rightarrow> do {
                   c \<leftarrow> record_sent grow now (length pkt) el recs c1;
                   Some (c, Some pkt) }))"
      unfolding send_short_packet_eq [OF True] using a c1(2-4) by (simp add: h_def Let_def cong: option.case_cong if_cong)
    have pl: "length pkt \<le> max_len"
      if hdr: "nxp_pkt_encode_short_header h (length (cid_data (cn_dcid c))) max_len = Some hdr"
        and pkt: "(if cs_available (cn_crypto c) then seal_packet ssl (cn_crypto c) (cn_next_pkt_num c) ?k hdr fb
          else Some (hdr @ fb)) = Some pkt" for hdr pkt
    proof -
      have "length hdr = 1 + length (cid_data (cn_dcid c)) + ?k" using short_header_len [OF hdr] by (simp add: h_def)
      moreover have "length fb \<le> max_len - (1 + length (cid_data (cn_dcid c)) + ?k) - ?t"
        using ok(2) by (simp add: frame_space_of_def)
      moreover have "length pkt = length hdr + length fb + ?t"
        using pkt seal_packet_len [OF ssl _ pkt_num_len_range(2)] by (auto split: if_splits)
      ultimately show ?thesis using True by simp
    qed
    have rec: "\<exists>d. record_sent grow now n el recs c1 = Some d \<and> evolves 0 c d" for n
      using record_sent_total [OF evolves_inv [OF c1(1)] c1(5), of grow now n el recs] evolves_trans0(1) [OF c1(1)] by blast
    show ?thesis
    proof (cases "nxp_pkt_encode_short_header h (length (cid_data (cn_dcid c))) max_len")
      case None
      then show ?thesis unfolding eq using c1(1) by simp
    next
      case hdr: (Some hdr)
      show ?thesis
      proof (cases "if cs_available (cn_crypto c) then seal_packet ssl (cn_crypto c) (cn_next_pkt_num c) ?k hdr fb
          else Some (hdr @ fb)")
        case None
        then show ?thesis unfolding eq hdr using c1(1) by simp
      next
        case (Some pkt)
        obtain d where "record_sent grow now (length pkt) el recs c1 = Some d" "evolves 0 c d" using rec by blast
        then show ?thesis unfolding eq hdr option.case Some using c1(1) pl [OF hdr Some] by simp
      qed
    qed
  qed
qed

lemma send_short_packet_sends:
  assumes inv: "conn_inv c" and ssl: "aead_is ssl" and cap: "unat (sent_cap (cn_ack c)) < 2 ^ 31"
  shows "sends c max_len (send_short_packet ssl grow c max_len now)"
proof (cases "1 + length (cid_data (cn_dcid c)) + nxp_pkt_num_len (cn_next_pkt_num c) (largest_recv_pn (cn_ack c)) + 1 +
    (if cs_available (cn_crypto c) then NXP_AEAD_TAG_LEN else 0) \<le> max_len")
  case False
  then show ?thesis using evolves_refl [OF inv] by (simp add: send_short_packet_def sends_def Let_def)
next
  case True
  show ?thesis
  proof (cases "assemble c max_len now")
    case None
    then show ?thesis unfolding send_short_packet_eq [OF True] by (simp add: sends_def Let_def)
  next
    case (Some st)
    then show ?thesis using send_short_packet_total [OF inv ssl cap, of max_len now _ _ _ _ grow]
      by (cases st) (fastforce simp: sends_def)
  qed
qed

text \<open>What the caller of \<^verbatim>\<open>nxp_conn_send\<close> has to see to: room for a handshake datagram while
  handshake data waits, and a budget for the limited streams with data.\<close>

definition hs_pending :: "nxp_conn \<Rightarrow> bool" where
  "hs_pending c \<longleftrightarrow> (case cn_handshake c of None \<Rightarrow> False | Some hs \<Rightarrow> nxp_handshake_has_data hs)"

definition send_ok :: "nat \<Rightarrow> u64 \<Rightarrow> nxp_conn \<Rightarrow> bool" where
  "send_ok max_len now c \<longleftrightarrow> (if hs_pending c then 1200 \<le> max_len else funded now (min 1536 max_len) c)"

lemma conn_send_sends:
  assumes inv: "conn_inv c" and ssl: "aead_is ssl" and cap: "unat (sent_cap (cn_ack c)) < 2 ^ 31"
  shows "sends c max_len (nxp_conn_send ssl grow c max_len now)"
proof -
  let ?h = "c\<lparr>cn_last_activity_us := now\<rparr>"
  let ?c = "c\<lparr>cn_last_activity_us := now, cn_pacer := nxp_pacer_update (cn_pacer c) now\<rparr>"
  have e: "evolves 0 c ?h" "evolves 0 c ?c" "evolves 0 c c" using evolves_refl [OF inv] by simp_all
  have "sends c max_len (send_handshake_packet ssl ?h max_len)"
    using send_handshake_packet_total [OF evolves_inv [OF e(1)] ssl] sends_trans [OF e(1)] by blast
  moreover have "sends c max_len (send_short_packet ssl grow ?c max_len now)"
    using send_short_packet_sends [OF evolves_inv [OF e(2)] ssl, of max_len grow now] cap sends_trans [OF e(2)] by simp
  moreover have "sends c max_len (Some (c, Some []))" "sends c max_len (Some (?c, Some []))" using e by (simp_all add: sends_def)
  ultimately show ?thesis by (simp add: nxp_conn_send_def Let_def)
qed

lemma conn_send_total:
  assumes inv: "conn_inv c" and ssl: "aead_is ssl" and cap: "unat (sent_cap (cn_ack c)) < 2 ^ 31"
    and ok: "send_ok max_len now c"
  shows "\<exists>c' r. nxp_conn_send ssl grow c max_len now = Some (c', r) \<and> evolves 0 c c' \<and>
    (\<forall>pkt. r = Some pkt \<longrightarrow> length pkt \<le> max_len)"
proof -
  let ?h = "c\<lparr>cn_last_activity_us := now\<rparr>"
  let ?c = "c\<lparr>cn_last_activity_us := now, cn_pacer := nxp_pacer_update (cn_pacer c) now\<rparr>"
  have i: "conn_inv ?h" "conn_inv ?c" using inv evolves_inv [of 0 c] evolves_refl [OF inv, of 0] by simp_all
  have "nxp_conn_send ssl grow c max_len now \<noteq> None"
  proof (cases "hs_pending c")
    case True
    then show ?thesis using send_handshake_packet_total [OF i(1) ssl] ok
      by (simp add: nxp_conn_send_def hs_pending_def send_ok_def)
  next
    case False
    then have "funded now (min 1536 max_len) ?c" using ok by (simp add: send_ok_def funded_def)
    then have "funded now (frame_space_of ?c max_len) ?c" by (rule funded_mono) (simp add: frame_space_of_def)
    then obtain st where "assemble ?c max_len now = Some st" using assemble_total [OF i(2)] by blast
    then have "send_short_packet ssl grow ?c max_len now \<noteq> None"
      using send_short_packet_total [OF i(2) ssl, of max_len now _ _ _ _ grow] cap by (cases st) fastforce
    then show ?thesis using False by (simp add: nxp_conn_send_def hs_pending_def Let_def)
  qed
  then show ?thesis using conn_send_sends [OF inv ssl cap, of max_len grow now] by (auto simp: sends_def)
qed

end
