(* ===== verification/Nxp_Conn_Run.thy ===== *)
theory Nxp_Conn_Run
  imports Nxp_Conn_Recv Nxp_Conn_Send
begin

text \<open>
  Runs of a connection. The operations the application, the network and the clock perform on a
  connection (\<^verbatim>\<open>src/core/connection.c\<close>) as one datatype, the connections reachable by them and
  what holds of all of them: no operation leaves the memory of the connection, its state only
  moves along the allowed transitions and connection-level flow control is respected. The theory
  also follows a 1-RTT packet from the sender's frames to the receiver's.
\<close>

section \<open>Operations of the application\<close>

lemma open_stream_total:
  assumes "conn_inv c" "cn_next_ptr c < 2 ^ 23"
  shows "\<exists>c' r. nxp_conn_open_stream al c type uni = Some (c', r) \<and> evolves 1 c c'"
proof -
  let ?sid = "make_stream_id (if uni then cn_next_uni_id c else cn_next_bidi_id c) type uni (cn_is_server c)"
  obtain d r where d: "add_stream al ?sid type c = Some (d, r)" "evolves 1 c d"
    using add_stream_total [OF assms, of al ?sid type] by blast
  show ?thesis using d evolves_refl [OF assms(1), of 1]
    by (cases r) (simp_all add: nxp_conn_open_stream_def Let_def)
qed

lemma stream_send_total:
  assumes "conn_inv c"
  shows "\<exists>c' r. nxp_conn_stream_send c sid data fin = Some (c', r) \<and> evolves 0 c c'"
proof (cases "cn_state c = NXP_CONN_ESTABLISHED")
  case False
  then show ?thesis using evolves_refl [OF assms] by (simp add: nxp_conn_stream_send_def)
next
  case True
  from assms show ?thesis
  proof (cases rule: conn_lookup [where k = sid])
    case absent
    then show ?thesis using evolves_refl [OF assms] by (simp add: nxp_conn_stream_send_def)
  next
    case (found p s)
    obtain t w where t: "nxp_stream_write s data fin = Some (t, w)" "keeps s t" using write_total found(5) by blast
    obtain d where d: "upd_stream p (\<lambda>_. t) c = Some d" "send_step c d" "stream_mem d p = Some t"
      using upd_send_step [where f = "\<lambda>_. t", OF assms found(3)] t(2) by blast
    obtain e where e: "nxp_sched_add d p = Some e" "pool_only d e" "pool_data e = pool_data d" "conn_inv e"
      using conn_sched_add [OF send_step_inv [OF d(2)] d(3)] by blast
    have "evolves 0 c d" using d(2) by (simp add: send_step_def)
    moreover have "evolves 0 c e" using evolves_trans0(1) [OF calculation evolves_pool [OF e(2-4)]] .
    ultimately show ?thesis using True found t(1) d(1) e(1)
      by (cases w) (simp_all add: nxp_conn_stream_send_def)
  qed
qed

text \<open>The stream found under an identifier may be read with a buffer of \<open>n\<close> bytes.\<close>

definition recv_ok :: "nxp_conn \<Rightarrow> u64 \<Rightarrow> nat \<Rightarrow> bool" where
  "recv_ok c sid n \<longleftrightarrow> (case nxp_hash_map_get (cn_streams c) sid of
     Some (Some p) \<Rightarrow> (case stream_mem c p of Some s \<Rightarrow> read_ok s n | None \<Rightarrow> True) | _ \<Rightarrow> True)"

lemma read_keeps: "nxp_stream_read s n = Some (t, bs, fin) \<Longrightarrow> keeps s t"
  by (auto simp: nxp_stream_read_def Let_def keeps_def stream_ok_def bind_Some_iff split: if_splits)

lemma stream_recv_evolves:
  assumes "conn_inv c" "nxp_conn_stream_recv c sid n = Some (c', r)"
  shows "evolves 0 c c'"
  using assms(1)
proof (cases rule: conn_lookup [where k = sid])
  case absent
  then show ?thesis using evolves_refl [OF assms(1)] assms(2) by (auto simp: nxp_conn_stream_recv_def)
next
  case (found p s)
  obtain t bs fin where t: "nxp_stream_read s n = Some (t, bs, fin)" "upd_stream p (\<lambda>_. t) c = Some c'"
    using found assms(2) by (auto simp: nxp_conn_stream_recv_def bind_Some_iff)
  then show ?thesis using upd_send_step [where f = "\<lambda>_. t", OF assms(1) found(3)] read_keeps [OF t(1)]
    by (auto simp: send_step_def)
qed

lemma stream_recv_total:
  assumes "conn_inv c" "recv_ok c sid n"
  shows "\<exists>c' r. nxp_conn_stream_recv c sid n = Some (c', r)"
  using assms(1)
proof (cases rule: conn_lookup [where k = sid])
  case absent
  then show ?thesis by (auto simp: nxp_conn_stream_recv_def)
next
  case (found p s)
  then have "read_ok s n" using assms(2) by (simp add: recv_ok_def)
  then obtain t bs fin where t: "nxp_stream_read s n = Some (t, bs, fin)" using read_total [OF found(5)] by blast
  obtain d where "upd_stream p (\<lambda>_. t) c = Some d"
    using upd_send_step [where f = "\<lambda>_. t", OF assms(1) found(3)] read_keeps [OF t] by blast
  then show ?thesis using found t by (auto simp: nxp_conn_stream_recv_def)
qed

lemma set_stream_rate_total:
  assumes "conn_inv c"
  shows "\<exists>c' r. nxp_conn_set_stream_rate c sid bps = Some (c', r) \<and> evolves 0 c c'"
  using assms
proof (cases rule: conn_lookup [where k = sid])
  case absent
  then show ?thesis using evolves_refl [OF assms] by (simp add: nxp_conn_set_stream_rate_def)
next
  case (found p s)
  let ?f = "st_rate_limit_update (\<lambda>r. nxp_stream_rate_set r bps)"
  have "keeps s (?f s)" by (simp add: keeps_def stream_ok_def)
  then obtain d where "upd_stream p ?f c = Some d" "send_step c d"
    using upd_send_step [where f = ?f, OF assms found(3)] by blast
  then show ?thesis using found by (simp add: nxp_conn_set_stream_rate_def send_step_def)
qed

lemma set_on_writable_total:
  assumes "conn_inv c"
  shows "\<exists>c' r. nxp_conn_set_on_writable c sid cb = Some (c', r) \<and> evolves 0 c c'"
  using assms
proof (cases rule: conn_lookup [where k = sid])
  case absent
  then show ?thesis using evolves_refl [OF assms] by (simp add: nxp_conn_set_on_writable_def)
next
  case (found p s)
  obtain d where "upd_stream p (st_on_writable_update (\<lambda>_. cb)) c = Some d" "send_step c d"
    using upd_send_step [where f = "st_on_writable_update (\<lambda>_. cb)", OF assms found(3)] by auto
  then show ?thesis using found by (simp add: nxp_conn_set_on_writable_def send_step_def)
qed

lemma start_handshake_evolves:
  assumes "conn_inv c"
  shows "evolves 0 c (fst (nxp_conn_start_handshake ssl alloc keys c cid))"
proof -
  have "evolves 0 c (c\<lparr>cn_dcid := x\<rparr>)" "evolves 0 c c" for x using evolves_refl [OF assms] by simp_all
  then show ?thesis
    by (auto simp: nxp_conn_start_handshake_def Let_def evolves_set_state split: option.splits prod.splits)
qed

section \<open>Runs\<close>

datatype conn_op =
    Recv "u64 \<Rightarrow> stream_alloc" bytes u64
  | Send bool nat u64
  | Timeout u64
  | Open_stream stream_alloc nxp_stream_type bool
  | Stream_send u64 bytes bool
  | Stream_recv u64 nat
  | Set_stream_rate u64 u64
  | Set_on_writable u64 bool
  | Initiate_close u64
  | Start_handshake bool "(bytes \<times> bytes) option" nxp_conn_id
  | Set_heartbeat u64
  | Set_auto_reconnect bool u32
  | Set_established nxp_conn_id

fun conn_exec :: "openssl \<Rightarrow> conn_op \<Rightarrow> nxp_conn \<Rightarrow> nxp_conn option" where
  "conn_exec ssl (Recv al data now) c = map_option fst (nxp_conn_recv ssl al c data now)"
| "conn_exec ssl (Send grow max_len now) c = map_option fst (nxp_conn_send ssl grow c max_len now)"
| "conn_exec ssl (Timeout now) c = nxp_conn_on_timeout c now"
| "conn_exec ssl (Open_stream al type uni) c = map_option fst (nxp_conn_open_stream al c type uni)"
| "conn_exec ssl (Stream_send sid data fin) c = map_option fst (nxp_conn_stream_send c sid data fin)"
| "conn_exec ssl (Stream_recv sid n) c = map_option fst (nxp_conn_stream_recv c sid n)"
| "conn_exec ssl (Set_stream_rate sid bps) c = map_option fst (nxp_conn_set_stream_rate c sid bps)"
| "conn_exec ssl (Set_on_writable sid cb) c = map_option fst (nxp_conn_set_on_writable c sid cb)"
| "conn_exec ssl (Initiate_close e) c = Some (fst (nxp_conn_initiate_close c e))"
| "conn_exec ssl (Start_handshake alloc keys cid) c = Some (fst (nxp_conn_start_handshake ssl alloc keys c cid))"
| "conn_exec ssl (Set_heartbeat i) c = Some (nxp_conn_set_heartbeat c i)"
| "conn_exec ssl (Set_auto_reconnect e n) c = Some (nxp_conn_set_auto_reconnect c e n)"
| "conn_exec ssl (Set_established cid) c = Some (nxp_conn_set_established c cid)"

text \<open>What the caller owes before an operation. A datagram needs 1200 bytes of buffer while
  handshake data waits, and every rate-limited stream with data a budget for the datagram. A read
  larger than the receive buffer is safe only while no more than the buffer holds is unread.\<close>

fun op_ok :: "nxp_conn \<Rightarrow> conn_op \<Rightarrow> bool" where
  "op_ok c (Send grow max_len now) = send_ok max_len now c"
| "op_ok c (Stream_recv sid n) = recv_ok c sid n"
| "op_ok c _ = True"

text \<open>The limits inside which the code's counters do not overflow: the hash map's capacity, the
  table of sent packets and the shift of the probe timeout.\<close>

definition within_limits :: "nxp_conn \<Rightarrow> bool" where
  "within_limits c \<longleftrightarrow> cn_next_ptr c + 1536 \<le> 2 ^ 23 \<and> unat (sent_cap (cn_ack c)) < 2 ^ 31 \<and>
     unat (pto_count (cn_ack c)) < 64"

text \<open>The connections of all runs: created with every allocation successful, then any operations
  that returned. A run does not restrict its operations; one that did not return ends it.\<close>

inductive conn_reach :: "openssl \<Rightarrow> nxp_conn \<Rightarrow> bool" for ssl where
  create: "nxp_conn_create True True True True alloc_cc cfg is_server = Some c \<Longrightarrow> conn_reach ssl c"
| step: "conn_reach ssl c \<Longrightarrow> within_limits c \<Longrightarrow> conn_exec ssl op c = Some c' \<Longrightarrow> conn_reach ssl c'"

lemma exec_evolves:
  assumes inv: "conn_inv c" and lim: "within_limits c" and ssl: "open_is ssl" "aead_is ssl" and ex: "conn_exec ssl op c = Some c'"
  shows "evolves 1536 c c'"
proof -
  have up: "evolves 1536 c d" if "evolves n c d" "n \<le> 1536" for n d using evolves_mono [OF that] .
  have l: "cn_next_ptr c + 1536 \<le> 2 ^ 23" "cn_next_ptr c < 2 ^ 23" "unat (sent_cap (cn_ack c)) < 2 ^ 31"
    "unat (pto_count (cn_ack c)) < 64" using lim by (auto simp: within_limits_def)
  have r: "evolves 1536 c c" using evolves_refl [OF inv] .
  show ?thesis
  proof (cases op)
    case (Recv al data now)
    then show ?thesis using conn_recv_total [OF inv ssl(1) l(1), of al data now] ex by auto
  next
    case (Send grow max_len now)
    then show ?thesis using conn_send_sends [OF inv ssl(2) l(3), of max_len grow now] ex up [of 0] by (auto simp: sends_def)
  next
    case (Timeout now)
    then show ?thesis using on_timeout_total [OF inv l(4), of now] ex up [of 0] by auto
  next
    case (Open_stream al type uni)
    then show ?thesis using open_stream_total [OF inv l(2), of al type uni] ex up [of 1] by auto
  next
    case (Stream_send sid data fin)
    then show ?thesis using stream_send_total [OF inv, of sid data fin] ex up [of 0] by auto
  next
    case (Stream_recv sid n)
    then show ?thesis using stream_recv_evolves [OF inv, of sid n] ex up [of 0] by auto
  next
    case (Set_stream_rate sid bps)
    then show ?thesis using set_stream_rate_total [OF inv, of sid bps] ex up [of 0] by auto
  next
    case (Set_on_writable sid cb)
    then show ?thesis using set_on_writable_total [OF inv, of sid cb] ex up [of 0] by auto
  next
    case (Start_handshake alloc keys cid)
    then show ?thesis using up [OF start_handshake_evolves [OF inv]] ex by auto
  next
    case (Set_established cid)
    then show ?thesis using r ex by (auto simp: nxp_conn_set_established_def evolves_set_state)
  next
    case (Set_auto_reconnect e n)
    then show ?thesis using r ex by (auto simp: nxp_conn_set_auto_reconnect_def evolves_def)
  qed (use r ex in \<open>auto simp: nxp_conn_initiate_close_def nxp_conn_set_heartbeat_def\<close>)
qed

lemma exec_total:
  assumes inv: "conn_inv c" and lim: "within_limits c" and op: "op_ok c op" and ssl: "open_is ssl" "aead_is ssl"
  shows "\<exists>c'. conn_exec ssl op c = Some c' \<and> evolves 1536 c c'"
proof -
  have l: "cn_next_ptr c + 1536 \<le> 2 ^ 23" "cn_next_ptr c < 2 ^ 23" "unat (sent_cap (cn_ack c)) < 2 ^ 31"
    "unat (pto_count (cn_ack c)) < 64" using lim by (auto simp: within_limits_def)
  have "\<exists>c'. conn_exec ssl op c = Some c'"
  proof (cases op)
    case (Recv al data now)
    then show ?thesis using conn_recv_total [OF inv ssl(1) l(1), of al data now] by auto
  next
    case (Send grow max_len now)
    then show ?thesis using conn_send_total [OF inv ssl(2) l(3), of max_len now grow] op by auto
  next
    case (Timeout now)
    then show ?thesis using on_timeout_total [OF inv l(4), of now] by auto
  next
    case (Open_stream al type uni)
    then show ?thesis using open_stream_total [OF inv l(2), of al type uni] by auto
  next
    case (Stream_send sid data fin)
    then show ?thesis using stream_send_total [OF inv, of sid data fin] by auto
  next
    case (Stream_recv sid n)
    then show ?thesis using stream_recv_total [OF inv, of sid n] op by auto
  next
    case (Set_stream_rate sid bps)
    then show ?thesis using set_stream_rate_total [OF inv, of sid bps] by auto
  next
    case (Set_on_writable sid cb)
    then show ?thesis using set_on_writable_total [OF inv, of sid cb] by auto
  qed simp_all
  then show ?thesis using exec_evolves [OF inv lim ssl] by blast
qed

lemma reach_inv:
  assumes "open_is ssl" "aead_is ssl"
  shows "conn_reach ssl c \<Longrightarrow> conn_inv c"
proof (induction rule: conn_reach.induct)
  case (create alloc_cc cfg is_server c)
  then show ?case using create_inv(1) by blast
next
  case (step c op c')
  then show ?case using exec_evolves [OF _ _ assms] evolves_inv by blast
qed

section \<open>From the sender's frames to the receiver's\<close>

text \<open>OpenSSL's block and stream ciphers do not fail.\<close>

definition mask_total :: "openssl \<Rightarrow> bool" where
  "mask_total ssl \<longleftrightarrow> (\<forall>k b. ossl_aes_ecb ssl k b \<noteq> None) \<and> (\<forall>k iv d. ossl_chacha20 ssl k iv d \<noteq> None)"

lemma hp_protect_works:
  assumes "mask_total ssl" "get_cipher algo" "off + 20 \<le> length p"
  shows "\<exists>p'. nxp_hp_protect ssl algo k p off n = (p', True)"
  using assms by (cases algo)
    (auto simp: nxp_hp_protect_def generate_hp_mask_def mask_total_def get_cipher_def Let_def split: option.splits bind_splits)

lemma hp_protect_form:
  assumes "nxp_hp_protect ssl algo k p off n = (p', True)" "0 < off" "n \<le> 4"
  shows "nxp_pkt_is_long_header (p' ! 0) = nxp_pkt_is_long_header (p ! 0)"
proof -
  obtain m where m: "off + 20 \<le> length p" "p' = xor_at (mask_first p m) off (take n (drop 1 m))"
    using assms(1) by (auto simp: nxp_hp_protect_def Let_def split: if_splits option.splits)
  have "off + length (take n (drop 1 m)) \<le> length (mask_first p m)" "0 < length (mask_first p m)"
    using m(1) assms(3) by auto
  then have "p' ! 0 = mask_first p m ! 0" unfolding m(2) using assms(2) by (subst nth_xor_at) auto
  moreover have "p \<noteq> []" using m(1) by auto
  ultimately show ?thesis by (simp add: mask_first_def nxp_pkt_is_long_header_def form_bit_masked
      nth_list_update)
qed

lemma short_header_first:
  assumes "nxp_pkt_encode_short_header h d len = Some bs" "\<not> sh_spin_bit h" "\<not> sh_key_phase h"
  shows "\<not> nxp_pkt_is_long_header (bs ! 0)" "unat (bs ! 0 AND 0x03) + 1 = sh_pkt_num_len h"
proof -
  have "sh_pkt_num_len h = 1 \<or> sh_pkt_num_len h = 2 \<or> sh_pkt_num_len h = 3 \<or> sh_pkt_num_len h = 4"
    using assms(1) by (auto simp: nxp_pkt_encode_short_header_def split: if_splits)
  moreover have "bs ! 0 = NXP_PKT_FIXED_BIT OR of_nat (sh_pkt_num_len h - 1)"
    using assms by (auto simp: nxp_pkt_encode_short_header_def Let_def split: if_splits)
  ultimately show "\<not> nxp_pkt_is_long_header (bs ! 0)" "unat (bs ! 0 AND 0x03) + 1 = sh_pkt_num_len h"
    by (auto simp: nxp_pkt_is_long_header_def)
qed

lemma short_packet_opens:
  assumes ssl: "aead_is ssl" "mask_is ssl" "mask_total ssl" and keys: "keys_match ks kr"
    and hdr: "nxp_pkt_encode_short_header h (length (cid_data (sh_dcid h))) len = Some hdr" "\<not> sh_spin_bit h" "\<not> sh_key_phase h"
    and seal: "seal_packet ssl ks pn (sh_pkt_num_len h) hdr fb = Some pkt" and fb: "4 \<le> sh_pkt_num_len h + length fb"
  shows "\<exists>ct. nxp_hp_unprotect ssl (cs_algo kr) (ck_hp_key (cs_recv kr)) pkt (1 + length (cid_data (sh_dcid h))) =
      (hdr @ ct, sh_pkt_num_len h) \<and>
    nxp_aead_decrypt ssl (cs_algo kr) (ck_key (cs_recv kr)) (nxp_crypto_make_nonce (ck_iv (cs_recv kr)) pn) hdr ct = Some fb \<and>
    \<not> nxp_pkt_is_long_header (pkt ! 0)"
proof -
  let ?k = "sh_pkt_num_len h" and ?d = "length (cid_data (sh_dcid h))"
  have k: "cs_algo kr = cs_algo ks" "cs_recv kr = cs_send ks" using keys by (auto simp: keys_match_def)
  have hl: "length hdr = 1 + ?d + ?k" "1 \<le> ?k" "?k \<le> 4" using short_header_len [OF hdr(1)] by auto
  obtain ct where ct: "nxp_aead_encrypt ssl (cs_algo ks) (ck_key (cs_send ks)) (nxp_crypto_make_nonce (ck_iv (cs_send ks)) pn) hdr fb = Some ct"
      "pkt = fst (nxp_hp_protect ssl (cs_algo ks) (ck_hp_key (cs_send ks)) (hdr @ ct) (length hdr - ?k) ?k)"
    using seal by (auto simp: seal_packet_def bind_Some_iff)
  have g: "get_cipher (cs_algo ks)" using ct(1) by (auto simp: nxp_aead_encrypt_def split: if_splits)
  have open1: "length ct = length fb + 16"
      "nxp_aead_decrypt ssl (cs_algo ks) (ck_key (cs_send ks)) (nxp_crypto_make_nonce (ck_iv (cs_send ks)) pn) hdr ct = Some fb"
    using aead_roundtrip [OF ssl(1) g, where pt = fb] ct(1) by (metis option.inject)+
  have off: "length hdr - ?k = 1 + ?d" using hl(1) by simp
  have "(1 + ?d) + 20 \<le> length (hdr @ ct)" using hl(1) open1(1) fb by simp
  then obtain p' where p': "nxp_hp_protect ssl (cs_algo ks) (ck_hp_key (cs_send ks)) (hdr @ ct) (1 + ?d) ?k = (p', True)"
    using hp_protect_works [OF ssl(3) g] by blast
  have pkt: "pkt = p'" using ct(2) p' off by simp
  have first: "(hdr @ ct) ! 0 = hdr ! 0" using hl(1) by (simp add: nth_append)
  have n: "?k = unat ((hdr @ ct) ! 0 AND 0x03) + 1" using short_header_first(2) [OF hdr] first by simp
  have "nxp_hp_unprotect ssl (cs_algo ks) (ck_hp_key (cs_send ks)) pkt (1 + ?d) = (hdr @ ct, ?k)"
    using hp_roundtrip(1) [OF ssl(2) _ n p'] pkt by simp
  moreover have "\<not> nxp_pkt_is_long_header (pkt ! 0)"
    using hp_protect_form [OF p'] hl(3) short_header_first(1) [OF hdr] first pkt by simp
  ultimately show ?thesis using open1(2) k by auto
qed

text \<open>The receiver's connection after the header of a datagram was accepted.\<close>

definition after_header :: "nxp_conn \<Rightarrow> nat \<Rightarrow> u64 \<Rightarrow> u64 \<Rightarrow> nxp_conn" where
  "after_header c n pn now_us =
     c\<lparr>cn_last_activity_us := now_us,
       cn_stats := (cn_stats c)\<lparr>stat_bytes_recv := stat_bytes_recv (cn_stats c) + of_nat n,
                     stat_packets_recv := stat_packets_recv (cn_stats c) + 1\<rparr>,
       cn_ack := nxp_ack_on_pkt_recv (cn_ack c) pn now_us True\<rparr>"

lemma recv_opened:
  assumes pkt: "pkt \<noteq> []" "length pkt \<le> 1536" "\<not> nxp_pkt_is_long_header (pkt ! 0)"
    and st: "cn_state p \<noteq> NXP_CONN_CLOSED" "cn_state p \<noteq> NXP_CONN_DRAINING" and av: "cs_available (cn_crypto p)"
    and un: "nxp_hp_unprotect ssl (cs_algo (cn_crypto p)) (ck_hp_key (cs_recv (cn_crypto p))) pkt
        (1 + length (cid_data (cn_scid p))) = (hdr @ ct, k)" "k \<noteq> 0"
    and dec: "nxp_pkt_decode_short_header (hdr @ ct) (length (cid_data (cn_scid p))) = Inr h" "sh_header_len h = length hdr"
    and pn: "nxp_pkt_decode_pkt_num (largest_recv_pn (cn_ack p)) (sh_pkt_num h) (sh_pkt_num_len h) = pn"
    and open1: "nxp_aead_decrypt ssl (cs_algo (cn_crypto p)) (ck_key (cs_recv (cn_crypto p)))
        (nxp_crypto_make_nonce (ck_iv (cs_recv (cn_crypto p))) pn) hdr ct = Some fb"
  shows "nxp_conn_recv ssl al p pkt now = process_frames al now fb (after_header p (length pkt) pn now)"
  using assms by (simp add: nxp_conn_recv_def recv_short_packet_def open_short_payload_def after_header_def Let_def)

lemma send_short_sealed:
  assumes inv: "conn_inv c" and av: "cs_available (cn_crypto c)"
    and send: "send_short_packet ssl grow c max_len now = Some (c', Some pkt)" "pkt \<noteq> []"
  shows "\<exists>c1 fb el recs hdr. assemble c max_len now = Some (c1, fb, el, recs) \<and>
    nxp_pkt_encode_short_header \<lparr>sh_dcid = cn_dcid c, sh_spin_bit = False, sh_key_phase = False,
       sh_pkt_num = cn_next_pkt_num c,
       sh_pkt_num_len = nxp_pkt_num_len (cn_next_pkt_num c) (largest_recv_pn (cn_ack c)), sh_header_len = 0,
       sh_pkt_num_offset = 0\<rparr> (length (cid_data (cn_dcid c))) max_len = Some hdr \<and>
    seal_packet ssl (cn_crypto c) (cn_next_pkt_num c)
      (nxp_pkt_num_len (cn_next_pkt_num c) (largest_recv_pn (cn_ack c))) hdr fb = Some pkt"
proof -
  have len: "1 + length (cid_data (cn_dcid c)) + nxp_pkt_num_len (cn_next_pkt_num c) (largest_recv_pn (cn_ack c)) + 1 +
    (if cs_available (cn_crypto c) then NXP_AEAD_TAG_LEN else 0) \<le> max_len"
    using send by (auto simp: send_short_packet_def Let_def not_less split: if_splits)
  obtain c1 fb el recs where a: "assemble c max_len now = Some (c1, fb, el, recs)"
    using send(1) unfolding send_short_packet_eq [OF len] by (auto simp: Let_def bind_Some_iff)
  have "cn_dcid c1 = cn_dcid c" "cn_crypto c1 = cn_crypto c" "cn_next_pkt_num c1 = cn_next_pkt_num c"
    using assemble_ok(1) [OF inv a] by (auto simp: send_step_def same_keys_def)
  then show ?thesis using send a av unfolding send_short_packet_eq [OF len]
    by (auto simp: Let_def bind_Some_iff split: if_splits option.splits)
qed

text \<open>The moment of the datagram: \<^verbatim>\<open>nxp_conn_send\<close> first notes the time and refills the pacer.\<close>

definition at_send :: "nxp_conn \<Rightarrow> u64 \<Rightarrow> nxp_conn" where
  "at_send c now_us = c\<lparr>cn_last_activity_us := now_us, cn_pacer := nxp_pacer_update (cn_pacer c) now_us\<rparr>"

lemma conn_send_short:
  assumes "nxp_conn_send ssl grow c max_len now = Some (c', Some pkt)" "pkt \<noteq> []"
    "case cn_handshake c of None \<Rightarrow> True | Some hs \<Rightarrow> \<not> nxp_handshake_has_data hs"
  shows "send_short_packet ssl grow (at_send c now) max_len now = Some (c', Some pkt)"
  using assms by (auto simp: nxp_conn_send_def at_send_def Let_def split: if_splits option.splits)

lemma at_send_keeps: "conn_inv (at_send c now) = conn_inv c"
  by (simp add: at_send_def)

text \<open>The packet number the peer reconstructs: inside the window the sender's length allows.\<close>

definition pn_in_window :: "nxp_conn \<Rightarrow> nxp_conn \<Rightarrow> bool" where
  "pn_in_window c p \<longleftrightarrow>
     (let pn = unat (cn_next_pkt_num c); la = unat (largest_recv_pn (cn_ack p));
          h = 2 ^ (8 * nxp_pkt_num_len (cn_next_pkt_num c) (largest_recv_pn (cn_ack c))) div 2 in
      pn < 2 ^ 62 \<and> la < 2 ^ 62 \<and> la + 1 < pn + h \<and> pn \<le> la + 1 + h)"

lemma conn_delivery:
  assumes ssl: "aead_is ssl" "mask_is ssl" "mask_total ssl" and inv: "conn_inv c"
    and send: "nxp_conn_send ssl grow c max_len now = Some (c', Some pkt)"
    and hs: "case cn_handshake c of None \<Rightarrow> True | Some hs \<Rightarrow> \<not> nxp_handshake_has_data hs"
    and size: "21 + length (cid_data (cn_dcid c)) \<le> length pkt" "length pkt \<le> 1536"
    and peer: "keys_match (cn_crypto c) (cn_crypto p)" "cn_scid p = cn_dcid c" "pn_in_window c p"
      "cn_state p \<noteq> NXP_CONN_CLOSED" "cn_state p \<noteq> NXP_CONN_DRAINING"
  shows "\<exists>c1 fb el recs. assemble (at_send c now) max_len now = Some (c1, fb, el, recs) \<and>
    nxp_conn_recv ssl al p pkt now' = process_frames al now' fb (after_header p (length pkt) (cn_next_pkt_num c) now')"
proof -
  let ?k = "nxp_pkt_num_len (cn_next_pkt_num c) (largest_recv_pn (cn_ack c))"
  define h where "h = \<lparr>sh_dcid = cn_dcid c, sh_spin_bit = False, sh_key_phase = False,
       sh_pkt_num = cn_next_pkt_num c, sh_pkt_num_len = ?k, sh_header_len = 0, sh_pkt_num_offset = 0\<rparr>"
  have k0: "0 < ?k" using pkt_num_len_range(1) [of "cn_next_pkt_num c" "largest_recv_pn (cn_ack c)"] by linarith
  have ne: "pkt \<noteq> []" using size(1) by auto
  have av: "cs_available (cn_crypto c)" "cs_available (cn_crypto p)" using peer(1) by (auto simp: keys_match_def)
  obtain c1 fb el recs hdr where a: "assemble (at_send c now) max_len now = Some (c1, fb, el, recs)"
      "nxp_pkt_encode_short_header h (length (cid_data (cn_dcid c))) max_len = Some hdr"
      "seal_packet ssl (cn_crypto c) (cn_next_pkt_num c) ?k hdr fb = Some pkt"
    using send_short_sealed [OF _ _ conn_send_short [OF send ne hs] ne] inv av(1)
    by (auto simp: at_send_keeps h_def) (auto simp: at_send_def)
  have hd: "length hdr = 1 + length (cid_data (cn_dcid c)) + ?k" using short_header_len [OF a(2)] by (simp add: h_def)
  have fb: "4 \<le> ?k + length fb"
    using seal_packet_len [OF ssl(1) a(3) pkt_num_len_range(2)] hd size(1) by simp
  obtain ct where ct: "nxp_hp_unprotect ssl (cs_algo (cn_crypto p)) (ck_hp_key (cs_recv (cn_crypto p))) pkt
        (1 + length (cid_data (cn_dcid c))) = (hdr @ ct, ?k)"
      "nxp_aead_decrypt ssl (cs_algo (cn_crypto p)) (ck_key (cs_recv (cn_crypto p)))
        (nxp_crypto_make_nonce (ck_iv (cs_recv (cn_crypto p))) (cn_next_pkt_num c)) hdr ct = Some fb"
      "\<not> nxp_pkt_is_long_header (pkt ! 0)"
    using short_packet_opens [OF ssl peer(1), of h max_len hdr "cn_next_pkt_num c" fb pkt] a(2,3) fb by (auto simp: h_def)
  let ?h = "h\<lparr>sh_pkt_num := take_bit (8 * ?k) (cn_next_pkt_num c), sh_header_len := length hdr,
      sh_pkt_num_offset := 1 + length (cid_data (cn_dcid c))\<rparr>"
  have dec: "nxp_pkt_decode_short_header (hdr @ ct) (length (cid_data (cn_dcid c))) = Inr ?h"
    using short_header_roundtrip [OF a(2), of ct] by (simp add: h_def)
  have "nxp_pkt_decode_pkt_num (largest_recv_pn (cn_ack p)) (take_bit (8 * ?k) (cn_next_pkt_num c)) ?k = cn_next_pkt_num c"
    using decode_pkt_num_correct [OF pkt_num_len_range] peer(3) unfolding pn_in_window_def Let_def by blast
  then have "nxp_conn_recv ssl al p pkt now' = process_frames al now' fb (after_header p (length pkt) (cn_next_pkt_num c) now')"
    using recv_opened [OF ne size(2) ct(3) peer(4,5) av(2) _ _ _ _ _ ct(2), of ?k ?h al now'] ct(1) dec k0
    by (simp add: peer(2) h_def del: One_nat_def)
  then show ?thesis using a(1) by blast
qed

section \<open>Rate limits stall the sender\<close>

text \<open>The only scheduled stream has data, the connection may send it, and its rate limiter has no
  budget at time \<open>now\<close>.\<close>

definition starved :: "nat \<Rightarrow> u64 \<Rightarrow> stream_state \<Rightarrow> bool" where
  "starved fs now st \<longleftrightarrow> (case st of (c, fb, el, recs) \<Rightarrow>
     length fb < fs \<and> length recs < 8 \<and>
     (\<exists>x s. sched_repr c [x] \<and> stream_mem c x = Some s \<and> stream_has_data s \<and>
        nxp_flow_can_send (cn_conn_flow c) 1 \<and> sr_enabled (st_rate_limit s) \<and>
        nxp_stream_rate_budget (nxp_stream_rate_update (st_rate_limit s) now) = 0))"

lemma starved_step:
  assumes "starved fs now st"
  shows "\<exists>c'. stream_step fs now st = Some (True, c', snd st) \<and> starved fs now (c', snd st)"
proof -
  obtain c fb el recs x s where st: "st = (c, fb, el, recs)" "length fb < fs" "length recs < 8" "sched_repr c [x]"
      "stream_mem c x = Some s" "stream_has_data s" "nxp_flow_can_send (cn_conn_flow c) 1" "sr_enabled (st_rate_limit s)"
      "nxp_stream_rate_budget (nxp_stream_rate_update (st_rate_limit s) now) = 0"
    using assms by (auto simp: starved_def)
  obtain c1 where c1: "nxp_sched_next c = Some (Some x, c1)" "pool_only c c1" "pool_data c1 = pool_data c" "sched_repr c1 [x]"
    using sched_next_spec [OF st(4)] st(5,6) by (auto simp: pool_data_def)
  have flow: "cn_conn_flow c1 = cn_conn_flow c" using c1(2) by (auto elim!: pool_onlyE)
  obtain t where t: "stream_mem c1 x = Some t" "unlinked t = unlinked s" using pool_data_eqD [OF c1(3) st(5)] by blast
  have r: "st_rate_limit t = st_rate_limit s" "stream_has_data t"
    using unlinked_eqD(3) [OF t(2)] st(6) stream_has_data_unlinked [of t] stream_has_data_unlinked [of s] t(2) by simp_all
  let ?u = "st_rate_limit_update (\<lambda>r. nxp_stream_rate_update r now) t"
  let ?d = "c1\<lparr>stream_mem := (stream_mem c1)(x \<mapsto> ?u\<lparr>st_blocked := True\<rparr>)\<rparr>"
  have "stream_step fs now st = Some (True, ?d, fb, el, recs)"
    using c1(1) t(1) st(7,8,9) r(1) flow by (simp add: st(1) stream_step_def upd_stream_def Let_def)
  moreover have "sched_repr ?d [x]" by (rule sched_repr_upd [OF c1(4) t(1)]) simp_all
  moreover have "stream_has_data (?u\<lparr>st_blocked := True\<rparr>)"
    using r(2) by (simp add: stream_has_data_def nxp_stream_unsent_def)
  ultimately have "starved fs now (?d, fb, el, recs)"
    unfolding starved_def prod.case using st r(1) flow
    by (intro conjI exI [of _ x] exI [of _ "?u\<lparr>st_blocked := True\<rparr>"])
      (simp_all add: rate_update_twice rate_update_enabled)
  then show ?thesis using \<open>stream_step fs now st = Some (True, ?d, fb, el, recs)\<close> by (auto simp: st(1))
qed

lemma starved_loop: "stream_loop fs now st = Some st' \<Longrightarrow> \<not> starved fs now st"
proof (erule stream_loop.raw_induct [rotated])
  fix loop fs now st and st' :: stream_state
  assume IH: "\<And>fs now st st'. loop fs now st = Some st' \<Longrightarrow> \<not> starved fs now st"
    and body: "(if length (fst (snd st)) < fs \<and> length (snd (snd (snd st))) < 8 then do {
        (go, st) \<leftarrow> stream_step fs now st;
        if go then loop fs now st else Some st }
      else Some st) = Some st'"
  show "\<not> starved fs now st"
  proof
    assume s: "starved fs now st"
    obtain st1 where "stream_step fs now st = Some (True, st1)" "starved fs now st1" using starved_step [OF s] by blast
    moreover have "length (fst (snd st)) < fs" "length (snd (snd (snd st))) < 8" using s by (auto simp: starved_def)
    ultimately show False using IH [of fs now st1 st'] body by simp
  qed
qed

text \<open>The state after \<open>n\<close> rounds of the loop, when it made them without ending and without
  leaving the memory of the connection.\<close>

fun stream_iter :: "nat \<Rightarrow> nat \<Rightarrow> u64 \<Rightarrow> stream_state \<Rightarrow> stream_state option" where
  "stream_iter 0 fs now st = Some st"
| "stream_iter (Suc n) fs now st =
     (if length (fst (snd st)) < fs \<and> length (snd (snd (snd st))) < NXP_MAX_STREAM_FRAMES_PER_PKT then
        (case stream_step fs now st of Some (True, st') \<Rightarrow> stream_iter n fs now st' | _ \<Rightarrow> None)
      else None)"

lemma starved_iter: "starved fs now st \<Longrightarrow> \<exists>c'. stream_iter n fs now st = Some (c', snd st)"
proof (induction n arbitrary: st)
  case 0
  then show ?case by (cases st) simp
next
  case (Suc n)
  obtain c' where c': "stream_step fs now st = Some (True, c', snd st)" "starved fs now (c', snd st)"
    using starved_step [OF Suc.prems] by blast
  moreover have "length (fst (snd st)) < fs" "length (snd (snd (snd st))) < 8" using Suc.prems by (auto simp: starved_def)
  ultimately show ?case using Suc.IH [OF c'(2)] by simp
qed

text \<open>\<^verbatim>\<open>nxp_conn_send\<close> comes to its loop over the streams, in the state \<open>st\<close>.\<close>

definition enters_loop :: "nxp_conn \<Rightarrow> nat \<Rightarrow> u64 \<Rightarrow> stream_state \<Rightarrow> bool" where
  "enters_loop c max_len now st \<longleftrightarrow>
     \<not> hs_pending c \<and> (cn_state c = NXP_CONN_ESTABLISHED \<or> cn_state c = NXP_CONN_CLOSING) \<and>
     (nxp_pacer_can_send (cn_pacer (at_send c now)) 1200 \<or> has_control_frames (at_send c now)) \<and>
     1 + length (cid_data (cn_dcid c)) + nxp_pkt_num_len (cn_next_pkt_num c) (largest_recv_pn (cn_ack c)) + 1 +
       (if cs_available (cn_crypto c) then NXP_AEAD_TAG_LEN else 0) \<le> max_len \<and>
     (\<exists>c' fb el. put_control_frames (frame_space_of c max_len) now (at_send c now) = (c', fb, el) \<and> cc_allows c' \<and>
        st = (c', fb, el, []))"

lemma enters_loop_send:
  assumes "enters_loop c max_len now st" "stream_loop (frame_space_of c max_len) now st = None"
  shows "nxp_conn_send ssl grow c max_len now = None"
proof -
  let ?c = "at_send c now"
  have fs: "frame_space_of ?c max_len = frame_space_of c max_len" by (simp add: frame_space_of_def at_send_def)
  then have "assemble ?c max_len now = None" using assms by (auto simp: assemble_def enters_loop_def)
  moreover have "1 + length (cid_data (cn_dcid ?c)) + nxp_pkt_num_len (cn_next_pkt_num ?c) (largest_recv_pn (cn_ack ?c)) + 1 +
      (if cs_available (cn_crypto ?c) then NXP_AEAD_TAG_LEN else 0) \<le> max_len"
    using assms(1) by (simp add: enters_loop_def at_send_def)
  ultimately have "send_short_packet ssl grow ?c max_len now = None" by (simp add: send_short_packet_eq Let_def)
  then show ?thesis using assms(1) unfolding nxp_conn_send_def at_send_def [symmetric] Let_def
    by (auto simp: enters_loop_def hs_pending_def)
qed

section \<open>Properties\<close>

lemma create_some: "\<exists>c. nxp_conn_create True True True True alloc_cc cfg is_server = Some c"
  by (simp add: nxp_conn_create_def nxp_hash_map_create_def Let_def)

lemma create_limits:
  "nxp_conn_create True True True True alloc_cc cfg is_server = Some c \<Longrightarrow> within_limits c"
  by (auto simp: nxp_conn_create_def Let_def bind_Some_iff within_limits_def nxp_ack_init_def)

lemma toy_ssl_more: "open_is toy_ssl" "mask_total toy_ssl"
  by (auto simp: toy_ssl_def open_is_def mask_total_def)

lemma write_one:
  assumes s: "nxp_stream_create True True True sid ty 262144 262144 = Some s"
  shows "\<exists>t. nxp_stream_write (s\<lparr>st_rate_limit := r\<rparr>) [b] False = Some (t, Some 1) \<and> nxp_stream_unsent t = 1 \<and>
    st_rate_limit t = r \<and> keeps (s\<lparr>st_rate_limit := r\<rparr>) t"
proof -
  have f: "length (snd_data (st_send s)) = 65536" "snd_cap (st_send s) = 65536" "write_offset (st_send s) = 0"
      "sent_offset (st_send s) = 0" "acked_offset (st_send s) = 0" "\<not> snd_fin (st_send s)"
      "peer_max_data (st_flow s) = 262144" "st_state s = NXP_STREAM_OPEN"
    using s by (auto simp: nxp_stream_create_def nxp_flow_init_def)
  obtain d where "circ_write (snd_data (st_send s)) 0 [b] = Some d" "length d = 65536"
    using circ_write_len [OF f(1), of 0 "[b]"] by auto
  then show ?thesis using f by (simp add: nxp_stream_write_def nxp_stream_unsent_def keeps_def stream_ok_def Let_def)
qed

lemma add_stream_fails:
  assumes "add_stream al sid type c = Some (d, None)"
  shows "\<not> (al_stream al \<and> al_send al \<and> al_recv al)"
  using assms by (auto simp: add_stream_def nxp_stream_create_def Let_def bind_Some_iff split: option.splits if_splits)

text \<open>A connection that is established without a handshake, so that its packets are plain.\<close>

definition plain_conn :: nxp_conn where
  "plain_conn = nxp_conn_set_established (the (nxp_conn_create True True True True True
       \<lparr>cfg_scid = \<lparr>cid_data = [7]\<rparr>, cfg_peer_dcid_len = 1, cfg_peer_addr = \<lparr>addr_raw = []\<rparr>, cfg_idle_timeout_us = 0,
        cfg_initial_max_data = 0, cfg_initial_max_stream_data = 0, cfg_max_streams_bidi = 0, cfg_max_streams_uni = 0\<rparr>
       True)) \<lparr>cid_data = [7]\<rparr>"

lemma plain_conn_fields:
  "cn_state plain_conn = NXP_CONN_ESTABLISHED" "stream_mem plain_conn = Map.empty" "sched_head plain_conn = None"
  "cn_next_ptr plain_conn = 0" "cn_is_server plain_conn" "cn_next_bidi_id plain_conn = 0" "cn_open_bidi_count plain_conn = 0"
  "cn_peer_max_streams_bidi plain_conn = 256" "cn_initial_max_stream_data plain_conn = 262144" "cn_handshake plain_conn = None"
  "cn_ack plain_conn = nxp_ack_init True" "cn_next_pkt_num plain_conn = 0" "cn_dcid plain_conn = \<lparr>cid_data = [7]\<rparr>"
  "cn_pacer plain_conn = nxp_pacer_init" "cn_migration plain_conn = nxp_migration_init"
  "cn_heartbeat plain_conn = nxp_heartbeat_init 0" "\<not> cn_send_ping plain_conn" "\<not> cn_send_conn_close plain_conn"
  "cn_conn_flow plain_conn = nxp_flow_init 1048576 1048576" "cn_crypto plain_conn = zero_crypto_state" "cn_cc plain_conn = bbr_create True"
  by (simp_all add: plain_conn_def nxp_conn_set_established_def set_conn_state_def nxp_conn_create_def nxp_hash_map_create_def Let_def)

lemma plain_conn_ok: "conn_reach toy_ssl plain_conn" "within_limits plain_conn"
proof -
  let ?cfg = "\<lparr>cfg_scid = \<lparr>cid_data = [7]\<rparr>, cfg_peer_dcid_len = 1, cfg_peer_addr = \<lparr>addr_raw = []\<rparr>, cfg_idle_timeout_us = 0,
        cfg_initial_max_data = 0, cfg_initial_max_stream_data = 0, cfg_max_streams_bidi = 0, cfg_max_streams_uni = 0\<rparr>"
  obtain c where c: "nxp_conn_create True True True True True ?cfg True = Some c" using create_some by blast
  have "conn_exec toy_ssl (Set_established \<lparr>cid_data = [7]\<rparr>) c = Some plain_conn" by (simp add: plain_conn_def c)
  then show "conn_reach toy_ssl plain_conn" using conn_reach.step [OF conn_reach.create [OF c] create_limits [OF c]] by blast
  show "within_limits plain_conn" by (simp add: within_limits_def plain_conn_fields nxp_ack_init_def)
qed

text \<open>That connection after opening a stream, limiting its rate and writing a byte to it.\<close>

lemma plain_open:
  obtains s m where "nxp_stream_create True True True 1 NXP_STREAM_RELIABLE 262144 262144 = Some s"
    "hm_inv m" "hm_abs m 1 = Some (Some 0)"
    "nxp_conn_open_stream \<lparr>al_stream = True, al_send = True, al_recv = True, al_grow = True\<rparr> plain_conn NXP_STREAM_RELIABLE False =
      Some (plain_conn\<lparr>stream_mem := [0 \<mapsto> s], cn_next_ptr := 1, cn_streams := m, cn_next_bidi_id := 1, cn_open_bidi_count := 1,
        cn_stats := (cn_stats plain_conn)\<lparr>stat_streams_opened := stat_streams_opened (cn_stats plain_conn) + 1\<rparr>\<rparr>, Inr 1)"
proof -
  note f = plain_conn_fields
  have inv: "conn_inv plain_conn" using reach_inv [OF toy_ssl_more(1) toy_ssl_ok(3) plain_conn_ok(1)] .
  obtain s where s: "nxp_stream_create True True True 1 NXP_STREAM_RELIABLE 262144 262144 = Some s"
    by (simp add: nxp_stream_create_def)
  have hm: "hm_inv (cn_streams plain_conn)" using inv by (simp add: conn_inv_def)
  have card: "card (dom (hm_abs (cn_streams plain_conn))) < 2 ^ 23" using conn_streams_card [OF inv] by (simp add: f)
  obtain m r where m: "nxp_hash_map_put True (cn_streams plain_conn) 1 (Some 0) = Some (m, r)" "hm_inv m"
      "hm_abs m = (hm_abs (cn_streams plain_conn))(1 \<mapsto> Some 0)"
    by (rule put_any [OF hm card, where a = True and k = 1 and v = "Some 0"]) blast
  have "make_stream_id 0 NXP_STREAM_RELIABLE False True = 1" by (simp add: make_stream_id_def)
  then show thesis using m by (intro that [OF s m(2)]) (simp_all add: nxp_conn_open_stream_def add_stream_def s f)
qed

lemma plain_write:
  assumes s: "nxp_stream_create True True True 1 NXP_STREAM_RELIABLE 262144 262144 = Some s"
    and c: "cn_state c = NXP_CONN_ESTABLISHED" "stream_mem c = [0 \<mapsto> s\<lparr>st_rate_limit := r\<rparr>]" "sched_head c = None"
      "hm_inv (cn_streams c)" "hm_abs (cn_streams c) 1 = Some (Some 0)"
  obtains d t where "nxp_conn_stream_send c 1 [65] False = Some (d, Some 1)" "sched_repr d [0]" "stream_mem d = [0 \<mapsto> t]"
    "nxp_stream_unsent t = 1" "st_rate_limit t = r" "d = c\<lparr>sched_head := sched_head d, stream_mem := stream_mem d\<rparr>"
proof -
  obtain u where u: "nxp_stream_write (s\<lparr>st_rate_limit := r\<rparr>) [65] False = Some (u, Some 1)" "nxp_stream_unsent u = 1"
      "st_rate_limit u = r" "keeps (s\<lparr>st_rate_limit := r\<rparr>) u" using write_one [OF s] by blast
  let ?u = "u\<lparr>sched_next := Some 0, sched_prev := Some 0, scheduled := True\<rparr>"
  let ?d = "c\<lparr>sched_head := Some 0, stream_mem := [0 \<mapsto> ?u]\<rparr>"
  have g: "nxp_hash_map_get (cn_streams c) 1 = Some (Some 0)" using get_spec [OF c(4)] c(5) by (simp add: deref_def)
  have "\<not> scheduled u" using u(4) create_ok(3) [OF s] by (simp add: keeps_def)
  then have a: "nxp_sched_add (c\<lparr>stream_mem := [0 \<mapsto> u]\<rparr>) 0 = Some (c\<lparr>sched_head := Some 0, stream_mem := [0 \<mapsto> ?u]\<rparr>)"
    using c(3) by (simp add: nxp_sched_add_def upd_stream_def)
  have "nxp_conn_stream_send c 1 [65] False = Some (c\<lparr>sched_head := Some 0, stream_mem := [0 \<mapsto> ?u]\<rparr>, Some 1)"
    using c(1,2) g u(1) a by (simp add: nxp_conn_stream_send_def upd_stream_def)
  moreover have "sched_repr (c\<lparr>sched_head := Some 0, stream_mem := [0 \<mapsto> ?u]\<rparr>) [0]" by (auto simp: sched_repr_def ring_def)
  moreover have "nxp_stream_unsent ?u = nxp_stream_unsent u" by (simp add: nxp_stream_unsent_def)
  moreover have "?d = c\<lparr>sched_head := sched_head ?d, stream_mem := stream_mem ?d\<rparr>" "stream_mem ?d = [0 \<mapsto> ?u]" by simp_all
  ultimately show thesis using u(2,3) that [of ?d ?u] by simp
qed

lemma limited_conn:
  obtains c s m t where "conn_reach toy_ssl c" "within_limits c" "sched_repr c [0]" "stream_mem c = [0 \<mapsto> s]"
    "nxp_stream_unsent s = 1" "st_rate_limit s = nxp_stream_rate_set nxp_stream_rate_init bps"
    "c = plain_conn\<lparr>cn_next_ptr := 1, cn_streams := m, cn_next_bidi_id := 1,
       cn_open_bidi_count := 1, cn_stats := t, sched_head := sched_head c, stream_mem := stream_mem c\<rparr>"
proof -
  let ?al = "\<lparr>al_stream = True, al_send = True, al_recv = True, al_grow = True\<rparr>"
  let ?t = "(cn_stats plain_conn)\<lparr>stat_streams_opened := stat_streams_opened (cn_stats plain_conn) + 1\<rparr>"
  let ?r = "nxp_stream_rate_set nxp_stream_rate_init bps"
  obtain s m where s: "nxp_stream_create True True True 1 NXP_STREAM_RELIABLE 262144 262144 = Some s"
      and m: "hm_inv m" "hm_abs m 1 = Some (Some 0)"
      and op: "nxp_conn_open_stream ?al plain_conn NXP_STREAM_RELIABLE False =
      Some (plain_conn\<lparr>stream_mem := [0 \<mapsto> s], cn_next_ptr := 1, cn_streams := m, cn_next_bidi_id := 1, cn_open_bidi_count := 1,
        cn_stats := ?t\<rparr>, Inr 1)" by (rule plain_open)
  define c0 where "c0 = plain_conn\<lparr>stream_mem := [0 \<mapsto> s], cn_next_ptr := 1, cn_streams := m, cn_next_bidi_id := 1,
        cn_open_bidi_count := 1, cn_stats := ?t\<rparr>"
  define c1 where "c1 = c0\<lparr>stream_mem := [0 \<mapsto> s\<lparr>st_rate_limit := ?r\<rparr>]\<rparr>"
  have f: "stream_mem c0 = [0 \<mapsto> s]" "cn_streams c0 = m" "within_limits c0" "cn_state c0 = NXP_CONN_ESTABLISHED" "sched_head c0 = None"
    using plain_conn_ok(2) by (simp_all add: c0_def within_limits_def plain_conn_fields)
  have r0: "conn_reach toy_ssl c0"
    by (rule conn_reach.step [OF plain_conn_ok, of "Open_stream ?al NXP_STREAM_RELIABLE False"]) (simp add: op c0_def)
  have "nxp_hash_map_get m 1 = Some (Some 0)" using get_spec [OF m(1)] m(2) by (simp add: deref_def)
  moreover have "st_rate_limit_update (\<lambda>r. nxp_stream_rate_set r bps) s = s\<lparr>st_rate_limit := ?r\<rparr>"
    using s by (auto simp: nxp_stream_create_def)
  ultimately have "conn_exec toy_ssl (Set_stream_rate 1 bps) c0 = Some c1"
    using f by (simp add: nxp_conn_set_stream_rate_def upd_stream_def c1_def)
  then have "conn_reach toy_ssl c1" by (rule conn_reach.step [OF r0 f(3)])
  moreover have "within_limits c1" using f(3) by (simp add: c1_def within_limits_def)
  ultimately have r1: "conn_reach toy_ssl c1" "within_limits c1" by blast+
  obtain d t where d: "nxp_conn_stream_send c1 1 [65] False = Some (d, Some 1)" "sched_repr d [0]" "stream_mem d = [0 \<mapsto> t]"
      "nxp_stream_unsent t = 1" "st_rate_limit t = ?r" "d = c1\<lparr>sched_head := sched_head d, stream_mem := stream_mem d\<rparr>"
    by (rule plain_write [OF s, of c1 ?r]) (use m f in \<open>simp_all add: c1_def\<close>)
  have "conn_reach toy_ssl d" by (rule conn_reach.step [OF r1, of "Stream_send 1 [65] False"]) (simp add: d(1))
  moreover have "within_limits d" by (subst d(6)) (use r1(2) in \<open>simp add: within_limits_def\<close>)
  moreover have "d = plain_conn\<lparr>cn_next_ptr := 1, cn_streams := m, cn_next_bidi_id := 1,
       cn_open_bidi_count := 1, cn_stats := ?t, sched_head := sched_head d, stream_mem := stream_mem d\<rparr>"
    by (subst d(6)) (simp add: c1_def c0_def)
  ultimately show thesis using that d(2-5) by blast
qed

lemma limited_enters:
  assumes "c = plain_conn\<lparr>cn_next_ptr := 1, cn_streams := m, cn_next_bidi_id := 1,
       cn_open_bidi_count := 1, cn_stats := t, sched_head := sched_head c, stream_mem := stream_mem c\<rparr>"
  shows "enters_loop c 1200 50 (at_send c 50, [], False, [])" "frame_space_of c 1200 = 1197"
    "cn_conn_flow c = nxp_flow_init 1048576 1048576"
proof -
  note f = plain_conn_fields
  have g: "cn_state c = NXP_CONN_ESTABLISHED" "cn_handshake c = None" "cn_ack c = nxp_ack_init True" "cn_next_pkt_num c = 0"
    "cn_dcid c = \<lparr>cid_data = [7]\<rparr>" "cn_pacer c = nxp_pacer_init" "cn_migration c = nxp_migration_init"
    "cn_heartbeat c = nxp_heartbeat_init 0" "\<not> cn_send_ping c" "\<not> cn_send_conn_close c"
    "cn_conn_flow c = nxp_flow_init 1048576 1048576" "cn_crypto c = zero_crypto_state" "cn_cc c = bbr_create True"
    by (subst assms, simp add: f)+
  show "frame_space_of c 1200 = 1197"
    by (simp add: frame_space_of_def g nxp_ack_init_def nxp_pkt_num_len_def zero_crypto_state_def)
  show "cn_conn_flow c = nxp_flow_init 1048576 1048576" by (rule g)
  show "enters_loop c 1200 50 (at_send c 50, [], False, [])"
  proof -
    have q: "\<not> nxp_flow_should_update (nxp_flow_init 1048576 1048576)" by code_simp
    have p: "cn_pacer (at_send c 50) = nxp_pacer_init" by (simp add: at_send_def g nxp_pacer_update_def nxp_pacer_init_def)
    have "put_control_frames 1197 50 (at_send c 50) = (at_send c 50, [], False)"
      by (simp add: put_control_frames_def put_ack_def put_close_def put_ping_def put_max_data_def put_path_response_def
          put_path_challenge_def put_retire_cid_def put_echo_def put_heartbeat_def g q nxp_ack_init_def nxp_migration_init_def
          nxp_heartbeat_init_def at_send_def Let_def)
    moreover have "cc_allows (at_send c 50)"
      by (simp add: cc_allows_def at_send_def g bbr_create_def nxp_ack_init_def) code_simp
    ultimately show ?thesis using p \<open>frame_space_of c 1200 = 1197\<close>
      by (auto simp: enters_loop_def g hs_pending_def nxp_pacer_can_send_def nxp_pacer_init_def nxp_pkt_num_len_def nxp_ack_init_def
          zero_crypto_state_def)
  qed
qed

lemma limited_funded:
  assumes "stream_mem c = [0 \<mapsto> s]" "st_rate_limit s = nxp_stream_rate_set nxp_stream_rate_init 48000" "\<not> hs_pending c"
  shows "send_ok 1200 50 c"
proof -
  have "1200 \<le> unat (nxp_stream_rate_budget (nxp_stream_rate_update (nxp_stream_rate_set nxp_stream_rate_init 48000) 50))"
    by code_simp
  then show ?thesis using assms by (auto simp: send_ok_def funded_def split: if_splits)
qed

text \<open>C1. A connection is safe in every run. Whatever operations the application, the network and
  the clock have performed on a connection since its creation (with all its allocations
  successful), the next operation, in particular any datagram whatsoever and any change of a
  stream's rate limit, stays inside the connection's memory and returns, moves the state only
  along the transitions the state machine allows and never sends more data than the peer
  permits. The caller has two obligations. A call of \<^verbatim>\<open>nxp_conn_send\<close> needs at least 1200
  bytes of buffer while handshake data waits, and otherwise every rate-limited stream with data a
  budget for the datagram. A read with a buffer above 64 KB needs at most 64 KB of unread data.
  The counters must be below the limits where they overflow: \<open>2 ^ 23\<close> streams, \<open>2 ^ 31\<close> entries of
  sent packets, 64 probe timeouts in a row.
\<close>

theorem nxp_conn_run_safe:
  assumes "conn_reach ssl c" "within_limits c" "op_ok c op" "open_is ssl" "aead_is ssl"
  shows "\<exists>c'. conn_exec ssl op c = Some c' \<and> is_valid_conn_state_transition\<^sup>*\<^sup>* (cn_state c) (cn_state c') \<and>
    data_sent (cn_conn_flow c') \<le> peer_max_data (cn_conn_flow c')"
proof -
  obtain c' where "conn_exec ssl op c = Some c'" "evolves 1536 c c'"
    using exec_total [OF reach_inv [OF assms(4,5,1)] assms(2-5)] by blast
  then show ?thesis by (auto simp: evolves_def conn_path_def conn_inv_def)
qed

theorem nxp_conn_run_safe_witness:
  "\<exists>c c' s. conn_reach toy_ssl c \<and> stream_mem c 0 = Some s \<and> sr_enabled (st_rate_limit s) \<and> stream_has_data s \<and>
     conn_exec toy_ssl (Send True 1200 50) c = Some c' \<and>
     is_valid_conn_state_transition\<^sup>*\<^sup>* (cn_state c) (cn_state c')"
proof -
  obtain c s m t where c: "conn_reach toy_ssl c" "within_limits c" "sched_repr c [0]" "stream_mem c = [0 \<mapsto> s]"
      "nxp_stream_unsent s = 1" "st_rate_limit s = nxp_stream_rate_set nxp_stream_rate_init 48000"
      and e: "c = plain_conn\<lparr>cn_next_ptr := 1, cn_streams := m, cn_next_bidi_id := 1,
       cn_open_bidi_count := 1, cn_stats := t, sched_head := sched_head c, stream_mem := stream_mem c\<rparr>"
    by (rule limited_conn [of 48000])
  have "send_ok 1200 50 c" using limited_funded [OF c(4,6)] limited_enters(1) [OF e] by (simp add: enters_loop_def)
  then have "op_ok c (Send True 1200 50)" by simp
  moreover have "sr_enabled (st_rate_limit s)" unfolding c(6) by code_simp
  moreover have "stream_mem c 0 = Some s" "stream_has_data s" using c(4,5) by (simp_all add: stream_has_data_def)
  ultimately show ?thesis
    using nxp_conn_run_safe [OF c(1,2) _ toy_ssl_more(1) toy_ssl_ok(3), of "Send True 1200 50"] c(1) by blast
qed

text \<open>C27. A closed connection stays closed: no operation leads out of the state CLOSED, and a
  datagram for a closed or draining connection is refused and changes nothing.
\<close>

theorem nxp_conn_closed_final:
  assumes "conn_reach ssl c" "within_limits c" "open_is ssl" "aead_is ssl" "cn_state c = NXP_CONN_CLOSED"
    "conn_exec ssl op c = Some c'"
  shows "cn_state c' = NXP_CONN_CLOSED \<and>
    nxp_conn_recv ssl al c data now =
      Some (c, if data = [] then NXP_ERR_INVALID_ARGUMENT else NXP_ERR_CONNECTION_CLOSED)"
proof -
  have "evolves 1536 c c'"
    using exec_evolves [OF reach_inv [OF assms(3,4,1)] assms(2-4,6)] .
  then show ?thesis using conn_path_closed assms(5) by (auto simp: evolves_def nxp_conn_recv_def)
qed

theorem nxp_conn_closed_final_witness:
  "\<exists>c c'. conn_reach toy_ssl c \<and> cn_state c = NXP_CONN_CLOSED \<and> conn_exec toy_ssl (Set_established \<lparr>cid_data = [1]\<rparr>) c = Some c' \<and>
     cn_state c' = NXP_CONN_CLOSED"
proof -
  let ?cfg = "\<lparr>cfg_scid = \<lparr>cid_data = [7]\<rparr>, cfg_peer_dcid_len = 1, cfg_peer_addr = \<lparr>addr_raw = []\<rparr>,
    cfg_idle_timeout_us = 1000, cfg_initial_max_data = 0, cfg_initial_max_stream_data = 0, cfg_max_streams_bidi = 0,
    cfg_max_streams_uni = 0\<rparr>"
  obtain c0 where c0: "nxp_conn_create True True True True True ?cfg True = Some c0" using create_some by blast
  have f: "cn_handshake c0 = None" "cn_state c0 = NXP_CONN_IDLE" "cn_idle_timeout_us c0 = 1000" "within_limits c0"
    using c0 create_limits [OF c0] by (auto simp: nxp_conn_create_def Let_def bind_Some_iff)
  let ?op = "Recv (\<lambda>_. \<lparr>al_stream = True, al_send = True, al_recv = True, al_grow = True\<rparr>) [0xC0] 1"
  obtain c1 where c1: "conn_exec toy_ssl ?op c0 = Some c1" "cn_last_activity_us c1 = 1" "cn_state c1 = NXP_CONN_IDLE"
      "cn_idle_timeout_us c1 = 1000" "within_limits c1"
    using f by (simp add: nxp_conn_recv_def nxp_pkt_is_long_header_def recv_handshake_packet_def within_limits_def Let_def)
  let ?c2 = "c1\<lparr>cn_state := NXP_CONN_CLOSED\<rparr>"
  have c2: "conn_exec toy_ssl (Timeout 2000) c1 = Some ?c2" "within_limits ?c2"
    using c1 by (simp_all add: nxp_conn_on_timeout_def set_conn_state_def within_limits_def)
  have r: "conn_reach toy_ssl ?c2"
    by (rule conn_reach.step [OF conn_reach.step [OF conn_reach.create [OF c0] f(4) c1(1)] c1(5) c2(1)])
  have x: "conn_exec toy_ssl (Set_established \<lparr>cid_data = [1]\<rparr>) ?c2 =
      Some (nxp_conn_set_established ?c2 \<lparr>cid_data = [1]\<rparr>)" by simp
  show ?thesis using nxp_conn_closed_final [OF r c2(2) toy_ssl_more(1) toy_ssl_ok(3) _ x] r x by auto
qed

text \<open>C10. Sending returns. Building a datagram ends, the datagram fits the buffer it is written to,
  and its table entry, its frames and its encryption stay inside their buffers, in every reachable
  connection below the limits of its counters, provided that the buffer has 1200 bytes while
  handshake data waits and otherwise every rate-limited stream with data has a budget of the
  smaller of the buffer's size and 1536 bytes. Without that budget it may loop for ever.
\<close>

theorem nxp_conn_send_returns:
  assumes "conn_reach ssl c" "within_limits c" "open_is ssl" "aead_is ssl"
    "if hs_pending c then 1200 \<le> max_len else funded now (min 1536 max_len) c"
  shows "\<exists>c' r. nxp_conn_send ssl grow c max_len now = Some (c', r) \<and> (\<forall>pkt. r = Some pkt \<longrightarrow> length pkt \<le> max_len)"
proof -
  have "send_ok max_len now c" using assms(5) by (simp add: send_ok_def)
  then show ?thesis using conn_send_total [OF reach_inv [OF assms(3,4,1)] assms(4)] assms(2)
    unfolding within_limits_def by blast
qed

theorem nxp_conn_send_returns_witness:
  "\<exists>c c' r s. conn_reach toy_ssl c \<and> stream_mem c 0 = Some s \<and> sr_enabled (st_rate_limit s) \<and>
     nxp_conn_send toy_ssl True c 1200 50 = Some (c', r) \<and> (\<forall>pkt. r = Some pkt \<longrightarrow> length pkt \<le> 1200)"
proof -
  obtain c s m t where c: "conn_reach toy_ssl c" "within_limits c" "sched_repr c [0]" "stream_mem c = [0 \<mapsto> s]"
      "nxp_stream_unsent s = 1" "st_rate_limit s = nxp_stream_rate_set nxp_stream_rate_init 48000"
      and e: "c = plain_conn\<lparr>cn_next_ptr := 1, cn_streams := m, cn_next_bidi_id := 1,
       cn_open_bidi_count := 1, cn_stats := t, sched_head := sched_head c, stream_mem := stream_mem c\<rparr>"
    by (rule limited_conn [of 48000])
  have ok: "if hs_pending c then 1200 \<le> (1200 :: nat) else funded 50 (min 1536 1200) c"
    using limited_funded [OF c(4,6)] limited_enters(1) [OF e] by (simp add: enters_loop_def send_ok_def)
  moreover have "sr_enabled (st_rate_limit s)" unfolding c(6) by code_simp
  ultimately show ?thesis
    using nxp_conn_send_returns [OF c(1,2) toy_ssl_more(1) toy_ssl_ok(3) ok, of True] c(1,4) by fastforce
qed

text \<open>C4. What is sent is what is received. A 1-RTT datagram produced by one endpoint is opened by
  the other endpoint, holding the matching keys and neither closed nor draining, to exactly the
  frames the sender assembled, and they are processed under the packet number they were sent
  with. This needs that no handshake data was waiting, that the datagram has at least 21 bytes
  besides the connection identifier (a shorter one leaves no header protection sample) and at most
  1536, and that the packet number is inside the window of the receiver: its length is chosen from
  the sender's own largest received number, which the receiver does not know.
\<close>

theorem nxp_conn_delivers:
  assumes "aead_is ssl" "mask_is ssl" "mask_total ssl" "conn_inv c"
    "nxp_conn_send ssl grow c max_len now = Some (c', Some pkt)"
    "case cn_handshake c of None \<Rightarrow> True | Some hs \<Rightarrow> \<not> nxp_handshake_has_data hs"
    "21 + length (cid_data (cn_dcid c)) \<le> length pkt" "length pkt \<le> 1536"
    "keys_match (cn_crypto c) (cn_crypto p)" "cn_scid p = cn_dcid c" "pn_in_window c p"
    "cn_state p \<noteq> NXP_CONN_CLOSED" "cn_state p \<noteq> NXP_CONN_DRAINING"
  shows "\<exists>c1 fb el recs. assemble (at_send c now) max_len now = Some (c1, fb, el, recs) \<and>
    nxp_conn_recv ssl al p pkt now' = process_frames al now' fb (after_header p (length pkt) (cn_next_pkt_num c) now')"
  using conn_delivery [OF assms] .

text \<open>An established connection that talks to itself.\<close>

definition echo_conn :: nxp_conn where
  "echo_conn = (the (nxp_conn_create True True True True True
       \<lparr>cfg_scid = \<lparr>cid_data = [7]\<rparr>, cfg_peer_dcid_len = 1, cfg_peer_addr = \<lparr>addr_raw = []\<rparr>, cfg_idle_timeout_us = 0,
        cfg_initial_max_data = 0, cfg_initial_max_stream_data = 0, cfg_max_streams_bidi = 0, cfg_max_streams_uni = 0\<rparr>
       True))\<lparr>cn_state := NXP_CONN_ESTABLISHED, cn_dcid := \<lparr>cid_data = [7]\<rparr>,
         cn_crypto := \<lparr>cs_send = zero_crypto_keys, cs_recv = zero_crypto_keys, cs_algo = NXP_AEAD_CHACHA20_POLY1305,
           cs_available = True\<rparr>\<rparr>"

lemma echo_conn_ok: "conn_inv echo_conn"
proof -
  let ?cfg = "\<lparr>cfg_scid = \<lparr>cid_data = [7]\<rparr>, cfg_peer_dcid_len = 1, cfg_peer_addr = \<lparr>addr_raw = []\<rparr>, cfg_idle_timeout_us = 0,
        cfg_initial_max_data = 0, cfg_initial_max_stream_data = 0, cfg_max_streams_bidi = 0, cfg_max_streams_uni = 0\<rparr>"
  obtain c where c: "nxp_conn_create True True True True True ?cfg True = Some c" using create_some by blast
  show "conn_inv echo_conn" using create_inv(1) [OF c] by (simp add: echo_conn_def c)
qed

theorem nxp_conn_delivers_witness:
  "let c = echo_conn\<lparr>cn_send_conn_close := True, cn_close_error_code := 9\<rparr>;
       pkt = [69, 7, 165, 29, 9, 0] @ replicate 16 3;
       al = (\<lambda>_. \<lparr>al_stream = True, al_send = True, al_recv = True, al_grow = True\<rparr>) in
   map_option snd (nxp_conn_send toy_ssl True c 1200 77) = Some (Some pkt) \<and>
   nxp_conn_recv toy_ssl al echo_conn pkt 90 = process_frames al 90 [29, 9, 0] (after_header echo_conn 22 0 90)"
proof -
  let ?c = "echo_conn\<lparr>cn_send_conn_close := True, cn_close_error_code := 9\<rparr>"
  let ?pkt = "[69, 7, 165, 29, 9, 0] @ replicate 16 3 :: bytes"
  let ?al = "\<lambda>_. \<lparr>al_stream = True, al_send = True, al_recv = True, al_grow = True\<rparr>"
  have s: "map_option snd (nxp_conn_send toy_ssl True ?c 1200 77) = Some (Some ?pkt)" by code_simp
  then obtain c' where c': "nxp_conn_send toy_ssl True ?c 1200 77 = Some (c', Some ?pkt)" by auto
  have a: "map_option (\<lambda>x. fst (snd x)) (assemble (at_send ?c 77) 1200 77) = Some [29, 9, 0]" by code_simp
  have inv: "conn_inv ?c" using echo_conn_ok by simp
  have f: "cn_handshake ?c = None" "cn_dcid ?c = \<lparr>cid_data = [7]\<rparr>" "cn_scid echo_conn = cn_dcid ?c"
    "cn_state echo_conn = NXP_CONN_ESTABLISHED" "cn_next_pkt_num ?c = 0" "keys_match (cn_crypto ?c) (cn_crypto echo_conn)"
    "largest_recv_pn (cn_ack ?c) = 0" "largest_recv_pn (cn_ack echo_conn) = 0"
    by code_simp+
  have w: "pn_in_window ?c echo_conn" unfolding pn_in_window_def Let_def f(5,7,8) by (simp add: nxp_pkt_num_len_def)
  have l: "21 + length (cid_data (cn_dcid ?c)) \<le> length ?pkt" "length ?pkt \<le> 1536" "length ?pkt = 22"
    unfolding f(2) by simp_all
  have h: "case cn_handshake ?c of None \<Rightarrow> True | Some hs \<Rightarrow> \<not> nxp_handshake_has_data hs" unfolding f(1) by simp
  have st: "cn_state echo_conn \<noteq> NXP_CONN_CLOSED" "cn_state echo_conn \<noteq> NXP_CONN_DRAINING" unfolding f(4) by simp_all
  obtain c1 fb el recs where "assemble (at_send ?c 77) 1200 77 = Some (c1, fb, el, recs)"
      "nxp_conn_recv toy_ssl ?al echo_conn ?pkt 90 =
       process_frames ?al 90 fb (after_header echo_conn (length ?pkt) (cn_next_pkt_num ?c) 90)"
    using nxp_conn_delivers [OF toy_ssl_ok(3,2) toy_ssl_more(2) inv c' h l(1,2) f(6,3) w st, of ?al 90] by blast
  then show ?thesis using s a unfolding Let_def l(3) f(5) by simp
qed

text \<open>C28. Rate limits stall the sender. When \<^verbatim>\<open>nxp_conn_send\<close> comes to its loop over the
  scheduled streams and the only one has data but no budget, every round leaves the packet as it
  was and goes on: after any number of rounds the loop is still running, so the call never
  returns. A connection on which the application has set a stream's rate reaches this state.
\<close>

theorem nxp_conn_send_stalls:
  assumes "enters_loop c max_len now st" "starved (frame_space_of c max_len) now st"
  shows "(\<forall>n. \<exists>c'. stream_iter n (frame_space_of c max_len) now st = Some (c', snd st)) \<and>
    nxp_conn_send ssl grow c max_len now = None"
proof -
  have "stream_loop (frame_space_of c max_len) now st = None"
    using starved_loop [of _ now st] assms(2) by (cases "stream_loop (frame_space_of c max_len) now st") auto
  then show ?thesis using starved_iter [OF assms(2)] enters_loop_send [OF assms(1)] by blast
qed

theorem nxp_conn_send_stalls_witness:
  "\<exists>c st. conn_reach toy_ssl c \<and> within_limits c \<and> enters_loop c 1200 50 st \<and> nxp_conn_send toy_ssl True c 1200 50 = None \<and>
     (\<forall>n. \<exists>st'. stream_iter n (frame_space_of c 1200) 50 st = Some st')"
proof -
  obtain c s m t where c: "conn_reach toy_ssl c" "within_limits c" "sched_repr c [0]" "stream_mem c = [0 \<mapsto> s]"
      "nxp_stream_unsent s = 1" "st_rate_limit s = nxp_stream_rate_set nxp_stream_rate_init 184467440737095520"
      and e: "c = plain_conn\<lparr>cn_next_ptr := 1, cn_streams := m, cn_next_bidi_id := 1,
       cn_open_bidi_count := 1, cn_stats := t, sched_head := sched_head c, stream_mem := stream_mem c\<rparr>"
    by (rule limited_conn [of 184467440737095520])
  have "starved 1197 50 (at_send c 50, [], False, [])" unfolding starved_def prod.case
  proof (intro conjI exI [of _ 0] exI [of _ s])
    show "sched_repr (at_send c 50) [0]" using c(3) sched_repr_cong [of "at_send c 50" c] by (simp add: at_send_def)
    show "nxp_flow_can_send (cn_conn_flow (at_send c 50)) 1"
      using limited_enters(3) [OF e] by (simp add: at_send_def nxp_flow_can_send_def nxp_flow_init_def)
    show "nxp_stream_rate_budget (nxp_stream_rate_update (st_rate_limit s) 50) = 0"
      unfolding c(6) by code_simp
    show "sr_enabled (st_rate_limit s)" unfolding c(6) by code_simp
  qed (use c in \<open>simp_all add: at_send_def stream_has_data_def\<close>)
  then have "starved (frame_space_of c 1200) 50 (at_send c 50, [], False, [])" using limited_enters(2) [OF e] by simp
  from nxp_conn_send_stalls [OF limited_enters(1) [OF e] this, of toy_ssl True]
  show ?thesis using c(1,2) limited_enters(1) [OF e] by blast
qed

section \<open>Stream identifiers\<close>

lemma make_stream_id_parts:
  assumes "take_bit 60 seq = seq"
  shows "drop_bit 4 (make_stream_id seq type uni srv) = seq"
    "make_stream_id seq type uni srv AND 0xC = push_bit 2 (stream_type_num type)"
    "(make_stream_id seq type uni srv AND 0x2 \<noteq> 0) = uni" "(make_stream_id seq type uni srv AND 0x1 \<noteq> 0) = srv"
proof -
  let ?low = "push_bit 2 (stream_type_num type) OR (if uni then 2 else 0) OR (if srv then 1 else 0)"
  have id: "make_stream_id seq type uni srv = push_bit 4 seq OR ?low"
    by (cases type; simp add: make_stream_id_def Let_def or.assoc)
  have "drop_bit 4 (push_bit 4 seq) = take_bit 60 seq" by (rule bit_word_eqI) (auto simp: bit_simps)
  then have up: "drop_bit 4 (push_bit 4 seq) = seq" using assms by simp
  have low: "drop_bit 4 ?low = 0" "?low AND 0xC = push_bit 2 (stream_type_num type)" "(?low AND 0x2 \<noteq> 0) = uni"
    "(?low AND 0x1 \<noteq> 0) = srv" by (cases type; cases uni; cases srv; simp)+
  have clear: "push_bit 4 seq AND 0xC = 0" "push_bit 4 seq AND 0x2 = 0" "push_bit 4 seq AND 0x1 = 0"
  proof -
    have m: "push_bit 4 seq AND mask 4 = 0" by (simp add: take_bit_eq_mask [symmetric] take_bit_push_bit)
    have "push_bit 4 seq AND x = (push_bit 4 seq AND mask 4) AND x" if "x = mask 4 AND x" for x :: u64
      using that by (metis and.assoc)
    then show "push_bit 4 seq AND 0xC = 0" "push_bit 4 seq AND 0x2 = 0" "push_bit 4 seq AND 0x1 = 0"
      unfolding m by (simp_all add: mask_eq_exp_minus_1)
  qed
  show "drop_bit 4 (make_stream_id seq type uni srv) = seq" unfolding id drop_bit_or using up low(1) by simp
  show "make_stream_id seq type uni srv AND 0xC = push_bit 2 (stream_type_num type)"
    "(make_stream_id seq type uni srv AND 0x2 \<noteq> 0) = uni" "(make_stream_id seq type uni srv AND 0x1 \<noteq> 0) = srv"
    unfolding id using low clear by (simp_all add: bit.conj_disj_distrib2)
qed

lemma stream_type_num_inj: "push_bit 2 (stream_type_num a) = push_bit 2 (stream_type_num b) \<Longrightarrow> a = b"
  by (cases a; cases b; simp)

text \<open>Stream identifiers are unique: an identifier determines the sequence number, the type, the
  direction and the side it was made from, for the first \<open>2 ^ 60\<close> streams, so no two streams that one
  connection opens share one and neither clashes with a stream of the peer.
\<close>

theorem make_stream_id_unique:
  assumes "unat a < 2 ^ 60" "unat b < 2 ^ 60"
  shows "(make_stream_id a t u s = make_stream_id b t' u' s') = (a = b \<and> t = t' \<and> u = u' \<and> s = s') \<and>
    stream_id_is_local (make_stream_id a t u s) s' = (s = s')"
proof -
  have tb: "take_bit 60 a = a" "take_bit 60 b = b"
    using assms by (auto simp: word_unat_eq_iff unsigned_take_bit_eq take_bit_nat_eq_self_iff)
  note p = make_stream_id_parts [OF tb(1), of t u s] and q = make_stream_id_parts [OF tb(2), of t' u' s']
  have "a = b \<and> t = t' \<and> u = u' \<and> s = s'" if "make_stream_id a t u s = make_stream_id b t' u' s'"
    using p q stream_type_num_inj unfolding that by auto
  moreover have "stream_id_is_local (make_stream_id a t u s) s' = (s = s')"
    unfolding stream_id_is_local_def p(4) ..
  ultimately show ?thesis by blast
qed

theorem make_stream_id_unique_witness:
  "make_stream_id 5 NXP_STREAM_MEDIA False True \<noteq> make_stream_id 6 NXP_STREAM_MEDIA False True"
  using make_stream_id_unique [of 5 6 NXP_STREAM_MEDIA False True NXP_STREAM_MEDIA False True] by simp

text \<open>C18. Opening a stream either fails and changes nothing, with the limit error exactly when the
  peer's limit for that direction is reached, and otherwise only when memory for the stream ran
  out, or creates a fresh stream under the new identifier, counts it, and leaves every other stream
  and its table entry as they were. The table finds the new stream, unless it could not
  grow: then success is reported all the same and the table may answer for the new
  identifier as before, so that the stream is lost. Below \<open>2 ^ 23\<close> streams.
\<close>

theorem nxp_conn_open_stream_correct:
  assumes "conn_inv c" "cn_next_ptr c < 2 ^ 23"
  shows "\<exists>c' r. nxp_conn_open_stream al c type uni = Some (c', r) \<and>
    (case r of
       Inl e \<Rightarrow> c' = c \<and>
         e = (if (if uni then cn_open_uni_count c \<ge> cn_peer_max_streams_uni c
                  else cn_open_bidi_count c \<ge> cn_peer_max_streams_bidi c)
              then NXP_ERR_STREAM_LIMIT else NXP_ERR_OUT_OF_MEMORY) \<and>
         (e = NXP_ERR_OUT_OF_MEMORY \<longrightarrow> \<not> (al_stream al \<and> al_send al \<and> al_recv al))
     | Inr sid \<Rightarrow>
         sid = make_stream_id (if uni then cn_next_uni_id c else cn_next_bidi_id c) type uni (cn_is_server c) \<and>
         (\<exists>p s. stream_mem c p = None \<and> stream_mem c' = (stream_mem c)(p \<mapsto> s) \<and> st_id s = sid \<and>
            (nxp_hash_map_get (cn_streams c') sid = Some (Some p) \<or>
             \<not> al_grow al \<and> nxp_hash_map_get (cn_streams c') sid = nxp_hash_map_get (cn_streams c) sid)) \<and>
         (\<forall>k. k \<noteq> sid \<longrightarrow> nxp_hash_map_get (cn_streams c') k = nxp_hash_map_get (cn_streams c) k) \<and>
         (if uni then cn_next_uni_id c' = cn_next_uni_id c + 1 \<and> cn_open_uni_count c' = cn_open_uni_count c + 1
          else cn_next_bidi_id c' = cn_next_bidi_id c + 1 \<and> cn_open_bidi_count c' = cn_open_bidi_count c + 1))"
proof -
  define full where "full = (if uni then cn_open_uni_count c \<ge> cn_peer_max_streams_uni c
      else cn_open_bidi_count c \<ge> cn_peer_max_streams_bidi c)"
  define sid where "sid = make_stream_id (if uni then cn_next_uni_id c else cn_next_bidi_id c) type uni (cn_is_server c)"
  obtain d r where d: "add_stream al sid type c = Some (d, r)" "evolves 1 c d"
    and r: "case r of None \<Rightarrow> d = c
       | Some p \<Rightarrow> p = cn_next_ptr c \<and> (\<exists>s. stream_mem d = (stream_mem c)(p \<mapsto> s) \<and> stream_ok s \<and> st_id s = sid) \<and>
         (hm_abs (cn_streams d) = hm_abs (cn_streams c) \<or> hm_abs (cn_streams d) = (hm_abs (cn_streams c))(sid \<mapsto> Some p)) \<and>
         (al_grow al \<longrightarrow> hm_abs (cn_streams d) = (hm_abs (cn_streams c))(sid \<mapsto> Some p)) \<and>
         (\<exists>m. d = c\<lparr>stream_mem := stream_mem d, cn_next_ptr := p + 1, cn_streams := m\<rparr>)"
    using add_stream_total [OF assms(1,2), of al sid type] by (fastforce split: option.splits)
  have hm: "hm_inv (cn_streams c)" "hm_inv (cn_streams d)" using assms(1) d(2) by (auto simp: evolves_def conn_inv_def)
  show ?thesis
  proof (cases full)
    case True
    then have "nxp_conn_open_stream al c type uni = Some (c, Inl NXP_ERR_STREAM_LIMIT)"
      by (auto simp: nxp_conn_open_stream_def full_def split: if_splits)
    then show ?thesis using True by (simp add: full_def)
  next
    case False
    have eq: "nxp_conn_open_stream al c type uni =
      (case r of None \<Rightarrow> Some (d, Inl NXP_ERR_OUT_OF_MEMORY)
       | Some p \<Rightarrow>
             let c = (if uni
                      then d\<lparr>cn_next_uni_id := cn_next_uni_id d + 1, cn_open_uni_count := cn_open_uni_count d + 1\<rparr>
                      else d\<lparr>cn_next_bidi_id := cn_next_bidi_id d + 1, cn_open_bidi_count := cn_open_bidi_count d + 1\<rparr>) in
             Some (c\<lparr>cn_stats := (cn_stats c)\<lparr>stat_streams_opened := stat_streams_opened (cn_stats c) + 1\<rparr>\<rparr>, Inr sid))"
      using False d(1) unfolding nxp_conn_open_stream_def full_def Let_def sid_def by (cases uni; cases r) simp_all
    show ?thesis
    proof (cases r)
      case None
      then show ?thesis using eq r False add_stream_fails [of al sid type c d] d(1) by (simp add: full_def)
    next
      case (Some p)
      have none: "stream_mem c p = None"
        using r Some conn_inv_mem [OF assms(1), of p] by (cases "stream_mem c p") auto
      obtain s m where s: "stream_mem d = (stream_mem c)(p \<mapsto> s)" "st_id s = sid"
          "hm_abs (cn_streams d) = (hm_abs (cn_streams c))(sid \<mapsto> Some p) \<or>
             \<not> al_grow al \<and> hm_abs (cn_streams d) = hm_abs (cn_streams c)"
          "d = c\<lparr>stream_mem := stream_mem d, cn_next_ptr := p + 1, cn_streams := m\<rparr>"
        using r unfolding Some option.case by (elim exE conjE) (rule that, blast+)
      have g: "nxp_hash_map_get (cn_streams d) sid = Some (Some p) \<or>
            \<not> al_grow al \<and> nxp_hash_map_get (cn_streams d) sid = nxp_hash_map_get (cn_streams c) sid"
          "k \<noteq> sid \<Longrightarrow> nxp_hash_map_get (cn_streams d) k = nxp_hash_map_get (cn_streams c) k" for k
        using get_spec [OF hm(1)] get_spec [OF hm(2)] s(3) by (auto simp: deref_def)
      have n: "cn_next_uni_id d = cn_next_uni_id c" "cn_open_uni_count d = cn_open_uni_count c"
          "cn_next_bidi_id d = cn_next_bidi_id c" "cn_open_bidi_count d = cn_open_bidi_count c"
        by (subst s(4), simp)+
      show ?thesis unfolding eq Some
        using none s(1,2) g n by (cases uni) (auto simp: Let_def sid_def simp del: fun_upd_apply)
    qed
  qed
qed

theorem nxp_conn_open_stream_correct_witness:
  "\<exists>c' p. nxp_conn_open_stream \<lparr>al_stream = True, al_send = True, al_recv = True, al_grow = True\<rparr> echo_conn NXP_STREAM_FAST False =
      Some (c', Inr 5) \<and> nxp_hash_map_get (cn_streams c') 5 = Some (Some p)"
proof -
  let ?al = "\<lparr>al_stream = True, al_send = True, al_recv = True, al_grow = True\<rparr>"
  have f: "cn_next_ptr echo_conn < 2 ^ 23" "cn_open_bidi_count echo_conn = 0" "cn_peer_max_streams_bidi echo_conn = 256"
    "make_stream_id (cn_next_bidi_id echo_conn) NXP_STREAM_FAST False (cn_is_server echo_conn) = 5"
    by (simp_all add: echo_conn_def nxp_conn_create_def nxp_hash_map_create_def Let_def make_stream_id_def)
  obtain c' r where r: "nxp_conn_open_stream ?al echo_conn NXP_STREAM_FAST False = Some (c', r)"
      "case r of Inl e \<Rightarrow> False | Inr sid \<Rightarrow> sid = 5 \<and> (\<exists>p. nxp_hash_map_get (cn_streams c') sid = Some (Some p))"
    using nxp_conn_open_stream_correct [OF echo_conn_ok f(1), of ?al NXP_STREAM_FAST False] f(2-4)
    by (fastforce split: sum.splits)
  then show ?thesis by (cases r) auto
qed

section \<open>Destruction\<close>

lemma foreach_frees:
  "distinct (map he_value (live es)) \<Longrightarrow> \<forall>e\<in>set (live es). \<exists>p. he_value e = Some p \<and> p \<in> dom mem \<Longrightarrow>
   foreach_loop destroy_stream_cb es (Some mem) = Some (mem |` (- {p. Some p \<in> he_value ` set (live es)}))"
proof (induction es arbitrary: mem)
  case Nil
  then show ?case by (simp add: live_def)
next
  case (Cons e es)
  show ?case
  proof (cases "he_psl e > 0")
    case False
    then show ?thesis using Cons by (simp add: live_def)
  next
    case True
    then have live: "live (e # es) = e # live es" by (simp add: live_def)
    obtain p s where p: "he_value e = Some p" "mem p = Some s" using Cons.prems(2) live by auto
    have "\<forall>f\<in>set (live es). \<exists>q. he_value f = Some q \<and> q \<in> dom (mem(p := None))"
    proof
      fix f assume f: "f \<in> set (live es)"
      obtain q where q: "he_value f = Some q" "q \<in> dom mem" using Cons.prems(2) live f by auto
      have "Some p \<noteq> he_value f" using Cons.prems(1) live p(1) f by force
      then show "\<exists>q. he_value f = Some q \<and> q \<in> dom (mem(p := None))" using q by auto
    qed
    moreover have "distinct (map he_value (live es))" using Cons.prems(1) live by simp
    ultimately have "foreach_loop destroy_stream_cb es (Some (mem(p := None))) =
        Some (mem(p := None) |` (- {q. Some q \<in> he_value ` set (live es)}))" using Cons.IH by blast
    moreover have "mem(p := None) |` (- {q. Some q \<in> he_value ` set (live es)}) =
        mem |` (- {q. Some q \<in> he_value ` set (live (e # es))})"
      using p(1) live by (auto simp: fun_eq_iff restrict_map_def)
    moreover have "destroy_stream_cb (he_key e) (he_value e) (Some mem) = (True, Some (mem(p := None)))"
      using p by (simp add: destroy_stream_cb_def)
    ultimately show ?thesis using True by simp
  qed
qed

lemma conn_destroy_spec:
  assumes "conn_inv c"
  shows "nxp_conn_destroy c = Some (stream_mem c |` (- {p. Some p \<in> ran (hm_abs (cn_streams c))}))"
proof -
  let ?es = "hm_entries (cn_streams c)"
  have d: "distinct_keys ?es" using assms by (simp add: conn_inv_def hm_inv_def)
  have b: "hm_abs (cn_streams c) (he_key e) = Some (he_value e)" if "e \<in> set (live ?es)" for e
    using d that unfolding hm_abs_def live_def [symmetric] live_distinct [symmetric] by (simp add: map_of_eq_Some_iff o_def)
  have e: "\<exists>p s. he_value e = Some p \<and> stream_mem c p = Some s \<and> st_id s = he_key e" if l: "e \<in> set (live ?es)" for e
    by (rule conn_inv_entry [OF assms b [OF l]]) blast
  have "inj_on he_value (set (live ?es))"
  proof (rule inj_onI)
    fix x y assume xy: "x \<in> set (live ?es)" "y \<in> set (live ?es)" "he_value x = he_value y"
    then have "he_key x = he_key y" using e [OF xy(1)] e [OF xy(2)] by force
    then show "x = y" using d xy(1,2) unfolding live_distinct [symmetric] by (auto simp: distinct_map dest: inj_onD)
  qed
  moreover have "distinct (live ?es)" using d unfolding live_distinct [symmetric] by (simp add: distinct_map)
  ultimately have "distinct (map he_value (live ?es))" by (simp add: distinct_map)
  moreover have "\<forall>x\<in>set (live ?es). \<exists>p. he_value x = Some p \<and> p \<in> dom (stream_mem c)" using e by blast
  moreover have "ran (hm_abs (cn_streams c)) = he_value ` set (live ?es)"
  proof
    show "he_value ` set (live ?es) \<subseteq> ran (hm_abs (cn_streams c))" using b by (auto simp: ran_def)
    show "ran (hm_abs (cn_streams c)) \<subseteq> he_value ` set (live ?es)"
      unfolding hm_abs_def live_def [symmetric] by (force simp: ran_def dest: map_of_SomeD)
  qed
  ultimately show ?thesis using foreach_frees by (simp add: nxp_conn_destroy_def nxp_hash_map_foreach_def)
qed

end
