(* ===== verification/Nxp_Session.thy ===== *)
theory Nxp_Session
  imports Nxp_Conn_Run
begin

text \<open>
  Moving a connection to another server (\<^verbatim>\<open>src/core/session_export.c\<close>): the serialised form of the
  connection-level state, the export and the import. Integers are copied in the byte order of the
  machine, here little endian. An address is its 28 raw bytes and a key structure has its arrays
  at full length. A state byte that is no state of the enumeration is stored unchecked by the
  code; it has no value here (\<^term>\<open>None\<close>). The theory shows that an imported connection is the
  exported one in everything the format carries, and again a well-formed connection.
\<close>

section \<open>Wire helpers\<close>

abbreviation (input) NXP_SESSION_MAGIC :: u32 where "NXP_SESSION_MAGIC \<equiv> 0x5350584E"
abbreviation (input) NXP_SESSION_VERSION :: u32 where "NXP_SESSION_VERSION \<equiv> 1"
abbreviation (input) NXP_SESSION_MAX_EXPORT :: nat where "NXP_SESSION_MAX_EXPORT \<equiv> 1024"

definition put_u32 :: "u32 \<Rightarrow> bytes" where
  "put_u32 v = [ucast v, ucast (drop_bit 8 v), ucast (drop_bit 16 v), ucast (drop_bit 24 v)]"

definition put_u64 :: "u64 \<Rightarrow> bytes" where
  "put_u64 v = [ucast v, ucast (drop_bit 8 v), ucast (drop_bit 16 v), ucast (drop_bit 24 v),
     ucast (drop_bit 32 v), ucast (drop_bit 40 v), ucast (drop_bit 48 v), ucast (drop_bit 56 v)]"

fun get_u8 :: "bytes \<Rightarrow> (u8 \<times> bytes) option" where
  "get_u8 (b # p) = Some (b, p)"
| "get_u8 [] = None"

fun get_u32 :: "bytes \<Rightarrow> (u32 \<times> bytes) option" where
  "get_u32 (b0 # b1 # b2 # b3 # p) =
     Some (ucast b0 OR push_bit 8 (ucast b1) OR push_bit 16 (ucast b2) OR push_bit 24 (ucast b3), p)"
| "get_u32 _ = None"

fun get_u64 :: "bytes \<Rightarrow> (u64 \<times> bytes) option" where
  "get_u64 (b0 # b1 # b2 # b3 # b4 # b5 # b6 # b7 # p) =
     Some (ucast b0 OR push_bit 8 (ucast b1) OR push_bit 16 (ucast b2) OR push_bit 24 (ucast b3) OR
           push_bit 32 (ucast b4) OR push_bit 40 (ucast b5) OR push_bit 48 (ucast b6) OR push_bit 56 (ucast b7), p)"
| "get_u64 _ = None"

definition get_bytes :: "nat \<Rightarrow> bytes \<Rightarrow> (bytes \<times> bytes) option" where
  "get_bytes n p = (if n > length p then None else Some (take n p, drop n p))"

fun conn_state_byte :: "nxp_conn_state \<Rightarrow> u8" where
  "conn_state_byte NXP_CONN_IDLE = 0"
| "conn_state_byte NXP_CONN_HANDSHAKE_INITIAL = 1"
| "conn_state_byte NXP_CONN_HANDSHAKE_IN_PROGRESS = 2"
| "conn_state_byte NXP_CONN_ESTABLISHED = 3"
| "conn_state_byte NXP_CONN_CLOSING = 4"
| "conn_state_byte NXP_CONN_DRAINING = 5"
| "conn_state_byte NXP_CONN_CLOSED = 6"

definition conn_state_of :: "u8 \<Rightarrow> nxp_conn_state option" where
  "conn_state_of b =
     (if b = 0 then Some NXP_CONN_IDLE else if b = 1 then Some NXP_CONN_HANDSHAKE_INITIAL
      else if b = 2 then Some NXP_CONN_HANDSHAKE_IN_PROGRESS else if b = 3 then Some NXP_CONN_ESTABLISHED
      else if b = 4 then Some NXP_CONN_CLOSING else if b = 5 then Some NXP_CONN_DRAINING
      else if b = 6 then Some NXP_CONN_CLOSED else None)"

section \<open>Export\<close>

definition nxp_session_export_size :: "nxp_conn \<Rightarrow> nat" where
  "nxp_session_export_size c =
     4 + 4 + 4 + (1 + length (cid_data (cn_scid c))) + (1 + length (cid_data (cn_dcid c))) + (1 + 1) + 8 + 28 +
     (1 + 1) + (1 + 32 + 12 + 32) + (1 + 32 + 12 + 32) + 8 * 4 + 8 * 3 + 8"

definition put_keys :: "nxp_crypto_keys \<Rightarrow> bytes" where
  "put_keys k = [ck_key_len k] @ ck_key k @ ck_iv k @ ck_hp_key k"

definition nxp_session_export :: "nxp_conn \<Rightarrow> nat \<Rightarrow> nxp_error_code + bytes" where
  "nxp_session_export c buf_cap =
     (let needed = nxp_session_export_size c in
      if buf_cap < needed then Inl NXP_ERR_BUFFER_TOO_SMALL
      else Inr (
        put_u32 NXP_SESSION_MAGIC @ put_u32 NXP_SESSION_VERSION @ put_u32 (of_nat needed) @
        [of_nat (length (cid_data (cn_scid c)))] @ cid_data (cn_scid c) @
        [of_nat (length (cid_data (cn_dcid c)))] @ cid_data (cn_dcid c) @
        [conn_state_byte (cn_state c)] @ [if cn_is_server c then 1 else 0] @
        put_u64 (cn_next_pkt_num c) @ addr_raw (cn_peer_addr c) @
        [aead_algo_byte (cs_algo (cn_crypto c))] @ [if cs_available (cn_crypto c) then 1 else 0] @
        put_keys (cs_send (cn_crypto c)) @ put_keys (cs_recv (cn_crypto c)) @
        put_u64 (peer_max_data (cn_conn_flow c)) @ put_u64 (data_sent (cn_conn_flow c)) @
        put_u64 (local_max_data (cn_conn_flow c)) @ put_u64 (data_recv (cn_conn_flow c)) @
        put_u64 (smoothed_rtt (cn_ack c)) @ put_u64 (rtt_var (cn_ack c)) @ put_u64 (min_rtt (cn_ack c)) @
        put_u64 (cn_idle_timeout_us c)))"

section \<open>Import\<close>

record session_state =
  ss_scid :: nxp_conn_id
  ss_dcid :: nxp_conn_id
  ss_state :: u8
  ss_is_server :: bool
  ss_next_pkt_num :: u64
  ss_peer_addr :: nxp_addr
  ss_crypto :: nxp_crypto_state
  ss_peer_max_data :: u64
  ss_data_sent :: u64
  ss_local_max_data :: u64
  ss_data_recv :: u64
  ss_smoothed_rtt :: u64
  ss_rtt_var :: u64
  ss_min_rtt :: u64
  ss_idle_timeout_us :: u64

definition get_cid :: "bytes \<Rightarrow> (nxp_conn_id \<times> bytes) option" where
  "get_cid p = do {
     (n, p) \<leftarrow> get_u8 p;
     if unat n > NXP_MAX_CID_LEN then None else do {
     (d, p) \<leftarrow> get_bytes (unat n) p;
     Some (\<lparr>cid_data = d\<rparr>, p) } }"

definition get_keys :: "bytes \<Rightarrow> (nxp_crypto_keys \<times> bytes) option" where
  "get_keys p = do {
     (n, p) \<leftarrow> get_u8 p;
     (k, p) \<leftarrow> get_bytes 32 p;
     (iv, p) \<leftarrow> get_bytes 12 p;
     (hp, p) \<leftarrow> get_bytes 32 p;
     Some (\<lparr>ck_key = k, ck_iv = iv, ck_hp_key = hp, ck_key_len = n\<rparr>, p) }"

text \<open>The fields behind the header; \<^term>\<open>None\<close> stands for \<^verbatim>\<open>NXP_ERR_INVALID_PACKET\<close>.\<close>

definition parse_session :: "bytes \<Rightarrow> session_state option" where
  "parse_session p = do {
     (scid, p) \<leftarrow> get_cid p;
     (dcid, p) \<leftarrow> get_cid p;
     (state, p) \<leftarrow> get_u8 p;
     (is_server, p) \<leftarrow> get_u8 p;
     (pn, p) \<leftarrow> get_u64 p;
     (addr, p) \<leftarrow> get_bytes 28 p;
     (algo, p) \<leftarrow> get_u8 p;
     (available, p) \<leftarrow> get_u8 p;
     (send_keys, p) \<leftarrow> get_keys p;
     (recv_keys, p) \<leftarrow> get_keys p;
     (pmax, p) \<leftarrow> get_u64 p;
     (dsent, p) \<leftarrow> get_u64 p;
     (lmax, p) \<leftarrow> get_u64 p;
     (drecv, p) \<leftarrow> get_u64 p;
     (srtt, p) \<leftarrow> get_u64 p;
     (var, p) \<leftarrow> get_u64 p;
     (mrtt, p) \<leftarrow> get_u64 p;
     (idle, p) \<leftarrow> get_u64 p;
     Some \<lparr>ss_scid = scid, ss_dcid = dcid, ss_state = state, ss_is_server = (is_server \<noteq> 0), ss_next_pkt_num = pn,
       ss_peer_addr = \<lparr>addr_raw = addr\<rparr>,
       ss_crypto = \<lparr>cs_send = send_keys, cs_recv = recv_keys, cs_algo = aead_algo_of algo, cs_available = (available \<noteq> 0)\<rparr>,
       ss_peer_max_data = pmax, ss_data_sent = dsent, ss_local_max_data = lmax, ss_data_recv = drecv,
       ss_smoothed_rtt = srtt, ss_rtt_var = var, ss_min_rtt = mrtt, ss_idle_timeout_us = idle\<rparr> }"

text \<open>Creating the connection and restoring the fields; \<open>st\<close> is the state of the state byte.\<close>

definition restore_session :: "nxp_conn_state \<Rightarrow> session_state \<Rightarrow> nxp_conn \<Rightarrow> nxp_conn" where
  "restore_session st ss c =
     c\<lparr>cn_dcid := ss_dcid ss, cn_state := st, cn_next_pkt_num := ss_next_pkt_num ss, cn_crypto := ss_crypto ss,
       cn_conn_flow := (cn_conn_flow c)\<lparr>peer_max_data := ss_peer_max_data ss, data_sent := ss_data_sent ss,
                         local_max_data := ss_local_max_data ss, data_recv := ss_data_recv ss\<rparr>,
       cn_ack := (cn_ack c)\<lparr>smoothed_rtt := ss_smoothed_rtt ss, rtt_var := ss_rtt_var ss, min_rtt := ss_min_rtt ss,
                   has_rtt := (ss_smoothed_rtt ss > 0)\<rparr>\<rparr>"

definition session_config :: "session_state \<Rightarrow> nxp_conn_config" where
  "session_config ss =
     \<lparr>cfg_scid = ss_scid ss, cfg_peer_dcid_len = 0, cfg_peer_addr = ss_peer_addr ss,
      cfg_idle_timeout_us = ss_idle_timeout_us ss, cfg_initial_max_data = ss_local_max_data ss,
      cfg_initial_max_stream_data = 0, cfg_max_streams_bidi = 0, cfg_max_streams_uni = 0\<rparr>"

definition nxp_session_import ::
    "bool \<Rightarrow> bool \<Rightarrow> bool \<Rightarrow> bool \<Rightarrow> bool \<Rightarrow> bytes \<Rightarrow> (nxp_error_code + nxp_conn) option" where
  "nxp_session_import alloc_conn alloc_sent alloc_map alloc_entries alloc_cc buf =
     (case get_u32 buf of
        None \<Rightarrow> Some (Inl NXP_ERR_INVALID_PACKET)
      | Some (magic, p) \<Rightarrow>
          if magic \<noteq> NXP_SESSION_MAGIC then Some (Inl NXP_ERR_INVALID_PACKET)
          else case get_u32 p of
            None \<Rightarrow> Some (Inl NXP_ERR_INVALID_PACKET)
          | Some (version, p) \<Rightarrow>
              if version \<noteq> NXP_SESSION_VERSION then Some (Inl NXP_ERR_VERSION_MISMATCH)
              else case get_u32 p of
                None \<Rightarrow> Some (Inl NXP_ERR_INVALID_PACKET)
              | Some (total_len, p) \<Rightarrow>
                  if unat total_len > length buf then Some (Inl NXP_ERR_BUFFER_TOO_SMALL)
                  else case parse_session p of
                    None \<Rightarrow> Some (Inl NXP_ERR_INVALID_PACKET)
                  | Some ss \<Rightarrow>
                      (case nxp_conn_create alloc_conn alloc_sent alloc_map alloc_entries alloc_cc (session_config ss)
                              (ss_is_server ss) of
                         None \<Rightarrow> Some (Inl NXP_ERR_OUT_OF_MEMORY)
                       | Some c \<Rightarrow> do {
                           st \<leftarrow> conn_state_of (ss_state ss);
                           Some (Inr (restore_session st ss c)) }))"

section \<open>Every getter undoes its writer\<close>

named_theorems session_get

lemma get_u8_app [session_get]: "get_u8 ([b] @ p) = Some (b, p)"
  by simp

lemma get_u32_put [session_get]: "get_u32 (put_u32 v @ p) = Some (v, p)"
proof -
  have "bit (ucast (ucast v :: u8) OR push_bit 8 (ucast (ucast (drop_bit 8 v) :: u8)) OR
      push_bit 16 (ucast (ucast (drop_bit 16 v) :: u8)) OR push_bit 24 (ucast (ucast (drop_bit 24 v) :: u8)) :: u32) n = bit v n"
    if "n \<in> {0..<32}" for n
    using that by (simp add: atLeastLessThan_nat_numeral) (elim disjE; simp add: bit_simps)
  then have "\<And>n. n < LENGTH(32) \<Longrightarrow> bit (fst (the (get_u32 (put_u32 v @ p)))) n = bit v n" by (simp add: put_u32_def)
  then have "fst (the (get_u32 (put_u32 v @ p))) = v" by (rule bit_word_eqI)
  then show ?thesis by (simp add: put_u32_def)
qed

lemma byte_bit: "bit (push_bit k (ucast (ucast (drop_bit k v) :: u8)) :: u64) n \<longleftrightarrow> k \<le> n \<and> n < k + 8 \<and> bit v n"
  for v :: u64
  using bit_imp_le_length [of v n] by (auto simp: bit_simps)

lemma get_u64_put [session_get]: "get_u64 (put_u64 v @ p) = Some (v, p)"
proof -
  have low: "bit (ucast (ucast v :: u8) :: u64) n \<longleftrightarrow> n < 8 \<and> bit v n" for n
    using bit_imp_le_length [of v n] by (auto simp: bit_simps)
  have "bit (ucast (ucast v :: u8) OR push_bit 8 (ucast (ucast (drop_bit 8 v) :: u8)) OR
      push_bit 16 (ucast (ucast (drop_bit 16 v) :: u8)) OR push_bit 24 (ucast (ucast (drop_bit 24 v) :: u8)) OR
      push_bit 32 (ucast (ucast (drop_bit 32 v) :: u8)) OR push_bit 40 (ucast (ucast (drop_bit 40 v) :: u8)) OR
      push_bit 48 (ucast (ucast (drop_bit 48 v) :: u8)) OR push_bit 56 (ucast (ucast (drop_bit 56 v) :: u8)) :: u64) n = bit v n"
    if "n < 64" for n
    using that by (simp only: bit_or_iff low byte_bit) linarith
  then have "\<And>n. n < LENGTH(64) \<Longrightarrow> bit (fst (the (get_u64 (put_u64 v @ p)))) n = bit v n" by (simp add: put_u64_def)
  then have "fst (the (get_u64 (put_u64 v @ p))) = v" by (rule bit_word_eqI)
  then show ?thesis by (simp add: put_u64_def)
qed

lemma get_bytes_app [session_get]: "length d = n \<Longrightarrow> get_bytes n (d @ p) = Some (d, p)"
  by (auto simp: get_bytes_def)

lemma put_length [simp]: "length (put_u32 v) = 4" "length (put_u64 w) = 8"
  by (simp_all add: put_u32_def put_u64_def)

lemma conn_state_of_byte [simp]: "conn_state_of (conn_state_byte s) = Some s"
  by (cases s) (simp_all add: conn_state_of_def)

lemma get_cid_app [session_get]:
  "length (cid_data d) \<le> NXP_MAX_CID_LEN \<Longrightarrow> get_cid ([of_nat (length (cid_data d))] @ cid_data d @ p) = Some (d, p)"
  by (cases d) (simp add: get_cid_def get_bytes_def unat_of_nat NXP_MAX_CID_LEN_def)

definition keys_full :: "nxp_crypto_keys \<Rightarrow> bool" where
  "keys_full k \<longleftrightarrow> length (ck_key k) = 32 \<and> length (ck_iv k) = 12 \<and> length (ck_hp_key k) = 32"

lemma get_keys_put [session_get]: "keys_full k \<Longrightarrow> get_keys (put_keys k @ p) = Some (k, p)"
  by (simp add: keys_full_def get_keys_def put_keys_def get_bytes_app)

definition session_ok :: "nxp_conn \<Rightarrow> bool" where
  "session_ok c \<longleftrightarrow> length (cid_data (cn_scid c)) \<le> NXP_MAX_CID_LEN \<and> length (cid_data (cn_dcid c)) \<le> NXP_MAX_CID_LEN \<and>
     length (addr_raw (cn_peer_addr c)) = 28 \<and> keys_full (cs_send (cn_crypto c)) \<and> keys_full (cs_recv (cn_crypto c)) \<and>
     aead_algo_of (aead_algo_byte (cs_algo (cn_crypto c))) = cs_algo (cn_crypto c) \<and> cn_idle_timeout_us c \<noteq> 0"

definition session_of :: "nxp_conn \<Rightarrow> session_state" where
  "session_of c = \<lparr>ss_scid = cn_scid c, ss_dcid = cn_dcid c, ss_state = conn_state_byte (cn_state c),
     ss_is_server = cn_is_server c, ss_next_pkt_num = cn_next_pkt_num c, ss_peer_addr = cn_peer_addr c,
     ss_crypto = cn_crypto c, ss_peer_max_data = peer_max_data (cn_conn_flow c),
     ss_data_sent = data_sent (cn_conn_flow c), ss_local_max_data = local_max_data (cn_conn_flow c),
     ss_data_recv = data_recv (cn_conn_flow c), ss_smoothed_rtt = smoothed_rtt (cn_ack c),
     ss_rtt_var = rtt_var (cn_ack c), ss_min_rtt = min_rtt (cn_ack c), ss_idle_timeout_us = cn_idle_timeout_us c\<rparr>"

definition session_body :: "nxp_conn \<Rightarrow> bytes" where
  "session_body c =
     [of_nat (length (cid_data (cn_scid c)))] @ cid_data (cn_scid c) @
     [of_nat (length (cid_data (cn_dcid c)))] @ cid_data (cn_dcid c) @
     [conn_state_byte (cn_state c)] @ [if cn_is_server c then 1 else 0] @
     put_u64 (cn_next_pkt_num c) @ addr_raw (cn_peer_addr c) @
     [aead_algo_byte (cs_algo (cn_crypto c))] @ [if cs_available (cn_crypto c) then 1 else 0] @
     put_keys (cs_send (cn_crypto c)) @ put_keys (cs_recv (cn_crypto c)) @
     put_u64 (peer_max_data (cn_conn_flow c)) @ put_u64 (data_sent (cn_conn_flow c)) @
     put_u64 (local_max_data (cn_conn_flow c)) @ put_u64 (data_recv (cn_conn_flow c)) @
     put_u64 (smoothed_rtt (cn_ack c)) @ put_u64 (rtt_var (cn_ack c)) @ put_u64 (min_rtt (cn_ack c)) @
     put_u64 (cn_idle_timeout_us c)"

lemma parse_session_body: "session_ok c \<Longrightarrow> parse_session (session_body c @ rest) = Some (session_of c)"
  unfolding parse_session_def session_body_def append_assoc session_ok_def
  by (elim conjE) (simp only: session_get Option.bind.simps prod.case, simp add: session_of_def)

lemma session_body_length: "session_ok c \<Longrightarrow> 12 + length (session_body c) = nxp_session_export_size c"
  by (simp add: session_body_def session_ok_def keys_full_def put_keys_def nxp_session_export_size_def)

lemma export_size_bound: "session_ok c \<Longrightarrow> nxp_session_export_size c \<le> 312"
  by (simp add: session_ok_def nxp_session_export_size_def NXP_MAX_CID_LEN_def)

lemma export_eq:
  "nxp_session_export c n = (if n < nxp_session_export_size c then Inl NXP_ERR_BUFFER_TOO_SMALL
     else Inr (put_u32 NXP_SESSION_MAGIC @ put_u32 NXP_SESSION_VERSION @ put_u32 (of_nat (nxp_session_export_size c)) @
       session_body c))"
  by (simp add: nxp_session_export_def session_body_def Let_def)

section \<open>Round trip\<close>

text \<open>Creating the connection of an imported session fixes everything \<^const>\<open>restore_session\<close> leaves alone.\<close>

lemma create_session:
  assumes "nxp_conn_create True True True True alloc_cc (session_config ss) srv = Some c"
  shows "cn_scid c = ss_scid ss" "cn_is_server c = srv" "cn_peer_addr c = ss_peer_addr ss"
    "ss_idle_timeout_us ss \<noteq> 0 \<Longrightarrow> cn_idle_timeout_us c = ss_idle_timeout_us ss"
  using assms by (auto simp: nxp_conn_create_def session_config_def Let_def bind_Some_iff)

lemma restore_inv:
  assumes "conn_inv c" "ss_data_sent ss \<le> ss_peer_max_data ss"
  shows "conn_inv (restore_session st ss c)"
proof -
  let ?c = "restore_session st ss c"
  have eq: "sched_head ?c = sched_head c" "stream_mem ?c = stream_mem c" "cn_streams ?c = cn_streams c"
    "cn_next_ptr ?c = cn_next_ptr c"
    "data_sent (cn_conn_flow ?c) = ss_data_sent ss" "peer_max_data (cn_conn_flow ?c) = ss_peer_max_data ss"
    by (simp_all add: restore_session_def)
  have "ack_mem_ok (cn_ack ?c) = ack_mem_ok (cn_ack c)" by (simp add: restore_session_def ack_mem_ok_def)
  then show ?thesis using assms eq sched_repr_cong [OF eq(1,2)] by (simp add: conn_inv_def)
qed

lemma import_export:
  assumes "session_ok c" "nxp_session_export c n = Inr buf"
    and "nxp_conn_create True True True True alloc_cc (session_config (session_of c)) (cn_is_server c) = Some c0"
  shows "nxp_session_import True True True True alloc_cc (buf @ rest) = Some (Inr (restore_session (cn_state c) (session_of c) c0))"
proof -
  have buf: "buf = put_u32 NXP_SESSION_MAGIC @ put_u32 NXP_SESSION_VERSION @
      put_u32 (of_nat (nxp_session_export_size c)) @ session_body c"
    using assms(2) by (simp add: export_eq split: if_splits)
  have "unat (of_nat (nxp_session_export_size c) :: u32) = nxp_session_export_size c"
    using export_size_bound [OF assms(1)] by (simp add: unat_of_nat)
  moreover have "nxp_session_export_size c \<le> length (buf @ rest)"
    using session_body_length [OF assms(1)] by (simp add: buf)
  moreover have "ss_is_server (session_of c) = cn_is_server c" "ss_state (session_of c) = conn_state_byte (cn_state c)"
    by (simp_all add: session_of_def)
  ultimately show ?thesis using assms(3) parse_session_body [OF assms(1)]
    by (simp add: nxp_session_import_def buf get_u32_put)
qed

text \<open>A datagram that was cut short is told apart by the length field of the header.\<close>

lemma get_u32_short: "length p < 4 \<Longrightarrow> get_u32 p = None"
  by (cases p rule: get_u32.cases) auto

lemma import_truncated:
  assumes "session_ok c" "nxp_session_export c n = Inr buf" "k < length buf"
  shows "nxp_session_import ac ass am ae acc (take k buf) =
    Some (Inl (if k < 12 then NXP_ERR_INVALID_PACKET else NXP_ERR_BUFFER_TOO_SMALL))"
proof -
  let ?m = "put_u32 NXP_SESSION_MAGIC" and ?v = "put_u32 NXP_SESSION_VERSION"
    and ?l = "put_u32 (of_nat (nxp_session_export_size c))"
  have buf: "buf = ?m @ ?v @ ?l @ session_body c" using assms(2) by (simp add: export_eq split: if_splits)
  have len: "unat (of_nat (nxp_session_export_size c) :: u32) = length buf"
    using export_size_bound [OF assms(1)] session_body_length [OF assms(1)] by (simp add: unat_of_nat buf)
  consider "k < 4" | "4 \<le> k" "k < 8" | "8 \<le> k" "k < 12" | "12 \<le> k" by linarith
  then show ?thesis
  proof cases
    case 1 then show ?thesis by (simp add: nxp_session_import_def get_u32_short)
  next
    case 2
    then have "take k buf = ?m @ take (k - 4) (?v @ ?l @ session_body c)" by (simp add: buf)
    then show ?thesis using 2 by (simp add: nxp_session_import_def get_u32_put get_u32_short)
  next
    case 3
    then have "take k buf = ?m @ ?v @ take (k - 8) (?l @ session_body c)" by (simp add: buf)
    then show ?thesis using 3 by (simp add: nxp_session_import_def get_u32_put get_u32_short)
  next
    case 4
    then have "take k buf = ?m @ ?v @ ?l @ take (k - 12) (session_body c)" by (simp add: buf)
    moreover have "length (take k buf) = k" using assms(3) by simp
    ultimately show ?thesis using 4 assms(3) len by (simp add: nxp_session_import_def get_u32_put)
  qed
qed


definition export_conn :: "nxp_conn \<Rightarrow> nxp_conn" where
  "export_conn c = c\<lparr>cn_scid := \<lparr>cid_data = [1, 2, 3]\<rparr>, cn_dcid := \<lparr>cid_data = [9]\<rparr>, cn_state := NXP_CONN_ESTABLISHED,
     cn_next_pkt_num := 7, cn_peer_addr := \<lparr>addr_raw = replicate 28 4\<rparr>,
     cn_crypto := \<lparr>cs_send = \<lparr>ck_key = replicate 32 1, ck_iv = replicate 12 2, ck_hp_key = replicate 32 3, ck_key_len = 32\<rparr>,
       cs_recv = \<lparr>ck_key = replicate 32 4, ck_iv = replicate 12 5, ck_hp_key = replicate 32 6, ck_key_len = 32\<rparr>,
       cs_algo = NXP_AEAD_AES_256_GCM, cs_available = True\<rparr>\<rparr>"

lemma export_conn_ok:
  assumes "nxp_conn_create True True True True alloc_cc cfg srv = Some c"
  shows "session_ok (export_conn c)" "conn_inv (export_conn c)" "nxp_session_export_size (export_conn c) = 276"
proof -
  have "cn_idle_timeout_us c \<noteq> 0"
    using assms by (auto simp: nxp_conn_create_def Let_def bind_Some_iff split: if_splits)
  then show "session_ok (export_conn c)"
    by (simp add: session_ok_def export_conn_def keys_full_def aead_algo_of_def NXP_MAX_CID_LEN_def)
  show "conn_inv (export_conn c)" using create_inv(1) [OF assms] by (simp add: export_conn_def)
  show "nxp_session_export_size (export_conn c) = 276" by (simp add: nxp_session_export_size_def export_conn_def)
qed


end
