(* ===== verification/Nxp_Listener.thy ===== *)
theory Nxp_Listener
  imports Nxp_Conn_Run Nxp_Rate
begin

text \<open>
  The server listener (\<^verbatim>\<open>src/core/listener.c\<close>): many connections behind one socket, found by the
  hash of the connection identifier in a datagram. The connections live in a store from pointers to
  connections; a pointer that is not in the store has been freed, and using it has no value
  (\<^term>\<open>None\<close>). The list \<open>ls_conns\<close> is the used part of the pointer array. The bytes the random
  generator delivers and the outcome of the allocations are parameters (\<open>accept_env\<close>). The
  theory shows that no step of the listener ever touches a freed connection, what a timer tick
  does to every connection, that sending asks every connection, and that a datagram reaches one
  connection only.
\<close>

section \<open>State\<close>

abbreviation (input) NXP_LISTENER_DEFAULT_MAX_CONNS :: u32 where "NXP_LISTENER_DEFAULT_MAX_CONNS \<equiv> 4096"
abbreviation (input) NXP_LISTENER_CID_LEN :: nat where "NXP_LISTENER_CID_LEN \<equiv> 8"
abbreviation (input) NXP_LISTENER_MAX_NODE_ID_LEN :: u8 where "NXP_LISTENER_MAX_NODE_ID_LEN \<equiv> 4"

type_synonym conn_ptr = nat

record nxp_listener_config =
  lc_node_id :: bytes
  lc_node_id_len :: u8
  lc_max_connections :: u32
  lc_idle_timeout_us :: u64
  lc_initial_max_data :: u64
  lc_initial_max_stream_data :: u64
  lc_max_streams_bidi :: u32
  lc_max_streams_uni :: u32
  lc_require_retry :: bool
  lc_retry_key :: bytes
  lc_on_new_conn :: bool

record nxp_listener_s =
  conn_store :: "conn_ptr \<rightharpoonup> nxp_conn"
  ls_next_ptr :: conn_ptr
  ls_conn_map :: "conn_ptr nxp_hash_map"
  ls_conns :: "conn_ptr option list"
  ls_conn_cap :: u32
  ls_send_index :: u32
  ls_config :: nxp_listener_config
  ls_total_accepted :: u64
  ls_total_rejected :: u64
  ls_total_retried :: u64
  ls_rate_limiter :: "nxp_rate_limiter option option"
  ls_calls :: "conn_ptr list"

record accept_env =
  env_random :: bytes
  env_alloc_conn :: bool
  env_alloc_sent :: bool
  env_alloc_map :: bool
  env_alloc_entries :: bool
  env_alloc_cc :: bool
  env_grow_conns :: bool
  env_grow_map :: bool
  env_alloc_handshake :: bool
  env_keypair :: "(bytes \<times> bytes) option"
  env_streams :: "u64 \<Rightarrow> stream_alloc"
  env_alloc_bucket :: bool
  env_put_bucket :: bool

definition conn_count :: "nxp_listener_s \<Rightarrow> u32" where
  "conn_count ls = of_nat (length (ls_conns ls))"

section \<open>Identifiers\<close>

definition cid_hash :: "nxp_conn_id \<Rightarrow> u64" where
  "cid_hash cid = foldl (\<lambda>h b. (h XOR ucast b) * 1099511628211) 14695981039346656037 (cid_data cid)"

text \<open>\<open>rnd\<close>: what the random generator wrote behind the prefix.\<close>

definition nxp_listener_generate_cid :: "nxp_listener_config \<Rightarrow> bytes \<Rightarrow> nxp_conn_id" where
  "nxp_listener_generate_cid cfg rnd =
     (let prefix_len = (if lc_node_id_len cfg > NXP_LISTENER_MAX_NODE_ID_LEN then NXP_LISTENER_MAX_NODE_ID_LEN
                        else lc_node_id_len cfg);
          random_len = NXP_LISTENER_CID_LEN - unat prefix_len in
      \<lparr>cid_data = take (unat prefix_len) (lc_node_id cfg) @ take random_len rnd\<rparr>)"

definition nxp_listener_extract_node_id :: "nxp_conn_id \<Rightarrow> u8 \<Rightarrow> bytes option" where
  "nxp_listener_extract_node_id cid node_id_len =
     (if length (cid_data cid) < unat node_id_len \<or> node_id_len = 0 then None
      else Some (take (unat node_id_len) (cid_data cid)))"

section \<open>Create and destroy\<close>

text \<open>\<open>alloc_buckets\<close>: the table of the rate limiter can be allocated; the code does not look.\<close>

definition nxp_listener_create ::
    "bool \<Rightarrow> bool \<Rightarrow> bool \<Rightarrow> bool \<Rightarrow> bool \<Rightarrow> bool \<Rightarrow> nxp_listener_config \<Rightarrow> nxp_listener_s option" where
  "nxp_listener_create alloc_ls alloc_map alloc_entries alloc_conns alloc_rl alloc_buckets config =
     (if \<not> alloc_ls then None
      else
        let config = (if lc_max_connections config = 0
                      then config\<lparr>lc_max_connections := NXP_LISTENER_DEFAULT_MAX_CONNS\<rparr> else config) in
        case nxp_hash_map_create alloc_map alloc_entries 64 of
          None \<Rightarrow> None
        | Some conn_map \<Rightarrow>
            if \<not> alloc_conns then None
            else Some \<lparr>conn_store = Map.empty, ls_next_ptr = 0, ls_conn_map = conn_map, ls_conns = [], ls_conn_cap = 64,
              ls_send_index = 0, ls_config = config, ls_total_accepted = 0, ls_total_rejected = 0, ls_total_retried = 0,
              ls_rate_limiter = (if \<not> alloc_rl then None else if \<not> alloc_buckets then Some None else Some (Some Map.empty)),
              ls_calls = []\<rparr>)"

text \<open>Releasing one connection: it must not have been released before.\<close>

definition free_conn :: "conn_ptr \<Rightarrow> (conn_ptr \<rightharpoonup> nxp_conn) \<Rightarrow> (conn_ptr \<rightharpoonup> nxp_conn) option" where
  "free_conn p store = do {
     c \<leftarrow> store p;
     nxp_conn_destroy c;
     Some (store(p := None)) }"

fun destroy_conns :: "conn_ptr option list \<Rightarrow> (conn_ptr \<rightharpoonup> nxp_conn) \<Rightarrow> (conn_ptr \<rightharpoonup> nxp_conn) option" where
  "destroy_conns [] store = Some store"
| "destroy_conns (None # ps) store = destroy_conns ps store"
| "destroy_conns (Some p # ps) store = do { store \<leftarrow> free_conn p store; destroy_conns ps store }"

definition nxp_listener_destroy :: "nxp_listener_s \<Rightarrow> (conn_ptr \<rightharpoonup> nxp_conn) option" where
  "nxp_listener_destroy ls = destroy_conns (ls_conns ls) (conn_store ls)"

section \<open>Connection management\<close>

text \<open>The write behind the end of the array (a capacity that wrapped around to zero) is \<^term>\<open>None\<close>.\<close>

definition listener_add_conn ::
    "bool \<Rightarrow> bool \<Rightarrow> nxp_listener_s \<Rightarrow> conn_ptr \<Rightarrow> (nxp_listener_s \<times> nxp_error_code) option" where
  "listener_add_conn grow_conns grow_map ls p =
     (if conn_count ls \<ge> lc_max_connections (ls_config ls) then Some (ls, NXP_ERR_STREAM_LIMIT)
      else if conn_count ls \<ge> ls_conn_cap ls \<and> \<not> grow_conns then Some (ls, NXP_ERR_OUT_OF_MEMORY)
      else do {
        let ls = (if conn_count ls \<ge> ls_conn_cap ls then ls\<lparr>ls_conn_cap := ls_conn_cap ls * 2\<rparr> else ls) in
        do {
        c \<leftarrow> conn_store ls p;
        (conn_map, old) \<leftarrow> nxp_hash_map_put grow_map (ls_conn_map ls) (cid_hash (cn_scid c)) (Some p);
        if conn_count ls < ls_conn_cap ls
        then Some (ls\<lparr>ls_conn_map := conn_map, ls_conns := ls_conns ls @ [Some p]\<rparr>, NXP_OK)
        else None } })"

definition nxp_listener_find_conn :: "nxp_listener_s \<Rightarrow> nxp_conn_id \<Rightarrow> conn_ptr option option" where
  "nxp_listener_find_conn ls dcid = nxp_hash_map_get (ls_conn_map ls) (cid_hash dcid)"

text \<open>Swapping with the last entry, from position \<open>i\<close> on.\<close>

definition swap_remove :: "nat \<Rightarrow> conn_ptr option list \<Rightarrow> conn_ptr option list" where
  "swap_remove i ps = butlast (ps[i := last ps])"

fun find_index :: "'a \<Rightarrow> 'a list \<Rightarrow> nat option" where
  "find_index x [] = None"
| "find_index x (y # ys) = (if y = x then Some 0 else map_option Suc (find_index x ys))"

definition nxp_listener_remove_conn :: "nxp_listener_s \<Rightarrow> conn_ptr \<Rightarrow> nxp_listener_s option" where
  "nxp_listener_remove_conn ls p = do {
     c \<leftarrow> conn_store ls p;
     (conn_map, old) \<leftarrow> nxp_hash_map_remove (ls_conn_map ls) (cid_hash (cn_scid c));
     let conns = (case find_index (Some p) (ls_conns ls) of None \<Rightarrow> ls_conns ls
                  | Some i \<Rightarrow> swap_remove i (ls_conns ls)) in
     do {
     store \<leftarrow> free_conn p (conn_store ls);
     Some (ls\<lparr>ls_conn_map := conn_map, ls_conns := conns, conn_store := store\<rparr>) } }"

section \<open>Accept and receive\<close>

definition accept_config :: "nxp_listener_config \<Rightarrow> bytes \<Rightarrow> nxp_conn_id \<Rightarrow> nxp_addr \<Rightarrow> nxp_conn_config" where
  "accept_config cfg rnd peer_scid from_addr =
     \<lparr>cfg_scid = nxp_listener_generate_cid cfg rnd, cfg_peer_dcid_len = of_nat (length (cid_data peer_scid)),
      cfg_peer_addr = from_addr, cfg_idle_timeout_us = lc_idle_timeout_us cfg,
      cfg_initial_max_data = lc_initial_max_data cfg, cfg_initial_max_stream_data = lc_initial_max_stream_data cfg,
      cfg_max_streams_bidi = lc_max_streams_bidi cfg, cfg_max_streams_uni = lc_max_streams_uni cfg\<rparr>"

text \<open>Handing a datagram to a connection.\<close>

definition deliver ::
    "openssl \<Rightarrow> (u64 \<Rightarrow> stream_alloc) \<Rightarrow> nxp_listener_s \<Rightarrow> conn_ptr \<Rightarrow> bytes \<Rightarrow> u64 \<Rightarrow> (nxp_listener_s \<times> nxp_error_code) option" where
  "deliver ssl al ls p data now_us = do {
     c \<leftarrow> conn_store ls p;
     (c, e) \<leftarrow> nxp_conn_recv ssl al c data now_us;
     Some (ls\<lparr>conn_store := (conn_store ls)(p \<mapsto> c)\<rparr>, e) }"

definition reject :: "nxp_listener_s \<Rightarrow> nxp_listener_s" where
  "reject ls = ls\<lparr>ls_total_rejected := ls_total_rejected ls + 1\<rparr>"

text \<open>The new connection, from its handshake on: the first datagram and the call of the application.\<close>

definition accept_start ::
    "openssl \<Rightarrow> accept_env \<Rightarrow> nxp_listener_s \<Rightarrow> conn_ptr \<Rightarrow> nxp_conn_id \<Rightarrow> bytes \<Rightarrow> u64 \<Rightarrow>
     (nxp_listener_s \<times> nxp_error_code) option" where
  "accept_start ssl env ls p dcid data now_us = do {
     c \<leftarrow> conn_store ls p;
     let (c, r) = nxp_conn_start_handshake ssl (env_alloc_handshake env) (env_keypair env) c dcid;
         ls = ls\<lparr>conn_store := (conn_store ls)(p \<mapsto> c)\<rparr> in
     if r \<noteq> NXP_OK then do {
       ls \<leftarrow> nxp_listener_remove_conn ls p;
       Some (reject ls, r) }
     else do {
       (ls, _) \<leftarrow> deliver ssl (env_streams env) ls p data now_us;
       Some (if lc_on_new_conn (ls_config ls) then ls\<lparr>ls_calls := ls_calls ls @ [p]\<rparr> else ls, NXP_OK) } }"

definition listener_accept ::
    "openssl \<Rightarrow> accept_env \<Rightarrow> nxp_listener_s \<Rightarrow> nxp_pkt_long_header \<Rightarrow> bytes \<Rightarrow> nxp_addr \<Rightarrow> u64 \<Rightarrow>
     (nxp_listener_s \<times> nxp_error_code) option" where
  "listener_accept ssl env ls hdr data from_addr now_us =
     (case nxp_conn_create (env_alloc_conn env) (env_alloc_sent env) (env_alloc_map env) (env_alloc_entries env)
             (env_alloc_cc env) (accept_config (ls_config ls) (env_random env) (lh_scid hdr) from_addr) True of
        None \<Rightarrow> Some (reject ls, NXP_ERR_OUT_OF_MEMORY)
      | Some c \<Rightarrow>
          let p = ls_next_ptr ls;
              ls = ls\<lparr>conn_store := (conn_store ls)(p \<mapsto> c\<lparr>cn_dcid := lh_scid hdr\<rparr>), ls_next_ptr := p + 1\<rparr> in
          do {
          (ls, r) \<leftarrow> listener_add_conn (env_grow_conns env) (env_grow_map env) ls p;
          if r \<noteq> NXP_OK then do {
            store \<leftarrow> free_conn p (conn_store ls);
            Some (reject (ls\<lparr>conn_store := store\<rparr>), r) }
          else accept_start ssl env (ls\<lparr>ls_total_accepted := ls_total_accepted ls + 1\<rparr>) p (lh_dcid hdr) data now_us })"

text \<open>The rate limiter of the listener; it lets everything pass when it was not allocated, and a
  limiter without its table has no value.\<close>

definition limiter_check ::
    "accept_env \<Rightarrow> nxp_rate_limiter option option \<Rightarrow> nxp_addr \<Rightarrow> u64 \<Rightarrow> (bool \<times> nxp_rate_limiter option option) option" where
  "limiter_check env rl addr now_us =
     (case rl of None \<Rightarrow> Some (True, None)
      | Some None \<Rightarrow> None
      | Some (Some buckets) \<Rightarrow>
          let (ok, buckets) = nxp_rate_limiter_check (env_alloc_bucket env) (env_put_bucket env) buckets addr now_us in
          Some (ok, Some (Some buckets)))"

definition recv_long ::
    "openssl \<Rightarrow> accept_env \<Rightarrow> nxp_listener_s \<Rightarrow> bytes \<Rightarrow> nxp_addr \<Rightarrow> u64 \<Rightarrow> (nxp_listener_s \<times> nxp_error_code) option" where
  "recv_long ssl env ls data from_addr now_us =
     (case nxp_pkt_decode_long_header data of
        Inl e \<Rightarrow> Some (ls, e)
      | Inr hdr \<Rightarrow> do {
          conn \<leftarrow> nxp_listener_find_conn ls (lh_dcid hdr);
          (case conn of
             Some p \<Rightarrow> deliver ssl (env_streams env) ls p data now_us
           | None \<Rightarrow>
               if lh_type hdr \<noteq> NXP_PKT_INITIAL then Some (ls, NXP_ERR_INVALID_PACKET)
               else if lh_version hdr \<noteq> NXP_VERSION_CURRENT then Some (ls, NXP_ERR_VERSION_MISMATCH)
               else if lc_require_retry (ls_config ls) \<and> lh_token_len hdr = 0
               then Some (ls\<lparr>ls_total_retried := ls_total_retried ls + 1\<rparr>, NXP_ERR_TOKEN_INVALID)
               else listener_accept ssl env ls hdr data from_addr now_us) })"

definition recv_short ::
    "openssl \<Rightarrow> accept_env \<Rightarrow> nxp_listener_s \<Rightarrow> bytes \<Rightarrow> u64 \<Rightarrow> (nxp_listener_s \<times> nxp_error_code) option" where
  "recv_short ssl env ls data now_us =
     (if length data < 1 + NXP_LISTENER_CID_LEN then Some (ls, NXP_ERR_INVALID_PACKET)
      else do {
        conn \<leftarrow> nxp_listener_find_conn ls \<lparr>cid_data = take NXP_LISTENER_CID_LEN (drop 1 data)\<rparr>;
        (case conn of None \<Rightarrow> Some (ls, NXP_ERR_INVALID_PACKET)
         | Some p \<Rightarrow> deliver ssl (env_streams env) ls p data now_us) })"

definition nxp_listener_recv ::
    "openssl \<Rightarrow> accept_env \<Rightarrow> nxp_listener_s \<Rightarrow> bytes \<Rightarrow> nxp_addr \<Rightarrow> u64 \<Rightarrow> (nxp_listener_s \<times> nxp_error_code) option" where
  "nxp_listener_recv ssl env ls data from_addr now_us =
     (if data = [] then Some (ls, NXP_ERR_INVALID_ARGUMENT)
      else do {
        (ok, rl) \<leftarrow> limiter_check env (ls_rate_limiter ls) from_addr now_us;
        let ls = ls\<lparr>ls_rate_limiter := rl\<rparr> in
        if \<not> ok then Some (reject ls, NXP_ERR_CONGESTION)
        else if nxp_pkt_is_long_header (data ! 0) then recv_long ssl env ls data from_addr now_us
        else recv_short ssl env ls data now_us })"

section \<open>Send\<close>

text \<open>The first argument counts the connections that have not been asked yet.\<close>

fun send_loop ::
    "nat \<Rightarrow> openssl \<Rightarrow> (conn_ptr \<Rightarrow> bool) \<Rightarrow> nxp_listener_s \<Rightarrow> nat \<Rightarrow> u64 \<Rightarrow> (nxp_listener_s \<times> (bytes \<times> nxp_addr) option) option" where
  "send_loop 0 ssl grow ls max_len now_us = Some (ls, None)"
| "send_loop (Suc n) ssl grow ls max_len now_us =
     (let idx = ls_send_index ls mod conn_count ls;
          ls = ls\<lparr>ls_send_index := ls_send_index ls + 1\<rparr> in
      case ls_conns ls ! unat idx of
        None \<Rightarrow> send_loop n ssl grow ls max_len now_us
      | Some p \<Rightarrow> do {
          c \<leftarrow> conn_store ls p;
          (c, r) \<leftarrow> nxp_conn_send ssl (grow p) c max_len now_us;
          let ls = ls\<lparr>conn_store := (conn_store ls)(p \<mapsto> c)\<rparr> in
          (case r of
             Some pkt \<Rightarrow> if pkt \<noteq> [] then Some (ls, Some (pkt, cn_peer_addr c)) else send_loop n ssl grow ls max_len now_us
           | None \<Rightarrow> send_loop n ssl grow ls max_len now_us) })"

definition nxp_listener_send ::
    "openssl \<Rightarrow> (conn_ptr \<Rightarrow> bool) \<Rightarrow> nxp_listener_s \<Rightarrow> nat \<Rightarrow> u64 \<Rightarrow> (nxp_listener_s \<times> (bytes \<times> nxp_addr) option) option" where
  "nxp_listener_send ssl grow ls max_len now_us =
     (if conn_count ls = 0 then Some (ls, None)
      else send_loop (unat (conn_count ls)) ssl grow ls max_len now_us)"

section \<open>Timers\<close>

fun earliest_timeout :: "(conn_ptr \<rightharpoonup> nxp_conn) \<Rightarrow> u64 \<Rightarrow> conn_ptr option list \<Rightarrow> u64 \<Rightarrow> u64 option" where
  "earliest_timeout store now_us [] earliest = Some earliest"
| "earliest_timeout store now_us (None # ps) earliest = earliest_timeout store now_us ps earliest"
| "earliest_timeout store now_us (Some p # ps) earliest = do {
     c \<leftarrow> store p;
     t \<leftarrow> nxp_conn_timeout c now_us;
     earliest_timeout store now_us ps (if t < earliest then t else earliest) }"

definition nxp_listener_timeout :: "nxp_listener_s \<Rightarrow> u64 \<Rightarrow> u64 option" where
  "nxp_listener_timeout ls now_us = earliest_timeout (conn_store ls) now_us (ls_conns ls) UINT64_MAX"

lemma find_index_nth: "i < length xs \<Longrightarrow> xs ! i = x \<Longrightarrow> \<exists>j. find_index x xs = Some j \<and> j \<le> i \<and> xs ! j = x"
proof (induction xs arbitrary: i)
  case (Cons y ys)
  show ?case
  proof (cases i)
    case 0 then show ?thesis using Cons.prems by simp
  next
    case (Suc k)
    then obtain j where "find_index x ys = Some j" "j \<le> k" "ys ! j = x" using Cons by auto
    then show ?thesis using Suc by auto
  qed
qed simp

lemma remove_conns:
  assumes "nxp_listener_remove_conn ls p = Some ls'" "i < length (ls_conns ls)" "ls_conns ls ! i = Some p"
  shows "length (ls_conns ls') = length (ls_conns ls) - 1"
  using assms find_index_nth [OF assms(2,3)]
  by (auto simp: nxp_listener_remove_conn_def bind_Some_iff Let_def swap_remove_def)

function timeout_loop :: "nat \<Rightarrow> nxp_listener_s \<Rightarrow> u64 \<Rightarrow> nxp_listener_s option" where
  "timeout_loop i ls now_us =
     (if i < length (ls_conns ls) then
        case ls_conns ls ! i of
          None \<Rightarrow> timeout_loop (i + 1) ls now_us
        | Some p \<Rightarrow>
            case (do { c \<leftarrow> conn_store ls p; nxp_conn_on_timeout c now_us }) of
              None \<Rightarrow> None
            | Some c \<Rightarrow>
                if nxp_conn_get_state c = NXP_CONN_CLOSED then
                  case nxp_listener_remove_conn (ls\<lparr>conn_store := (conn_store ls)(p \<mapsto> c)\<rparr>) p of
                    None \<Rightarrow> None
                  | Some ls \<Rightarrow> timeout_loop i ls now_us
                else timeout_loop (i + 1) (ls\<lparr>conn_store := (conn_store ls)(p \<mapsto> c)\<rparr>) now_us
      else Some ls)"
  by pat_completeness auto

termination timeout_loop
proof (relation "measure (\<lambda>(i, ls, now_us). length (ls_conns ls) - i)", goal_cases)
  case (3 i ls now_us p c ls')
  then show ?case using remove_conns [OF 3(5), of i] by simp
qed auto

declare timeout_loop.simps [simp del]

definition nxp_listener_on_timeout :: "nxp_listener_s \<Rightarrow> u64 \<Rightarrow> nxp_listener_s option" where
  "nxp_listener_on_timeout ls now_us = timeout_loop 0 ls now_us"

section \<open>The invariant\<close>

text \<open>The array names every live connection once, every entry of the table leads to a live
  connection with that identifier, and every live connection is well formed.\<close>

definition conns_ok :: "(conn_ptr \<rightharpoonup> nxp_conn) \<Rightarrow> conn_ptr option list \<Rightarrow> bool" where
  "conns_ok store ps \<longleftrightarrow> None \<notin> set ps \<and> distinct ps \<and> Some ` dom store = set ps"

definition routes_ok :: "(conn_ptr \<rightharpoonup> nxp_conn) \<Rightarrow> (u64 \<rightharpoonup> conn_ptr option) \<Rightarrow> bool" where
  "routes_ok store routes \<longleftrightarrow>
     (\<forall>k v. routes k = Some v \<longrightarrow> (\<exists>p c. v = Some p \<and> store p = Some c \<and> cid_hash (cn_scid c) = k))"

definition store_ok :: "conn_ptr \<Rightarrow> (conn_ptr \<rightharpoonup> nxp_conn) \<Rightarrow> bool" where
  "store_ok n store \<longleftrightarrow> (\<forall>p c. store p = Some c \<longrightarrow> p < n \<and> conn_inv c)"

definition listener_inv :: "nxp_listener_s \<Rightarrow> bool" where
  "listener_inv ls \<longleftrightarrow> conns_ok (conn_store ls) (ls_conns ls) \<and> routes_ok (conn_store ls) (hm_abs (ls_conn_map ls)) \<and>
     store_ok (ls_next_ptr ls) (conn_store ls) \<and> hm_inv (ls_conn_map ls) \<and>
     length (ls_conns ls) \<le> unat (ls_conn_cap ls) \<and> 64 \<le> ls_conn_cap ls \<and>
     length (ls_conns ls) \<le> unat (lc_max_connections (ls_config ls)) \<and> unat (lc_max_connections (ls_config ls)) \<le> 2 ^ 23 \<and>
     ls_rate_limiter ls \<noteq> Some None"

lemma listener_invI:
  assumes "listener_inv ls" "conns_ok (conn_store ls') (ls_conns ls')"
    "routes_ok (conn_store ls') (hm_abs (ls_conn_map ls'))" "store_ok (ls_next_ptr ls') (conn_store ls')" "hm_inv (ls_conn_map ls')"
    "length (ls_conns ls') \<le> length (ls_conns ls)" "ls_conn_cap ls' = ls_conn_cap ls" "ls_config ls' = ls_config ls"
    "ls_rate_limiter ls' \<noteq> Some None"
  shows "listener_inv ls'"
  using assms by (auto simp: listener_inv_def)

lemma listener_inv_fields [simp]:
  "listener_inv (ls\<lparr>ls_total_accepted := x\<rparr>) = listener_inv ls" "listener_inv (ls\<lparr>ls_total_rejected := x\<rparr>) = listener_inv ls"
  "listener_inv (ls\<lparr>ls_total_retried := x\<rparr>) = listener_inv ls" "listener_inv (ls\<lparr>ls_calls := y\<rparr>) = listener_inv ls"
  "listener_inv (ls\<lparr>ls_send_index := z\<rparr>) = listener_inv ls" "listener_inv (reject ls) = listener_inv ls"
  by (simp_all add: listener_inv_def reject_def)

lemma inv_count: "listener_inv ls \<Longrightarrow> unat (conn_count ls) = length (ls_conns ls)" "listener_inv ls \<Longrightarrow> length (ls_conns ls) \<le> 2 ^ 23"
proof -
  assume "listener_inv ls"
  then show "length (ls_conns ls) \<le> 2 ^ 23" by (simp add: listener_inv_def)
  then show "unat (conn_count ls) = length (ls_conns ls)" by (simp add: conn_count_def unat_of_nat)
qed

lemma conns_okD:
  assumes "conns_ok store ps" "i < length ps"
  obtains p c where "ps ! i = Some p" "store p = Some c"
proof -
  have "ps ! i \<in> Some ` dom store" using assms by (auto simp: conns_ok_def)
  then show ?thesis using that by auto
qed

lemma store_okD: "store_ok n store \<Longrightarrow> store p = Some c \<Longrightarrow> p < n \<and> conn_inv c"
  by (simp add: store_ok_def)

lemma listener_invD:
  assumes "listener_inv ls"
  shows "conns_ok (conn_store ls) (ls_conns ls)" "routes_ok (conn_store ls) (hm_abs (ls_conn_map ls))"
    "store_ok (ls_next_ptr ls) (conn_store ls)" "hm_inv (ls_conn_map ls)"
  using assms by (simp_all add: listener_inv_def)

text \<open>Changing a connection in place, its identifier apart.\<close>

lemma upd_conn:
  assumes "listener_inv ls" "conn_store ls p = Some c" "conn_inv c'" "cn_scid c' = cn_scid c"
  shows "listener_inv (ls\<lparr>conn_store := (conn_store ls)(p \<mapsto> c')\<rparr>)"
proof (rule listener_invI [OF assms(1)])
  have d: "dom ((conn_store ls)(p \<mapsto> c')) = dom (conn_store ls)" using assms(2) by auto
  show "conns_ok (conn_store (ls\<lparr>conn_store := (conn_store ls)(p \<mapsto> c')\<rparr>)) (ls_conns (ls\<lparr>conn_store := (conn_store ls)(p \<mapsto> c')\<rparr>))"
    using listener_invD(1) [OF assms(1)] d by (simp add: conns_ok_def)
  show "routes_ok (conn_store (ls\<lparr>conn_store := (conn_store ls)(p \<mapsto> c')\<rparr>)) (hm_abs (ls_conn_map (ls\<lparr>conn_store := (conn_store ls)(p \<mapsto> c')\<rparr>)))"
    using listener_invD(2) [OF assms(1)] assms(2,4) unfolding routes_ok_def by fastforce
  show "store_ok (ls_next_ptr (ls\<lparr>conn_store := (conn_store ls)(p \<mapsto> c')\<rparr>)) (conn_store (ls\<lparr>conn_store := (conn_store ls)(p \<mapsto> c')\<rparr>))"
    using listener_invD(3) [OF assms(1)] assms by (auto simp: store_ok_def)
qed (use assms(1) in \<open>simp_all add: listener_inv_def\<close>)

lemma upd_conn_evolves:
  assumes "listener_inv ls" "conn_store ls p = Some c" "evolves n c c'"
  shows "listener_inv (ls\<lparr>conn_store := (conn_store ls)(p \<mapsto> c')\<rparr>)"
  using assms store_okD [OF listener_invD(3) [OF assms(1)] assms(2)]
  by (intro upd_conn [OF assms(1,2)]) (auto simp: evolves_def)

text \<open>No more routes than connections.\<close>

lemma routes_card:
  assumes "listener_inv ls"
  shows "card (dom (hm_abs (ls_conn_map ls))) \<le> length (ls_conns ls)"
proof -
  let ?r = "hm_abs (ls_conn_map ls)"
  have "inj_on (\<lambda>k. the (?r k)) (dom ?r)"
    using listener_invD(2) [OF assms] unfolding inj_on_def routes_ok_def by (metis domD option.inject option.sel)
  moreover have "(\<lambda>k. the (?r k)) ` dom ?r \<subseteq> set (ls_conns ls)"
    using listener_invD(1,2) [OF assms] unfolding routes_ok_def conns_ok_def by fastforce
  ultimately have "card (dom ?r) \<le> card (set (ls_conns ls))" by (meson card_inj_on_le List.finite_set)
  then show ?thesis using card_length le_trans by blast
qed

section \<open>Removing a connection\<close>

lemma free_conn_spec: "conn_inv c \<Longrightarrow> store p = Some c \<Longrightarrow> free_conn p store = Some (store(p := None))"
  by (simp add: free_conn_def conn_destroy_spec)

lemma swap_remove_set:
  assumes "distinct ps" "i < length ps"
  shows "distinct (swap_remove i ps)" "set (swap_remove i ps) = set ps - {ps ! i}"
    "k \<le> i \<Longrightarrow> set (drop k (swap_remove i ps)) = set (drop k ps) - {ps ! i}" "length (swap_remove i ps) = length ps - 1"
    "take i (swap_remove i ps) = take i ps"
proof -
  obtain as z where ps: "ps = as @ [z]" using assms(2) by (cases ps rule: rev_cases) auto
  have sr: "swap_remove i ps = (if i = length as then as else as[i := z])"
    using assms(2) by (auto simp: swap_remove_def ps list_update_append)
  have i: "i < length as \<or> i = length as" using assms(2) ps by auto
  have as: "as = take i as @ as ! i # drop (Suc i) as" if "i < length as" using that by (simp add: id_take_nth_drop)
  have upd: "as[i := z] = take i as @ z # drop (Suc i) as" if "i < length as" using that by (simp add: upd_conv_take_nth_drop)
  have "distinct (as[i := z]) \<and> set (as[i := z]) = set ps - {ps ! i} \<and>
      (k \<le> i \<longrightarrow> set (drop k (as[i := z])) = set (drop k ps) - {ps ! i})" if l: "i < length as"
  proof -
    obtain xs x ys where e: "as = xs @ x # ys" "length xs = i" using as [OF l] l by (metis length_take min.absorb4)
    then have p: "ps = xs @ x # ys @ [z]" "as[i := z] = xs @ z # ys" "ps ! i = x" using ps by (auto simp: nth_append)
    then show ?thesis using assms(1) e(2) set_drop_subset [of k xs] by (auto simp: drop_append)
  qed
  then show "distinct (swap_remove i ps)" "set (swap_remove i ps) = set ps - {ps ! i}"
    "k \<le> i \<Longrightarrow> set (drop k (swap_remove i ps)) = set (drop k ps) - {ps ! i}"
    unfolding sr using i assms(1) set_drop_subset [of k as] by (auto simp: ps)
  show "length (swap_remove i ps) = length ps - 1" "take i (swap_remove i ps) = take i ps" unfolding sr using i by (auto simp: ps)
qed

lemma find_index_distinct: "distinct xs \<Longrightarrow> i < length xs \<Longrightarrow> find_index (xs ! i) xs = Some i"
  using find_index_nth [of i xs "xs ! i"] by (fastforce simp: nth_eq_iff_index_eq)

lemma remove_spec_conn:
  assumes inv: "listener_inv ls" and i: "i < length (ls_conns ls)" "ls_conns ls ! i = Some p" and c: "conn_store ls p = Some c"
  obtains ls' where "nxp_listener_remove_conn ls p = Some ls'" "listener_inv ls'"
    "conn_store ls' = (conn_store ls)(p := None)" "ls_conns ls' = swap_remove i (ls_conns ls)"
    "hm_abs (ls_conn_map ls') = (hm_abs (ls_conn_map ls))(cid_hash (cn_scid c) := None)"
    "ls_config ls' = ls_config ls" "ls_next_ptr ls' = ls_next_ptr ls"
proof -
  let ?k = "cid_hash (cn_scid c)"
  note d = listener_invD [OF inv]
  obtain m old where m: "nxp_hash_map_remove (ls_conn_map ls) ?k = Some (m, old)" "hm_inv m"
    "hm_abs m = (hm_abs (ls_conn_map ls))(?k := None)" using remove_spec [OF d(4), of ?k] by blast
  let ?s = "(conn_store ls)(p := None)" and ?ps = "swap_remove i (ls_conns ls)"
  have dist: "distinct (ls_conns ls)" using d(1) by (simp add: conns_ok_def)
  let ?ls = "ls\<lparr>ls_conn_map := m, ls_conns := ?ps, conn_store := ?s\<rparr>"
  have "free_conn p (conn_store ls) = Some ?s" using free_conn_spec store_okD [OF d(3) c] c by blast
  then have eq: "nxp_listener_remove_conn ls p = Some ?ls"
    using find_index_distinct [OF dist i(1)] i(2) m(1) c by (simp add: nxp_listener_remove_conn_def Let_def)
  have dom: "Some ` dom ?s = Some ` dom (conn_store ls) - {Some p}" by auto
  have "listener_inv ?ls"
  proof (rule listener_invI [OF inv])
    show "conns_ok (conn_store ?ls) (ls_conns ?ls)"
      using d(1) swap_remove_set(1,2) [OF dist i(1)] i(2) dom by (auto simp: conns_ok_def)
    have "\<exists>q c'. v = Some q \<and> ?s q = Some c' \<and> cid_hash (cn_scid c') = k" if k: "hm_abs m k = Some v" for k v
    proof -
      have "k \<noteq> ?k" "hm_abs (ls_conn_map ls) k = Some v" using k m(3) by (auto split: if_splits)
      then obtain q c' where "v = Some q" "conn_store ls q = Some c'" "cid_hash (cn_scid c') = k"
        using d(2) unfolding routes_ok_def by blast
      then show ?thesis using \<open>k \<noteq> ?k\<close> c by (intro exI [of _ q] exI [of _ c']) auto
    qed
    then show "routes_ok (conn_store ?ls) (hm_abs (ls_conn_map ?ls))" by (auto simp: routes_ok_def)
    show "store_ok (ls_next_ptr ?ls) (conn_store ?ls)" using d(3) by (auto simp: store_ok_def)
    show "length (ls_conns ?ls) \<le> length (ls_conns ls)" using swap_remove_set(4) [OF dist i(1)] by simp
  qed (use m inv in \<open>simp_all add: listener_inv_def\<close>)
  then show ?thesis using that eq m(3) by simp
qed

section \<open>Adding a connection\<close>

lemma fresh_ptr: "listener_inv ls \<Longrightarrow> conn_store ls (ls_next_ptr ls) = None"
  using store_okD [OF listener_invD(3), of ls "ls_next_ptr ls"] by (cases "conn_store ls (ls_next_ptr ls)") auto

lemma add_fresh_inv:
  assumes inv: "listener_inv ls" and c: "conn_inv c"
    and m: "hm_inv m" "hm_abs m = hm_abs (ls_conn_map ls) \<or> hm_abs m = (hm_abs (ls_conn_map ls))(cid_hash (cn_scid c) \<mapsto> Some p)"
    and p: "p = ls_next_ptr ls" and len: "length (ls_conns ls) < unat (lc_max_connections (ls_config ls))"
    and cap: "length (ls_conns ls) < unat cap" "64 \<le> cap"
  shows "listener_inv (ls\<lparr>conn_store := (conn_store ls)(p \<mapsto> c), ls_next_ptr := p + 1, ls_conn_cap := cap,
    ls_conn_map := m, ls_conns := ls_conns ls @ [Some p]\<rparr>)"
proof -
  note d = listener_invD [OF inv] and fresh = fresh_ptr [OF inv]
  have "Some p \<notin> set (ls_conns ls)" using d(1) fresh p unfolding conns_ok_def by force
  then have "conns_ok ((conn_store ls)(p \<mapsto> c)) (ls_conns ls @ [Some p])" using d(1) by (auto simp: conns_ok_def)
  moreover have "routes_ok ((conn_store ls)(p \<mapsto> c)) (hm_abs m)"
  proof -
    have old: "\<exists>q c'. v = Some q \<and> ((conn_store ls)(p \<mapsto> c)) q = Some c' \<and> cid_hash (cn_scid c') = k"
      if k: "hm_abs (ls_conn_map ls) k = Some v" for k v
    proof -
      obtain q c' where "v = Some q" "conn_store ls q = Some c'" "cid_hash (cn_scid c') = k"
        using d(2) k unfolding routes_ok_def by blast
      then show ?thesis using fresh p by (intro exI [of _ q] exI [of _ c']) auto
    qed
    show ?thesis using m(2) unfolding routes_ok_def by (metis fun_upd_apply old option.inject)
  qed
  moreover have "store_ok (p + 1) ((conn_store ls)(p \<mapsto> c))" using d(3) c p by (auto simp: store_ok_def less_Suc_eq)
  ultimately show ?thesis using inv m(1) len cap by (simp add: listener_inv_def)
qed

lemma double_cap: "unat cap < 2 ^ 31 \<Longrightarrow> unat (cap * 2 :: u32) = unat cap * 2"
  by (simp add: unat_mult_lem [THEN iffD1])

lemma add_conn_spec:
  assumes inv: "listener_inv ls" and c: "conn_inv c" and p: "p = ls_next_ptr ls"
    and ls1: "ls1 = ls\<lparr>conn_store := (conn_store ls)(p \<mapsto> c), ls_next_ptr := p + 1\<rparr>"
  obtains (rejected) r where "listener_add_conn g1 g2 ls1 p = Some (ls1, r)" "r \<noteq> NXP_OK"
      "\<not> (g1 \<and> length (ls_conns ls) < unat (lc_max_connections (ls_config ls)))"
  | (added) ls2 where "listener_add_conn g1 g2 ls1 p = Some (ls2, NXP_OK)" "listener_inv ls2"
      "conn_store ls2 = (conn_store ls)(p \<mapsto> c)" "ls_conns ls2 = ls_conns ls @ [Some p]" "ls_config ls2 = ls_config ls"
      "length (ls_conns ls) < unat (lc_max_connections (ls_config ls))"
      "g2 \<Longrightarrow> hm_abs (ls_conn_map ls2) = (hm_abs (ls_conn_map ls))(cid_hash (cn_scid c) \<mapsto> Some p)"
      "ls_total_accepted ls2 = ls_total_accepted ls" "ls_calls ls2 = ls_calls ls" "ls_send_index ls2 = ls_send_index ls"
proof -
  have count: "conn_count ls1 = conn_count ls" "ls_config ls1 = ls_config ls" "ls_conn_cap ls1 = ls_conn_cap ls"
    by (simp_all add: ls1 conn_count_def)
  have n: "unat (conn_count ls) = length (ls_conns ls)" using inv_count [OF inv] by simp
  define cap where "cap = (if conn_count ls \<ge> ls_conn_cap ls then ls_conn_cap ls * 2 else ls_conn_cap ls)"
  consider "conn_count ls \<ge> lc_max_connections (ls_config ls)" | "conn_count ls \<ge> ls_conn_cap ls" "\<not> g1"
    | "conn_count ls < lc_max_connections (ls_config ls)" "conn_count ls \<ge> ls_conn_cap ls \<longrightarrow> g1" by fastforce
  then show ?thesis
  proof cases
    case 1
    then show ?thesis using rejected [of NXP_ERR_STREAM_LIMIT] n by (simp add: listener_add_conn_def count word_le_nat_alt)
  next
    case 2
    then show ?thesis
      using rejected [of NXP_ERR_STREAM_LIMIT] rejected [of NXP_ERR_OUT_OF_MEMORY]
      by (cases "conn_count ls \<ge> lc_max_connections (ls_config ls)") (simp_all add: listener_add_conn_def count)
  next
    case 3
    have len: "length (ls_conns ls) < unat (lc_max_connections (ls_config ls))" using 3(1) n by (simp add: word_less_nat_alt)
    have bound: "length (ls_conns ls) \<le> unat (ls_conn_cap ls)" "64 \<le> unat (ls_conn_cap ls)" "length (ls_conns ls) \<le> 2 ^ 23"
      using inv inv_count(2) [OF inv] by (auto simp: listener_inv_def word_le_nat_alt)
    have "unat (ls_conn_cap ls * 2) = unat (ls_conn_cap ls) * 2" if "ls_conn_cap ls \<le> conn_count ls"
      using that bound n by (intro double_cap) (simp add: word_le_nat_alt)
    then have cap: "length (ls_conns ls) < unat cap" "64 \<le> cap" using bound n
      by (auto simp: cap_def word_le_nat_alt word_less_nat_alt)
    have "card (dom (hm_abs (ls_conn_map ls))) < 2 ^ 23"
      using routes_card [OF inv] len inv by (simp add: listener_inv_def)
    then obtain m old where m: "nxp_hash_map_put g2 (ls_conn_map ls) (cid_hash (cn_scid c)) (Some p) = Some (m, old)" "hm_inv m"
      "hm_abs m = hm_abs (ls_conn_map ls) \<or> hm_abs m = (hm_abs (ls_conn_map ls))(cid_hash (cn_scid c) \<mapsto> Some p)"
      "g2 \<longrightarrow> hm_abs m = (hm_abs (ls_conn_map ls))(cid_hash (cn_scid c) \<mapsto> Some p)"
      using put_any [OF listener_invD(4) [OF inv]] by metis
    let ?ls = "ls\<lparr>conn_store := (conn_store ls)(p \<mapsto> c), ls_next_ptr := p + 1, ls_conn_cap := cap, ls_conn_map := m,
      ls_conns := ls_conns ls @ [Some p]\<rparr>"
    have "conn_count ls < cap" using cap(1) n by (simp add: word_less_nat_alt)
    then have "listener_add_conn g1 g2 ls1 p = Some (?ls, NXP_OK)"
      using 3 m(1) unfolding listener_add_conn_def count cap_def
      by (auto simp: ls1 Let_def conn_count_def not_le)
    then show ?thesis using added add_fresh_inv [OF inv c m(2,3) p len cap] len m(4) by simp
  qed
qed

section \<open>Receiving\<close>

lemma deliver_total:
  assumes "listener_inv ls" "open_is ssl" "conn_store ls p = Some c" "cn_next_ptr c + 1536 \<le> 2 ^ 23"
  obtains c' e where "deliver ssl al ls p data now = Some (ls\<lparr>conn_store := (conn_store ls)(p \<mapsto> c')\<rparr>, e)" "evolves 1536 c c'"
    "nxp_conn_recv ssl al c data now = Some (c', e)" "listener_inv (ls\<lparr>conn_store := (conn_store ls)(p \<mapsto> c')\<rparr>)"
proof -
  have "conn_inv c" using store_okD [OF listener_invD(3) [OF assms(1)] assms(3)] by simp
  then obtain c' e where "nxp_conn_recv ssl al c data now = Some (c', e)" "evolves 1536 c c'"
    using conn_recv_total assms(2,4) by blast
  then show ?thesis using that upd_conn_evolves [OF assms(1,3)] assms(3) by (simp add: deliver_def)
qed

lemma find_conn_total:
  assumes "listener_inv ls"
  obtains (unknown) "nxp_listener_find_conn ls cid = Some None"
  | (known) p c where "nxp_listener_find_conn ls cid = Some (Some p)" "conn_store ls p = Some c"
      "cid_hash (cn_scid c) = cid_hash cid"
proof -
  have g: "nxp_listener_find_conn ls cid = Some (deref (hm_abs (ls_conn_map ls) (cid_hash cid)))"
    using get_spec [OF listener_invD(4) [OF assms]] by (simp add: nxp_listener_find_conn_def)
  show ?thesis
  proof (cases "hm_abs (ls_conn_map ls) (cid_hash cid)")
    case None then show ?thesis using g unknown by (simp add: deref_def)
  next
    case (Some v)
    then obtain p c where "v = Some p" "conn_store ls p = Some c" "cid_hash (cn_scid c) = cid_hash cid"
      using listener_invD(2) [OF assms] unfolding routes_ok_def by blast
    then show ?thesis using Some g known by (simp add: deref_def)
  qed
qed

lemma create_conn_ok:
  assumes "nxp_conn_create a True m e alloc_cc cfg srv = Some c"
  shows "conn_inv c" "cn_next_ptr c = 0" "cn_scid c = cfg_scid cfg" "cn_state c = NXP_CONN_IDLE"
proof -
  have "a" "m" "e"
    using assms by (auto simp: nxp_conn_create_def nxp_hash_map_create_def Let_def bind_Some_iff split: if_splits)
  then have "nxp_conn_create True True True True alloc_cc cfg srv = Some c" using assms by simp
  then show "conn_inv c" "cn_next_ptr c = 0" "cn_state c = NXP_CONN_IDLE"
    using create_inv by blast+
  show "cn_scid c = cfg_scid cfg" using assms by (auto simp: nxp_conn_create_def Let_def bind_Some_iff split: if_splits)
qed

lemma accept_start_total:
  assumes inv: "listener_inv ls" and ssl: "open_is ssl" and c: "conn_store ls p = Some c" "cn_next_ptr c + 1536 \<le> 2 ^ 23"
    and conns: "ls_conns ls = ps @ [Some p]"
  obtains ls' e where "accept_start ssl env ls p dcid data now = Some (ls', e)" "listener_inv ls'"
    "\<And>q. q \<noteq> p \<Longrightarrow> conn_store ls' q = conn_store ls q" "ls_config ls' = ls_config ls"
    "\<And>c'. conn_store ls' p = Some c' \<Longrightarrow> cn_scid c' = cn_scid c"
proof -
  obtain c1 r where h: "nxp_conn_start_handshake ssl (env_alloc_handshake env) (env_keypair env) c dcid = (c1, r)" by fastforce
  have "conn_inv c" using store_okD [OF listener_invD(3) [OF inv] c(1)] by simp
  then have c1: "evolves 0 c c1" using start_handshake_evolves h by (metis fst_conv)
  define ls1 where "ls1 = ls\<lparr>conn_store := (conn_store ls)(p \<mapsto> c1)\<rparr>"
  have ls1: "listener_inv ls1" "conn_store ls1 p = Some c1" "ls_conns ls1 = ps @ [Some p]" "ls_config ls1 = ls_config ls"
      "\<And>q. q \<noteq> p \<Longrightarrow> conn_store ls1 q = conn_store ls q"
    using upd_conn_evolves [OF inv c(1) c1] conns by (simp_all add: ls1_def)
  have lim: "cn_next_ptr c1 + 1536 \<le> 2 ^ 23" "cn_scid c1 = cn_scid c" using c1 c(2) by (auto simp: evolves_def)
  show ?thesis
  proof (cases "r = NXP_OK")
    case True
    obtain c2 e where d: "deliver ssl (env_streams env) ls1 p data now = Some (ls1\<lparr>conn_store := (conn_store ls1)(p \<mapsto> c2)\<rparr>, e)"
        "evolves 1536 c1 c2" "listener_inv (ls1\<lparr>conn_store := (conn_store ls1)(p \<mapsto> c2)\<rparr>)"
      using deliver_total [OF ls1(1) ssl ls1(2) lim(1)] by blast
    let ?ls = "ls1\<lparr>conn_store := (conn_store ls1)(p \<mapsto> c2)\<rparr>"
    have "cn_scid c2 = cn_scid c" using d(2) lim(2) by (simp add: evolves_def)
    then show ?thesis
      using True h d c(1) ls1(4,5)
      by (intro that [of "if lc_on_new_conn (ls_config ?ls) then ?ls\<lparr>ls_calls := ls_calls ?ls @ [p]\<rparr> else ?ls" NXP_OK])
        (simp_all add: accept_start_def ls1_def [symmetric] split: if_splits)
  next
    case False
    obtain ls2 where r2: "nxp_listener_remove_conn ls1 p = Some ls2" "listener_inv ls2"
        "conn_store ls2 = (conn_store ls1)(p := None)" "ls_config ls2 = ls_config ls1"
      using remove_spec_conn [OF ls1(1), of "length ps" p c1] ls1(2,3) by (metis length_append_singleton lessI nth_append_length)
    then show ?thesis using False h c(1) ls1(4,5)
      by (intro that [of "reject ls2" r]) (simp_all add: accept_start_def ls1_def [symmetric], simp_all add: reject_def)
  qed
qed

lemma accept_total:
  assumes inv: "listener_inv ls" and ssl: "open_is ssl" and env: "env_alloc_sent env"
  obtains ls' e where "listener_accept ssl env ls hdr data addr now = Some (ls', e)" "listener_inv ls'"
    "\<And>q. q \<noteq> ls_next_ptr ls \<Longrightarrow> conn_store ls' q = conn_store ls q" "ls_config ls' = ls_config ls"
    "\<And>c. conn_store ls' (ls_next_ptr ls) = Some c \<Longrightarrow> length (ls_conns ls) < unat (lc_max_connections (ls_config ls)) \<and>
       cn_scid c = nxp_listener_generate_cid (ls_config ls) (env_random env)"
proof (cases "nxp_conn_create (env_alloc_conn env) (env_alloc_sent env) (env_alloc_map env) (env_alloc_entries env)
             (env_alloc_cc env) (accept_config (ls_config ls) (env_random env) (lh_scid hdr) addr) True")
  case None
  then show ?thesis using inv fresh_ptr [OF inv]
    by (intro that [of "reject ls" NXP_ERR_OUT_OF_MEMORY]) (simp_all add: listener_accept_def, simp_all add: reject_def)
next
  case (Some c0)
  define c where "c = c0\<lparr>cn_dcid := lh_scid hdr\<rparr>"
  note ok = create_conn_ok [OF Some [unfolded env [THEN eqTrueI]]]
  have c: "conn_inv c" "cn_next_ptr c + 1536 \<le> 2 ^ 23"
      "cn_scid c = nxp_listener_generate_cid (ls_config ls) (env_random env)"
    using ok by (simp_all add: c_def accept_config_def)
  let ?p = "ls_next_ptr ls"
  define ls1 where "ls1 = ls\<lparr>conn_store := (conn_store ls)(?p \<mapsto> c), ls_next_ptr := ?p + 1\<rparr>"
  have ls1: "ls\<lparr>conn_store := (conn_store ls)(?p \<mapsto> c), ls_next_ptr := Suc ?p\<rparr> = ls1" by (simp add: ls1_def)
  show ?thesis
  proof (cases rule: add_conn_spec [OF inv c(1) refl ls1_def, of "env_grow_conns env" "env_grow_map env"])
    case (1 r)
    let ?ls = "reject (ls\<lparr>ls_next_ptr := ?p + 1\<rparr>)"
    have "free_conn ?p (conn_store ls1) = Some (conn_store ls)"
      using free_conn_spec [OF c(1), of "conn_store ls1" ?p] fresh_ptr [OF inv] by (simp add: ls1_def fun_upd_idem)
    moreover have "ls1\<lparr>conn_store := conn_store ls\<rparr> = ls\<lparr>ls_next_ptr := ?p + 1\<rparr>" by (simp add: ls1_def)
    ultimately have "listener_accept ssl env ls hdr data addr now = Some (?ls, r)"
      using Some 1 by (simp add: listener_accept_def Let_def c_def [symmetric] ls1)
    moreover have "listener_inv ?ls"
      using inv by (auto simp: listener_inv_def store_ok_def reject_def intro: less_SucI)
    ultimately show ?thesis using fresh_ptr [OF inv] by (intro that [of ?ls r]) (simp_all add: reject_def)
  next
    case (2 ls2)
    let ?ls2 = "ls2\<lparr>ls_total_accepted := ls_total_accepted ls2 + 1\<rparr>"
    have pre: "listener_inv ?ls2" "conn_store ?ls2 ?p = Some c" "ls_conns ?ls2 = ls_conns ls @ [Some ?p]" using 2 by simp_all
    obtain ls' e where s: "accept_start ssl env ?ls2 ?p (lh_dcid hdr) data now = Some (ls', e)" "listener_inv ls'"
        "\<And>q. q \<noteq> ?p \<Longrightarrow> conn_store ls' q = conn_store ?ls2 q" "ls_config ls' = ls_config ?ls2"
        "\<And>c'. conn_store ls' ?p = Some c' \<Longrightarrow> cn_scid c' = cn_scid c"
      using accept_start_total [OF pre(1) ssl pre(2) c(2) pre(3)] by metis
    have "listener_accept ssl env ls hdr data addr now = Some (ls', e)"
      using Some 2(1) s(1) by (simp add: listener_accept_def Let_def c_def [symmetric] ls1)
    then show ?thesis using s(2-5) 2(3,5,6) c(3) by (intro that [of ls' e]) simp_all
  qed
qed

text \<open>The identifier a datagram is routed by.\<close>

definition datagram_cid :: "bytes \<Rightarrow> nxp_conn_id option" where
  "datagram_cid data =
     (if data = [] then None
      else if nxp_pkt_is_long_header (data ! 0)
      then (case nxp_pkt_decode_long_header data of Inl e \<Rightarrow> None | Inr hdr \<Rightarrow> Some (lh_dcid hdr))
      else if length data < 1 + NXP_LISTENER_CID_LEN then None
      else Some \<lparr>cid_data = take NXP_LISTENER_CID_LEN (drop 1 data)\<rparr>)"

text \<open>What a datagram may do: change the connection it is routed to, or create one when it is an
  acceptable first packet with room for one more.\<close>

definition recv_effect :: "nxp_listener_s \<Rightarrow> accept_env \<Rightarrow> bytes \<Rightarrow> nxp_listener_s \<Rightarrow> bool" where
  "recv_effect ls env data ls' \<longleftrightarrow>
     (\<forall>q c. conn_store ls q = Some c \<longrightarrow> (\<exists>c'. conn_store ls' q = Some c' \<and> cn_scid c' = cn_scid c \<and>
        (c' \<noteq> c \<longrightarrow> (\<exists>cid. datagram_cid data = Some cid \<and> nxp_listener_find_conn ls cid = Some (Some q) \<and>
           cid_hash cid = cid_hash (cn_scid c))))) \<and>
     (\<forall>q c. conn_store ls q = None \<longrightarrow> conn_store ls' q = Some c \<longrightarrow>
        q = ls_next_ptr ls \<and> length (ls_conns ls) < unat (lc_max_connections (ls_config ls)) \<and>
        cn_scid c = nxp_listener_generate_cid (ls_config ls) (env_random env) \<and>
        (\<exists>hdr. nxp_pkt_decode_long_header data = Inr hdr \<and> lh_type hdr = NXP_PKT_INITIAL \<and>
           lh_version hdr = NXP_VERSION_CURRENT \<and> nxp_listener_find_conn ls (lh_dcid hdr) = Some None \<and>
           (lc_require_retry (ls_config ls) \<longrightarrow> lh_token_len hdr \<noteq> 0)))"

lemma recv_effect_same: "conn_store ls' = conn_store ls \<Longrightarrow> recv_effect ls env data ls'"
  by (simp add: recv_effect_def)

lemma deliver_effect:
  assumes "listener_inv ls" "open_is ssl" "conn_store ls p = Some c" "cn_next_ptr c + 1536 \<le> 2 ^ 23"
    "datagram_cid data = Some cid" "nxp_listener_find_conn ls cid = Some (Some p)" "cid_hash (cn_scid c) = cid_hash cid"
  obtains ls' e where "deliver ssl al ls p data now = Some (ls', e)" "listener_inv ls'" "recv_effect ls env data ls'"
    "ls_config ls' = ls_config ls"
proof -
  obtain c' e where d: "deliver ssl al ls p data now = Some (ls\<lparr>conn_store := (conn_store ls)(p \<mapsto> c')\<rparr>, e)" "evolves 1536 c c'"
    "listener_inv (ls\<lparr>conn_store := (conn_store ls)(p \<mapsto> c')\<rparr>)" using deliver_total [OF assms(1-4)] by blast
  have "recv_effect ls env data (ls\<lparr>conn_store := (conn_store ls)(p \<mapsto> c')\<rparr>)"
    using assms(3,5-7) d(2) by (auto simp: recv_effect_def evolves_def)
  then show ?thesis using that d by simp
qed

definition conns_limited :: "nxp_listener_s \<Rightarrow> bool" where
  "conns_limited ls \<longleftrightarrow> (\<forall>p c. conn_store ls p = Some c \<longrightarrow> within_limits c) \<and>
     unat (ls_send_index ls) + length (ls_conns ls) \<le> 2 ^ 32"

lemma limiter_total:
  assumes "rl \<noteq> Some None"
  shows "\<exists>ok rl'. limiter_check env rl addr now = Some (ok, rl') \<and> rl' \<noteq> Some None"
proof -
  consider "rl = None" | b where "rl = Some (Some b)" using assms by fastforce
  then show ?thesis by cases (auto simp: limiter_check_def Let_def split: prod.splits)
qed

definition recv_done :: "nxp_listener_s \<Rightarrow> accept_env \<Rightarrow> bytes \<Rightarrow> (nxp_listener_s \<times> nxp_error_code) option \<Rightarrow> bool" where
  "recv_done ls env data res \<longleftrightarrow>
     (\<exists>ls' e. res = Some (ls', e) \<and> listener_inv ls' \<and> recv_effect ls env data ls' \<and> ls_config ls' = ls_config ls)"

lemma recv_done_same:
  "listener_inv ls \<Longrightarrow> recv_done ls env data (Some (ls, e))" "listener_inv ls \<Longrightarrow> recv_done ls env data (Some (reject ls, e))"
  "listener_inv ls \<Longrightarrow> recv_done ls env data (Some (ls\<lparr>ls_total_retried := x\<rparr>, e))"
  by (simp_all add: recv_done_def recv_effect_same, simp_all add: reject_def recv_effect_same)

lemma deliver_done:
  assumes "listener_inv ls" "open_is ssl" "conns_limited ls" "datagram_cid data = Some cid"
    "nxp_listener_find_conn ls cid = Some (Some p)" "conn_store ls p = Some c" "cid_hash (cn_scid c) = cid_hash cid"
  shows "recv_done ls env data (deliver ssl al ls p data now)"
proof -
  have "cn_next_ptr c + 1536 \<le> 2 ^ 23" using assms(3,6) by (auto simp: conns_limited_def within_limits_def)
  then show ?thesis using deliver_effect [OF assms(1,2,6) _ assms(4,5,7)] unfolding recv_done_def by metis
qed

lemma recv_long_done:
  assumes inv: "listener_inv ls" and ssl: "open_is ssl" and env: "env_alloc_sent env" and lim: "conns_limited ls"
    and data: "data \<noteq> []" "nxp_pkt_is_long_header (data ! 0)"
  shows "recv_done ls env data (recv_long ssl env ls data addr now)"
proof (cases "nxp_pkt_decode_long_header data")
  case (Inl e) then show ?thesis using recv_done_same(1) [OF inv] by (simp add: recv_long_def)
next
  case (Inr hdr)
  have cid: "datagram_cid data = Some (lh_dcid hdr)" using Inr data by (simp add: datagram_cid_def)
  show ?thesis
  proof (cases rule: find_conn_total [OF inv, of "lh_dcid hdr"])
    case 1
    obtain ls' e where a: "listener_accept ssl env ls hdr data addr now = Some (ls', e)" "listener_inv ls'"
        "\<And>q. q \<noteq> ls_next_ptr ls \<Longrightarrow> conn_store ls' q = conn_store ls q" "ls_config ls' = ls_config ls"
        "\<And>c. conn_store ls' (ls_next_ptr ls) = Some c \<Longrightarrow> length (ls_conns ls) < unat (lc_max_connections (ls_config ls)) \<and>
          cn_scid c = nxp_listener_generate_cid (ls_config ls) (env_random env)"
      using accept_total [OF inv ssl env] by metis
    have "recv_effect ls env data ls'"
      if "lh_type hdr = NXP_PKT_INITIAL" "lh_version hdr = NXP_VERSION_CURRENT"
        "lc_require_retry (ls_config ls) \<longrightarrow> lh_token_len hdr \<noteq> 0"
      using a(3,5) fresh_ptr [OF inv] that 1 Inr unfolding recv_effect_def by (metis option.distinct(1))
    then have "recv_done ls env data (listener_accept ssl env ls hdr data addr now)"
      if "lh_type hdr = NXP_PKT_INITIAL" "lh_version hdr = NXP_VERSION_CURRENT"
        "lc_require_retry (ls_config ls) \<longrightarrow> lh_token_len hdr \<noteq> 0"
      using a(1,2,4) that by (simp add: recv_done_def)
    then show ?thesis using recv_done_same [OF inv] Inr 1 by (auto simp: recv_long_def)
  next
    case (2 p c)
    then show ?thesis using deliver_done [OF inv ssl lim cid 2] Inr by (simp add: recv_long_def)
  qed
qed

lemma recv_short_done:
  assumes inv: "listener_inv ls" and ssl: "open_is ssl" and lim: "conns_limited ls"
    and data: "data \<noteq> []" "\<not> nxp_pkt_is_long_header (data ! 0)"
  shows "recv_done ls env data (recv_short ssl env ls data now)"
proof (cases "length data < 1 + NXP_LISTENER_CID_LEN")
  case True then show ?thesis using recv_done_same(1) [OF inv] by (simp add: recv_short_def)
next
  case n: False
  let ?cid = "\<lparr>cid_data = take NXP_LISTENER_CID_LEN (drop 1 data)\<rparr>"
  have cid: "datagram_cid data = Some ?cid" using data n by (simp add: datagram_cid_def)
  show ?thesis
  proof (cases rule: find_conn_total [OF inv, of ?cid])
    case 1 then show ?thesis using n recv_done_same(1) [OF inv] by (simp add: recv_short_def)
  next
    case (2 p c)
    then show ?thesis using deliver_done [OF inv ssl lim cid 2] n by (simp add: recv_short_def)
  qed
qed

lemma recv_total:
  assumes inv: "listener_inv ls" and ssl: "open_is ssl" and env: "env_alloc_sent env" and lim: "conns_limited ls"
  shows "recv_done ls env data (nxp_listener_recv ssl env ls data addr now)"
proof (cases "data = []")
  case True
  then show ?thesis using recv_done_same(1) [OF inv] by (simp add: nxp_listener_recv_def)
next
  case False
  obtain ok rl where rl: "limiter_check env (ls_rate_limiter ls) addr now = Some (ok, rl)" "rl \<noteq> Some None"
    using limiter_total inv by (metis listener_inv_def)
  define ls1 where "ls1 = ls\<lparr>ls_rate_limiter := rl\<rparr>"
  have i1: "listener_inv ls1" "conns_limited ls1" using inv rl(2) lim by (simp_all add: ls1_def listener_inv_def conns_limited_def)
  have "recv_done ls env data = recv_done ls1 env data"
    by (simp add: ls1_def recv_done_def recv_effect_def nxp_listener_find_conn_def fun_eq_iff)
  then show ?thesis
    using recv_done_same [OF i1(1)] recv_long_done [OF i1(1) ssl env i1(2) False] recv_short_done [OF i1(1) ssl i1(2) False] rl(1) False
    by (simp add: nxp_listener_recv_def ls1_def [symmetric])
qed

section \<open>Timers\<close>

text \<open>What a timer tick makes of one connection; \<^term>\<open>None\<close>: it is closed and removed.\<close>

definition ticked :: "u64 \<Rightarrow> nxp_conn \<Rightarrow> nxp_conn option" where
  "ticked now c = do { c' \<leftarrow> nxp_conn_on_timeout c now; if cn_state c' = NXP_CONN_CLOSED then None else Some c' }"

text \<open>The listener after the connections in \<open>ps\<close> have been ticked.\<close>

definition reaped :: "u64 \<Rightarrow> conn_ptr option set \<Rightarrow> nxp_listener_s \<Rightarrow> nxp_listener_s \<Rightarrow> bool" where
  "reaped now ps ls ls' \<longleftrightarrow> listener_inv ls' \<and> ls_config ls' = ls_config ls \<and> ls_next_ptr ls' = ls_next_ptr ls \<and>
     (\<forall>p. conn_store ls' p = (if Some p \<in> ps then Option.bind (conn_store ls p) (ticked now) else conn_store ls p)) \<and>
     (\<forall>k. hm_abs (ls_conn_map ls') k =
        (if \<exists>p c. Some p \<in> ps \<and> conn_store ls p = Some c \<and> ticked now c = None \<and> cid_hash (cn_scid c) = k then None
         else hm_abs (ls_conn_map ls) k))"

lemma reaped_step:
  assumes r: "reaped now ps ls1 ls'" and p: "conn_store ls p = Some c" "Some p \<notin> ps"
    and l: "ls_config ls1 = ls_config ls" "ls_next_ptr ls1 = ls_next_ptr ls"
      "conn_store ls1 = (conn_store ls)(p := ticked now c)"
      "hm_abs (ls_conn_map ls1) = (if ticked now c = None then (hm_abs (ls_conn_map ls))(cid_hash (cn_scid c) := None) else hm_abs (ls_conn_map ls))"
  shows "reaped now (insert (Some p) ps) ls ls'"
proof -
  have s: "conn_store ls' q = (if Some q \<in> insert (Some p) ps then Option.bind (conn_store ls q) (ticked now) else conn_store ls q)" for q
    using r p l(3) unfolding reaped_def by (cases "q = p") auto
  have other: "(\<exists>q c. Some q \<in> ps \<and> conn_store ls1 q = Some c \<and> ticked now c = None \<and> cid_hash (cn_scid c) = k) \<longleftrightarrow>
      (\<exists>q c. Some q \<in> ps \<and> conn_store ls q = Some c \<and> ticked now c = None \<and> cid_hash (cn_scid c) = k)" for k
    using p(2) l(3) by auto
  have "hm_abs (ls_conn_map ls') k =
      (if \<exists>q c. Some q \<in> insert (Some p) ps \<and> conn_store ls q = Some c \<and> ticked now c = None \<and> cid_hash (cn_scid c) = k then None
       else hm_abs (ls_conn_map ls) k)" for k
  proof -
    have "hm_abs (ls_conn_map ls') k =
      (if \<exists>q c. Some q \<in> ps \<and> conn_store ls q = Some c \<and> ticked now c = None \<and> cid_hash (cn_scid c) = k then None
       else hm_abs (ls_conn_map ls1) k)" using r other unfolding reaped_def by simp
    then show ?thesis using p(1) l(4) by auto
  qed
  then show ?thesis using r s l(1,2) by (simp add: reaped_def)
qed

lemma timeout_loop_spec:
  assumes "listener_inv ls" "\<forall>p c. conn_store ls p = Some c \<longrightarrow> Some p \<in> set (drop i (ls_conns ls)) \<longrightarrow> unat (pto_count (cn_ack c)) < 64"
  shows "\<exists>ls'. timeout_loop i ls now = Some ls' \<and> reaped now (set (drop i (ls_conns ls))) ls ls'"
  using assms
proof (induction i ls now rule: timeout_loop.induct)
  case (1 i ls now)
  note inv = "1.prems"(1)
  show ?case
  proof (cases "i < length (ls_conns ls)")
    case False
    then show ?thesis using inv by (subst timeout_loop.simps) (simp add: reaped_def)
  next
    case True
    obtain p c where pc: "ls_conns ls ! i = Some p" "conn_store ls p = Some c"
      using conns_okD [OF listener_invD(1) [OF inv] True] .
    have dist: "distinct (ls_conns ls)" using listener_invD(1) [OF inv] by (simp add: conns_ok_def)
    have drop: "drop i (ls_conns ls) = Some p # drop (i + 1) (ls_conns ls)" using True pc(1) by (simp add: Cons_nth_drop_Suc [symmetric])
    then have notin: "Some p \<notin> set (drop (i + 1) (ls_conns ls))" using distinct_drop [OF dist, of i] by simp
    have "conn_inv c" using store_okD [OF listener_invD(3) [OF inv] pc(2)] by simp
    then obtain c' where c': "nxp_conn_on_timeout c now = Some c'" "evolves 0 c c'"
      using on_timeout_total "1.prems"(2) pc(2) drop by (metis list.set_intros(1))
    let ?ls = "ls\<lparr>conn_store := (conn_store ls)(p \<mapsto> c')\<rparr>"
    have up: "listener_inv ?ls" "cn_scid c' = cn_scid c" using upd_conn_evolves [OF inv pc(2) c'(2)] c'(2) by (simp_all add: evolves_def)
    have b: "(do { c \<leftarrow> conn_store ls p; nxp_conn_on_timeout c now }) = Some c'" using pc(2) c'(1) by simp
    show ?thesis
    proof (cases "cn_state c' = NXP_CONN_CLOSED")
      case cl: False
      have lim: "\<forall>q d. conn_store ?ls q = Some d \<longrightarrow> Some q \<in> set (drop (i + 1) (ls_conns ?ls)) \<longrightarrow> unat (pto_count (cn_ack d)) < 64"
        using "1.prems"(2) notin drop by auto
      obtain ls' where ls': "timeout_loop (i + 1) ?ls now = Some ls'" "reaped now (set (drop (i + 1) (ls_conns ls))) ?ls ls'"
        using "1.IH"(3) [OF True pc(1) b _ up(1) lim] cl by (auto simp: nxp_conn_get_state_def)
      have t: "ticked now c = Some c'" using c'(1) cl by (simp add: ticked_def)
      have "reaped now (set (drop i (ls_conns ls))) ls ls'"
        using reaped_step [OF ls'(2) pc(2) notin] t by (simp add: drop)
      then show ?thesis using ls'(1) True pc(1) b cl by (subst timeout_loop.simps) (simp add: nxp_conn_get_state_def)
    next
      case cl: True
      have i: "i < length (ls_conns ?ls)" "ls_conns ?ls ! i = Some p" "conn_store ?ls p = Some c'" using True pc(1) by simp_all
      obtain ls2 where ls2: "nxp_listener_remove_conn ?ls p = Some ls2" "listener_inv ls2" "conn_store ls2 = (conn_store ls)(p := None)"
          "ls_conns ls2 = swap_remove i (ls_conns ls)"
          "hm_abs (ls_conn_map ls2) = (hm_abs (ls_conn_map ls))(cid_hash (cn_scid c) := None)"
          "ls_config ls2 = ls_config ls" "ls_next_ptr ls2 = ls_next_ptr ls"
        by (rule remove_spec_conn [OF up(1) i]) (simp add: up(2))
      have rest: "set (drop i (ls_conns ls2)) = set (drop (i + 1) (ls_conns ls))"
        using swap_remove_set(3) [OF dist True le_refl] pc(1) notin drop by (simp add: ls2(4))
      have lim: "\<forall>q d. conn_store ls2 q = Some d \<longrightarrow> Some q \<in> set (drop i (ls_conns ls2)) \<longrightarrow> unat (pto_count (cn_ack d)) < 64"
        using "1.prems"(2) drop by (auto simp: rest ls2(3) split: if_splits)
      obtain ls' where ls': "timeout_loop i ls2 now = Some ls'" "reaped now (set (drop i (ls_conns ls2))) ls2 ls'"
        using "1.IH"(2) [OF True pc(1) b _ ls2(1) ls2(2) lim] cl by (auto simp: nxp_conn_get_state_def)
      have t: "ticked now c = None" using c'(1) cl by (simp add: ticked_def)
      have "reaped now (set (drop i (ls_conns ls))) ls ls'"
        using reaped_step [OF ls'(2) [unfolded rest] pc(2) notin] t ls2 by (simp add: drop)
      then show ?thesis using ls'(1) True pc(1) b cl ls2(1) by (subst timeout_loop.simps) (simp add: nxp_conn_get_state_def)
    qed
  qed
qed

section \<open>Sending\<close>

text \<open>The entry the round robin visits after \<open>j\<close> steps.\<close>

definition slot :: "nxp_listener_s \<Rightarrow> nat \<Rightarrow> conn_ptr option" where
  "slot ls j = ls_conns ls ! ((unat (ls_send_index ls) + j) mod length (ls_conns ls))"

lemma rotation_inj: "(a + Suc j) mod n \<noteq> a mod n" if "Suc j < n" for a :: nat
proof
  assume "(a + Suc j) mod n = a mod n"
  then have "n dvd Suc j" using mod_eq_dvd_iff_nat [of a "a + Suc j" n] by simp
  then show False using that by (auto dest: dvd_imp_le)
qed

lemma rotation_cover:
  fixes a n :: nat assumes "i < n"
  shows "\<exists>j<n. (a + j) mod n = i"
proof -
  have "(a + (i + (n - a mod n)) mod n) mod n = (a mod n + i + (n - a mod n)) mod n"
    by (simp add: mod_add_left_eq mod_add_right_eq add.assoc)
  also have "\<dots> = (i + n) mod n" using assms by (simp add: less_imp_le)
  finally show ?thesis using assms by (intro exI [of _ "(i + (n - a mod n)) mod n"]) simp
qed

text \<open>A connection that was asked and had nothing to send.\<close>

definition silent ::
    "openssl \<Rightarrow> (conn_ptr \<Rightarrow> bool) \<Rightarrow> nat \<Rightarrow> u64 \<Rightarrow> conn_ptr \<Rightarrow> nxp_conn \<Rightarrow> nxp_conn option \<Rightarrow> bool" where
  "silent ssl grow max_len now p c res \<longleftrightarrow>
     (\<exists>c' r. nxp_conn_send ssl (grow p) c max_len now = Some (c', r) \<and> (r = None \<or> r = Some []) \<and> res = Some c')"

text \<open>The first connection in the order of the rotation that had something, the ones before it had
  not, and the next rotation starts behind it.\<close>

definition served ::
    "nat \<Rightarrow> openssl \<Rightarrow> (conn_ptr \<Rightarrow> bool) \<Rightarrow> nat \<Rightarrow> u64 \<Rightarrow> nxp_listener_s \<Rightarrow> nxp_listener_s \<Rightarrow> bytes \<Rightarrow> nxp_addr \<Rightarrow> bool" where
  "served n ssl grow max_len now ls ls' pkt addr \<longleftrightarrow> pkt \<noteq> [] \<and> length pkt \<le> max_len \<and>
     (\<exists>j p c c'. j < n \<and> slot ls j = Some p \<and> conn_store ls p = Some c \<and> nxp_conn_send ssl (grow p) c max_len now = Some (c', Some pkt) \<and>
        conn_store ls' p = Some c' \<and> addr = cn_peer_addr c' \<and>
        (\<forall>i<j. \<forall>q d. slot ls i = Some q \<longrightarrow> conn_store ls q = Some d \<longrightarrow>
           silent ssl grow max_len now q d (conn_store ls' q)) \<and>
        ls_send_index ls' = ls_send_index ls + of_nat (Suc j))"

definition send_done ::
    "nat \<Rightarrow> openssl \<Rightarrow> (conn_ptr \<Rightarrow> bool) \<Rightarrow> nat \<Rightarrow> u64 \<Rightarrow> nxp_listener_s \<Rightarrow> nxp_listener_s \<Rightarrow> (bytes \<times> nxp_addr) option \<Rightarrow> bool" where
  "send_done n ssl grow max_len now ls ls' r \<longleftrightarrow> listener_inv ls' \<and> ls_conns ls' = ls_conns ls \<and> ls_config ls' = ls_config ls \<and>
     (\<forall>p. (\<forall>j<n. slot ls j \<noteq> Some p) \<longrightarrow> conn_store ls' p = conn_store ls p) \<and>
     (case r of
        None \<Rightarrow> \<forall>j<n. \<forall>p c. slot ls j = Some p \<longrightarrow> conn_store ls p = Some c \<longrightarrow>
                  silent ssl grow max_len now p c (conn_store ls' p)
      | Some (pkt, addr) \<Rightarrow> served n ssl grow max_len now ls ls' pkt addr)"

lemma send_done_step:
  assumes d: "send_done n ssl grow max_len now ls1 ls' r"
    and l: "ls_conns ls1 = ls_conns ls" "ls_config ls1 = ls_config ls" "conn_store ls1 = (conn_store ls)(p \<mapsto> c')"
      "ls_send_index ls1 = ls_send_index ls + 1"
    and p: "slot ls 0 = Some p" "conn_store ls p = Some c" "silent ssl grow max_len now p c (Some c')"
    and next_slot: "\<And>j. j < n \<Longrightarrow> slot ls1 j = slot ls (Suc j)" "\<And>j. j < n \<Longrightarrow> slot ls (Suc j) \<noteq> Some p"
  shows "send_done (Suc n) ssl grow max_len now ls ls' r"
proof -
  have frame: "conn_store ls' q = conn_store ls1 q" if "\<forall>j<n. slot ls1 j \<noteq> Some q" for q
    using d that by (simp add: send_done_def)
  have keep: "conn_store ls' p = Some c'" using frame [of p] next_slot l(3) by simp
  have f: "conn_store ls' q = conn_store ls q" if "\<forall>j<Suc n. slot ls j \<noteq> Some q" for q
  proof -
    have "\<forall>j<n. slot ls1 j \<noteq> Some q" using that next_slot(1) by simp
    moreover have "q \<noteq> p" using that p(1) by auto
    ultimately show ?thesis using frame l(3) by simp
  qed
  have asked_before: "silent ssl grow max_len now q e (conn_store ls' q)"
    if h: "j = 0 \<or> (\<exists>k<n. j = Suc k \<and> (\<forall>q d. slot ls1 k = Some q \<longrightarrow> conn_store ls1 q = Some d \<longrightarrow>
        silent ssl grow max_len now q d (conn_store ls' q)))" "slot ls j = Some q" "conn_store ls q = Some e" for j q e
    using h(1)
  proof
    assume "j = 0" then show ?thesis using h(2,3) p keep by simp
  next
    assume "\<exists>k<n. j = Suc k \<and> (\<forall>q d. slot ls1 k = Some q \<longrightarrow> conn_store ls1 q = Some d \<longrightarrow>
        silent ssl grow max_len now q d (conn_store ls' q))"
    then obtain k where k: "k < n" "j = Suc k" "\<forall>q d. slot ls1 k = Some q \<longrightarrow> conn_store ls1 q = Some d \<longrightarrow>
        silent ssl grow max_len now q d (conn_store ls' q)" by blast
    then have "slot ls1 k = Some q" "q \<noteq> p" using h(2) next_slot by auto
    then show ?thesis using k(3) h(3) l(3) by simp
  qed
  show ?thesis
  proof (cases r)
    case None
    have "silent ssl grow max_len now q e (conn_store ls' q)" if h: "j < Suc n" "slot ls j = Some q" "conn_store ls q = Some e" for j q e
      by (rule asked_before [OF _ h(2,3)]) (cases j, simp, use d None h(1) in \<open>simp add: send_done_def\<close>)
    then show ?thesis using d f None l(1,2) by (simp add: send_done_def)
  next
    case (Some a)
    obtain pkt addr where a: "a = (pkt, addr)" by (cases a)
    then obtain k q e e' where q: "k < n" "slot ls1 k = Some q" "conn_store ls1 q = Some e"
        "nxp_conn_send ssl (grow q) e max_len now = Some (e', Some pkt)" "conn_store ls' q = Some e'"
        "addr = cn_peer_addr e'" "pkt \<noteq> []" "length pkt \<le> max_len" "ls_send_index ls' = ls_send_index ls1 + of_nat (Suc k)"
        "\<forall>i<k. \<forall>q d. slot ls1 i = Some q \<longrightarrow> conn_store ls1 q = Some d \<longrightarrow> silent ssl grow max_len now q d (conn_store ls' q)"
      using d Some unfolding send_done_def served_def by auto
    then have s: "slot ls (Suc k) = Some q" "q \<noteq> p" using next_slot by auto
    then have "conn_store ls q = Some e" using q(3) l(3) by simp
    moreover have "silent ssl grow max_len now x y (conn_store ls' x)" if h: "i < Suc k" "slot ls i = Some x" "conn_store ls x = Some y" for i x y
      by (rule asked_before [OF _ h(2,3)]) (cases i, simp, use q(1,10) h(1) in simp)
    ultimately have "served (Suc n) ssl grow max_len now ls ls' pkt addr"
      unfolding served_def using q(1-9) s(1) l(4)
      by (intro conjI exI [of _ "Suc k"] exI [of _ q] exI [of _ e] exI [of _ e'] allI impI) (simp_all add: ac_simps)
    then show ?thesis using d f Some a l(1,2) by (simp add: send_done_def)
  qed
qed

lemma next_index:
  assumes "Suc n \<le> length (ls_conns ls)" "unat (ls_send_index ls) + Suc n \<le> 2 ^ 32" "ls_send_index ls1 = ls_send_index ls + 1"
    "ls_conns ls1 = ls_conns ls" "j < n"
  shows "slot ls1 j = slot ls (Suc j)" "unat (ls_send_index ls1) = Suc (unat (ls_send_index ls))"
proof -
  show "unat (ls_send_index ls1) = Suc (unat (ls_send_index ls))"
    using assms(2,3,5) by (simp add: unat_word_ariths)
  then show "slot ls1 j = slot ls (Suc j)" using assms(4) by (simp add: slot_def)
qed

lemma slot_inj:
  assumes "listener_inv ls" "Suc j < length (ls_conns ls)"
  shows "slot ls (Suc j) \<noteq> slot ls 0"
proof -
  let ?n = "length (ls_conns ls)" and ?s = "unat (ls_send_index ls)"
  have "distinct (ls_conns ls)" using listener_invD(1) [OF assms(1)] by (simp add: conns_ok_def)
  then have "ls_conns ls ! ((?s + Suc j) mod ?n) \<noteq> ls_conns ls ! (?s mod ?n)"
    using rotation_inj [OF assms(2), of ?s] assms(2) by (subst nth_eq_iff_index_eq) (auto intro!: mod_less_divisor)
  then show ?thesis by (simp add: slot_def)
qed

text \<open>A round of sending that returns has asked the connections in order; it returns when every
  connection it may ask can send.\<close>

lemma send_loop_spec:
  assumes "listener_inv ls" "aead_is ssl" "n \<le> length (ls_conns ls)" "unat (ls_send_index ls) + n \<le> 2 ^ 32"
    "\<forall>j<n. \<forall>p c. slot ls j = Some p \<longrightarrow> conn_store ls p = Some c \<longrightarrow> unat (sent_cap (cn_ack c)) < 2 ^ 31"
  shows "(\<forall>ls' r. send_loop n ssl grow ls max_len now = Some (ls', r) \<longrightarrow> send_done n ssl grow max_len now ls ls' r) \<and>
    ((\<forall>j<n. \<forall>p c. slot ls j = Some p \<longrightarrow> conn_store ls p = Some c \<longrightarrow> send_ok max_len now c) \<longrightarrow>
     send_loop n ssl grow ls max_len now \<noteq> None)"
  using assms
proof (induction n arbitrary: ls)
  case 0
  then show ?case by (simp add: send_done_def)
next
  case (Suc n)
  note inv = Suc.prems(1)
  let ?N = "length (ls_conns ls)"
  have N: "0 < ?N" "unat (conn_count ls) = ?N" using Suc.prems(3) inv_count(1) [OF inv] by auto
  have idx: "ls_conns ls ! unat (ls_send_index ls mod conn_count ls) = slot ls 0" using N(2) by (simp add: slot_def unat_mod)
  obtain p c where pc: "slot ls 0 = Some p" "conn_store ls p = Some c"
    using conns_okD [OF listener_invD(1) [OF inv], of "unat (ls_send_index ls) mod ?N"] N(1) by (auto simp: slot_def)
  have c: "conn_inv c" "unat (sent_cap (cn_ack c)) < 2 ^ 31"
    using store_okD [OF listener_invD(3) [OF inv] pc(2)] Suc.prems(5) pc by auto
  show ?case
  proof (cases "nxp_conn_send ssl (grow p) c max_len now")
    case None
    then have "send_loop (Suc n) ssl grow ls max_len now = None" using pc idx by (simp add: Let_def conn_count_def)
    moreover have "\<not> send_ok max_len now c"
      using conn_send_total [OF c(1) Suc.prems(2) c(2), of max_len now "grow p"] None by auto
    ultimately show ?thesis using pc by auto
  next
    case (Some cr)
    then obtain c' r where s: "nxp_conn_send ssl (grow p) c max_len now = Some (c', r)" by (cases cr) auto
    have ev: "evolves 0 c c'" "\<forall>pkt. r = Some pkt \<longrightarrow> length pkt \<le> max_len"
      using conn_send_sends [OF c(1) Suc.prems(2) c(2), of max_len "grow p" now] s by (auto simp: sends_def)
    define ls1 where "ls1 = ls\<lparr>ls_send_index := ls_send_index ls + 1, conn_store := (conn_store ls)(p \<mapsto> c')\<rparr>"
    have i1: "listener_inv ls1"
      using upd_conn_evolves [of "ls\<lparr>ls_send_index := ls_send_index ls + 1\<rparr>" p c 0 c'] inv pc(2) ev(1) by (simp add: ls1_def)
    have f1: "ls_conns ls1 = ls_conns ls" "ls_config ls1 = ls_config ls" "conn_store ls1 = (conn_store ls)(p \<mapsto> c')"
        "ls_send_index ls1 = ls_send_index ls + 1" by (simp_all add: ls1_def)
    note nxt = next_index [OF Suc.prems(3,4) f1(4,1)]
    have other: "slot ls (Suc j) \<noteq> Some p" if "j < n" for j using slot_inj [OF inv, of j] Suc.prems(3) that pc(1) by simp
    show ?thesis
    proof (cases "r = None \<or> r = Some []")
      case True
      have loop: "send_loop (Suc n) ssl grow ls max_len now = send_loop n ssl grow ls1 max_len now"
        using True s pc idx by (auto simp: Let_def conn_count_def ls1_def)
      have still: "P d" if h: "j < n" "slot ls1 j = Some q" "conn_store ls1 q = Some d"
          "\<forall>j<Suc n. \<forall>p c. slot ls j = Some p \<longrightarrow> conn_store ls p = Some c \<longrightarrow> P c" for P j q d
        using h nxt(1) other by (auto simp: f1(3) split: if_splits)
      have "unat (ls_send_index ls1) + n \<le> 2 ^ 32"
      proof (cases n)
        case 0
        then show ?thesis using less_imp_le [OF unsigned_less [of "ls_send_index ls1", where ?'a = nat]] by simp
      next
        case (Suc m)
        then show ?thesis using nxt(2) [of 0] Suc.prems(4) by simp
      qed
      moreover have "\<forall>j<n. \<forall>q d. slot ls1 j = Some q \<longrightarrow> conn_store ls1 q = Some d \<longrightarrow> unat (sent_cap (cn_ack d)) < 2 ^ 31"
        using still [where P = "\<lambda>c. unat (sent_cap (cn_ack c)) < 2 ^ 31"] Suc.prems(5) by blast
      ultimately have IH: "\<forall>ls' r. send_loop n ssl grow ls1 max_len now = Some (ls', r) \<longrightarrow> send_done n ssl grow max_len now ls1 ls' r"
          "(\<forall>j<n. \<forall>p c. slot ls1 j = Some p \<longrightarrow> conn_store ls1 p = Some c \<longrightarrow> send_ok max_len now c) \<longrightarrow>
           send_loop n ssl grow ls1 max_len now \<noteq> None"
        using Suc.IH [OF i1 Suc.prems(2)] Suc.prems(3) f1(1) by auto
      have sil: "silent ssl grow max_len now p c (Some c')" using s True by (auto simp: silent_def)
      have "send_done n ssl grow max_len now ls1 ls' r' \<Longrightarrow> send_done (Suc n) ssl grow max_len now ls ls' r'" for ls' r'
        by (rule send_done_step [OF _ f1 pc sil nxt(1) other])
      then show ?thesis unfolding loop using IH still [where P = "send_ok max_len now"] by blast
    next
      case False
      then obtain pkt where pkt: "r = Some pkt" "pkt \<noteq> []" by (cases r) auto
      have loop: "send_loop (Suc n) ssl grow ls max_len now = Some (ls1, Some (pkt, cn_peer_addr c'))"
        using pkt s pc idx by (simp add: Let_def conn_count_def ls1_def)
      have "served (Suc n) ssl grow max_len now ls ls1 pkt (cn_peer_addr c')"
        unfolding served_def using pkt s ev pc f1(3,4)
        by (intro conjI exI [of _ 0] exI [of _ p] exI [of _ c] exI [of _ c']) simp_all
      moreover have "conn_store ls1 q = conn_store ls q" if "\<forall>j<Suc n. slot ls j \<noteq> Some q" for q
        using that [rule_format, of 0] pc(1) f1(3) by auto
      ultimately show ?thesis unfolding loop using i1 f1(1,2) by (auto simp: send_done_def)
    qed
  qed
qed

section \<open>Runs\<close>

datatype listener_op =
    L_recv accept_env bytes nxp_addr u64
  | L_send "conn_ptr \<Rightarrow> bool" nat u64
  | L_timeout u64
  | L_app conn_ptr conn_op
  | L_remove conn_ptr

text \<open>\<open>L_app\<close> is the application using a connection it was given.\<close>

fun listener_exec :: "openssl \<Rightarrow> listener_op \<Rightarrow> nxp_listener_s \<Rightarrow> nxp_listener_s option" where
  "listener_exec ssl (L_recv env data addr now) ls = map_option fst (nxp_listener_recv ssl env ls data addr now)"
| "listener_exec ssl (L_send grow max_len now) ls = map_option fst (nxp_listener_send ssl grow ls max_len now)"
| "listener_exec ssl (L_timeout now) ls = nxp_listener_on_timeout ls now"
| "listener_exec ssl (L_app p op) ls = do {
     c \<leftarrow> conn_store ls p;
     c \<leftarrow> conn_exec ssl op c;
     Some (ls\<lparr>conn_store := (conn_store ls)(p \<mapsto> c)\<rparr>) }"
| "listener_exec ssl (L_remove p) ls = nxp_listener_remove_conn ls p"

text \<open>What the callers owe before an operation: a connection named by the application is still alive,
  and the obligations of the connection operations hold, for sending those of every connection.
  The table of sent packets of an accepted connection must have been allocated.\<close>

fun listener_op_ok :: "nxp_listener_s \<Rightarrow> listener_op \<Rightarrow> bool" where
  "listener_op_ok ls (L_recv env data addr now) = env_alloc_sent env"
| "listener_op_ok ls (L_send grow max_len now) = (\<forall>p c. conn_store ls p = Some c \<longrightarrow> send_ok max_len now c)"
| "listener_op_ok ls (L_timeout now) = True"
| "listener_op_ok ls (L_app p op) = (\<exists>c. conn_store ls p = Some c \<and> op_ok c op)"
| "listener_op_ok ls (L_remove p) = (conn_store ls p \<noteq> None)"

text \<open>The listeners of all runs: any operations that returned, as long as the tables of sent packets
  were allocated.\<close>

fun sent_table_ok :: "listener_op \<Rightarrow> bool" where
  "sent_table_ok (L_recv env data addr now) = env_alloc_sent env"
| "sent_table_ok _ = True"

inductive listener_reach :: "openssl \<Rightarrow> nxp_listener_s \<Rightarrow> bool" for ssl where
  create: "nxp_listener_create a m e k rl b cfg = Some ls \<Longrightarrow> rl \<longrightarrow> b \<Longrightarrow> unat (lc_max_connections cfg) \<le> 2 ^ 23 \<Longrightarrow>
     listener_reach ssl ls"
| step: "listener_reach ssl ls \<Longrightarrow> conns_limited ls \<Longrightarrow> sent_table_ok op \<Longrightarrow> listener_exec ssl op ls = Some ls' \<Longrightarrow>
     listener_reach ssl ls'"

lemma create_listener_inv:
  assumes "nxp_listener_create a m e k rl b cfg = Some ls" "rl \<longrightarrow> b" "unat (lc_max_connections cfg) \<le> 2 ^ 23"
  shows "listener_inv ls" "conn_store ls = Map.empty" "ls_conns ls = []"
proof -
  obtain t where t: "nxp_hash_map_create m e 64 = Some t" "ls_conn_map ls = t"
    using assms(1) by (auto simp: nxp_listener_create_def Let_def split: if_splits option.splits)
  then have "m" "e" by (auto simp: nxp_hash_map_create_def Let_def split: if_splits)
  then have "hm_inv t" "hm_abs t = Map.empty" using create_spec [of 64 t] t(1) by simp_all
  moreover have f: "conn_store ls = Map.empty" "ls_conns ls = []" "ls_conn_cap ls = 64"
      "unat (lc_max_connections (ls_config ls)) \<le> 2 ^ 23" "ls_rate_limiter ls \<noteq> Some None"
    using assms by (auto simp: nxp_listener_create_def Let_def split: if_splits option.splits)
  ultimately show "listener_inv ls" using t(2) by (simp add: listener_inv_def conns_ok_def routes_ok_def store_ok_def)
  show "conn_store ls = Map.empty" "ls_conns ls = []" by (fact f)+
qed

lemma live_index:
  assumes "listener_inv ls" "conn_store ls p = Some c"
  obtains i where "i < length (ls_conns ls)" "ls_conns ls ! i = Some p"
  using listener_invD(1) [OF assms(1)] assms(2) that unfolding conns_ok_def by (metis domI image_eqI in_set_conv_nth)

lemma send_total:
  assumes inv: "listener_inv ls" and ssl: "aead_is ssl" and lim: "conns_limited ls"
  shows "nxp_listener_send ssl grow ls max_len now = Some (ls', r) \<Longrightarrow> send_done (length (ls_conns ls)) ssl grow max_len now ls ls' r"
    and "\<forall>p c. conn_store ls p = Some c \<longrightarrow> send_ok max_len now c \<Longrightarrow> nxp_listener_send ssl grow ls max_len now \<noteq> None"
proof -
  have eq: "nxp_listener_send ssl grow ls max_len now = send_loop (length (ls_conns ls)) ssl grow ls max_len now"
    using inv_count(1) [OF inv] by (auto simp: nxp_listener_send_def)
  have "unat (ls_send_index ls) + length (ls_conns ls) \<le> 2 ^ 32" using lim by (simp add: conns_limited_def)
  moreover have "unat (sent_cap (cn_ack c)) < 2 ^ 31" if "conn_store ls p = Some c" for p c
    using lim that by (auto simp: conns_limited_def within_limits_def)
  ultimately have spec: "(\<forall>ls' r. nxp_listener_send ssl grow ls max_len now = Some (ls', r) \<longrightarrow>
      send_done (length (ls_conns ls)) ssl grow max_len now ls ls' r) \<and>
    ((\<forall>j<length (ls_conns ls). \<forall>p c. slot ls j = Some p \<longrightarrow> conn_store ls p = Some c \<longrightarrow> send_ok max_len now c) \<longrightarrow>
     nxp_listener_send ssl grow ls max_len now \<noteq> None)"
    unfolding eq using send_loop_spec [OF inv ssl le_refl, of grow max_len now] by blast
  then show "nxp_listener_send ssl grow ls max_len now = Some (ls', r) \<Longrightarrow> send_done (length (ls_conns ls)) ssl grow max_len now ls ls' r"
    by blast
  show "\<forall>p c. conn_store ls p = Some c \<longrightarrow> send_ok max_len now c \<Longrightarrow> nxp_listener_send ssl grow ls max_len now \<noteq> None"
    using spec by blast
qed

lemma on_timeout_reaps:
  assumes inv: "listener_inv ls" and lim: "conns_limited ls"
  shows "\<exists>ls'. nxp_listener_on_timeout ls now = Some ls' \<and> reaped now (set (ls_conns ls)) ls ls'"
proof -
  have "unat (pto_count (cn_ack c)) < 64" if "conn_store ls p = Some c" for p c
    using lim that by (auto simp: conns_limited_def within_limits_def)
  then show ?thesis using timeout_loop_spec [OF inv, of 0 now] by (simp add: nxp_listener_on_timeout_def)
qed

lemma app_step:
  assumes inv: "listener_inv ls" and ssl: "open_is ssl" "aead_is ssl" and lim: "conns_limited ls" and c: "conn_store ls p = Some c"
  shows "conn_exec ssl op c = Some c' \<Longrightarrow> listener_inv (ls\<lparr>conn_store := (conn_store ls)(p \<mapsto> c')\<rparr>)"
    and "op_ok c op \<Longrightarrow> \<exists>c'. conn_exec ssl op c = Some c'"
proof -
  have w: "conn_inv c" "within_limits c"
    using lim c store_okD [OF listener_invD(3) [OF inv] c] by (auto simp: conns_limited_def)
  show "conn_exec ssl op c = Some c' \<Longrightarrow> listener_inv (ls\<lparr>conn_store := (conn_store ls)(p \<mapsto> c')\<rparr>)"
    using upd_conn_evolves [OF inv c] exec_evolves [OF w ssl] by blast
  show "op_ok c op \<Longrightarrow> \<exists>c'. conn_exec ssl op c = Some c'" using exec_total [OF w _ ssl] by blast
qed

lemma listener_exec_inv:
  assumes inv: "listener_inv ls" and ssl: "open_is ssl" "aead_is ssl" and lim: "conns_limited ls" and op: "sent_table_ok op"
    and ex: "listener_exec ssl op ls = Some ls'"
  shows "listener_inv ls'"
proof (cases op)
  case (L_recv env data addr now)
  then show ?thesis using recv_total [OF inv ssl(1) _ lim, of env data addr now] op ex by (auto simp: recv_done_def)
next
  case (L_send grow max_len now)
  then obtain r where "nxp_listener_send ssl grow ls max_len now = Some (ls', r)" using ex by auto
  then show ?thesis using send_total(1) [OF inv ssl(2) lim] by (auto simp: send_done_def)
next
  case (L_timeout now)
  then show ?thesis using on_timeout_reaps [OF inv lim, of now] ex by (auto simp: reaped_def)
next
  case (L_app p cop)
  then obtain c c' where "conn_store ls p = Some c" "conn_exec ssl cop c = Some c'"
      "ls' = ls\<lparr>conn_store := (conn_store ls)(p \<mapsto> c')\<rparr>" using ex by (auto simp: bind_Some_iff)
  then show ?thesis using app_step(1) [OF inv ssl lim] by blast
next
  case (L_remove p)
  then obtain c where c: "conn_store ls p = Some c" using ex by (auto simp: nxp_listener_remove_conn_def bind_Some_iff)
  obtain i where i: "i < length (ls_conns ls)" "ls_conns ls ! i = Some p" using live_index [OF inv c] .
  show ?thesis using remove_spec_conn [OF inv i c] L_remove ex by (metis listener_exec.simps(5) option.inject)
qed

lemma listener_exec_total:
  assumes inv: "listener_inv ls" and ssl: "open_is ssl" "aead_is ssl" and lim: "conns_limited ls" and op: "listener_op_ok ls op"
  shows "\<exists>ls'. listener_exec ssl op ls = Some ls' \<and> listener_inv ls'"
proof -
  have "\<exists>ls'. listener_exec ssl op ls = Some ls'"
  proof (cases op)
    case (L_recv env data addr now)
    then show ?thesis using recv_total [OF inv ssl(1) _ lim, of env data addr now] op by (auto simp: recv_done_def)
  next
    case (L_send grow max_len now)
    then show ?thesis using send_total(2) [OF inv ssl(2) lim, of max_len now grow] op by auto
  next
    case (L_timeout now)
    then show ?thesis using on_timeout_reaps [OF inv lim, of now] by auto
  next
    case (L_app p cop)
    then obtain c where c: "conn_store ls p = Some c" "op_ok c cop" using op by auto
    then show ?thesis using app_step(2) [OF inv ssl lim c] L_app by auto
  next
    case (L_remove p)
    then obtain c where c: "conn_store ls p = Some c" using op by auto
    obtain i where i: "i < length (ls_conns ls)" "ls_conns ls ! i = Some p" using live_index [OF inv c] .
    show ?thesis using remove_spec_conn [OF inv i c] L_remove by (metis listener_exec.simps(5))
  qed
  moreover have "sent_table_ok op" using op by (cases op) simp_all
  ultimately show ?thesis using listener_exec_inv [OF inv ssl lim] by blast
qed

lemma listener_reach_inv:
  assumes "open_is ssl" "aead_is ssl"
  shows "listener_reach ssl ls \<Longrightarrow> listener_inv ls"
proof (induction rule: listener_reach.induct)
  case (create a m e k rl b cfg ls)
  then show ?case using create_listener_inv(1) by blast
next
  case (step ls op ls')
  then show ?case using listener_exec_inv [OF _ assms] by blast
qed

text \<open>Releasing the listener releases every connection, once.\<close>

lemma destroy_conns_spec:
  assumes "distinct ps" "None \<notin> set ps" "\<forall>p. Some p \<in> set ps \<longrightarrow> (\<exists>c. store p = Some c \<and> conn_inv c)"
  shows "destroy_conns ps store = Some (store |` {p. Some p \<notin> set ps})"
  using assms
proof (induction ps arbitrary: store)
  case Nil
  then show ?case by (simp add: restrict_map_def)
next
  case (Cons x ps)
  then obtain p where x: "x = Some p" by (cases x) auto
  then obtain c where c: "store p = Some c" "conn_inv c" using Cons.prems(3) by auto
  have "\<forall>q. Some q \<in> set ps \<longrightarrow> (\<exists>c. (store(p := None)) q = Some c \<and> conn_inv c)" using Cons.prems x by auto
  then have "destroy_conns ps (store(p := None)) = Some ((store(p := None)) |` {q. Some q \<notin> set ps})"
    using Cons.prems(1,2) by (intro Cons.IH) simp_all
  moreover have "(store(p := None)) |` {q. Some q \<notin> set ps} = store |` {q. Some q \<notin> set (x # ps)}"
    by (auto simp: restrict_map_def x fun_eq_iff)
  ultimately show ?case using free_conn_spec [OF c(2), of store p] c(1) x by simp
qed

lemma listener_destroy_spec:
  assumes "listener_inv ls"
  shows "nxp_listener_destroy ls = Some Map.empty"
proof -
  note d = listener_invD [OF assms]
  have "\<exists>c. conn_store ls p = Some c \<and> conn_inv c" if p: "Some p \<in> set (ls_conns ls)" for p
  proof -
    have "p \<in> dom (conn_store ls)" using d(1) p by (auto simp: conns_ok_def)
    then show ?thesis using store_okD [OF d(3)] by blast
  qed
  moreover have "conn_store ls |` {p. Some p \<notin> set (ls_conns ls)} = Map.empty"
    using d(1) by (fastforce simp: conns_ok_def restrict_map_def)
  ultimately show ?thesis
    using destroy_conns_spec [of "ls_conns ls" "conn_store ls"] d(1) by (simp add: conns_ok_def nxp_listener_destroy_def)
qed

text \<open>A tick of the whole array.\<close>

lemma reaped_all:
  assumes inv: "listener_inv ls" and r: "reaped now (set (ls_conns ls)) ls ls'"
  shows "conn_store ls' p = Option.bind (conn_store ls p) (ticked now)"
    and "hm_abs (ls_conn_map ls') k =
      (if \<exists>q c. conn_store ls q = Some c \<and> conn_store ls' q = None \<and> cid_hash (cn_scid c) = k then None
       else hm_abs (ls_conn_map ls) k)"
proof -
  have live: "Some q \<in> set (ls_conns ls)" if "conn_store ls q = Some c" for q c
    using listener_invD(1) [OF inv] that unfolding conns_ok_def by blast
  have store: "conn_store ls' q = Option.bind (conn_store ls q) (ticked now)" for q
    using r live by (cases "conn_store ls q") (auto simp: reaped_def)
  then have "Some q \<in> set (ls_conns ls) \<and> conn_store ls q = Some c \<and> ticked now c = None \<and> P \<longleftrightarrow>
      conn_store ls q = Some c \<and> conn_store ls' q = None \<and> P" for q c P
    using live [of q c] by (cases "conn_store ls q = Some c") simp_all
  then show "hm_abs (ls_conn_map ls') k =
      (if \<exists>q c. conn_store ls q = Some c \<and> conn_store ls' q = None \<and> cid_hash (cn_scid c) = k then None
       else hm_abs (ls_conn_map ls) k)"
    using r unfolding reaped_def by simp
  show "conn_store ls' p = Option.bind (conn_store ls p) (ticked now)" by (rule store)
qed

lemma ticked_total:
  assumes "listener_inv ls" "conns_limited ls" "conn_store ls p = Some c"
  shows "\<exists>c'. nxp_conn_on_timeout c now = Some c' \<and> ticked now c = (if cn_state c' = NXP_CONN_CLOSED then None else Some c')"
proof -
  have "conn_inv c" "unat (pto_count (cn_ack c)) < 64"
    using assms(2,3) store_okD [OF listener_invD(3) [OF assms(1)] assms(3)] by (auto simp: conns_limited_def within_limits_def)
  then obtain c' where "nxp_conn_on_timeout c now = Some c'" using on_timeout_total by blast
  then show ?thesis by (simp add: ticked_def)
qed

lemma find_conn_abs:
  "listener_inv ls \<Longrightarrow> nxp_listener_find_conn ls cid = Some (deref (hm_abs (ls_conn_map ls) (cid_hash cid)))"
  using get_spec [OF listener_invD(4)] by (simp add: nxp_listener_find_conn_def)

section \<open>A first packet is accepted\<close>

lemma server_starts:
  assumes "hmac_is ssl H" "cn_state c = NXP_CONN_IDLE" "cn_is_server c"
  shows "\<exists>hs. nxp_conn_start_handshake ssl True (Some (pub, priv)) c cid =
    (c\<lparr>cn_state := NXP_CONN_HANDSHAKE_INITIAL, cn_handshake := Some hs\<rparr>, NXP_OK)"
proof -
  obtain ic isc where k: "\<forall>st. nxp_crypto_derive_initial_keys ssl cid st = (key_pair ssl False ic isc NXP_AEAD_AES_256_GCM, True)"
    using derive_initial_keys_eq [OF assms(1)] by blast
  have "\<exists>hs. nxp_handshake_create True (Some (pub, priv)) True = Some hs \<and> hs_state hs = NXP_HS_IDLE \<and> hs_is_server hs"
    by (simp add: nxp_handshake_create_def)
  then show ?thesis
    using assms(2,3) k by (auto simp: nxp_conn_start_handshake_def nxp_handshake_start_server_def
        nxp_handshake_set_local_params_def set_conn_state_def Let_def)
qed

definition env_ok :: "accept_env \<Rightarrow> bool" where
  "env_ok env \<longleftrightarrow> env_alloc_conn env \<and> env_alloc_sent env \<and> env_alloc_map env \<and> env_alloc_entries env \<and> env_grow_conns env \<and>
     env_grow_map env \<and> env_alloc_handshake env \<and> env_keypair env \<noteq> None"

text \<open>The connection as it is when its first datagram is handed to it.\<close>

definition first_conn :: "nxp_listener_s \<Rightarrow> accept_env \<Rightarrow> nxp_pkt_long_header \<Rightarrow> nxp_addr \<Rightarrow> nxp_handshake \<Rightarrow> nxp_conn" where
  "first_conn ls env hdr addr hs =
     (the (nxp_conn_create True True True True (env_alloc_cc env)
        (accept_config (ls_config ls) (env_random env) (lh_scid hdr) addr) True))
       \<lparr>cn_dcid := lh_scid hdr, cn_state := NXP_CONN_HANDSHAKE_INITIAL, cn_handshake := Some hs\<rparr>"

lemma first_conn_fields:
  "cn_scid (first_conn ls env hdr addr hs) = nxp_listener_generate_cid (ls_config ls) (env_random env)"
  "cn_peer_addr (first_conn ls env hdr addr hs) = addr" "within_limits (first_conn ls env hdr addr hs)"
  "cn_state (first_conn ls env hdr addr hs) = NXP_CONN_HANDSHAKE_INITIAL" "cn_handshake (first_conn ls env hdr addr hs) = Some hs"
  "cn_dcid (first_conn ls env hdr addr hs) = lh_scid hdr" "stream_mem (first_conn ls env hdr addr hs) = Map.empty"
  "lc_idle_timeout_us (ls_config ls) \<noteq> 0 \<Longrightarrow> cn_idle_timeout_us (first_conn ls env hdr addr hs) = lc_idle_timeout_us (ls_config ls)"
proof -
  obtain c where c: "nxp_conn_create True True True True (env_alloc_cc env)
      (accept_config (ls_config ls) (env_random env) (lh_scid hdr) addr) True = Some c" using create_some by blast
  have "cn_peer_addr c = addr" "stream_mem c = Map.empty" "lc_idle_timeout_us (ls_config ls) \<noteq> 0 \<Longrightarrow> cn_idle_timeout_us c = lc_idle_timeout_us (ls_config ls)"
    using c by (auto simp: nxp_conn_create_def Let_def bind_Some_iff accept_config_def)
  moreover have "cn_scid c = nxp_listener_generate_cid (ls_config ls) (env_random env)"
    using create_conn_ok(3) [OF c] by (simp add: accept_config_def)
  ultimately show "cn_scid (first_conn ls env hdr addr hs) = nxp_listener_generate_cid (ls_config ls) (env_random env)"
    "cn_peer_addr (first_conn ls env hdr addr hs) = addr" "within_limits (first_conn ls env hdr addr hs)"
    "cn_state (first_conn ls env hdr addr hs) = NXP_CONN_HANDSHAKE_INITIAL" "cn_handshake (first_conn ls env hdr addr hs) = Some hs"
    "cn_dcid (first_conn ls env hdr addr hs) = lh_scid hdr" "stream_mem (first_conn ls env hdr addr hs) = Map.empty"
    "lc_idle_timeout_us (ls_config ls) \<noteq> 0 \<Longrightarrow> cn_idle_timeout_us (first_conn ls env hdr addr hs) = lc_idle_timeout_us (ls_config ls)"
    using create_limits [OF c] by (simp_all add: first_conn_def c within_limits_def)
qed

lemma accept_accepts:
  assumes inv: "listener_inv ls" and ssl: "open_is ssl" "hmac_is ssl H" and env: "env_ok env"
    and room: "length (ls_conns ls) < unat (lc_max_connections (ls_config ls))"
  shows "\<exists>ls' hs c' e. listener_accept ssl env ls hdr data addr now = Some (ls', NXP_OK) \<and> listener_inv ls' \<and>
    nxp_conn_recv ssl (env_streams env) (first_conn ls env hdr addr hs) data now = Some (c', e) \<and>
    cn_scid c' = nxp_listener_generate_cid (ls_config ls) (env_random env) \<and>
    conn_store ls' = (conn_store ls)(ls_next_ptr ls \<mapsto> c') \<and> ls_conns ls' = ls_conns ls @ [Some (ls_next_ptr ls)] \<and>
    hm_abs (ls_conn_map ls') = (hm_abs (ls_conn_map ls))(cid_hash (cn_scid c') \<mapsto> Some (ls_next_ptr ls)) \<and>
    ls_config ls' = ls_config ls \<and> ls_send_index ls' = ls_send_index ls \<and> ls_total_accepted ls' = ls_total_accepted ls + 1 \<and>
    ls_calls ls' = ls_calls ls @ (if lc_on_new_conn (ls_config ls) then [ls_next_ptr ls] else [])"
proof -
  let ?p = "ls_next_ptr ls"
  obtain c0 where c0: "nxp_conn_create True True True True (env_alloc_cc env)
      (accept_config (ls_config ls) (env_random env) (lh_scid hdr) addr) True = Some c0" using create_some by blast
  define c where "c = c0\<lparr>cn_dcid := lh_scid hdr\<rparr>"
  note ok = create_conn_ok [OF c0]
  have c: "conn_inv c" "cn_state c = NXP_CONN_IDLE" "cn_is_server c" "cn_scid c = nxp_listener_generate_cid (ls_config ls) (env_random env)"
    using ok c0 by (simp_all add: c_def accept_config_def) (auto simp: nxp_conn_create_def Let_def bind_Some_iff)
  define ls1 where "ls1 = ls\<lparr>conn_store := (conn_store ls)(?p \<mapsto> c), ls_next_ptr := ?p + 1\<rparr>"
  have ls1: "ls\<lparr>conn_store := (conn_store ls)(?p \<mapsto> c), ls_next_ptr := Suc ?p\<rparr> = ls1" by (simp add: ls1_def)
  obtain pub priv where kp: "env_keypair env = Some (pub, priv)" using env by (auto simp: env_ok_def)
  obtain hs where hs: "nxp_conn_start_handshake ssl True (Some (pub, priv)) c (lh_dcid hdr) = (first_conn ls env hdr addr hs, NXP_OK)"
    using server_starts [OF ssl(2) c(2,3), of pub priv "lh_dcid hdr"] by (auto simp: first_conn_def c0 c_def)
  let ?c1 = "first_conn ls env hdr addr hs"
  show ?thesis
  proof (cases rule: add_conn_spec [OF inv c(1) refl ls1_def, of "env_grow_conns env" "env_grow_map env"])
    case (1 r) then show ?thesis using env room by (simp add: env_ok_def)
  next
    case (2 ls2)
    let ?ls2 = "ls2\<lparr>ls_total_accepted := ls_total_accepted ls2 + 1\<rparr>"
    let ?ls3 = "?ls2\<lparr>conn_store := (conn_store ls2)(?p \<mapsto> ?c1)\<rparr>"
    have p: "listener_inv ?ls2" "conn_store ?ls2 ?p = Some c" using 2 by simp_all
    have "evolves 0 c ?c1" using start_handshake_evolves [OF c(1)] hs by (metis fst_conv)
    then have inv3: "listener_inv ?ls3" using upd_conn_evolves [OF p] by simp
    have "cn_next_ptr ?c1 + 1536 \<le> 2 ^ 23" using first_conn_fields(3) by (simp add: within_limits_def)
    moreover have p3: "conn_store ?ls3 ?p = Some ?c1" by simp
    ultimately obtain c' e where d: "deliver ssl (env_streams env) ?ls3 ?p data now =
          Some (?ls3\<lparr>conn_store := (conn_store ?ls3)(?p \<mapsto> c')\<rparr>, e)" "evolves 1536 ?c1 c'"
        "nxp_conn_recv ssl (env_streams env) ?c1 data now = Some (c', e)"
        "listener_inv (?ls3\<lparr>conn_store := (conn_store ?ls3)(?p \<mapsto> c')\<rparr>)"
      using deliver_total [OF inv3 ssl(1) p3] by metis
    let ?ls4 = "?ls3\<lparr>conn_store := (conn_store ?ls3)(?p \<mapsto> c')\<rparr>"
    have "accept_start ssl env ?ls2 ?p (lh_dcid hdr) data now =
        Some (if lc_on_new_conn (ls_config ?ls4) then ?ls4\<lparr>ls_calls := ls_calls ?ls4 @ [?p]\<rparr> else ?ls4, NXP_OK)"
      using p(2) hs kp env d(1) by (simp add: accept_start_def env_ok_def)
    then have "listener_accept ssl env ls hdr data addr now =
        Some (if lc_on_new_conn (ls_config ?ls4) then ?ls4\<lparr>ls_calls := ls_calls ?ls4 @ [?p]\<rparr> else ?ls4, NXP_OK)"
      using c0 env 2(1) by (simp add: listener_accept_def env_ok_def Let_def c_def [symmetric] ls1)
    moreover have "cn_scid c' = cn_scid c" using d(2) first_conn_fields(1) c(4) by (simp add: evolves_def)
    moreover have "hm_abs (ls_conn_map ls2) = (hm_abs (ls_conn_map ls))(cid_hash (cn_scid c) \<mapsto> Some ?p)"
      using 2(7) env by (simp add: env_ok_def)
    ultimately show ?thesis using d(3,4) 2 c(4)
      by (intro exI [of _ "if lc_on_new_conn (ls_config ?ls4) then ?ls4\<lparr>ls_calls := ls_calls ?ls4 @ [?p]\<rparr> else ?ls4"]
          exI [of _ hs] exI [of _ c'] exI [of _ e]) simp
  qed
qed

section \<open>Properties\<close>

text \<open>A listener for the examples: it accepts up to four connections.\<close>

definition small_config :: nxp_listener_config where
  "small_config = \<lparr>lc_node_id = [9, 8, 7, 6], lc_node_id_len = 2, lc_max_connections = 4, lc_idle_timeout_us = 1000,
     lc_initial_max_data = 0, lc_initial_max_stream_data = 0, lc_max_streams_bidi = 0, lc_max_streams_uni = 0,
     lc_require_retry = False, lc_retry_key = [], lc_on_new_conn = True\<rparr>"

definition small_env :: accept_env where
  "small_env = \<lparr>env_random = [1, 2, 3, 4, 5, 6], env_alloc_conn = True, env_alloc_sent = True, env_alloc_map = True,
     env_alloc_entries = True, env_alloc_cc = True, env_grow_conns = True, env_grow_map = True, env_alloc_handshake = True,
     env_keypair = None, env_streams = (\<lambda>_. \<lparr>al_stream = True, al_send = True, al_recv = True, al_grow = True\<rparr>),
     env_alloc_bucket = True, env_put_bucket = True\<rparr>"

lemma small_listener:
  obtains ls where "nxp_listener_create True True True True True True small_config = Some ls" "listener_reach toy_ssl ls"
    "listener_inv ls" "conns_limited ls" "conn_store ls = Map.empty" "ls_config ls = small_config" "ls_send_index ls = 0"
proof -
  obtain m :: "conn_ptr nxp_hash_map" where m: "nxp_hash_map_create True True 64 = Some m"
    by (simp add: nxp_hash_map_create_def Let_def)
  obtain ls where ls: "nxp_listener_create True True True True True True small_config = Some ls" "ls_send_index ls = 0"
      "ls_config ls = small_config"
    using m by (simp add: nxp_listener_create_def Let_def small_config_def)
  have n: "unat (lc_max_connections small_config) \<le> 2 ^ 23" by (simp add: small_config_def)
  note c = create_listener_inv [OF ls(1) _ n]
  show ?thesis
    using that [OF ls(1) listener_reach.create [OF ls(1) _ n] c(1)] c(2,3) ls(2,3) by (simp add: conns_limited_def)
qed

text \<open>The example listener after its first packet.\<close>

definition first_packet :: bytes where
  "first_packet = [0xC0, 0x4E, 0x58, 0x50, 0x01, 2, 7, 7, 1, 5, 0, 1, 0]"

definition first_header :: nxp_pkt_long_header where
  "first_header = \<lparr>lh_type = NXP_PKT_INITIAL, lh_version = 0x4E585001, lh_dcid = \<lparr>cid_data = [7, 7]\<rparr>, lh_scid = \<lparr>cid_data = [5]\<rparr>,
     lh_token = None, lh_token_len = 0, lh_payload_len = 1, lh_pkt_num = 0, lh_pkt_num_len = 1, lh_header_len = 13,
     lh_pkt_num_offset = 12\<rparr>"

lemma first_packet_decodes: "nxp_pkt_decode_long_header first_packet = Inr first_header" "nxp_pkt_is_long_header (first_packet ! 0)"
  by code_simp+

definition open_env :: accept_env where
  "open_env = small_env\<lparr>env_keypair := Some (replicate 32 1, replicate 32 2)\<rparr>"

lemma small_limiter: "\<exists>rl. limiter_check open_env (Some (Some Map.empty)) addr now = Some (True, rl)"
  by (simp add: limiter_check_def nxp_rate_limiter_check_def open_env_def small_env_def Let_def)

lemma first_recv:
  "\<exists>c' e. nxp_conn_recv ssl al (first_conn ls env first_header addr hs) first_packet 5 = Some (c', e) \<and> within_limits c' \<and>
     cn_last_activity_us c' = 5 \<and> cn_state c' = NXP_CONN_HANDSHAKE_INITIAL \<and>
     cn_idle_timeout_us c' = cn_idle_timeout_us (first_conn ls env first_header addr hs) \<and> stream_mem c' = Map.empty"
proof -
  note f = first_conn_fields [of ls env first_header addr hs]
  have "open_long_packet ssl keys first_packet (lh_pkt_num_offset first_header) = None" for keys
    by (simp add: open_long_packet_def nxp_hp_unprotect_def first_packet_def first_header_def)
  moreover have "first_packet \<noteq> []" "length first_packet = 13" by (simp_all add: first_packet_def)
  ultimately show ?thesis using f first_packet_decodes
    by (simp add: nxp_conn_recv_def recv_handshake_packet_def Let_def within_limits_def)
qed

text \<open>The example listener with one connection, reached by its first packet.\<close>

lemma one_conn_listener:
  obtains ls c where "listener_reach toy_ssl ls" "conns_limited ls" "conn_store ls = [0 \<mapsto> c]" "cn_state c = NXP_CONN_HANDSHAKE_INITIAL"
    "cn_last_activity_us c = 5" "cn_idle_timeout_us c = 1000" "cn_scid c = \<lparr>cid_data = [9, 8, 1, 2, 3, 4, 5, 6]\<rparr>"
    "nxp_listener_find_conn ls (cn_scid c) = Some (Some 0)" "stream_mem c = Map.empty"
proof -
  obtain l where l: "nxp_listener_create True True True True True True small_config = Some l" "listener_reach toy_ssl l"
    "listener_inv l" "conns_limited l" "conn_store l = Map.empty" "ls_config l = small_config" "ls_send_index l = 0"
    using small_listener by metis
  have f: "ls_rate_limiter l = Some (Some Map.empty)" "ls_conns l = []" "ls_next_ptr l = 0"
    using l(1) by (auto simp: nxp_listener_create_def Let_def split: if_splits option.splits)
  obtain rl where rl: "limiter_check open_env (ls_rate_limiter l) \<lparr>addr_raw = [1]\<rparr> 5 = Some (True, rl)" using small_limiter f(1) by metis
  then have "rl \<noteq> Some None" using limiter_total [of "ls_rate_limiter l" open_env "\<lparr>addr_raw = [1]\<rparr>" 5] f(1) by auto
  define l1 where "l1 = l\<lparr>ls_rate_limiter := rl\<rparr>"
  have l1: "listener_inv l1" "ls_conns l1 = []" "ls_config l1 = small_config" "conn_store l1 = Map.empty" "ls_next_ptr l1 = 0" "ls_send_index l1 = 0"
    using l \<open>rl \<noteq> Some None\<close> f by (simp_all add: l1_def listener_inv_def)
  have un: "nxp_listener_find_conn l1 (lh_dcid first_header) = Some None"
    using l1(4) by (cases rule: find_conn_total [OF l1(1), of "lh_dcid first_header"]) auto
  have cid: "nxp_listener_generate_cid small_config (env_random open_env) = \<lparr>cid_data = [9, 8, 1, 2, 3, 4, 5, 6]\<rparr>" by code_simp
  have room: "length (ls_conns l1) < unat (lc_max_connections (ls_config l1))" and env: "env_ok open_env" "env_alloc_sent open_env"
    by (simp_all add: l1(2,3) small_config_def open_env_def small_env_def env_ok_def)
  obtain ls hs c e where a: "listener_accept toy_ssl open_env l1 first_header first_packet \<lparr>addr_raw = [1]\<rparr> 5 = Some (ls, NXP_OK)"
      "listener_inv ls"
      "nxp_conn_recv toy_ssl (env_streams open_env) (first_conn l1 open_env first_header \<lparr>addr_raw = [1]\<rparr> hs) first_packet 5 = Some (c, e)"
      "cn_scid c = \<lparr>cid_data = [9, 8, 1, 2, 3, 4, 5, 6]\<rparr>" "conn_store ls = [0 \<mapsto> c]" "ls_conns ls = [Some 0]"
      "hm_abs (ls_conn_map ls) = (hm_abs (ls_conn_map l1))(cid_hash (cn_scid c) \<mapsto> Some 0)" "ls_send_index ls = 0"
    using accept_accepts [OF l1(1) toy_ssl_more(1) toy_ssl_ok(1) env(1) room] unfolding l1(2-6) cid append_Nil by blast
  have c: "within_limits c" "cn_last_activity_us c = 5" "cn_state c = NXP_CONN_HANDSHAKE_INITIAL" "cn_idle_timeout_us c = 1000"
      "stream_mem c = Map.empty"
    using first_recv [of toy_ssl "env_streams open_env" l1 open_env "\<lparr>addr_raw = [1]\<rparr>" hs] a(3) first_conn_fields(8) [of l1]
    by (auto simp: l1(3) small_config_def)
  have "nxp_listener_recv toy_ssl open_env l first_packet \<lparr>addr_raw = [1]\<rparr> 5 = Some (ls, NXP_OK)"
    using a(1) rl un first_packet_decodes l1(3)
    by (simp add: nxp_listener_recv_def recv_long_def l1_def [symmetric]) (simp add: first_packet_def first_header_def small_config_def)
  then have "listener_reach toy_ssl ls"
    using listener_reach.step [OF l(2,4), of "L_recv open_env first_packet \<lparr>addr_raw = [1]\<rparr> 5" ls] env(2) by simp
  moreover have "conns_limited ls" using c(1) a(5,6,8) by (simp add: conns_limited_def)
  ultimately show ?thesis using that a(4,5) c find_conn_abs [OF a(2)] a(7) by (simp add: deref_def)
qed

text \<open>C2. The listener never uses a freed connection. In every run of a listener, whatever
  datagrams arrive, whatever the applications do with their connections and whenever the timers
  fire, the next operation has a result: every pointer in the table and in the array leads to a
  live connection, every live connection can be found by iterating, no two entries of the array are
  the same connection, and the listener holds at most the configured number of them. Destroying the
  listener afterwards releases every connection exactly once. The callers name only live
  connections and keep the obligations of the connection operations, the tables of sent packets of
  accepted connections were allocated, and the counters are below their limits.
\<close>

theorem nxp_listener_run_safe:
  assumes "listener_reach ssl ls" "conns_limited ls" "listener_op_ok ls op" "open_is ssl" "aead_is ssl"
  shows "\<exists>ls'. listener_exec ssl op ls = Some ls' \<and> distinct (ls_conns ls') \<and> Some ` dom (conn_store ls') = set (ls_conns ls') \<and>
    (\<forall>cid p. nxp_listener_find_conn ls' cid = Some (Some p) \<longrightarrow> (\<exists>c. conn_store ls' p = Some c \<and> conn_inv c)) \<and>
    length (ls_conns ls') \<le> unat (lc_max_connections (ls_config ls')) \<and> nxp_listener_destroy ls' = Some Map.empty"
proof -
  obtain ls' where ls': "listener_exec ssl op ls = Some ls'" "listener_inv ls'"
    using listener_exec_total [OF listener_reach_inv [OF assms(4,5,1)] assms(4,5,2,3)] by blast
  note d = listener_invD [OF ls'(2)]
  have "\<exists>c. conn_store ls' p = Some c \<and> conn_inv c" if "nxp_listener_find_conn ls' cid = Some (Some p)" for cid p
    using store_okD [OF d(3)] that by (cases rule: find_conn_total [OF ls'(2), of cid]) auto
  then show ?thesis
    using ls' d(1) listener_destroy_spec [OF ls'(2)] by (auto simp: conns_ok_def listener_inv_def)
qed

theorem nxp_listener_run_safe_witness:
  "\<exists>ls ls' c. listener_reach toy_ssl ls \<and> conn_store ls = [0 \<mapsto> c] \<and>
     listener_exec toy_ssl (L_remove 0) ls = Some ls' \<and> distinct (ls_conns ls') \<and>
     Some ` dom (conn_store ls') = set (ls_conns ls') \<and> nxp_listener_destroy ls' = Some Map.empty"
proof -
  obtain ls c where ls: "listener_reach toy_ssl ls" "conns_limited ls" "conn_store ls = [0 \<mapsto> c]" using one_conn_listener by metis
  then have "listener_op_ok ls (L_remove 0)" by simp
  then show ?thesis
    using nxp_listener_run_safe [OF ls(1,2) _ toy_ssl_more(1) toy_ssl_ok(3), of "L_remove 0"] ls(1,3) by blast
qed


text \<open>C12. A first packet is accepted. When an Initial packet of the current version arrives for an
  unknown identifier (with a token if one is demanded), the rate limiter lets it pass, there is room
  for one more connection and the resources are there, the listener creates a connection, runs the
  packet through it, reports it to the application, and every later datagram that carries the
  identifier the listener chose is routed to it.
\<close>

theorem nxp_listener_accepts:
  assumes reach: "listener_reach ssl ls" and ssl: "open_is ssl" "aead_is ssl" "hmac_is ssl H"
    and pass: "limiter_check env (ls_rate_limiter ls) addr now = Some (True, rl)"
    and pkt: "data \<noteq> []" "nxp_pkt_is_long_header (data ! 0)" "nxp_pkt_decode_long_header data = Inr hdr"
      "lh_type hdr = NXP_PKT_INITIAL" "lh_version hdr = NXP_VERSION_CURRENT"
      "lc_require_retry (ls_config ls) \<longrightarrow> lh_token_len hdr \<noteq> 0" "nxp_listener_find_conn ls (lh_dcid hdr) = Some None"
    and room: "length (ls_conns ls) < unat (lc_max_connections (ls_config ls))" and env: "env_ok env"
  shows "\<exists>ls' hs c e. nxp_listener_recv ssl env ls data addr now = Some (ls', NXP_OK) \<and>
    nxp_conn_recv ssl (env_streams env) (first_conn ls env hdr addr hs) data now = Some (c, e) \<and>
    conn_store ls' = (conn_store ls)(ls_next_ptr ls \<mapsto> c) \<and>
    cn_scid c = nxp_listener_generate_cid (ls_config ls) (env_random env) \<and>
    nxp_listener_find_conn ls' (cn_scid c) = Some (Some (ls_next_ptr ls)) \<and>
    ls_total_accepted ls' = ls_total_accepted ls + 1 \<and>
    ls_calls ls' = ls_calls ls @ (if lc_on_new_conn (ls_config ls) then [ls_next_ptr ls] else [])"
proof -
  have inv: "listener_inv ls" using listener_reach_inv [OF ssl(1,2) reach] .
  have rl: "rl \<noteq> Some None" using limiter_total [of "ls_rate_limiter ls" env addr now] inv pass by (auto simp: listener_inv_def)
  define ls1 where "ls1 = ls\<lparr>ls_rate_limiter := rl\<rparr>"
  have ls1: "listener_inv ls1" "ls_conns ls1 = ls_conns ls" "ls_config ls1 = ls_config ls" "nxp_listener_find_conn ls1 = nxp_listener_find_conn ls"
      "conn_store ls1 = conn_store ls" "ls_next_ptr ls1 = ls_next_ptr ls" "ls_total_accepted ls1 = ls_total_accepted ls" "ls_calls ls1 = ls_calls ls"
    using inv rl by (simp_all add: ls1_def listener_inv_def nxp_listener_find_conn_def fun_eq_iff)
  have f: "first_conn ls1 = first_conn ls" by (simp add: first_conn_def fun_eq_iff ls1(3))
  obtain ls' hs c e where a: "listener_accept ssl env ls1 hdr data addr now = Some (ls', NXP_OK)" "listener_inv ls'"
      "nxp_conn_recv ssl (env_streams env) (first_conn ls env hdr addr hs) data now = Some (c, e)"
      "cn_scid c = nxp_listener_generate_cid (ls_config ls) (env_random env)"
      "conn_store ls' = (conn_store ls)(ls_next_ptr ls \<mapsto> c)"
      "hm_abs (ls_conn_map ls') = (hm_abs (ls_conn_map ls1))(cid_hash (cn_scid c) \<mapsto> Some (ls_next_ptr ls))"
      "ls_total_accepted ls' = ls_total_accepted ls + 1"
      "ls_calls ls' = ls_calls ls @ (if lc_on_new_conn (ls_config ls) then [ls_next_ptr ls] else [])"
    using accept_accepts [OF ls1(1) ssl(1,3) env, of hdr data addr now] room unfolding ls1(2,3,5-8) f by blast
  have "nxp_listener_recv ssl env ls data addr now = Some (ls', NXP_OK)"
    using pass pkt a(1) ls1(3,4) by (simp add: nxp_listener_recv_def recv_long_def ls1_def [symmetric])
  moreover have "nxp_listener_find_conn ls' (cn_scid c) = Some (Some (ls_next_ptr ls))"
    using find_conn_abs [OF a(2)] a(6) by (simp add: deref_def)
  ultimately show ?thesis using a by blast
qed

theorem nxp_listener_accepts_witness:
  "\<exists>ls ls'. nxp_listener_create True True True True True True small_config = Some ls \<and>
     nxp_listener_recv toy_ssl open_env ls first_packet \<lparr>addr_raw = [1]\<rparr> 5 = Some (ls', NXP_OK) \<and>
     nxp_listener_find_conn ls' \<lparr>cid_data = [9, 8, 1, 2, 3, 4, 5, 6]\<rparr> = Some (Some 0) \<and> ls_calls ls' = [0]"
proof -
  obtain ls where ls: "nxp_listener_create True True True True True True small_config = Some ls" "listener_reach toy_ssl ls"
    "listener_inv ls" "conns_limited ls" "conn_store ls = Map.empty" "ls_config ls = small_config" using small_listener by metis
  have f: "ls_rate_limiter ls = Some (Some Map.empty)" "ls_conns ls = []" "ls_next_ptr ls = 0" "ls_calls ls = []"
    using ls(1) by (auto simp: nxp_listener_create_def Let_def split: if_splits option.splits)
  obtain rl where rl: "limiter_check open_env (ls_rate_limiter ls) \<lparr>addr_raw = [1]\<rparr> 5 = Some (True, rl)"
    using small_limiter f(1) by metis
  have un: "nxp_listener_find_conn ls (lh_dcid first_header) = Some None"
    using ls(5) by (cases rule: find_conn_total [OF ls(3), of "lh_dcid first_header"]) auto
  have cid: "nxp_listener_generate_cid (ls_config ls) (env_random open_env) = \<lparr>cid_data = [9, 8, 1, 2, 3, 4, 5, 6]\<rparr>"
    unfolding ls(6) by code_simp
  have "first_packet \<noteq> []" "lh_type first_header = NXP_PKT_INITIAL" "lh_version first_header = NXP_VERSION_CURRENT"
    "\<not> lc_require_retry (ls_config ls)" "length (ls_conns ls) < unat (lc_max_connections (ls_config ls))" "env_ok open_env"
    "lc_on_new_conn (ls_config ls)"
    by (simp_all add: ls(6) f(2) first_packet_def first_header_def small_config_def open_env_def small_env_def env_ok_def)
  then show ?thesis
    using nxp_listener_accepts [OF ls(2) toy_ssl_more(1) toy_ssl_ok(3) toy_ssl_ok(1) rl _ first_packet_decodes(2,1) _ _ _ un] ls(1) f cid
    by auto
qed


text \<open>C11. A datagram reaches one connection only. Whatever a datagram contains, a connection it
  changes is the one its destination identifier is routed to, and that connection answers to an
  identifier with the same hash; no connection disappears or changes its identifier; a connection
  appears only for an Initial packet of the current version with an unknown identifier, below the
  limit, and with a token where the listener demands one.
\<close>

theorem nxp_listener_recv_isolated:
  assumes "listener_reach ssl ls" "conns_limited ls" "env_alloc_sent env" "open_is ssl" "aead_is ssl"
  shows "\<exists>ls' e. nxp_listener_recv ssl env ls data addr now = Some (ls', e) \<and>
    (\<forall>q c. conn_store ls q = Some c \<longrightarrow> (\<exists>c'. conn_store ls' q = Some c' \<and> cn_scid c' = cn_scid c \<and>
       (c' \<noteq> c \<longrightarrow> (\<exists>cid. datagram_cid data = Some cid \<and> nxp_listener_find_conn ls cid = Some (Some q) \<and>
          cid_hash cid = cid_hash (cn_scid c))))) \<and>
    (\<forall>q c. conn_store ls q = None \<longrightarrow> conn_store ls' q = Some c \<longrightarrow>
       q = ls_next_ptr ls \<and> length (ls_conns ls) < unat (lc_max_connections (ls_config ls)) \<and>
       cn_scid c = nxp_listener_generate_cid (ls_config ls) (env_random env) \<and>
       (\<exists>hdr. nxp_pkt_decode_long_header data = Inr hdr \<and> lh_type hdr = NXP_PKT_INITIAL \<and>
          lh_version hdr = NXP_VERSION_CURRENT \<and> nxp_listener_find_conn ls (lh_dcid hdr) = Some None \<and>
          (lc_require_retry (ls_config ls) \<longrightarrow> lh_token_len hdr \<noteq> 0)))"
  using recv_total [OF listener_reach_inv [OF assms(4,5,1)] assms(4,3,2), of data addr now]
  unfolding recv_done_def recv_effect_def by (elim exE conjE) (intro exI conjI)

theorem nxp_listener_recv_isolated_witness:
  "\<exists>ls c ls' e. listener_reach toy_ssl ls \<and> conn_store ls = [0 \<mapsto> c] \<and>
     nxp_listener_recv toy_ssl open_env ls ([0x40, 1, 1, 1, 1, 1, 1, 1, 1] @ replicate 30 0) \<lparr>addr_raw = [3]\<rparr> 9 = Some (ls', e) \<and>
     conn_store ls' 0 = Some c"
proof -
  obtain ls c where ls: "listener_reach toy_ssl ls" "conns_limited ls" "conn_store ls = [0 \<mapsto> c]"
    "cn_scid c = \<lparr>cid_data = [9, 8, 1, 2, 3, 4, 5, 6]\<rparr>" using one_conn_listener by metis
  let ?d = "[0x40, 1, 1, 1, 1, 1, 1, 1, 1] @ replicate 30 0 :: bytes"
  have cid: "datagram_cid ?d = Some \<lparr>cid_data = [1, 1, 1, 1, 1, 1, 1, 1]\<rparr>" by code_simp
  have h: "cid_hash \<lparr>cid_data = [1, 1, 1, 1, 1, 1, 1, 1]\<rparr> \<noteq> cid_hash \<lparr>cid_data = [9, 8, 1, 2, 3, 4, 5, 6]\<rparr>" by code_simp
  have env: "env_alloc_sent open_env" by (simp add: open_env_def small_env_def)
  obtain ls' e where r: "nxp_listener_recv toy_ssl open_env ls ?d \<lparr>addr_raw = [3]\<rparr> 9 = Some (ls', e)"
      "\<forall>q c. conn_store ls q = Some c \<longrightarrow> (\<exists>c'. conn_store ls' q = Some c' \<and> cn_scid c' = cn_scid c \<and>
         (c' \<noteq> c \<longrightarrow> (\<exists>cid. datagram_cid ?d = Some cid \<and> nxp_listener_find_conn ls cid = Some (Some q) \<and>
            cid_hash cid = cid_hash (cn_scid c))))"
    using nxp_listener_recv_isolated [OF ls(1,2) env toy_ssl_more(1) toy_ssl_ok(3), of ?d "\<lparr>addr_raw = [3]\<rparr>" 9]
    by (elim exE conjE) (rule that)
  have "conn_store ls' 0 = Some c" using r(2) ls(3,4) cid h by auto
  then show ?thesis using r(1) ls(1,3) by blast
qed

text \<open>C26. Sending is fair. The listener asks its connections in the order of a rotation, each at
  most once per call. It reports that there is nothing to send only after it has asked every
  connection and every one had nothing to send or failed to build a datagram; otherwise it hands
  out the datagram of the first connection in the rotation that produced one, which fits the
  buffer, with the address of that connection's peer, and the next call starts with the connection
  behind it. This needs that every connection can send: 1200 bytes of buffer while its handshake
  data waits, and otherwise a budget for its rate-limited streams with data. It holds until the
  32-bit position of the rotation wraps around.
\<close>

theorem nxp_listener_send_fair:
  assumes "listener_reach ssl ls" "conns_limited ls" "open_is ssl" "aead_is ssl"
    "\<forall>p c. conn_store ls p = Some c \<longrightarrow> (if hs_pending c then 1200 \<le> max_len else funded now (min 1536 max_len) c)"
  shows "\<exists>ls' r. nxp_listener_send ssl grow ls max_len now = Some (ls', r) \<and>
    (case r of
       None \<Rightarrow> \<forall>p c. conn_store ls p = Some c \<longrightarrow> (\<exists>c' r. nxp_conn_send ssl (grow p) c max_len now = Some (c', r) \<and>
                 (r = None \<or> r = Some []) \<and> conn_store ls' p = Some c')
     | Some (pkt, addr) \<Rightarrow> pkt \<noteq> [] \<and> length pkt \<le> max_len \<and>
         (\<exists>j p c c'. j < length (ls_conns ls) \<and> slot ls j = Some p \<and> conn_store ls p = Some c \<and>
            nxp_conn_send ssl (grow p) c max_len now = Some (c', Some pkt) \<and> conn_store ls' p = Some c' \<and> addr = cn_peer_addr c' \<and>
            (\<forall>i<j. \<forall>q d. slot ls i = Some q \<longrightarrow> conn_store ls q = Some d \<longrightarrow>
               (\<exists>d' r. nxp_conn_send ssl (grow q) d max_len now = Some (d', r) \<and> (r = None \<or> r = Some []) \<and> conn_store ls' q = Some d')) \<and>
            ls_send_index ls' = ls_send_index ls + of_nat (Suc j)))"
proof -
  have inv: "listener_inv ls" using listener_reach_inv [OF assms(3,4,1)] .
  have "\<forall>p c. conn_store ls p = Some c \<longrightarrow> send_ok max_len now c" using assms(5) by (simp add: send_ok_def)
  then obtain ls' r where s: "nxp_listener_send ssl grow ls max_len now = Some (ls', r)"
      "send_done (length (ls_conns ls)) ssl grow max_len now ls ls' r"
    using send_total [OF inv assms(4,2)] by (metis not_None_eq surj_pair)
  have asked: "\<exists>j<length (ls_conns ls). slot ls j = Some p" if c: "conn_store ls p = Some c" for p c
  proof -
    obtain i where "i < length (ls_conns ls)" "ls_conns ls ! i = Some p" using live_index [OF inv c] .
    then show ?thesis using rotation_cover [of i "length (ls_conns ls)" "unat (ls_send_index ls)"] by (auto simp: slot_def)
  qed
  show ?thesis
  proof (cases r)
    case None
    have "\<exists>c' r. nxp_conn_send ssl (grow p) c max_len now = Some (c', r) \<and> (r = None \<or> r = Some []) \<and> conn_store ls' p = Some c'"
      if "conn_store ls p = Some c" for p c
      using s(2) asked [OF that] that None unfolding send_done_def silent_def by auto
    then show ?thesis using s(1) None by (intro exI [of _ ls'] exI [of _ r]) simp
  next
    case (Some a)
    obtain pkt addr where a: "a = (pkt, addr)" by (cases a)
    have "served (length (ls_conns ls)) ssl grow max_len now ls ls' pkt addr" using s(2) Some a by (simp add: send_done_def)
    then show ?thesis using s(1) Some a unfolding served_def silent_def by (intro exI [of _ ls'] exI [of _ r]) simp
  qed
qed

theorem nxp_listener_send_fair_witness:
  "\<exists>ls c ls' r. listener_reach toy_ssl ls \<and> conn_store ls = [0 \<mapsto> c] \<and>
     nxp_listener_send toy_ssl (\<lambda>_. True) ls 1200 9 = Some (ls', r) \<and> (\<forall>pkt addr. r = Some (pkt, addr) \<longrightarrow> length pkt \<le> 1200)"
proof -
  obtain ls c where ls: "listener_reach toy_ssl ls" "conns_limited ls" "conn_store ls = [0 \<mapsto> c]" "stream_mem c = Map.empty"
    using one_conn_listener by metis
  then have ok: "\<forall>p c. conn_store ls p = Some c \<longrightarrow> (if hs_pending c then 1200 \<le> (1200 :: nat) else funded 9 (min 1536 1200) c)"
    by (auto simp: funded_def split: if_splits)
  obtain ls' r where r: "nxp_listener_send toy_ssl (\<lambda>_. True) ls 1200 9 = Some (ls', r)"
      "case r of None \<Rightarrow> True | Some (pkt, addr) \<Rightarrow> length pkt \<le> 1200"
    using nxp_listener_send_fair [OF ls(1,2) toy_ssl_more(1) toy_ssl_ok(3) ok, of "\<lambda>_. True"]
    by (auto split: option.splits)
  then show ?thesis using ls(1,3) by (intro exI [of _ ls] exI [of _ c] exI [of _ ls'] exI [of _ r]) auto
qed

text \<open>A generated identifier carries the node identifier its datagrams are balanced by.\<close>

lemma node_id_roundtrip:
  assumes "length (lc_node_id cfg) = 4" "0 < lc_node_id_len cfg" "lc_node_id_len cfg \<le> NXP_LISTENER_MAX_NODE_ID_LEN"
  shows "nxp_listener_extract_node_id (nxp_listener_generate_cid cfg rnd) (lc_node_id_len cfg) =
    Some (take (unat (lc_node_id_len cfg)) (lc_node_id cfg))"
proof -
  have "lc_node_id_len cfg \<noteq> 0" "\<not> NXP_LISTENER_MAX_NODE_ID_LEN < lc_node_id_len cfg" "unat (lc_node_id_len cfg) \<le> 4"
    using assms(2,3) word_le_nat_alt [of "lc_node_id_len cfg" 4] by auto
  then show ?thesis using assms(1) by (simp add: nxp_listener_extract_node_id_def nxp_listener_generate_cid_def Let_def)
qed

end
