(* ===== verification/Spec2Isabelle.thy ===== *)
theory Spec2Isabelle
  imports Nxp_Prelude Nxp_Varint Nxp_Frame Nxp_Packet Nxp_Buffer Nxp_PQueue Nxp_Flow Nxp_Rate
    Nxp_Stream Nxp_Pipe Nxp_Congestion Nxp_Ack Nxp_HashMap Nxp_List Nxp_Sched
    Nxp_Heartbeat Nxp_Migration Nxp_Crypto Nxp_Token Nxp_Handshake
    Nxp_Conn Nxp_Conn_Inv Nxp_Conn_Recv Nxp_Conn_Send Nxp_Conn_Run
    Nxp_Session Nxp_Listener
begin

text \<open>Root of the development.\<close>

end
